(* ===== verification/Prelude.thy ===== *)
theory Prelude
  imports Main "HOL-Library.Word" "HOL-Library.Monad_Syntax"
begin

text \<open>
  What the whole development shares: the machine integer types of the kernel, the memory of
  64-bit words that the allocators and the page tables live in, and the word arithmetic every
  component proof needs (masks, rounding to a power of two, addition that does not wrap).

  A result of type \<open>'a option\<close> in the models stands for a call: \<open>Some\<close> is a call that
  returns, \<open>None\<close> is one that does not come back to its caller in a defined state: the code has
  reached \<open>x86_64::hcf()\<close> (a failed \<open>ASSERT\<close>, an unsupported request), spins or loops for
  ever, or indexes an array outside its bounds.
\<close>

unbundle bit_operations_syntax

section \<open>Types\<close>

type_synonym u8 = "8 word"
type_synonym u16 = "16 word"
type_synonym u32 = "32 word"
type_synonym u64 = "64 word"

text \<open>Memory seen through its aligned 64-bit words: the word stored at an address.\<close>

type_synonym qmem = "u64 \<Rightarrow> u64"

text \<open>The natural-number addresses of the bytes \<open>a, \<dots>, a + n - 1\<close>.\<close>

definition span :: "u64 \<Rightarrow> u64 \<Rightarrow> nat set" where
  "span a n = {unat a ..< unat a + unat n}"

text \<open>A region does not wrap around the end of the address space.\<close>

definition fits :: "u64 \<Rightarrow> u64 \<Rightarrow> bool" where
  "fits a n \<longleftrightarrow> unat a + unat n < 2 ^ 64"

section \<open>Collections\<close>

named_theorems mask_simps \<open>bit masks as arithmetic on naturals\<close>
named_theorems frame_simps \<open>what an operation leaves unchanged\<close>

section \<open>Masks and rounding\<close>

lemma mask_12: "(4095 :: u64) = mask 12"
  by (simp add: mask_eq_exp_minus_1)

lemma mask_4: "(15 :: u64) = mask 4"
  by (simp add: mask_eq_exp_minus_1)

lemma mask_9: "(511 :: u64) = mask 9"
  by (simp add: mask_eq_exp_minus_1)

lemma unat_and_mask [mask_simps]: "unat ((x::'a::len word) AND mask n) = unat x mod 2 ^ n"
  by (simp add: unsigned_and_eq unsigned_take_bit_eq flip: take_bit_eq_mask take_bit_eq_mod)

lemma and_not_mask_minus: "(x::'a::len word) AND NOT (mask n) = x - (x AND mask n)"
proof -
  have "x = (x AND NOT (mask n)) OR (x AND mask n)"
    by (auto simp: bit_eq_iff bit_simps)
  also have "\<dots> = (x AND NOT (mask n)) + (x AND mask n)"
    by (rule disjunctive_add_eq_or [symmetric]) (auto simp: bit_eq_iff bit_simps)
  finally show ?thesis by (metis add_diff_cancel_right')
qed

lemma unat_and_not_mask [mask_simps]:
  "unat ((x::'a::len word) AND NOT (mask n)) = unat x - unat x mod 2 ^ n"
proof -
  have "x AND mask n \<le> x" by (rule word_and_le2)
  then show ?thesis by (simp add: and_not_mask_minus unat_sub unat_and_mask)
qed

lemma and_mask_zero_iff: "(x::'a::len word) AND mask n = 0 \<longleftrightarrow> 2 ^ n dvd unat x"
  by (simp add: and_mask_dvd_nat [symmetric])

lemma and_not_mask_id: "2 ^ n dvd unat (x::'a::len word) \<Longrightarrow> x AND NOT (mask n) = x"
  by (simp add: and_not_mask_minus and_mask_zero_iff [symmetric])

lemma unat_mask64: "n < 64 \<Longrightarrow> unat (mask n :: u64) = 2 ^ n - 1"
  unfolding unat_eq_nat_uint uint_mask_eq
  by (simp add: nat_mask_eq) (simp only: mask_eq_exp_minus_1 One_nat_def)

lemma and_mask_add_zero:
  assumes "y AND mask n = (0 :: u64)" shows "(x + y) AND mask n = x AND mask n"
proof (cases "n \<le> 64")
  case True
  then have d: "(2 :: int) ^ n dvd 2 ^ 64" by (rule le_imp_power_dvd)
  have m: "uint (w AND mask n) = uint w mod 2 ^ n" for w :: u64
    unfolding take_bit_eq_mask [symmetric] by (simp add: unsigned_take_bit_eq take_bit_int_def)
  have y: "uint y mod 2 ^ n = 0" using m [of y] assms by simp
  have "(uint x + uint y) mod 2 ^ 64 mod 2 ^ n = (uint x + uint y) mod 2 ^ n" by (rule mod_mod_cancel [OF d])
  also have "\<dots> = uint x mod 2 ^ n" using y by (simp add: mod_add_eq [symmetric] mod_add_right_eq [symmetric])
  finally have "uint (x + y) mod 2 ^ n = uint x mod 2 ^ n" by (simp add: uint_word_ariths)
  then show ?thesis by (simp only: word_uint_eq_iff m)
next
  case False
  then have "mask n = (- 1 :: u64)" by (auto simp: bit_eq_iff bit_simps)
  then show ?thesis using assms by simp
qed

lemma unat_ucast_u32: "unat (ucast (x :: u32) :: u64) = unat x"
proof -
  have "unat x < 2 ^ 64" using unsigned_less [where ?'a = nat, of x] by simp
  then show ?thesis by (simp add: unsigned_ucast_eq take_bit_nat_eq_self)
qed

lemma pow2_minus_1: "(2::'a::len word) ^ n - 1 = mask n"
  by (simp add: mask_eq_exp_minus_1)

section \<open>Addition and subtraction that do not wrap\<close>

lemma unat_add_nowrap: "unat (a::u64) + unat b < 2 ^ 64 \<Longrightarrow> unat (a + b) = unat a + unat b"
  by (simp add: unat_plus_if')

lemma fitsD: "fits a n \<Longrightarrow> unat (a + n) = unat a + unat n"
  by (simp add: fits_def unat_add_nowrap)

lemma unat_sub_le: "unat (b::u64) \<le> unat a \<Longrightarrow> unat (a - b) = unat a - unat b"
  by (simp add: unat_sub word_le_nat_alt)

lemma span_split:
  assumes "fits a (m + n)" "unat m + unat n = unat (m + n)"
  shows "span a (m + n) = span a m \<union> span (a + m) n"
proof -
  have "fits a m" using assms by (simp add: fits_def)
  then show ?thesis using assms by (auto simp: span_def fitsD)
qed

lemma finite_span [simp]: "finite (span a n)"
  by (simp add: span_def)

lemma card_span [simp]: "card (span a n) = unat n"
  by (simp add: span_def)

section \<open>Options as calls\<close>

lemma bind_SomeE:
  assumes "Option.bind m f = Some r"
  obtains x where "m = Some x" "f x = Some r"
  using assms by (auto simp: Option.bind_eq_Some_conv)

end
