(* ===== verification/Helpers.thy ===== *)
theory Helpers
  imports Prelude
begin

text \<open>
  The helper headers of the kernel: \<open>kernel/helpers.hpp\<close> (alignment tests, rounding, flag tests),
  \<open>lib/utils.hpp\<close> (a second \<open>align_up\<close>) and \<open>kernel/bit_helpers.hpp\<close> (the bit operators
  on scoped enums, whose values are modelled by words of the underlying type).
\<close>

unbundle bit_operations_syntax

section \<open>Definitions\<close>

definition PAGE_SIZE :: u64 where
  "PAGE_SIZE = 4096"

definition check_aligned :: "u64 \<Rightarrow> u64 \<Rightarrow> bool" where
  "check_aligned addr alignment = ((addr AND (alignment - 1)) = 0)"

definition is_flag_set :: "'a::len word \<Rightarrow> 'a word \<Rightarrow> bool" where
  "is_flag_set v fl = ((v AND fl) = fl)"

definition align_up :: "u64 \<Rightarrow> u64 \<Rightarrow> u64" where
  "align_up value alignment = (value + alignment - 1) AND NOT (alignment - 1)"

definition align_down :: "u64 \<Rightarrow> u64 \<Rightarrow> u64" where
  "align_down value alignment = value AND NOT (alignment - 1)"

text \<open>The \<open>align_up\<close> of \<open>lib/utils.hpp\<close>, at \<open>T = std::uintptr_t\<close> or \<open>std::size_t\<close>.\<close>

definition align_up_util :: "u64 \<Rightarrow> u64 \<Rightarrow> u64" where
  "align_up_util value alignment = (value + (alignment - 1)) AND NOT (alignment - 1)"

definition enum_or :: "'a::len word \<Rightarrow> 'a word \<Rightarrow> 'a word" where
  "enum_or a b = a OR b"

definition enum_and :: "'a::len word \<Rightarrow> 'a word \<Rightarrow> 'a word" where
  "enum_and a b = a AND b"

definition enum_xor :: "'a::len word \<Rightarrow> 'a word \<Rightarrow> 'a word" where
  "enum_xor a b = a XOR b"

definition enum_not :: "'a::len word \<Rightarrow> 'a word" where
  "enum_not a = NOT a"

section \<open>Rounding to a power of two\<close>

lemma align_up_util_eq: "align_up_util v a = align_up v a"
  by (simp add: align_up_util_def align_up_def algebra_simps)

lemma check_aligned_pow2: "check_aligned x (2 ^ n) \<longleftrightarrow> 2 ^ n dvd unat x"
  by (simp add: check_aligned_def pow2_minus_1 and_mask_zero_iff)

lemma unat_align_down_pow2: "unat (align_down x (2 ^ n)) = unat x - unat x mod 2 ^ n"
  by (simp add: align_down_def pow2_minus_1 unat_and_not_mask)

lemma unat_align_up_pow2:
  assumes "n < 64" "unat x + 2 ^ n \<le> 2 ^ 64"
  shows "unat (align_up x (2 ^ n)) = (unat x + (2 ^ n - 1)) - (unat x + (2 ^ n - 1)) mod 2 ^ n"
proof -
  have m: "unat (mask n :: u64) = 2 ^ n - 1"
    using assms(1) by (rule unat_mask64)
  have "align_up x (2 ^ n) = (x + mask n) AND NOT (mask n)"
    by (simp add: align_up_def pow2_minus_1 [symmetric] algebra_simps)
  moreover have "unat (x + mask n) = unat x + (2 ^ n - 1)"
    using assms m by (subst unat_add_nowrap) auto
  ultimately show ?thesis by (simp add: unat_and_not_mask)
qed

lemma round_up_nat:
  assumes "0 < (m::nat)"
  shows "(x + (m - 1)) - (x + (m - 1)) mod m = (x + (m - 1)) div m * m"
  by (simp add: minus_mod_eq_div_mult)

lemma round_up_bounds:
  assumes "0 < (m::nat)"
  shows "x \<le> (x + (m - 1)) div m * m" "(x + (m - 1)) div m * m < x + m"
proof -
  have e: "(x + (m - 1)) div m * m + (x + (m - 1)) mod m = x + (m - 1)"
    by (simp add: div_mult_mod_eq)
  have l: "(x + (m - 1)) mod m < m" using assms by simp
  from e l show "x \<le> (x + (m - 1)) div m * m" by linarith
  from e assms show "(x + (m - 1)) div m * m < x + m" by linarith
qed

text \<open>\<open>align_up\<close> at any power of two: the least multiple that is not below the value.\<close>

lemma align_up_pow2_spec:
  assumes "n < 64" "unat x + 2 ^ n \<le> 2 ^ 64"
  shows "2 ^ n dvd unat (align_up x (2 ^ n))"
    and "unat x \<le> unat (align_up x (2 ^ n))"
    and "unat (align_up x (2 ^ n)) < unat x + 2 ^ n"
proof -
  have e: "unat (align_up x (2 ^ n)) = (unat x + (2 ^ n - 1)) div 2 ^ n * 2 ^ n"
    using unat_align_up_pow2 [OF assms] by (simp add: minus_mod_eq_div_mult)
  show "2 ^ n dvd unat (align_up x (2 ^ n))" by (simp add: e)
  show "unat x \<le> unat (align_up x (2 ^ n))" "unat (align_up x (2 ^ n)) < unat x + 2 ^ n"
    using round_up_bounds [of "2 ^ n" "unat x"] by (simp_all add: e)
qed

lemma align_up_pow2_id:
  assumes "n < 64" "2 ^ n dvd unat x"
  shows "align_up x (2 ^ n) = x"
proof -
  have "(x + mask n) AND NOT (mask n) = x"
  proof -
    have "x AND mask n = 0" using assms(2) by (simp add: and_mask_zero_iff)
    then have "x + mask n = x OR mask n" by (rule disjunctive_add_eq_or)
    then have "(x + mask n) AND NOT (mask n) = x AND NOT (mask n)"
      by (simp add: bit.conj_disj_distrib2)
    then show ?thesis using assms(2) by (simp add: and_not_mask_id)
  qed
  then show ?thesis
    by (simp add: align_up_def pow2_minus_1 [symmetric] algebra_simps)
qed

section \<open>Pages\<close>

lemma PAGE_SIZE_pow2: "PAGE_SIZE = 2 ^ 12"
  by (simp add: PAGE_SIZE_def)

lemma unat_PAGE_SIZE [simp]: "unat PAGE_SIZE = 4096"
  by (simp add: PAGE_SIZE_def)

lemma check_aligned_page: "check_aligned x PAGE_SIZE \<longleftrightarrow> 4096 dvd unat x"
  using check_aligned_pow2 [of x 12] by (simp add: PAGE_SIZE_pow2)

lemma align_up_page_spec:
  assumes "unat x + 4096 \<le> 2 ^ 64"
  shows "4096 dvd unat (align_up x PAGE_SIZE)"
    and "unat x \<le> unat (align_up x PAGE_SIZE)"
    and "unat (align_up x PAGE_SIZE) < unat x + 4096"
  using align_up_pow2_spec [of 12 x] assms by (simp_all add: PAGE_SIZE_pow2)

lemma align_up_page_id: "4096 dvd unat x \<Longrightarrow> align_up x PAGE_SIZE = x"
  using align_up_pow2_id [of 12 x] by (simp add: PAGE_SIZE_pow2)

lemma mod_page_zero_iff: "x mod PAGE_SIZE = 0 \<longleftrightarrow> 4096 dvd unat x"
proof -
  have "x mod PAGE_SIZE = 0 \<longleftrightarrow> unat (x mod PAGE_SIZE) = unat (0::u64)"
    by (simp only: word_unat_eq_iff)
  also have "\<dots> \<longleftrightarrow> unat x mod 4096 = 0"
    by (simp add: unat_mod_distrib)
  finally show ?thesis by (simp add: dvd_eq_mod_eq_0)
qed

end
