(* ===== verification/Machine.thy ===== *)
theory Machine
  imports Helpers
begin

text \<open>
  The machine state below every subsystem: memory, the boot-time constants handed over by the
  bootloader, the model-specific register that holds the per-CPU pointer, the per-CPU error
  code (\<open>kernel/percpu.cpp\<close>, \<open>kernel/error.hpp\<close>, \<open>arch/x86_64/msr.hpp\<close>), CR3 and the log
  of \<open>invlpg\<close> instructions (\<open>arch/x86_64/cpu.hpp\<close>), and the spinlock of
  \<open>lib/spinlock.cpp\<close>.
  Later theories extend the record with the state of their own subsystem.
\<close>

unbundle bit_operations_syntax

section \<open>Definitions\<close>

datatype error_code = MemoryMisaligned | IncorrectParameter | OutOfMemory | MapFail

record percpu =
  error :: error_code

text \<open>
  \<open>mem\<close> is indexed by the virtual address the kernel uses; \<open>hhdm_response\<close> and
  \<open>kernel_response\<close> are the fields of the bootloader's answers that the code reads.
\<close>

record machine =
  mem :: qmem
  hhdm_offset :: u64
  kernel_virtual_base :: u64
  cr3 :: u64
  msrs :: "u32 \<Rightarrow> u64"
  percpus :: "u64 \<Rightarrow> percpu"
  bsp_percpu :: u64
  invlpg_log :: "u64 list"

definition get_memory_slide :: "'a machine_scheme \<Rightarrow> u64" where
  "get_memory_slide s = hhdm_offset s"

definition get_kernel_base_address :: "'a machine_scheme \<Rightarrow> u64" where
  "get_kernel_base_address s = kernel_virtual_base s"

definition get_cr3 :: "'a machine_scheme \<Rightarrow> u64" where
  "get_cr3 s = cr3 s"

definition invlpg :: "u64 \<Rightarrow> 'a machine_scheme \<Rightarrow> 'a machine_scheme" where
  "invlpg addr s = s\<lparr>invlpg_log := addr # invlpg_log s\<rparr>"

subsection \<open>Model-specific registers and the per-CPU area\<close>

definition MSR_GS_BASE :: u32 where
  "MSR_GS_BASE = 0xC0000101"

text \<open>The instructions move the register through \<open>edx:eax\<close>, two 32-bit halves.\<close>

definition rdmsr :: "u32 \<Rightarrow> 'a machine_scheme \<Rightarrow> u64" where
  "rdmsr msr s =
     (let low = (ucast (msrs s msr) :: u32);
          high = (ucast (drop_bit 32 (msrs s msr)) :: u32)
      in push_bit 32 (ucast high) OR ucast low)"

definition wrmsr :: "u32 \<Rightarrow> u64 \<Rightarrow> 'a machine_scheme \<Rightarrow> 'a machine_scheme" where
  "wrmsr msr v s =
     (let low = (ucast v :: u32);
          high = (ucast (drop_bit 32 v) :: u32)
      in s\<lparr>msrs := (msrs s)(msr := push_bit 32 (ucast high) OR ucast low)\<rparr>)"

definition set_gsbase :: "u64 \<Rightarrow> 'a machine_scheme \<Rightarrow> 'a machine_scheme" where
  "set_gsbase v s = wrmsr MSR_GS_BASE v s"

text \<open>Zeroing the area makes its error code the enumerator of value 0.\<close>

definition setup_bsp_percpu :: "'a machine_scheme \<Rightarrow> 'a machine_scheme" where
  "setup_bsp_percpu s =
     set_gsbase (bsp_percpu s)
       (s\<lparr>percpus := (percpus s)(bsp_percpu s := \<lparr>error = MemoryMisaligned\<rparr>)\<rparr>)"

definition get_percpu :: "'a machine_scheme \<Rightarrow> u64" where
  "get_percpu s = rdmsr MSR_GS_BASE s"

definition set_error :: "error_code \<Rightarrow> 'a machine_scheme \<Rightarrow> 'a machine_scheme" where
  "set_error code s =
     s\<lparr>percpus := (percpus s)(get_percpu s := (percpus s (get_percpu s))\<lparr>error := code\<rparr>)\<rparr>"

text \<open>The error code the running CPU sees: what \<open>get_percpu()->error\<close> reads.\<close>

definition last_error :: "'a machine_scheme \<Rightarrow> error_code" where
  "last_error s = error (percpus s (get_percpu s))"

subsection \<open>Spinlock\<close>

text \<open>
  \<open>test_and_set\<close> returns the old flag; on one CPU nobody else clears it, so taking a lock
  that is held spins for ever.
\<close>

definition spin_lock :: "bool \<Rightarrow> bool option" where
  "spin_lock locked = (if locked then None else Some True)"

definition spin_unlock :: "bool \<Rightarrow> bool" where
  "spin_unlock locked = False"

section \<open>Registers and error code\<close>

lemma join_halves:
  "push_bit 32 (ucast (ucast (drop_bit 32 v) :: u32)) OR ucast (ucast v :: u32) = (v :: u64)"
  by (auto simp: bit_eq_iff bit_simps)

lemma msrs_wrmsr [simp]: "msrs (wrmsr r v s) = (msrs s)(r := v)"
  by (simp add: wrmsr_def join_halves)

lemma rdmsr_eq: "rdmsr r s = msrs s r"
  by (simp add: rdmsr_def join_halves)

lemma set_error_mem [simp, frame_simps]:
  "mem (set_error c s) = mem s" "hhdm_offset (set_error c s) = hhdm_offset s"
  "cr3 (set_error c s) = cr3 s" "invlpg_log (set_error c s) = invlpg_log s"
  "kernel_virtual_base (set_error c s) = kernel_virtual_base s"
  "msrs (set_error c s) = msrs s" "machine.more (set_error c s) = machine.more s"
  by (simp_all add: set_error_def)

lemma last_error_set_error [simp]: "last_error (set_error c s) = c"
  by (simp add: last_error_def set_error_def get_percpu_def rdmsr_eq)

lemma last_error_mem [simp]: "last_error (s\<lparr>mem := m\<rparr>) = last_error s"
  by (simp add: last_error_def get_percpu_def rdmsr_eq)

lemma invlpg_frame [simp, frame_simps]:
  "mem (invlpg a s) = mem s" "hhdm_offset (invlpg a s) = hhdm_offset s"
  "cr3 (invlpg a s) = cr3 s" "machine.more (invlpg a s) = machine.more s"
  "last_error (invlpg a s) = last_error s" "percpus (invlpg a s) = percpus s"
  by (simp_all add: invlpg_def last_error_def get_percpu_def rdmsr_eq)

end
