(* ===== verification/Page_Source.thy ===== *)
theory Page_Source
  imports Machine
begin

text \<open>
  The contract between the physical allocator and its clients (the page-table walker, the heap):
  what a call that asks for one page promises. \<open>free_at s A\<close> reads "in state \<open>s\<close> the
  allocator is consistent and the bytes at the addresses \<open>A\<close> of the direct map are its own".
\<close>

section \<open>Definitions\<close>

text \<open>A client that asks for pages one after the other; a failed call answers page 0.\<close>

fun take_pages :: "('s \<Rightarrow> (u64 \<times> 's) option) \<Rightarrow> nat \<Rightarrow> 's \<Rightarrow> (u64 list \<times> 's) option" where
  "take_pages alloc 0 s = Some ([], s)"
| "take_pages alloc (Suc n) s =
     do { (p, s) \<leftarrow> alloc s; (ps, s) \<leftarrow> take_pages alloc n s; Some (p # ps, s) }"

text \<open>The bytes of the pages a client holds, in the direct map.\<close>

definition page_span :: "u64 \<Rightarrow> u64 \<Rightarrow> nat set" where
  "page_span slide p = span (p + slide) PAGE_SIZE"

definition pages_span :: "u64 \<Rightarrow> u64 list \<Rightarrow> nat set" where
  "pages_span slide ps = (\<Union>p \<in> set ps - {0}. page_span slide p)"

section \<open>The contract\<close>

locale page_source =
  fixes alloc :: "'s \<Rightarrow> (u64 \<times> 's) option"
    and memory :: "'s \<Rightarrow> qmem"
    and slide :: "'s \<Rightarrow> u64"
    and free_at :: "'s \<Rightarrow> nat set \<Rightarrow> bool"
  assumes alloc_ok: "free_at s A \<Longrightarrow>
      \<exists>p t B. alloc s = Some (p, t) \<and> free_at t B \<and> B \<subseteq> A \<and> slide t = slide s
        \<and> (\<forall>x. unat x \<notin> A \<longrightarrow> memory t x = memory s x)
        \<and> (p \<noteq> 0 \<longrightarrow> 4096 dvd unat (p + slide s) \<and> fits (p + slide s) PAGE_SIZE
             \<and> page_span (slide s) p \<subseteq> A - B)"
begin

lemma take_pages_ok:
  "free_at s A \<Longrightarrow>
     \<exists>ps t B. take_pages alloc n s = Some (ps, t) \<and> length ps = n \<and> free_at t B \<and> B \<subseteq> A
       \<and> slide t = slide s \<and> (\<forall>x. unat x \<notin> A \<longrightarrow> memory t x = memory s x)
       \<and> pages_span (slide s) ps \<subseteq> A - B
       \<and> (\<forall>i<n. \<forall>j<n. i \<noteq> j \<longrightarrow> ps ! i \<noteq> 0 \<longrightarrow> ps ! j \<noteq> 0 \<longrightarrow>
            page_span (slide s) (ps ! i) \<inter> page_span (slide s) (ps ! j) = {})"
proof (induction n arbitrary: s A)
  case 0
  then show ?case by (auto simp: pages_span_def)
next
  case (Suc n)
  obtain p t B where t: "alloc s = Some (p, t)" "free_at t B" "B \<subseteq> A" "slide t = slide s"
    "\<forall>x. unat x \<notin> A \<longrightarrow> memory t x = memory s x"
    "p \<noteq> 0 \<longrightarrow> page_span (slide s) p \<subseteq> A - B"
    using alloc_ok [OF Suc.prems] by blast
  obtain ps u C where u: "take_pages alloc n t = Some (ps, u)" "length ps = n" "free_at u C" "C \<subseteq> B"
    "slide u = slide t" "\<forall>x. unat x \<notin> B \<longrightarrow> memory u x = memory t x"
    "pages_span (slide t) ps \<subseteq> B - C"
    "\<forall>i<n. \<forall>j<n. i \<noteq> j \<longrightarrow> ps ! i \<noteq> 0 \<longrightarrow> ps ! j \<noteq> 0 \<longrightarrow>
            page_span (slide t) (ps ! i) \<inter> page_span (slide t) (ps ! j) = {}"
    using Suc.IH [OF t(2)] by blast
  have new: "page_span (slide s) p \<inter> page_span (slide s) (ps ! j) = {}"
    if "p \<noteq> 0" "j < n" "ps ! j \<noteq> 0" for j
  proof -
    have "ps ! j \<in> set ps - {0}" using that u(2) by simp
    then have "page_span (slide s) (ps ! j) \<subseteq> pages_span (slide s) ps"
      unfolding pages_span_def by (rule UN_upper)
    then show ?thesis using t(6) u(7) t(4) that by auto
  qed
  have "\<forall>i<Suc n. \<forall>j<Suc n. i \<noteq> j \<longrightarrow> (p # ps) ! i \<noteq> 0 \<longrightarrow> (p # ps) ! j \<noteq> 0 \<longrightarrow>
            page_span (slide s) ((p # ps) ! i) \<inter> page_span (slide s) ((p # ps) ! j) = {}"
  proof (intro allI impI)
    fix i j
    assume a: "i < Suc n" "j < Suc n" "i \<noteq> j" "(p # ps) ! i \<noteq> 0" "(p # ps) ! j \<noteq> 0"
    show "page_span (slide s) ((p # ps) ! i) \<inter> page_span (slide s) ((p # ps) ! j) = {}"
      using a u(8) new t(4) by (cases i; cases j) (auto simp: Int_commute)
  qed
  moreover have "pages_span (slide s) (p # ps) \<subseteq> A - C"
    using t(3,4,6) u(4,7) by (auto simp: pages_span_def)
  ultimately show ?case
    using t u by (intro exI [of _ "p # ps"] exI [of _ u] exI [of _ C]) auto
qed

end

end
