(* ===== verification/Pma.thy ===== *)
theory Pma
  imports Page_Source
begin

text \<open>
  The physical memory allocator, \<open>mm/pma.cpp\<close> and \<open>mm/pma.hpp\<close>: a first-fit free list whose
  block headers (size, next) live in the free memory itself, seen through the direct map.
  The iteration over the bootloader's memory map is \<open>lib/ptr_array_wrapper.hpp\<close>.
\<close>

unbundle bit_operations_syntax

section \<open>Definitions\<close>

text \<open>One entry of the bootloader's memory map, as far as the code reads it.\<close>

record memmap_entry =
  base :: u64
  length_of :: u64
  entry_type :: u64

record pma = machine +
  m_head :: u64

subsection \<open>Pointer arrays that end in a null pointer\<close>

text \<open>\<open>PtrArrayWrapper::end\<close>; \<open>None\<close> if there is no null pointer to stop at.\<close>

partial_function (option) pa_end :: "(nat \<Rightarrow> 'e option) \<Rightarrow> nat \<Rightarrow> nat option" where
  "pa_end ptrs p = (if ptrs p = None then Some p else pa_end ptrs (Suc p))"

definition pa_entries :: "(nat \<Rightarrow> 'e option) \<Rightarrow> 'e list option" where
  "pa_entries ptrs =
     do { n \<leftarrow> pa_end ptrs 0; Some (map (\<lambda>i. the (ptrs i)) [0..<n]) }"

subsection \<open>Block headers\<close>

definition fb_size :: "'a machine_scheme \<Rightarrow> u64 \<Rightarrow> u64" where
  "fb_size s b = mem s b"

definition fb_next :: "'a machine_scheme \<Rightarrow> u64 \<Rightarrow> u64" where
  "fb_next s b = mem s (b + 8)"

definition set_fb_size :: "u64 \<Rightarrow> u64 \<Rightarrow> 'a machine_scheme \<Rightarrow> 'a machine_scheme" where
  "set_fb_size b v s = s\<lparr>mem := (mem s)(b := v)\<rparr>"

definition set_fb_next :: "u64 \<Rightarrow> u64 \<Rightarrow> 'a machine_scheme \<Rightarrow> 'a machine_scheme" where
  "set_fb_next b v s = s\<lparr>mem := (mem s)(b + 8 := v)\<rparr>"

definition sizeof_FreeBlock :: u64 where
  "sizeof_FreeBlock = 16"

subsection \<open>Initialisation\<close>

definition init_entry :: "u64 \<Rightarrow> memmap_entry \<Rightarrow> 'a pma_scheme \<Rightarrow> 'a pma_scheme" where
  "init_entry usable e s =
     (if entry_type e \<noteq> usable then s
      else let virt_start = get_memory_slide s + base e;
               s = set_fb_size virt_start (length_of e) s;
               s = set_fb_next virt_start (m_head s) s
           in s\<lparr>m_head := virt_start\<rparr>)"

text \<open>\<open>usable\<close> is the bootloader header's value of \<open>LIMINE_MEMMAP_USABLE\<close>.\<close>

definition fla_init :: "u64 \<Rightarrow> memmap_entry list \<Rightarrow> 'a pma_scheme \<Rightarrow> 'a pma_scheme" where
  "fla_init usable es s = fold (init_entry usable) es s"

definition init_pma ::
  "u64 \<Rightarrow> (nat \<Rightarrow> memmap_entry option) option \<Rightarrow> 'a pma_scheme \<Rightarrow> 'a pma_scheme option" where
  "init_pma usable response s =
     (case response of
        None \<Rightarrow> None
      | Some ptrs \<Rightarrow> do { es \<leftarrow> pa_entries ptrs; Some (fla_init usable es s) })"

fun highest_of :: "memmap_entry list \<Rightarrow> u64 \<Rightarrow> u64" where
  "highest_of [] hi = hi"
| "highest_of (e # es) hi =
     highest_of es (if base e + length_of e > hi then base e + length_of e else hi)"

definition get_highest_physical_address :: "(nat \<Rightarrow> memmap_entry option) \<Rightarrow> u64 option" where
  "get_highest_physical_address ptrs =
     do { es \<leftarrow> pa_entries ptrs; Some (highest_of es 0) }"

subsection \<open>Allocation\<close>

text \<open>\<open>FreeBlock **current\<close>: the address of \<open>m_head\<close> or of the \<open>next\<close> field of a block.\<close>

datatype slot = HeadSlot | NextSlot u64

fun get_slot :: "slot \<Rightarrow> 'a pma_scheme \<Rightarrow> u64" where
  "get_slot HeadSlot s = m_head s"
| "get_slot (NextSlot b) s = fb_next s b"

fun set_slot :: "slot \<Rightarrow> u64 \<Rightarrow> 'a pma_scheme \<Rightarrow> 'a pma_scheme" where
  "set_slot HeadSlot v s = s\<lparr>m_head := v\<rparr>"
| "set_slot (NextSlot b) v s = set_fb_next b v s"

partial_function (option) alloc_loop ::
  "u64 \<Rightarrow> slot \<Rightarrow> 'a pma_scheme \<Rightarrow> (u64 \<times> 'a pma_scheme) option" where
  "alloc_loop sz current s =
     (if get_slot current s = 0 then Some (0, s)
      else
        let addr = get_slot current s;
            aligned_addr = align_up_util (addr + sizeof_FreeBlock) PAGE_SIZE;
            total_needed = aligned_addr - addr + sz
        in
          if fb_size s addr \<ge> total_needed then
            let s =
              (if fb_size s addr > total_needed + sizeof_FreeBlock then
                 let next_block = addr + total_needed;
                     s = set_fb_size next_block (fb_size s addr - total_needed) s;
                     s = set_fb_next next_block (fb_next s addr) s
                 in set_slot current next_block s
               else set_slot current (fb_next s addr) s)
            in Some (aligned_addr - get_memory_slide s, s)
          else alloc_loop sz (NextSlot addr) s)"

definition fla_alloc :: "u64 \<Rightarrow> 'a pma_scheme \<Rightarrow> (u64 \<times> 'a pma_scheme) option" where
  "fla_alloc sz s =
     (if sz mod PAGE_SIZE \<noteq> 0 then None
      else alloc_loop (align_up_util sz PAGE_SIZE) HeadSlot s)"

subsection \<open>Release and coalescing\<close>

partial_function (option) coalesce_inner ::
  "u64 \<Rightarrow> u64 \<Rightarrow> 'a machine_scheme \<Rightarrow> 'a machine_scheme option" where
  "coalesce_inner a b s =
     (if fb_next s b = 0 then Some s
      else if a + fb_size s a = fb_next s b then
        let s = set_fb_size a (fb_size s a + fb_size s (fb_next s b)) s;
            s = set_fb_next b (fb_next s (fb_next s b)) s
        in coalesce_inner a b s
      else coalesce_inner a (fb_next s b) s)"

partial_function (option) coalesce_outer ::
  "u64 \<Rightarrow> 'a machine_scheme \<Rightarrow> 'a machine_scheme option" where
  "coalesce_outer a s =
     (if a = 0 then Some s
      else do { s \<leftarrow> coalesce_inner a a s; coalesce_outer (fb_next s a) s })"

definition fla_coalesce :: "'a pma_scheme \<Rightarrow> 'a pma_scheme option" where
  "fla_coalesce s = coalesce_outer (m_head s) s"

definition fla_free :: "u64 \<Rightarrow> u64 \<Rightarrow> 'a pma_scheme \<Rightarrow> 'a pma_scheme option" where
  "fla_free ptr sz s =
     (if sz mod PAGE_SIZE \<noteq> 0 then None
      else
        let addr = ptr - get_memory_slide s;
            s = set_fb_size addr sz s;
            s = set_fb_next addr (m_head s) s;
            s = s\<lparr>m_head := addr\<rparr>
        in fla_coalesce s)"

subsection \<open>The functions of the namespace\<close>

definition alloc_page :: "'a pma_scheme \<Rightarrow> (u64 \<times> 'a pma_scheme) option" where
  "alloc_page s = fla_alloc PAGE_SIZE s"

definition alloc_pages_continuous :: "u64 \<Rightarrow> 'a pma_scheme \<Rightarrow> (u64 \<times> 'a pma_scheme) option" where
  "alloc_pages_continuous page_count s = fla_alloc (page_count * PAGE_SIZE) s"

definition dealloc_page :: "u64 \<Rightarrow> 'a pma_scheme \<Rightarrow> 'a pma_scheme option" where
  "dealloc_page addr s = fla_free addr PAGE_SIZE s"

definition dealloc_pages_continuous ::
  "u64 \<Rightarrow> u64 \<Rightarrow> 'a pma_scheme \<Rightarrow> 'a pma_scheme option" where
  "dealloc_pages_continuous addr page_count s = fla_free addr (page_count * PAGE_SIZE) s"

subsection \<open>Abstract specification: a list of blocks\<close>

type_synonym block = "u64 \<times> u64"

text \<open>The headers from \<open>p\<close> to \<open>q\<close> describe the blocks of the list.\<close>

fun seg :: "qmem \<Rightarrow> u64 \<Rightarrow> block list \<Rightarrow> u64 \<Rightarrow> bool" where
  "seg m p [] q = (p = q)"
| "seg m p ((a, n) # bs) q = (p = a \<and> a \<noteq> 0 \<and> m a = n \<and> seg m (m (a + 8)) bs q)"

definition blocks_at :: "'a pma_scheme \<Rightarrow> block list \<Rightarrow> bool" where
  "blocks_at s bs = seg (mem s) (m_head s) bs 0"

text \<open>
  A block is a non-empty run of whole pages that does not reach the end of the address space.
\<close>

definition wf_block :: "block \<Rightarrow> bool" where
  "wf_block b \<longleftrightarrow> fst b \<noteq> 0 \<and> 4096 dvd unat (fst b) \<and> 4096 dvd unat (snd b)
     \<and> 0 < unat (snd b) \<and> fits (fst b) (snd b)"

fun wf_blocks :: "block list \<Rightarrow> bool" where
  "wf_blocks [] = True"
| "wf_blocks (b # bs) =
     (wf_block b \<and> (\<forall>c \<in> set bs. span (fst b) (snd b) \<inter> span (fst c) (snd c) = {}) \<and> wf_blocks bs)"

definition cover :: "block list \<Rightarrow> nat set" where
  "cover bs = (\<Union>b \<in> set bs. span (fst b) (snd b))"

definition block_need :: "u64 \<Rightarrow> u64 \<Rightarrow> u64" where
  "block_need sz a = align_up_util (a + sizeof_FreeBlock) PAGE_SIZE - a + sz"

text \<open>First fit; the result is the address in the direct map.\<close>

fun alloc_list :: "u64 \<Rightarrow> block list \<Rightarrow> u64 option \<times> block list" where
  "alloc_list sz [] = (None, [])"
| "alloc_list sz ((a, n) # bs) =
     (if n \<ge> block_need sz a then
        (Some (align_up_util (a + sizeof_FreeBlock) PAGE_SIZE),
         (if n > block_need sz a + sizeof_FreeBlock
          then (a + block_need sz a, n - block_need sz a) # bs else bs))
      else (fst (alloc_list sz bs), (a, n) # snd (alloc_list sz bs)))"

text \<open>The bytes on the list.\<close>

definition free_bytes :: "block list \<Rightarrow> nat" where
  "free_bytes bs = (\<Sum>b\<leftarrow>bs. unat (snd b))"

text \<open>The slot that holds the pointer behind a prefix of the list.\<close>

definition slot_of :: "block list \<Rightarrow> slot" where
  "slot_of pre = (if pre = [] then HeadSlot else NextSlot (fst (last pre)))"

definition hdrs :: "block list \<Rightarrow> u64 set" where
  "hdrs bs = (\<Union>b \<in> set bs. {fst b, fst b + 8})"

definition ok_size :: "u64 \<Rightarrow> bool" where
  "ok_size sz \<longleftrightarrow> 4096 dvd unat sz \<and> unat sz + 4096 < 2 ^ 64"

definition alloc_result :: "u64 option \<Rightarrow> u64 \<Rightarrow> u64" where
  "alloc_result r slide = (case r of None \<Rightarrow> 0 | Some p \<Rightarrow> p - slide)"

text \<open>What stays the same outside the bytes of the free list.\<close>

definition same_outside :: "nat set \<Rightarrow> 'a pma_scheme \<Rightarrow> 'a pma_scheme \<Rightarrow> bool" where
  "same_outside A s t \<longleftrightarrow> (\<forall>x. unat x \<notin> A \<longrightarrow> mem t x = mem s x)
     \<and> t = s\<lparr>mem := mem t, m_head := m_head t\<rparr>"

definition mem_outside :: "nat set \<Rightarrow> 'a machine_scheme \<Rightarrow> 'a machine_scheme \<Rightarrow> bool" where
  "mem_outside A s t \<longleftrightarrow> (\<forall>x. unat x \<notin> A \<longrightarrow> mem t x = mem s x) \<and> t = s\<lparr>mem := mem t\<rparr>"

fun head_addr :: "block list \<Rightarrow> u64" where
  "head_addr [] = 0"
| "head_addr (b # bs) = fst b"

text \<open>The memory map's usable entries as blocks of the direct map, last entry first.\<close>

definition usable_blocks :: "u64 \<Rightarrow> u64 \<Rightarrow> memmap_entry list \<Rightarrow> block list" where
  "usable_blocks usable slide es =
     rev (map (\<lambda>e. (slide + base e, length_of e)) (filter (\<lambda>e. entry_type e = usable) es))"

text \<open>The allocator is consistent and the bytes at \<open>A\<close> are its own.\<close>

definition pma_free_at :: "'a pma_scheme \<Rightarrow> nat set \<Rightarrow> bool" where
  "pma_free_at s A \<longleftrightarrow> (\<exists>bs. blocks_at s bs \<and> wf_blocks bs \<and> cover bs = A)"

text \<open>One round of coalescing: the block absorbs the later blocks that start at its end.\<close>

fun absorb :: "u64 \<Rightarrow> u64 \<Rightarrow> block list \<Rightarrow> u64 \<times> block list" where
  "absorb a n [] = (n, [])"
| "absorb a n ((b, k) # bs) =
     (if a + n = b then absorb a (n + k) bs
      else (fst (absorb a n bs), (b, k) # snd (absorb a n bs)))"

lemma length_absorb: "length (snd (absorb a n bs)) \<le> length bs"
  by (induction a n bs rule: absorb.induct) auto

function coalesce_list :: "block list \<Rightarrow> block list" where
  "coalesce_list [] = []"
| "coalesce_list ((a, n) # bs) = (a, fst (absorb a n bs)) # coalesce_list (snd (absorb a n bs))"
  by pat_completeness auto
termination
  by (relation "measure length") (auto simp: le_imp_less_Suc length_absorb)

section \<open>Segments\<close>

lemma seg_append: "seg m p (xs @ ys) q \<longleftrightarrow> (\<exists>r. seg m p xs r \<and> seg m r ys q)"
  by (induction xs arbitrary: p) auto

lemma hdrs_simps [simp]:
  "hdrs [] = {}" "hdrs (b # bs) = {fst b, fst b + 8} \<union> hdrs bs"
  "hdrs (xs @ ys) = hdrs xs \<union> hdrs ys"
  by (auto simp: hdrs_def)

lemma cover_simps [simp]:
  "cover [] = {}" "cover (b # bs) = span (fst b) (snd b) \<union> cover bs"
  "cover (xs @ ys) = cover xs \<union> cover ys"
  by (auto simp: cover_def)

lemma seg_upd: "x \<notin> hdrs bs \<Longrightarrow> seg (m(x := v)) p bs q = seg m p bs q"
  by (induction bs arbitrary: p) auto

lemma wf_blocks_append:
  "wf_blocks (xs @ ys) \<longleftrightarrow> wf_blocks xs \<and> wf_blocks ys \<and> cover xs \<inter> cover ys = {}"
  by (induction xs) (auto simp: cover_def)

lemma wf_blocks_Cons:
  "wf_blocks (b # bs) \<longleftrightarrow> wf_block b \<and> wf_blocks bs \<and> span (fst b) (snd b) \<inter> cover bs = {}"
  by (auto simp: cover_def)

declare wf_blocks.simps(2) [simp del]

lemma wf_block_size: "wf_block (a, n) \<Longrightarrow> 4096 \<le> unat n"
  by (auto simp: wf_block_def dest: dvd_imp_le)

lemma unat_plus_8: "wf_block (a, n) \<Longrightarrow> unat (a + 8) = unat a + 8"
  using wf_block_size [of a n] by (subst unat_add_nowrap) (auto simp: wf_block_def fits_def)

lemma hdr_in_span:
  "wf_block b \<Longrightarrow> unat (fst b) \<in> span (fst b) (snd b)"
  "wf_block b \<Longrightarrow> unat (fst b + 8) \<in> span (fst b) (snd b)"
  using wf_block_size [of "fst b" "snd b"] unat_plus_8 [of "fst b" "snd b"]
  by (auto simp: span_def)

lemma hdrs_cover: "wf_blocks bs \<Longrightarrow> x \<in> hdrs bs \<Longrightarrow> unat x \<in> cover bs"
proof (induction bs)
  case (Cons b bs)
  then show ?case by (auto simp: wf_blocks_Cons dest: hdr_in_span)
qed simp

lemma not_in_hdrs: "wf_blocks bs \<Longrightarrow> unat x \<notin> cover bs \<Longrightarrow> x \<notin> hdrs bs"
  using hdrs_cover by blast

lemma plus_8_neq [simp]: "(a::u64) + 8 \<noteq> a"
  by simp

lemma set_fb_frame [simp, frame_simps]:
  "hhdm_offset (set_fb_size b v s) = hhdm_offset s" "hhdm_offset (set_fb_next b v s) = hhdm_offset s"
  "mem (set_fb_size b v s) = (mem s)(b := v)" "mem (set_fb_next b v s) = (mem s)(b + 8 := v)"
  "machine.more (set_fb_size b v s) = machine.more s"
  "machine.more (set_fb_next b v s) = machine.more s"
  "m_head (set_fb_size b v p) = m_head p" "m_head (set_fb_next b v p) = m_head p"
  by (simp_all add: set_fb_size_def set_fb_next_def)

section \<open>Allocation\<close>

lemma page_between:
  assumes "4096 dvd (r::nat)" "a + 16 \<le> r" "r < a + 16 + 4096" "4096 dvd a"
  shows "r = a + 4096"
proof -
  obtain k ka where k: "r = 4096 * k" "a = 4096 * ka" using assms by (auto elim!: dvdE)
  then have "ka < k" "k < ka + 2" using assms by linarith+
  then have "k = ka + 1" by linarith
  then show ?thesis using k by simp
qed

lemma page_tight:
  assumes "4096 dvd (n::nat)" "4096 dvd z" "4096 + z \<le> n" "n \<le> 4096 + z + 16"
  shows "n = 4096 + z"
proof -
  obtain k kz where k: "n = 4096 * k" "z = 4096 * kz" using assms by (auto elim!: dvdE)
  then have "kz < k" "k < kz + 2" using assms by linarith+
  then have "k = kz + 1" by linarith
  then show ?thesis using k by simp
qed

lemma aligned_start:
  assumes "wf_block (a, n)"
  shows "align_up_util (a + sizeof_FreeBlock) PAGE_SIZE = a + 4096"
    and "unat (a + 4096) = unat a + 4096"
proof -
  have n: "4096 \<le> unat n" and f: "unat a + unat n < 2 ^ 64" and d: "4096 dvd unat a"
    using assms wf_block_size by (auto simp: wf_block_def fits_def)
  have "4096 dvd unat n" using assms by (simp add: wf_block_def)
  have "4096 dvd unat a + unat n" using d \<open>4096 dvd unat n\<close> by (rule dvd_add)
  then have f': "unat a + unat n + 4096 \<le> 2 ^ 64"
    using f by (auto elim!: dvdE)
  then show u: "unat (a + 4096) = unat a + 4096"
    using n by (subst unat_add_nowrap) auto
  have u16: "unat (a + 16) = unat a + 16" using n f by (subst unat_add_nowrap) auto
  let ?r = "align_up (a + 16) PAGE_SIZE"
  have "4096 dvd unat ?r" "unat a + 16 \<le> unat ?r" "unat ?r < unat a + 16 + 4096"
    using align_up_page_spec [of "a + 16"] u16 f' n by simp_all
  then have "unat ?r = unat a + 4096" using d by (intro page_between)
  then show "align_up_util (a + sizeof_FreeBlock) PAGE_SIZE = a + 4096"
    by (simp add: align_up_util_eq sizeof_FreeBlock_def word_unat_eq_iff u)
qed

lemma block_need_eq:
  assumes "wf_block (a, n)"
  shows "block_need sz a = 4096 + sz"
  using aligned_start [OF assms] by (simp add: block_need_def)

lemma unat_need: "ok_size sz \<Longrightarrow> unat (4096 + sz) = 4096 + unat sz"
  by (subst unat_add_nowrap) (auto simp: ok_size_def)

lemma split_block:
  assumes b: "wf_block (a, n)" and sz: "ok_size sz" and n: "n \<ge> 4096 + sz"
  shows "span (a + 4096) sz \<subseteq> span a n" "fits (a + 4096) sz" "a + 4096 \<noteq> 0"
    "4096 dvd unat (a + 4096)"
    and "n > 4096 + sz + 16 \<Longrightarrow> wf_block (a + (4096 + sz), n - (4096 + sz))"
    and "n > 4096 + sz + 16 \<Longrightarrow> span (a + (4096 + sz)) (n - (4096 + sz)) \<subseteq> span a n"
    and "n > 4096 + sz + 16 \<Longrightarrow>
           span (a + 4096) sz \<inter> span (a + (4096 + sz)) (n - (4096 + sz)) = {}"
    and "n > 4096 + sz + 16 \<Longrightarrow> unat (n - (4096 + sz)) = unat n - (4096 + unat sz)"
    and "\<not> n > 4096 + sz + 16 \<Longrightarrow> unat n = 4096 + unat sz"
proof -
  have u: "unat (4096 + sz) = 4096 + unat sz" using sz by (rule unat_need)
  have ua: "unat (a + 4096) = unat a + 4096" using aligned_start(2) [OF b] .
  have d: "4096 dvd unat a" "4096 dvd unat n" "4096 dvd unat sz" and f: "unat a + unat n < 2 ^ 64"
    using b sz by (auto simp: wf_block_def fits_def ok_size_def)
  have le: "4096 + unat sz \<le> unat n" using n u by (simp add: word_le_nat_alt)
  show s1: "span (a + 4096) sz \<subseteq> span a n" using ua le by (auto simp: span_def)
  show "fits (a + 4096) sz" using ua le f by (simp add: fits_def)
  show "a + 4096 \<noteq> 0" using ua by (metis add_is_0 unat_0 zero_neq_numeral)
  show "4096 dvd unat (a + 4096)" using ua d by simp
  have un: "unat (n - (4096 + sz)) = unat n - (4096 + unat sz)"
    using le u by (simp add: unat_sub_le)
  have uan: "unat (a + (4096 + sz)) = unat a + (4096 + unat sz)"
    using f le u by (simp add: unat_add_nowrap)
  have u16: "unat (4096 + sz + 16) = 4096 + unat sz + 16"
  proof -
    obtain k where k: "unat sz = 4096 * k" using d(3) by (auto elim!: dvdE)
    then have "k + 1 < 4503599627370496" using f le by simp
    then show ?thesis using k u by (subst unat_add_nowrap) simp_all
  qed
  {
    assume g: "n > 4096 + sz + 16"
    have g': "4096 + unat sz + 16 < unat n" using g u16 by (simp add: word_less_nat_alt)
    show "wf_block (a + (4096 + sz), n - (4096 + sz))"
      using b d f le g' by (auto simp: wf_block_def fits_def uan un word_unat_eq_iff [of _ 0])
    show "span (a + (4096 + sz)) (n - (4096 + sz)) \<subseteq> span a n"
      using uan un le by (auto simp: span_def)
    show "span (a + 4096) sz \<inter> span (a + (4096 + sz)) (n - (4096 + sz)) = {}"
      using uan un ua by (auto simp: span_def)
    show "unat (n - (4096 + sz)) = unat n - (4096 + unat sz)" by (rule un)
  }
  assume "\<not> n > 4096 + sz + 16"
  then have "unat n \<le> 4096 + unat sz + 16" using u16 by (simp add: word_less_nat_alt)
  then show "unat n = 4096 + unat sz" using page_tight [OF d(2,3) le] by simp
qed

lemma alloc_list_wf:
  assumes "wf_blocks bs" "ok_size sz" "alloc_list sz bs = (r, bs')"
  shows "wf_blocks bs' \<and> cover bs' \<subseteq> cover bs \<and>
    (case r of None \<Rightarrow> bs' = bs \<and> (\<forall>b \<in> set bs. unat (snd b) < 4096 + unat sz)
     | Some p \<Rightarrow> p \<noteq> 0 \<and> 4096 dvd unat p \<and> fits p sz \<and> span p sz \<subseteq> cover bs
          \<and> span p sz \<inter> cover bs' = {} \<and> free_bytes bs' + unat sz + 4096 = free_bytes bs)"
  using assms(1,3)
proof (induction bs arbitrary: r bs')
  case Nil
  then show ?case by simp
next
  case (Cons b bs)
  obtain a n where b: "b = (a, n)" by (cases b)
  have wb: "wf_block (a, n)" and wbs: "wf_blocks bs" and dj: "span a n \<inter> cover bs = {}"
    using Cons.prems(1) b by (auto simp: wf_blocks_Cons)
  note need = block_need_eq [OF wb] aligned_start(1) [OF wb, unfolded sizeof_FreeBlock_def]
  show ?case
  proof (cases "n \<ge> 4096 + sz")
    case True
    note sb = split_block [OF wb assms(2) True]
    have le: "4096 + unat sz \<le> unat n" using True unat_need [OF assms(2)]
      by (simp add: word_le_nat_alt)
    show ?thesis
    proof (cases "n > 4096 + sz + 16")
      case g: True
      then have "r = Some (a + 4096)" "bs' = (a + (4096 + sz), n - (4096 + sz)) # bs"
        using Cons.prems(2) True b by (simp_all add: need sizeof_FreeBlock_def)
      then show ?thesis
        using sb(1-4) sb(5-8) [OF g] wbs dj le
        by (auto simp: b wf_blocks_Cons free_bytes_def)
    next
      case g: False
      then have "r = Some (a + 4096)" "bs' = bs"
        using Cons.prems(2) True b by (simp_all add: need sizeof_FreeBlock_def)
      then show ?thesis
        using sb(1-4) sb(9) [OF g] wbs dj by (auto simp: b free_bytes_def)
    qed
  next
    case False
    obtain r1 bs1 where e: "alloc_list sz bs = (r1, bs1)" by (cases "alloc_list sz bs")
    then have r: "r = r1" "bs' = (a, n) # bs1" using Cons.prems(2) False b by (simp_all add: need)
    have lt: "unat n < 4096 + unat sz" using False unat_need [OF assms(2)]
      by (simp add: word_le_nat_alt)
    show ?thesis
      using Cons.IH [OF wbs e] wb dj lt
      by (auto simp: b r wf_blocks_Cons free_bytes_def split: option.splits)
  qed
qed


lemma alloc_list_none_iff:
  assumes "wf_blocks bs" "ok_size sz"
  shows "fst (alloc_list sz bs) = None \<longleftrightarrow> (\<forall>b \<in> set bs. unat (snd b) < unat sz + 4096)"
  using assms(1)
proof (induction bs)
  case (Cons b bs)
  obtain a n where b: "b = (a, n)" by (cases b)
  have w: "wf_block (a, n)" "wf_blocks bs" using Cons.prems b by (auto simp: wf_blocks_Cons)
  have "n \<ge> block_need sz a \<longleftrightarrow> 4096 + unat sz \<le> unat n"
    using unat_need [OF assms(2)] by (simp add: block_need_eq [OF w(1)] word_le_nat_alt)
  then show ?case using Cons.IH [OF w(2)] by (auto simp: b)
qed simp

lemma seg_unique: "seg m p bs 0 \<Longrightarrow> seg m p cs 0 \<Longrightarrow> bs = cs"
proof (induction bs arbitrary: p cs)
  case Nil
  then show ?case by (cases cs) auto
next
  case (Cons b bs)
  then show ?case by (cases b; cases cs) auto
qed

lemma get_slot_of:
  "seg (mem s) (m_head s) pre p \<Longrightarrow> get_slot (slot_of pre) s = p"
proof (cases pre rule: rev_cases)
  case (snoc ys y)
  assume "seg (mem s) (m_head s) pre p"
  then show ?thesis by (cases y) (auto simp: snoc slot_of_def seg_append fb_next_def)
qed (simp add: slot_of_def)

lemma hdrs_disjoint: "wf_blocks (xs @ ys) \<Longrightarrow> hdrs xs \<inter> hdrs ys = {}"
proof -
  assume wf: "wf_blocks (xs @ ys)"
  then have "cover xs \<inter> cover ys = {}" "wf_blocks xs" "wf_blocks ys"
    by (auto simp: wf_blocks_append)
  then show ?thesis using hdrs_cover by blast
qed

lemma wf_blocks_last_next:
  assumes "wf_blocks (ys @ (a, n) # zs)"
  shows "a + 8 \<notin> hdrs ys" "a \<notin> hdrs ys"
proof -
  note d = hdrs_disjoint [OF assms]
  have "a \<in> hdrs ((a, n) # zs)" "a + 8 \<in> hdrs ((a, n) # zs)" by simp_all
  with d show "a + 8 \<notin> hdrs ys" "a \<notin> hdrs ys" by blast+
qed

lemma wf_blocks_hd_next:
  assumes "wf_blocks (ys @ [(a, n)] @ zs)"
  shows "a + 8 \<notin> hdrs zs" "a \<notin> hdrs zs"
proof -
  have d: "hdrs (ys @ [(a, n)]) \<inter> hdrs zs = {}"
    using assms by (intro hdrs_disjoint) simp
  have "a \<in> hdrs (ys @ [(a, n)])" "a + 8 \<in> hdrs (ys @ [(a, n)])" by simp_all
  with d show "a + 8 \<notin> hdrs zs" "a \<notin> hdrs zs" by blast+
qed

lemma set_slot_of:
  assumes "seg (mem s) (m_head s) pre p" "wf_blocks pre"
  shows "seg (mem (set_slot (slot_of pre) v s)) (m_head (set_slot (slot_of pre) v s)) pre v"
proof (cases pre rule: rev_cases)
  case (snoc ys y)
  obtain a n where y: "y = (a, n)" by (cases y)
  have "a + 8 \<notin> hdrs ys" using assms(2) wf_blocks_last_next(1) [of ys a n "[]"] by (simp add: snoc y)
  then show ?thesis
    using assms by (auto simp: snoc y slot_of_def seg_append seg_upd set_fb_next_def)
qed (simp add: slot_of_def)

lemma set_slot_frame [simp, frame_simps]:
  "hhdm_offset (set_slot c v s) = hhdm_offset s" "cr3 (set_slot c v s) = cr3 s"
  "last_error (set_slot c v s) = last_error s" "pma.more (set_slot c v s) = pma.more s"
  by (cases c; simp add: set_fb_next_def last_error_def get_percpu_def rdmsr_eq; fail)+

lemma mem_set_slot:
  "wf_blocks pre \<Longrightarrow> x \<notin> hdrs pre \<Longrightarrow> mem (set_slot (slot_of pre) v s) x = mem s x"
  by (cases pre rule: rev_cases) (auto simp: slot_of_def set_fb_next_def)

text \<open>Writing the slot behind a prefix leaves the headers of a disjoint list alone.\<close>

lemma seg_set_slot:
  assumes "wf_blocks (pre @ bs)"
  shows "seg (mem (set_slot (slot_of pre) v s)) p bs q = seg (mem s) p bs q"
proof (cases pre rule: rev_cases)
  case (snoc ys y)
  have "fst y + 8 \<notin> hdrs bs"
    using assms wf_blocks_hd_next(1) [of ys "fst y" "snd y" bs] by (simp add: snoc)
  then show ?thesis by (simp add: snoc slot_of_def set_fb_next_def seg_upd)
qed (simp add: slot_of_def)

lemma slot_of_snoc: "slot_of (pre @ [(a, n)]) = NextSlot a"
  by (simp add: slot_of_def)


lemma set_slot_eq:
  "set_slot c v s = s\<lparr>mem := mem (set_slot c v s), m_head := m_head (set_slot c v s)\<rparr>"
  by (cases c) (simp_all add: set_fb_next_def)

lemma same_outside_trans:
  assumes "same_outside A s t" "same_outside A t u"
  shows "same_outside A s u"
proof -
  have "u = (s\<lparr>mem := mem t, m_head := m_head t\<rparr>)\<lparr>mem := mem u, m_head := m_head u\<rparr>"
    using assms unfolding same_outside_def by metis
  then have "u = s\<lparr>mem := mem u, m_head := m_head u\<rparr>" by simp
  with assms show ?thesis unfolding same_outside_def by metis
qed

lemma same_outside_mono: "same_outside A s t \<Longrightarrow> A \<subseteq> B \<Longrightarrow> same_outside B s t"
  unfolding same_outside_def by blast

lemma same_outside_set_slot:
  assumes "wf_blocks pre"
  shows "same_outside (cover pre) s (set_slot (slot_of pre) v s)"
proof -
  have "mem (set_slot (slot_of pre) v s) x = mem s x" if "unat x \<notin> cover pre" for x
    using that assms by (intro mem_set_slot not_in_hdrs)
  with set_slot_eq [of "slot_of pre" v s] show ?thesis by (auto simp: same_outside_def)
qed

text \<open>Unlinking the block behind a prefix, and replacing it by another block inside it.\<close>

lemma unlink_block:
  assumes at: "blocks_at s (pre @ (a, n) # bs)" and wf: "wf_blocks (pre @ (a, n) # bs)"
  defines "t \<equiv> set_slot (slot_of pre) (fb_next s a) s"
  shows "blocks_at t (pre @ bs) \<and> same_outside (cover pre) s t"
proof -
  have wf': "wf_blocks pre" "wf_blocks (pre @ bs)"
    using wf by (auto simp: wf_blocks_append wf_blocks_Cons)
  have "seg (mem s) (m_head s) pre a" "seg (mem s) (fb_next s a) bs 0"
    using at by (auto simp: blocks_at_def seg_append fb_next_def)
  then have "seg (mem t) (m_head t) pre (fb_next s a)" "seg (mem t) (fb_next s a) bs 0"
    using set_slot_of wf'(1) seg_set_slot [OF wf'(2)] unfolding t_def by blast+
  then show ?thesis
    using same_outside_set_slot [OF wf'(1)] by (auto simp: blocks_at_def seg_append t_def)
qed

lemma replace_block:
  assumes at: "blocks_at s (pre @ (a, n) # bs)" and wf: "wf_blocks (pre @ (a, n) # bs)"
    and b: "wf_block (b, k)" "span b k \<subseteq> span a n" "unat a + 16 \<le> unat b"
  defines "s1 \<equiv> set_fb_size b k s"
  defines "t \<equiv> set_slot (slot_of pre) b (set_fb_next b (fb_next s1 a) s1)"
  shows "blocks_at t (pre @ (b, k) # bs) \<and> same_outside (cover (pre @ [(a, n)])) s t"
proof -
  let ?s2 = "set_fb_next b (fb_next s1 a) s1"
  have wa: "wf_block (a, n)" and wp: "wf_blocks pre" and wbs: "wf_blocks bs"
    and dj: "span a n \<inter> cover pre = {}" "span a n \<inter> cover bs = {}" "cover pre \<inter> cover bs = {}"
    using wf by (auto simp: wf_blocks_append wf_blocks_Cons)
  have wf': "wf_blocks (pre @ (b, k) # bs)"
    using wp wbs b dj by (auto simp: wf_blocks_append wf_blocks_Cons)
  have hb: "unat b \<in> span a n" "unat (b + 8) \<in> span a n"
    using hdr_in_span [OF b(1)] b(2) by auto
  have nb: "b \<noteq> a + 8" using b(3) unat_plus_8 [OF wa] by auto
  have ms2: "mem ?s2 = (mem s)(b := k, b + 8 := mem s (a + 8))" "m_head ?s2 = m_head s"
    and nx: "fb_next s1 a = mem s (a + 8)"
    using nb by (auto simp: s1_def set_fb_size_def set_fb_next_def fb_next_def)
  have out: "b \<notin> hdrs pre" "b + 8 \<notin> hdrs pre" "b \<notin> hdrs bs" "b + 8 \<notin> hdrs bs"
    using hb dj wp wbs hdrs_cover by blast+
  have "seg (mem s) (m_head s) pre a" "seg (mem s) (mem s (a + 8)) bs 0"
    using at by (auto simp: blocks_at_def seg_append)
  then have p2: "seg (mem ?s2) (m_head ?s2) pre a" and "seg (mem ?s2) (mem ?s2 (b + 8)) bs 0"
    unfolding ms2 using out by (simp_all add: seg_upd)
  then have "seg (mem ?s2) b ((b, k) # bs) 0"
    using b(1) by (auto simp: wf_block_def s1_def)
  then have "seg (mem t) b ((b, k) # bs) 0"
    unfolding t_def by (subst seg_set_slot [OF wf'])
  moreover have "seg (mem t) (m_head t) pre b"
    unfolding t_def by (rule set_slot_of [OF p2 wp])
  ultimately have at': "blocks_at t (pre @ (b, k) # bs)"
    unfolding blocks_at_def seg_append by blast
  have "same_outside (span a n) s ?s2"
    using hb by (auto simp: same_outside_def s1_def set_fb_size_def set_fb_next_def)
  then have "same_outside (cover (pre @ [(a, n)])) s ?s2" by (rule same_outside_mono) simp
  moreover have "same_outside (cover (pre @ [(a, n)])) ?s2 t"
    unfolding t_def by (rule same_outside_mono [OF same_outside_set_slot [OF wp]]) simp
  ultimately show ?thesis using at' same_outside_trans by blast
qed

lemma alloc_loop_refines:
  assumes "blocks_at s (pre @ post)" "wf_blocks (pre @ post)" "ok_size sz"
    "alloc_list sz post = (r, post')"
  shows "\<exists>t. alloc_loop sz (slot_of pre) s = Some (alloc_result r (hhdm_offset s), t)
     \<and> blocks_at t (pre @ post') \<and> same_outside (cover (pre @ post)) s t"
  using assms(1,2,4)
proof (induction post arbitrary: pre r post')
  case Nil
  have "get_slot (slot_of pre) s = 0"
    using Nil.prems(1) by (intro get_slot_of) (simp add: blocks_at_def)
  then show ?case
    using Nil.prems by (subst alloc_loop.simps) (simp add: alloc_result_def same_outside_def)
next
  case (Cons b bs)
  obtain a n where b: "b = (a, n)" by (cases b)
  have at: "blocks_at s (pre @ (a, n) # bs)" and wf: "wf_blocks (pre @ (a, n) # bs)"
    using Cons.prems b by simp_all
  have wa: "wf_block (a, n)" using wf by (auto simp: wf_blocks_append wf_blocks_Cons)
  have slot: "get_slot (slot_of pre) s = a" "a \<noteq> 0" "fb_size s a = n"
    using at get_slot_of by (auto simp: blocks_at_def seg_append fb_size_def)
  note st = aligned_start(1) [OF wa, unfolded sizeof_FreeBlock_def]
  note need = block_need_eq [OF wa] st
  note step = alloc_loop.simps [of sz "slot_of pre" s]
  show ?case
  proof (cases "n \<ge> 4096 + sz")
    case True
    note sb = split_block [OF wa assms(3) True]
    show ?thesis
    proof (cases "n > 4096 + sz + 16")
      case g: True
      let ?b = "a + (4096 + sz)" and ?k = "n - (4096 + sz)"
      have res: "r = Some (a + 4096)" "post' = (?b, ?k) # bs"
        using Cons.prems(3) True g b by (simp_all add: need sizeof_FreeBlock_def)
      have "unat a + unat (4096 + sz) < 2 ^ 64" 
        using True wa by (auto simp: wf_block_def fits_def word_le_nat_alt)
      then have ge: "unat a + 16 \<le> unat ?b"
        using unat_need [OF assms(3)] by (simp add: unat_add_nowrap)
      note rep = replace_block [OF at wf sb(5,6) [OF g] ge]
      show ?thesis
        unfolding step
        using True g slot rep res
        by (auto simp: st sizeof_FreeBlock_def Let_def alloc_result_def get_memory_slide_def b
            intro: same_outside_mono)
    next
      case g: False
      have res: "r = Some (a + 4096)" "post' = bs"
        using Cons.prems(3) True g b by (simp_all add: need sizeof_FreeBlock_def)
      show ?thesis
        unfolding step
        using True g slot unlink_block [OF at wf] res
        by (auto simp: st sizeof_FreeBlock_def Let_def alloc_result_def get_memory_slide_def b
            intro: same_outside_mono)
    qed
  next
    case False
    obtain r1 bs1 where e: "alloc_list sz bs = (r1, bs1)" by (cases "alloc_list sz bs")
    then have r: "r = r1" "post' = (a, n) # bs1" using Cons.prems(3) False b by (simp_all add: need)
    have "blocks_at s ((pre @ [(a, n)]) @ bs)" "wf_blocks ((pre @ [(a, n)]) @ bs)"
      using at wf by simp_all
    from Cons.IH [OF this e] show ?thesis
      unfolding step using False slot
      by (auto simp: st sizeof_FreeBlock_def Let_def r b slot_of_snoc)
  qed
qed


section \<open>Coalescing\<close>

lemma merge_spans:
  assumes "wf_block (a, n)" "wf_block (a + n, k)"
  shows "wf_block (a, n + k)" "span a (n + k) = span a n \<union> span (a + n) k"
    "unat (n + k) = unat n + unat k"
proof -
  have f: "unat (a + n) = unat a + unat n" using assms(1) by (simp add: wf_block_def fitsD)
  then have "unat a + unat n + unat k < 2 ^ 64" using assms(2) by (simp add: wf_block_def fits_def)
  then show u: "unat (n + k) = unat n + unat k" by (simp add: unat_add_nowrap)
  show "wf_block (a, n + k)"
    using assms f u by (simp add: wf_block_def fits_def)
  then show "span a (n + k) = span a n \<union> span (a + n) k"
    using u by (intro span_split) (simp_all add: wf_block_def)
qed

lemma absorb_wf:
  assumes "wf_blocks ((a, n) # bs)"
  shows "wf_blocks ((a, fst (absorb a n bs)) # snd (absorb a n bs))
    \<and> cover ((a, fst (absorb a n bs)) # snd (absorb a n bs)) = cover ((a, n) # bs)
    \<and> free_bytes ((a, fst (absorb a n bs)) # snd (absorb a n bs)) = free_bytes ((a, n) # bs)"
  using assms
proof (induction a n bs rule: absorb.induct)
  case (2 a n b k bs)
  show ?case
  proof (cases "a + n = b")
    case True
    have w: "wf_block (a, n)" "wf_block (a + n, k)" using "2.prems" True
      by (auto simp: wf_blocks_Cons)
    note m = merge_spans [OF w]
    have "wf_blocks ((a, n + k) # bs)"
      using "2.prems" m True by (auto simp: wf_blocks_Cons)
    from "2.IH"(1) [OF True this] show ?thesis
      using True m by (simp add: Un_assoc free_bytes_def)
  next
    case False
    have wf: "wf_blocks ((a, n) # bs)" and bk: "wf_block (b, k)"
      and dj: "span b k \<inter> span a n = {}" "span b k \<inter> cover bs = {}"
      using "2.prems" by (auto simp: wf_blocks_Cons)
    from "2.IH"(2) [OF False wf] show ?thesis
      using False bk dj by (auto simp: wf_blocks_Cons free_bytes_def)
  qed
qed simp

lemma coalesce_list_wf:
  "wf_blocks bs \<Longrightarrow> wf_blocks (coalesce_list bs) \<and> cover (coalesce_list bs) = cover bs
     \<and> free_bytes (coalesce_list bs) = free_bytes bs"
proof (induction bs rule: coalesce_list.induct)
  case (2 a n bs)
  note ab = absorb_wf [OF "2.prems"]
  then have "wf_blocks (snd (absorb a n bs))" by (simp add: wf_blocks_Cons)
  from "2.IH" [OF this] show ?case
    using ab by (auto simp: wf_blocks_Cons free_bytes_def)
qed simp

lemma wf_blocks_perm_mid:
  "wf_blocks (xs @ b # ys) \<longleftrightarrow> wf_block b \<and> wf_blocks (xs @ ys) \<and> span (fst b) (snd b) \<inter> cover (xs @ ys) = {}"
  by (auto simp: wf_blocks_append wf_blocks_Cons)

lemma seg_size_upd:
  assumes "seg m p (pre @ (a, n) # post) q" "a \<notin> hdrs pre" "a \<notin> hdrs post"
  shows "seg (m(a := k)) p (pre @ (a, k) # post) q"
  using assms by (auto simp: seg_append seg_upd)

text \<open>Dropping the block after \<open>(b, k)\<close> by overwriting its \<open>next\<close> field.\<close>

lemma seg_skip:
  assumes "seg m p (pre @ (b, k) # (c, l) # post) q" "b + 8 \<notin> hdrs pre" "b + 8 \<notin> hdrs post"
  shows "seg (m(b + 8 := m (c + 8))) p (pre @ (b, k) # post) q"
  using assms by (auto simp: seg_append seg_upd)

lemma same_mem_outside_upd:
  "unat x \<in> A \<Longrightarrow> (\<forall>y. unat y \<notin> A \<longrightarrow> (m(x := v)) y = m y)"
  by auto


lemma mem_outside_refl [simp]: "mem_outside A s s"
  by (simp add: mem_outside_def)

lemma mem_outside_trans:
  assumes "mem_outside A s t" "mem_outside A t u"
  shows "mem_outside A s u"
proof -
  have "u = (s\<lparr>mem := mem t\<rparr>)\<lparr>mem := mem u\<rparr>"
    using assms unfolding mem_outside_def by metis
  then have "u = s\<lparr>mem := mem u\<rparr>" by simp
  with assms show ?thesis unfolding mem_outside_def by metis
qed

lemma mem_outside_mono: "mem_outside A s t \<Longrightarrow> A \<subseteq> B \<Longrightarrow> mem_outside B s t"
  unfolding mem_outside_def by blast

lemma mem_outside_set:
  "unat b \<in> A \<Longrightarrow> mem_outside A s (set_fb_size b v s)"
  "unat (b + 8) \<in> A \<Longrightarrow> mem_outside A s (set_fb_next b v s)"
  by (auto simp: mem_outside_def set_fb_size_def set_fb_next_def)

lemma coalesce_inner_refines:
  assumes "seg (mem s) p (pre @ (a, n) # mid @ rest) 0" "wf_blocks (pre @ (a, n) # mid @ rest)"
  shows "\<exists>t. coalesce_inner a (fst (last ((a, n) # mid))) s = Some t
    \<and> seg (mem t) p (pre @ (a, fst (absorb a n rest)) # mid @ snd (absorb a n rest)) 0
    \<and> mem_outside (cover (pre @ (a, n) # mid @ rest)) s t"
  using assms
proof (induction rest arbitrary: n mid s)
  case Nil
  let ?b = "fst (last ((a, n) # mid))"
  obtain xs y where xs: "pre @ (a, n) # mid = xs @ [y]" "?b = fst y"
    by (metis append_butlast_last_id last_appendR list.distinct(1) snoc_eq_iff_butlast append_is_Nil_conv)
  then have "fb_next s ?b = 0"
    using Nil.prems(1) by (cases y) (auto simp: seg_append fb_next_def)
  then show ?case
    using Nil.prems by (subst coalesce_inner.simps) simp
next
  case (Cons cl rest)
  obtain c l where cl: "cl = (c, l)" by (cases cl)
  let ?b = "fst (last ((a, n) # mid))"
  obtain xs y where xs: "pre @ (a, n) # mid = xs @ [y]" "?b = fst y"
    by (metis append_butlast_last_id last_appendR list.distinct(1) snoc_eq_iff_butlast append_is_Nil_conv)
  obtain k where y: "y = (?b, k)" using xs by (cases y) auto
  have full: "pre @ (a, n) # mid @ cl # rest = xs @ (?b, k) # (c, l) # rest"
    using xs y cl by (metis append.assoc append_Cons append_Nil)
  have nx: "fb_next s ?b = c" "c \<noteq> 0"
    using Cons.prems(1) unfolding full by (auto simp: seg_append fb_next_def)
  have sa: "fb_size s a = n" using Cons.prems(1) by (auto simp: seg_append fb_size_def)
  have sc: "fb_size s c = l" "fb_next s c = mem s (c + 8)"
    using Cons.prems(1) by (auto simp: seg_append fb_size_def fb_next_def cl)
  have wfa: "wf_block (a, n)" "wf_block (c, l)"
    using Cons.prems(2) cl by (auto simp: wf_blocks_append wf_blocks_Cons)
  show ?case
  proof (cases "a + n = c")
    case False
    have "coalesce_inner a ?b s = coalesce_inner a c s"
      using False nx sa by (subst coalesce_inner.simps) simp
    moreover have "seg (mem s) p (pre @ (a, n) # (mid @ [cl]) @ rest) 0"
      "wf_blocks (pre @ (a, n) # (mid @ [cl]) @ rest)"
      using Cons.prems by simp_all
    note Cons.IH [OF this]
    ultimately show ?thesis using False by (auto simp: cl)
  next
    case True
    let ?s1 = "set_fb_size a (n + l) s"
    let ?s2 = "set_fb_next ?b (mem s (c + 8)) ?s1"
    have m: "wf_block (a, n + l)" "span a (n + l) = span a n \<union> span c l"
      using merge_spans [of a n l] wfa True by auto
    have dj: "wf_blocks (pre @ (mid @ cl # rest))" "span a n \<inter> cover (pre @ (mid @ cl # rest)) = {}"
      using Cons.prems(2) by (simp_all add: wf_blocks_perm_mid)
    have na: "a \<notin> hdrs (pre @ (mid @ cl # rest))" "a + 8 \<notin> hdrs (pre @ (mid @ cl # rest))"
      using hdr_in_span [OF wfa(1)] dj(2) unfolding fst_conv snd_conv
      by (intro not_in_hdrs [OF dj(1)]; blast)+
    have seg1: "seg (mem ?s1) p (pre @ (a, n + l) # mid @ cl # rest) 0"
      using seg_size_upd [OF Cons.prems(1)] na by simp
    have "c \<noteq> a" "c + 8 \<noteq> a" using na cl by auto
    then have sc1: "fb_size ?s1 c = l" "fb_next ?s1 c = mem s (c + 8)"
      using sc by (simp_all add: fb_next_def fb_size_def)
    have ba: "?b + 8 \<noteq> a"
    proof (cases mid rule: rev_cases)
      case (snoc ys z)
      then show ?thesis using na(1) by auto
    qed simp
    then have nb1: "fb_next ?s1 ?b = c" using nx by (simp add: fb_next_def)
    have step: "coalesce_inner a ?b s = coalesce_inner a ?b ?s2"
      using True nx sa sc sc1 nb1 by (subst coalesce_inner.simps) (simp add: Let_def)
    have wf2: "wf_blocks (pre @ (a, n + l) # mid @ rest)"
      using dj m cl by (auto simp: wf_blocks_append wf_blocks_Cons)
    obtain xs' k' where xs': "pre @ (a, n + l) # mid = xs' @ [(?b, k')]"
    proof (cases mid rule: rev_cases)
      case Nil
      then show ?thesis using that [of pre "n + l"] by simp
    next
      case (snoc ys z)
      then show ?thesis using that [of "pre @ (a, n + l) # ys" "snd z"] by simp
    qed
    have full': "pre @ (a, n + l) # mid @ zs = xs' @ (?b, k') # zs" for zs
      using xs' by (metis append.assoc append_Cons append_Nil)
    have seg2: "seg (mem ?s2) p (pre @ (a, n + l) # mid @ rest) 0"
    proof -
      have "?b + 8 \<notin> hdrs xs'" "?b + 8 \<notin> hdrs rest"
        using wf2 wf_blocks_last_next(1) [of xs' ?b k' rest] wf_blocks_hd_next(1) [of xs' ?b k' rest]
        unfolding full' by simp_all
      moreover have "seg (mem ?s1) p (xs' @ (?b, k') # (c, l) # rest) 0"
        using seg1 unfolding full' cl by simp
      ultimately show ?thesis
        using seg_skip [of "mem ?s1" p xs' ?b k' c l rest 0] sc1(2)
        unfolding full' by (simp add: fb_next_def)
    qed
    have b': "fst (last ((a, n + l) # mid)) = ?b" by simp
    have "wf_block (?b, k')" using wf2 unfolding full' by (auto simp: wf_blocks_append wf_blocks_Cons)
    then have inb: "unat (?b + 8) \<in> cover (pre @ (a, n + l) # mid @ rest)"
      using hdr_in_span(2) [of "(?b, k')"] unfolding full' by simp
    have cov: "cover (pre @ (a, n + l) # mid @ rest) = cover (pre @ (a, n) # mid @ cl # rest)"
      using m cl True by auto
    have "unat a \<in> cover (pre @ (a, n) # mid @ cl # rest)"
      using hdr_in_span(1) [OF wfa(1)] by simp
    then have "mem_outside (cover (pre @ (a, n) # mid @ cl # rest)) s ?s2"
      using mem_outside_trans [OF mem_outside_set(1) mem_outside_set(2)] inb unfolding cov by blast
    with Cons.IH [OF seg2 wf2] show ?thesis
      unfolding b' step cov using True cl
      by (auto intro: mem_outside_trans)
  qed
qed


lemma coalesce_outer_refines:
  assumes "seg (mem s) p (pre @ post) 0" "wf_blocks (pre @ post)"
  shows "\<exists>t. coalesce_outer (head_addr post) s = Some t
    \<and> seg (mem t) p (pre @ coalesce_list post) 0 \<and> mem_outside (cover (pre @ post)) s t"
  using assms
proof (induction post arbitrary: pre s rule: coalesce_list.induct)
  case 1
  then show ?case by (subst coalesce_outer.simps) simp
next
  case (2 a n bs)
  let ?n = "fst (absorb a n bs)" and ?bs = "snd (absorb a n bs)"
  have a0: "a \<noteq> 0" using "2.prems"(1) by (auto simp: seg_append)
  from coalesce_inner_refines [of s p pre a n "[]" bs] "2.prems"
  obtain t where t: "coalesce_inner a a s = Some t" "seg (mem t) p (pre @ (a, ?n) # ?bs) 0"
    "mem_outside (cover (pre @ (a, n) # bs)) s t"
    by auto
  have "wf_blocks ((a, n) # bs)" "cover pre \<inter> cover ((a, n) # bs) = {}"
    using "2.prems"(2) by (auto simp: wf_blocks_append)
  then have wf: "wf_blocks ((pre @ [(a, ?n)]) @ ?bs)"
    and cov: "cover ((pre @ [(a, ?n)]) @ ?bs) = cover (pre @ (a, n) # bs)"
    using absorb_wf [of a n bs] "2.prems"(2) by (auto simp: wf_blocks_append)
  have nx: "fb_next t a = head_addr ?bs"
    using t(2) by (cases ?bs) (auto simp: seg_append fb_next_def)
  from "2.IH" [of t "pre @ [(a, ?n)]"] t(2) wf
  obtain u where u: "coalesce_outer (head_addr ?bs) t = Some u"
    "seg (mem u) p (pre @ (a, ?n) # coalesce_list ?bs) 0"
    "mem_outside (cover ((pre @ [(a, ?n)]) @ ?bs)) t u"
    by auto
  have "coalesce_outer a s = Some u"
    using a0 t(1) u(1) nx by (subst coalesce_outer.simps) simp
  moreover have "mem_outside (cover (pre @ (a, n) # bs)) s u"
    using mem_outside_trans [OF t(3)] u(3) unfolding cov by blast
  ultimately show ?case using u(2) by simp
qed

lemma fla_free_refines:
  assumes at: "blocks_at s bs" and a: "a = ptr - hhdm_offset s" and wf: "wf_blocks ((a, sz) # bs)"
  shows "\<exists>t. fla_free ptr sz s = Some t \<and> blocks_at t (coalesce_list ((a, sz) # bs))
    \<and> same_outside (cover ((a, sz) # bs)) s t"
proof -
  let ?s = "(set_fb_next a (m_head s) (set_fb_size a sz s))\<lparr>m_head := a\<rparr>"
  have wa: "wf_block (a, sz)" and dj: "span a sz \<inter> cover bs = {}" and wbs: "wf_blocks bs"
    using wf by (auto simp: wf_blocks_Cons)
  have out: "a \<notin> hdrs bs" "a + 8 \<notin> hdrs bs"
    using hdr_in_span [OF wa] dj unfolding fst_conv snd_conv
    by (intro not_in_hdrs [OF wbs]; blast)+
  have "seg (mem ?s) a ((a, sz) # bs) 0"
    using at wa out by (simp add: blocks_at_def seg_upd wf_block_def)
  from coalesce_outer_refines [of ?s a "[]" "(a, sz) # bs"] this wf
  obtain t where t: "coalesce_outer a ?s = Some t" "seg (mem t) a (coalesce_list ((a, sz) # bs)) 0"
    "mem_outside (cover ((a, sz) # bs)) ?s t"
    by auto
  have "sz mod PAGE_SIZE = 0" using wa by (simp add: mod_page_zero_iff wf_block_def)
  then have "fla_free ptr sz s = Some t"
    using t(1) by (simp add: fla_free_def fla_coalesce_def get_memory_slide_def a Let_def)
  moreover have te: "t = ?s\<lparr>mem := mem t\<rparr>" using t(3) unfolding mem_outside_def by blast
  have "m_head t = m_head (?s\<lparr>mem := mem t\<rparr>)" using te by (rule arg_cong)
  then have hd: "m_head t = a" by simp
  moreover have "same_outside (cover ((a, sz) # bs)) s t"
  proof -
    have "t = s\<lparr>mem := mem t, m_head := m_head t\<rparr>"
      unfolding hd by (subst te) (simp add: set_fb_size_def set_fb_next_def)
    moreover have "mem t x = mem s x" if "unat x \<notin> cover ((a, sz) # bs)" for x
    proof -
      have "x \<noteq> a" "x \<noteq> a + 8" using that hdr_in_span [OF wa] by auto
      then show ?thesis using t(3) that by (simp add: mem_outside_def)
    qed
    ultimately show ?thesis unfolding same_outside_def by blast
  qed
  ultimately show ?thesis using t(2) unfolding blocks_at_def by auto
qed

lemma free_covers:
  assumes "blocks_at s bs" "wf_blocks ((ptr - hhdm_offset s, sz) # bs)"
  shows "\<exists>t bs'. fla_free ptr sz s = Some t \<and> blocks_at t bs' \<and> wf_blocks bs'
    \<and> cover bs' = cover bs \<union> span (ptr - hhdm_offset s) sz
    \<and> free_bytes bs' = free_bytes bs + unat sz
    \<and> same_outside (cover bs \<union> span (ptr - hhdm_offset s) sz) s t"
proof -
  have "free_bytes ((ptr - hhdm_offset s, sz) # bs) = free_bytes bs + unat sz"
    "cover ((ptr - hhdm_offset s, sz) # bs) = cover bs \<union> span (ptr - hhdm_offset s) sz"
    by (simp_all add: free_bytes_def Un_commute)
  then show ?thesis
    using fla_free_refines [OF assms(1) refl assms(2)] coalesce_list_wf [OF assms(2)] by metis
qed

section \<open>Initialisation\<close>

lemma pa_end_stops:
  assumes "ptrs n = None" "\<And>i. i < n \<Longrightarrow> ptrs i \<noteq> None" "k \<le> n"
  shows "pa_end ptrs k = Some n"
  using assms(3)
proof (induction "n - k" arbitrary: k)
  case 0
  then show ?case using assms by (subst pa_end.simps) simp
next
  case (Suc d)
  then have "k < n" "pa_end ptrs (Suc k) = Some n" by simp_all
  then show ?case using assms(2) [of k] by (subst pa_end.simps) simp
qed

text \<open>The wrapper reads exactly the entries before the first null pointer.\<close>

lemma pa_entries_of_list:
  assumes "ptrs (length es) = None" "\<And>i. i < length es \<Longrightarrow> ptrs i = Some (es ! i)"
  shows "pa_entries ptrs = Some es"
proof -
  have "pa_end ptrs 0 = Some (length es)"
    using assms by (intro pa_end_stops) auto
  then have "pa_entries ptrs = Some (map (\<lambda>i. the (ptrs i)) [0..<length es])"
    by (simp add: pa_entries_def)
  also have "map (\<lambda>i. the (ptrs i)) [0..<length es] = es"
    using assms(2) by (intro nth_equalityI) auto
  finally show ?thesis .
qed

lemma init_entry_blocks:
  assumes "blocks_at s bs" "wf_blocks ((hhdm_offset s + base e, length_of e) # bs)"
    "entry_type e = usable"
  shows "blocks_at (init_entry usable e s) ((hhdm_offset s + base e, length_of e) # bs)"
proof -
  let ?a = "hhdm_offset s + base e"
  have w: "wf_block (?a, length_of e)" "wf_blocks bs" "span ?a (length_of e) \<inter> cover bs = {}"
    using assms(2) by (auto simp: wf_blocks_Cons)
  have "?a \<notin> hdrs bs" "?a + 8 \<notin> hdrs bs"
    using hdr_in_span [OF w(1)] w(3) unfolding fst_conv snd_conv
    by (intro not_in_hdrs [OF w(2)]; blast)+
  then show ?thesis
    using assms w(1)
    by (simp add: init_entry_def blocks_at_def get_memory_slide_def Let_def seg_upd wf_block_def)
qed

lemma init_entry_offset [simp]: "hhdm_offset (init_entry u e s) = hhdm_offset s"
  by (simp add: init_entry_def Let_def)

lemma init_entry_skip [simp]: "entry_type e \<noteq> u \<Longrightarrow> init_entry u e s = s"
  by (simp add: init_entry_def)

lemma fla_init_blocks:
  assumes "blocks_at s bs" "wf_blocks (usable_blocks usable (hhdm_offset s) es @ bs)"
  shows "blocks_at (fla_init usable es s) (usable_blocks usable (hhdm_offset s) es @ bs)"
  using assms
proof (induction es arbitrary: s bs)
  case Nil
  then show ?case by (simp add: fla_init_def usable_blocks_def)
next
  case (Cons e es)
  show ?case
  proof (cases "entry_type e = usable")
    case True
    let ?b = "(hhdm_offset s + base e, length_of e)"
    have u: "usable_blocks usable (hhdm_offset s) (e # es) @ bs
        = usable_blocks usable (hhdm_offset s) es @ ?b # bs"
      using True by (simp add: usable_blocks_def)
    have "wf_blocks (?b # bs)" using Cons.prems(2) unfolding u by (simp add: wf_blocks_append)
    from init_entry_blocks [OF Cons.prems(1) this True]
      Cons.IH [of "init_entry usable e s" "?b # bs"] Cons.prems(2)
    show ?thesis unfolding u by (simp add: fla_init_def)
  next
    case False
    then show ?thesis using Cons by (simp add: fla_init_def usable_blocks_def)
  qed
qed

section \<open>The allocator keeps the page contract\<close>

lemma fla_alloc_step:
  assumes "blocks_at s bs" "wf_blocks bs" "ok_size sz" "alloc_list sz bs = (r, bs')"
  shows "\<exists>t. fla_alloc sz s = Some (alloc_result r (hhdm_offset s), t) \<and> blocks_at t bs'
    \<and> same_outside (cover bs) s t"
proof -
  have "sz mod PAGE_SIZE = 0" "align_up_util sz PAGE_SIZE = sz"
    using assms(3) by (simp_all add: mod_page_zero_iff ok_size_def align_up_util_eq align_up_page_id)
  then show ?thesis
    using alloc_loop_refines [of s "[]" bs sz r bs'] assms
    by (simp add: fla_alloc_def slot_of_def)
qed

lemma same_outside_offset: "same_outside A s t \<Longrightarrow> hhdm_offset t = hhdm_offset s"
proof -
  assume "same_outside A s t"
  then have "t = s\<lparr>mem := mem t, m_head := m_head t\<rparr>" by (simp add: same_outside_def)
  then have "hhdm_offset t = hhdm_offset (s\<lparr>mem := mem t, m_head := m_head t\<rparr>)"
    by (rule arg_cong)
  then show ?thesis by simp
qed

lemma alloc_page_ok:
  assumes "pma_free_at s A"
  shows "\<exists>p t B. alloc_page s = Some (p, t) \<and> pma_free_at t B \<and> B \<subseteq> A
        \<and> hhdm_offset t = hhdm_offset s \<and> (\<forall>x. unat x \<notin> A \<longrightarrow> mem t x = mem s x)
        \<and> (p \<noteq> 0 \<longrightarrow> 4096 dvd unat (p + hhdm_offset s) \<and> fits (p + hhdm_offset s) PAGE_SIZE
             \<and> page_span (hhdm_offset s) p \<subseteq> A - B)"
proof -
  obtain bs where bs: "blocks_at s bs" "wf_blocks bs" "cover bs = A"
    using assms by (auto simp: pma_free_at_def)
  obtain r bs' where r: "alloc_list PAGE_SIZE bs = (r, bs')" by (cases "alloc_list PAGE_SIZE bs")
  have ok: "ok_size PAGE_SIZE" by (simp add: ok_size_def)
  obtain t where t: "alloc_page s = Some (alloc_result r (hhdm_offset s), t)" "blocks_at t bs'"
    "same_outside (cover bs) s t"
    using fla_alloc_step [OF bs(1,2) ok r] by (auto simp: alloc_page_def)
  have "pma_free_at t (cover bs')" "cover bs' \<subseteq> A"
    using alloc_list_wf [OF bs(2) ok r] t(2) bs(3) by (auto simp: pma_free_at_def)
  moreover have "alloc_result r (hhdm_offset s) \<noteq> 0 \<longrightarrow>
      4096 dvd unat (alloc_result r (hhdm_offset s) + hhdm_offset s)
      \<and> fits (alloc_result r (hhdm_offset s) + hhdm_offset s) PAGE_SIZE
      \<and> page_span (hhdm_offset s) (alloc_result r (hhdm_offset s)) \<subseteq> A - cover bs'"
    using alloc_list_wf [OF bs(2) ok r] bs(3)
    by (cases r) (auto simp: alloc_result_def page_span_def)
  ultimately show ?thesis
    using t(1,3) bs(3) same_outside_offset [OF t(3)] by (auto simp: same_outside_def)
qed

interpretation phys: page_source alloc_page mem hhdm_offset pma_free_at
  by unfold_locales (rule alloc_page_ok)

section \<open>Properties\<close>

text \<open>A concrete state: two free blocks, of eight and of four pages.\<close>

definition demo_pma :: pma where
  "demo_pma = \<lparr>mem = (\<lambda>_. 0)(0x10000 := 0x8000, 0x10008 := 0x20000, 0x20000 := 0x4000),
     hhdm_offset = 0x8000, kernel_virtual_base = 0, cr3 = 0, msrs = (\<lambda>_. 0),
     percpus = (\<lambda>_. \<lparr>error = MemoryMisaligned\<rparr>), bsp_percpu = 0, invlpg_log = [],
     m_head = 0x10000\<rparr>"

lemma demo_pma_blocks:
  "blocks_at demo_pma [(0x10000, 0x8000), (0x20000, 0x4000)]"
  "wf_blocks [(0x10000, 0x8000), (0x20000, 0x4000)]"
  "hhdm_offset demo_pma = 0x8000"
  by (simp_all add: demo_pma_def blocks_at_def wf_blocks_Cons wf_block_def fits_def span_def)

text \<open>
  C10: \<open>alloc\<close> on a consistent free list always returns, and does what first fit on the list
  of blocks does: it returns the physical address of the page after the header page of the
  first block with room for the request and one page more, or 0 if there is none, leaves the
  list that first fit leaves, and writes nothing outside the free blocks.
\<close>

theorem pma_alloc_refines:
  assumes "blocks_at s bs" "wf_blocks bs" "ok_size sz"
  shows "\<exists>t. fla_alloc sz s = Some (alloc_result (fst (alloc_list sz bs)) (hhdm_offset s), t)
    \<and> blocks_at t (snd (alloc_list sz bs)) \<and> same_outside (cover bs) s t
    \<and> (fst (alloc_list sz bs) = None \<longleftrightarrow> (\<forall>b \<in> set bs. unat (snd b) < unat sz + 4096))"
proof -
  obtain r bs' where r: "alloc_list sz bs = (r, bs')" by (cases "alloc_list sz bs")
  have "r = None \<longleftrightarrow> (\<forall>b \<in> set bs. unat (snd b) < unat sz + 4096)"
    using alloc_list_none_iff [OF assms(2,3)] r by simp
  then show ?thesis using fla_alloc_step [OF assms r] r by simp
qed

theorem pma_alloc_refines_witness:
  "\<exists>t. fla_alloc 0x2000 demo_pma = Some (0x9000, t) \<and> blocks_at t [(0x13000, 0x5000), (0x20000, 0x4000)]"
  using pma_alloc_refines [OF demo_pma_blocks(1,2), of "0x2000"]
  by (auto simp: ok_size_def block_need_def align_up_util_def sizeof_FreeBlock_def PAGE_SIZE_def
      alloc_result_def demo_pma_blocks)

text \<open>
  A region that \<open>alloc\<close> returns is page-aligned, lies in memory that was free, and is
  disjoint from every block that stays on the list; the list stays consistent. Each successful
  request takes one page more off the list than it asked for: the page that held the header.
\<close>

lemma pma_alloc_exclusive:
  assumes "blocks_at s bs" "wf_blocks bs" "ok_size sz" "fla_alloc sz s = Some (p, t)" "p \<noteq> 0"
  shows "\<exists>bs'. blocks_at t bs' \<and> wf_blocks bs' \<and> cover bs' \<subseteq> cover bs
    \<and> fits (p + hhdm_offset s) sz \<and> 4096 dvd unat (p + hhdm_offset s)
    \<and> span (p + hhdm_offset s) sz \<subseteq> cover bs - cover bs'
    \<and> free_bytes bs' + unat sz + 4096 = free_bytes bs"
proof -
  obtain r bs' where r: "alloc_list sz bs = (r, bs')" by (cases "alloc_list sz bs")
  have p: "p = alloc_result r (hhdm_offset s)" "blocks_at t bs'"
    using fla_alloc_step [OF assms(1-3) r] assms(4) by auto
  then show ?thesis
    using alloc_list_wf [OF assms(2,3) r] assms(5)
    by (intro exI [of _ bs']) (cases r; auto simp: alloc_result_def)
qed

lemma pma_alloc_exclusive_witness:
  "\<exists>t bs'. fla_alloc 0x2000 demo_pma = Some (0x9000, t) \<and> blocks_at t bs'
     \<and> span 0x11000 0x2000 \<inter> cover bs' = {}"
proof -
  obtain t where t: "fla_alloc 0x2000 demo_pma = Some (0x9000, t)"
    using fla_alloc_step [OF demo_pma_blocks(1,2), of "0x2000"]
    by (auto simp: ok_size_def block_need_def align_up_util_def sizeof_FreeBlock_def PAGE_SIZE_def
        alloc_result_def demo_pma_blocks)
  show ?thesis
    using pma_alloc_exclusive [OF demo_pma_blocks(1,2) _ t] t
    by (auto simp: ok_size_def demo_pma_blocks)
qed



text \<open>
  C38: what \<open>alloc\<close> hands out does not come back through \<open>free\<close>. \<open>alloc\<close> subtracts
  the direct-map offset from the block's address, and \<open>free\<close> subtracts it again instead of
  adding it: the list then holds a block two offsets below the region, and the bytes of the
  region itself stay off the list.
\<close>

theorem pma_free_loses_region:
  assumes "blocks_at s bs" "wf_blocks bs" "ok_size sz" "fla_alloc sz s = Some (p, t)" "p \<noteq> 0"
    and "blocks_at t bs'" "wf_blocks ((p - hhdm_offset s, sz) # bs')"
    and "span (p - hhdm_offset s) sz \<inter> span (p + hhdm_offset s) sz = {}"
  shows "\<exists>u bs''. fla_free p sz t = Some u \<and> blocks_at u bs'' \<and> wf_blocks bs''
    \<and> cover bs'' = cover bs' \<union> span (p - hhdm_offset s) sz
    \<and> span (p + hhdm_offset s) sz \<inter> cover bs'' = {}"
proof -
  obtain r ls where r: "alloc_list sz bs = (r, ls)" by (cases "alloc_list sz bs")
  have p: "p = alloc_result r (hhdm_offset s)" "blocks_at t ls" "hhdm_offset t = hhdm_offset s"
    using fla_alloc_step [OF assms(1-3) r] assms(4) same_outside_offset by auto
  have "ls = bs'" using p(2) assms(6) by (simp add: blocks_at_def seg_unique)
  then have "span (p + hhdm_offset s) sz \<inter> cover bs' = {}"
    using alloc_list_wf [OF assms(2,3) r] p(1) assms(5) by (cases r) (auto simp: alloc_result_def)
  then have dj: "span (p + hhdm_offset s) sz \<inter> (cover bs' \<union> span (p - hhdm_offset s) sz) = {}"
    using assms(8) by blast
  have "wf_blocks ((p - hhdm_offset t, sz) # bs')" using assms(7) p(3) by simp
  then obtain u bs'' where "fla_free p sz t = Some u" "blocks_at u bs''" "wf_blocks bs''"
    "cover bs'' = cover bs' \<union> span (p - hhdm_offset s) sz"
    using free_covers [OF assms(6)] p(3) by metis
  then show ?thesis using dj by auto
qed

theorem pma_free_loses_region_witness:
  "\<exists>t u bs''. fla_alloc 0x2000 demo_pma = Some (0x9000, t) \<and> fla_free 0x9000 0x2000 t = Some u
     \<and> blocks_at u bs'' \<and> span 0x11000 0x2000 \<inter> cover bs'' = {}"
proof -
  obtain t where t: "fla_alloc 0x2000 demo_pma = Some (0x9000, t)"
    "blocks_at t [(0x13000, 0x5000), (0x20000, 0x4000)]"
    using fla_alloc_step [OF demo_pma_blocks(1,2), of "0x2000"]
    by (auto simp: ok_size_def block_need_def align_up_util_def sizeof_FreeBlock_def PAGE_SIZE_def
        alloc_result_def demo_pma_blocks)
  have "wf_blocks ((0x9000 - hhdm_offset demo_pma, 0x2000) # [(0x13000, 0x5000), (0x20000, 0x4000)])"
    "span (0x9000 - hhdm_offset demo_pma) 0x2000 \<inter> span (0x9000 + hhdm_offset demo_pma) 0x2000 = {}"
    by (auto simp: demo_pma_blocks wf_blocks_Cons wf_block_def fits_def span_def)
  from pma_free_loses_region [OF demo_pma_blocks(1,2) _ t(1) _ t(2) this] show ?thesis
    using t(1) by (auto simp: ok_size_def demo_pma_blocks)
qed

text \<open>
  Initialisation turns the usable entries of the memory map, and only those, into the free
  list, the last entry first, when they are disjoint runs of pages.
\<close>

lemma pma_init_free_list:
  assumes "ptrs (length es) = None" "\<And>i. i < length es \<Longrightarrow> ptrs i = Some (es ! i)"
    and "m_head s = 0" "wf_blocks (usable_blocks usable (hhdm_offset s) es)"
  shows "\<exists>t. init_pma usable (Some ptrs) s = Some t
    \<and> blocks_at t (usable_blocks usable (hhdm_offset s) es)"
  using pa_entries_of_list [OF assms(1,2)] fla_init_blocks [of s "[]" usable es] assms(3,4)
  by (auto simp: init_pma_def blocks_at_def)

lemma pma_init_free_list_witness:
  "\<exists>t. init_pma 0 (Some (\<lambda>i. if i < 2
        then Some ([\<lparr>base = 0x1000, length_of = 0x3000, entry_type = 0\<rparr>,
                    \<lparr>base = 0x8000, length_of = 0x2000, entry_type = 1\<rparr>] ! i) else None))
      (demo_pma\<lparr>m_head := 0\<rparr>) = Some t
    \<and> blocks_at t [(0x9000, 0x3000)]"
  using pma_init_free_list [of "\<lambda>i. if i < 2
        then Some ([\<lparr>base = 0x1000, length_of = 0x3000, entry_type = 0\<rparr>,
                    \<lparr>base = 0x8000, length_of = 0x2000, entry_type = 1\<rparr>] ! i) else None"
      "[\<lparr>base = 0x1000, length_of = 0x3000, entry_type = 0\<rparr>,
        \<lparr>base = 0x8000, length_of = 0x2000, entry_type = 1\<rparr>]" "demo_pma\<lparr>m_head := 0\<rparr>" 0]
  by (simp add: usable_blocks_def demo_pma_def wf_blocks_Cons wf_block_def fits_def)

text \<open>
  Any number of calls of \<open>alloc_page\<close> return, and the pages they hand out are pairwise
  disjoint, were free before and are free no more.
\<close>

lemma pma_pages_disjoint:
  assumes "pma_free_at s A"
  shows "\<exists>ps t B. take_pages alloc_page n s = Some (ps, t) \<and> pma_free_at t B \<and> B \<subseteq> A
    \<and> pages_span (hhdm_offset s) ps \<subseteq> A - B
    \<and> (\<forall>i<n. \<forall>j<n. i \<noteq> j \<longrightarrow> ps ! i \<noteq> 0 \<longrightarrow> ps ! j \<noteq> 0 \<longrightarrow>
         page_span (hhdm_offset s) (ps ! i) \<inter> page_span (hhdm_offset s) (ps ! j) = {})"
  using phys.take_pages_ok [OF assms, of n] by blast

lemma pma_pages_disjoint_witness:
  "\<exists>ps t B. take_pages alloc_page 3 demo_pma = Some (ps, t) \<and> pma_free_at t B"
proof -
  have "pma_free_at demo_pma (cover [(0x10000, 0x8000), (0x20000, 0x4000)])"
    using demo_pma_blocks unfolding pma_free_at_def by blast
  from pma_pages_disjoint [OF this, of 3] show ?thesis by blast
qed

text \<open>
  A request for the largest multiple of the page size wraps the size computation to 0 and
  is granted from the first block of the list, however small that block is.
\<close>

lemma pma_alloc_size_wraps:
  assumes "blocks_at s ((a, n) # bs)" "wf_block (a, n)"
  shows "\<exists>t. alloc_pages_continuous 0xFFFFFFFFFFFFF s = Some (a + 4096 - hhdm_offset s, t)"
proof -
  let ?sz = "0xFFFFFFFFFFFFF000 :: u64"
  note al = aligned_start(1) [OF assms(2)]
  have need: "a + 4096 - a + ?sz = 0" "(0x10000000000000000 :: u64) = 0" by simp_all
  have sz: "0xFFFFFFFFFFFFF * PAGE_SIZE = ?sz" "?sz mod PAGE_SIZE = 0"
    "align_up_util ?sz PAGE_SIZE = ?sz"
    by (simp_all add: PAGE_SIZE_def align_up_util_def)
  have "m_head s = a" "a \<noteq> 0" using assms(1) by (auto simp: blocks_at_def)
  then show ?thesis
    unfolding alloc_pages_continuous_def sz fla_alloc_def
    by (subst alloc_loop.simps) (simp add: Let_def al need get_memory_slide_def)
qed

lemma pma_alloc_size_wraps_witness:
  "\<exists>t. alloc_pages_continuous 0xFFFFFFFFFFFFF demo_pma = Some (0x9000, t)"
proof -
  have "wf_block (0x10000, 0x8000)" by (simp add: wf_block_def fits_def)
  from pma_alloc_size_wraps [OF demo_pma_blocks(1) this] show ?thesis
    by (simp add: demo_pma_blocks)
qed

text \<open>A size that is not a multiple of the page size stops the machine in both directions.\<close>

lemma pma_size_halts:
  "sz mod PAGE_SIZE \<noteq> 0 \<Longrightarrow> fla_alloc sz s = None \<and> fla_free ptr sz s = None"
  by (simp add: fla_alloc_def fla_free_def)

end
