(* ===== verification/Vmm.thy ===== *)
theory Vmm
  imports Pma
begin

text \<open>
  The page-table code of \<open>mm/vmm.cpp\<close> and \<open>mm/vmm.hpp\<close>: \<open>map_virtual\<close> walks the four
  levels of an x86-64 page table through the direct map, allocates missing tables from the
  physical allocator and writes the leaf entry. The specification is the walk the processor
  does for 4 KiB pages.
\<close>

unbundle bit_operations_syntax

section \<open>Definitions\<close>

subsection \<open>Flags and address fields\<close>

definition MapRead :: u32 where "MapRead = 1"
definition MapWrite :: u32 where "MapWrite = 2"
definition MapExecute :: u32 where "MapExecute = 4"
definition MapUser :: u32 where "MapUser = 8"
definition MapCacheDisable :: u32 where "MapCacheDisable = 16"
definition MapWriteThrough :: u32 where "MapWriteThrough = 32"

definition PB_Present :: u64 where "PB_Present = 1"
definition PB_ReadWrite :: u64 where "PB_ReadWrite = 2"
definition PB_User :: u64 where "PB_User = 4"
definition PB_WriteThrough :: u64 where "PB_WriteThrough = 8"
definition PB_CacheDisable :: u64 where "PB_CacheDisable = 16"
definition PB_NoExecute :: u64 where "PB_NoExecute = 0x8000000000000000"

definition ppn_mask :: u64 where
  "ppn_mask = 0x000FFFFFFFFFF000"

definition va_offset :: "u64 \<Rightarrow> u64" where
  "va_offset va = va AND 0xFFF"

definition va_pt_index :: "u64 \<Rightarrow> u64" where
  "va_pt_index va = drop_bit 12 va AND 0x1FF"

definition va_pd_index :: "u64 \<Rightarrow> u64" where
  "va_pd_index va = drop_bit 21 va AND 0x1FF"

definition va_pdp_index :: "u64 \<Rightarrow> u64" where
  "va_pdp_index va = drop_bit 30 va AND 0x1FF"

definition va_pml4_index :: "u64 \<Rightarrow> u64" where
  "va_pml4_index va = drop_bit 39 va AND 0x1FF"

definition va_canonical_bits :: "u64 \<Rightarrow> u64" where
  "va_canonical_bits va = drop_bit 48 va AND 0xFFFF"

subsection \<open>Tables\<close>

text \<open>\<open>memset(virt, 0, 0x1000)\<close> on the words of a page (see \<open>Lib_Memory\<close> for the bytes).\<close>

definition zero_page :: "u64 \<Rightarrow> 'a machine_scheme \<Rightarrow> 'a machine_scheme" where
  "zero_page virt s = s\<lparr>mem := (\<lambda>a. if unat (a - virt) < 4096 then 0 else mem s a)\<rparr>"

text \<open>The address of \<open>table[i]\<close>.\<close>

definition entry_addr :: "u64 \<Rightarrow> u64 \<Rightarrow> u64" where
  "entry_addr table i = table + 8 * i"

definition alloc_table :: "'a pma_scheme \<Rightarrow> ((u64 \<times> u64) \<times> 'a pma_scheme) option" where
  "alloc_table s =
     do { (phys, s) \<leftarrow> alloc_page s;
          if phys = 0 then Some ((0, 0), s)
          else let virt = phys + get_memory_slide s
               in Some ((virt, phys), zero_page virt s) }"

text \<open>\<open>e\<close> is the address of the entry the code passes by reference; result 0 is the null pointer.\<close>

definition ensure_table :: "u64 \<Rightarrow> 'a pma_scheme \<Rightarrow> (u64 \<times> 'a pma_scheme) option" where
  "ensure_table e s =
     (if mem s e AND PB_Present = 0 then
        do { ((virt_table, phys_table), s) \<leftarrow> alloc_table s;
             if virt_table = 0 then Some (0, s)
             else
               let entry = (phys_table AND ppn_mask) OR PB_Present OR PB_ReadWrite OR PB_User
               in Some (virt_table, s\<lparr>mem := (mem s)(e := entry)\<rparr>) }
      else Some ((mem s e AND ppn_mask) + get_memory_slide s, s))"

definition entry_flags :: "u32 \<Rightarrow> u64" where
  "entry_flags flags =
     (let f = PB_Present;
          f = (if is_flag_set flags MapWrite then f OR PB_ReadWrite else f);
          f = (if is_flag_set flags MapUser then f OR PB_User else f);
          f = (if is_flag_set flags MapWriteThrough then f OR PB_WriteThrough else f);
          f = (if is_flag_set flags MapCacheDisable then f OR PB_CacheDisable else f);
          f = (if \<not> is_flag_set flags MapExecute then f OR PB_NoExecute else f)
      in f)"

definition map_virtual ::
  "u64 \<Rightarrow> u64 \<Rightarrow> u64 \<Rightarrow> u32 \<Rightarrow> 'a pma_scheme \<Rightarrow> (bool \<times> 'a pma_scheme) option" where
  "map_virtual pagemap_virtual virt phys flags s =
     (let pml4_i = drop_bit 39 virt AND 0x1FF;
          pdpt_i = drop_bit 30 virt AND 0x1FF;
          pd_i = drop_bit 21 virt AND 0x1FF;
          pt_i = drop_bit 12 virt AND 0x1FF
      in
        if virt = 0 \<or> \<not> check_aligned virt PAGE_SIZE then Some (False, set_error IncorrectParameter s)
        else if phys = 0 \<or> \<not> check_aligned phys PAGE_SIZE then
          Some (False, set_error IncorrectParameter s)
        else if pagemap_virtual = 0 then Some (False, set_error IncorrectParameter s)
        else do {
          (pdpt, s) \<leftarrow> ensure_table (entry_addr pagemap_virtual pml4_i) s;
          if pdpt = 0 then Some (False, s) else do {
          (pd, s) \<leftarrow> ensure_table (entry_addr pdpt pdpt_i) s;
          if pd = 0 then Some (False, s) else do {
          (pt, s) \<leftarrow> ensure_table (entry_addr pd pd_i) s;
          if pt = 0 then Some (False, s) else
            let s = s\<lparr>mem := (mem s)(entry_addr pt pt_i := (phys AND ppn_mask) OR entry_flags flags)\<rparr>;
                s = (if get_cr3 s = pagemap_virtual - get_memory_slide s then invlpg virt s else s)
            in Some (True, s) }}})"

subsection \<open>Specification: the processor's walk\<close>

definition present :: "u64 \<Rightarrow> bool" where
  "present e \<longleftrightarrow> e AND PB_Present \<noteq> 0"

definition child :: "'a machine_scheme \<Rightarrow> u64 \<Rightarrow> u64" where
  "child s e = (e AND ppn_mask) + hhdm_offset s"

text \<open>The table reached from \<open>t\<close> by following the entries at the given indices.\<close>

fun table_at :: "'a machine_scheme \<Rightarrow> u64 \<Rightarrow> u64 list \<Rightarrow> u64 option" where
  "table_at s t [] = Some t"
| "table_at s t (i # is) =
     (if present (mem s (entry_addr t i)) then table_at s (child s (mem s (entry_addr t i))) is
      else None)"

definition translate :: "'a machine_scheme \<Rightarrow> u64 \<Rightarrow> u64 \<Rightarrow> u64 option" where
  "translate s root v =
     (case table_at s root [va_pml4_index v, va_pdp_index v, va_pd_index v] of
        None \<Rightarrow> None
      | Some t \<Rightarrow> (let e = mem s (entry_addr t (va_pt_index v)) in if present e then Some e else None))"

definition page_path :: "u64 \<Rightarrow> u64 list" where
  "page_path v = [va_pml4_index v, va_pdp_index v, va_pd_index v, va_pt_index v]"

definition short_path :: "u64 list \<Rightarrow> bool" where
  "short_path is \<longleftrightarrow> length is \<le> 3 \<and> (\<forall>i \<in> set is. unat i < 512)"

text \<open>
  The page table is a tree of page-sized tables outside the allocator's memory: no table is
  reached along two paths.
\<close>

definition pt_wf :: "'a machine_scheme \<Rightarrow> u64 \<Rightarrow> nat set \<Rightarrow> bool" where
  "pt_wf s root A \<longleftrightarrow>
     (\<forall>is t. short_path is \<longrightarrow> table_at s root is = Some t \<longrightarrow>
        t \<noteq> 0 \<and> 4096 dvd unat t \<and> fits t PAGE_SIZE \<and> span t PAGE_SIZE \<inter> A = {})
     \<and> (\<forall>is js t. short_path is \<longrightarrow> short_path js \<longrightarrow>
          table_at s root is = Some t \<longrightarrow> table_at s root js = Some t \<longrightarrow> is = js)"

text \<open>The allocator's memory is seen through the direct map, at frame numbers an entry can hold.\<close>

definition direct_mapped :: "'a machine_scheme \<Rightarrow> nat set \<Rightarrow> bool" where
  "direct_mapped s A \<longleftrightarrow> 4096 dvd unat (hhdm_offset s)
     \<and> A \<subseteq> {unat (hhdm_offset s) ..< unat (hhdm_offset s) + 2 ^ 52}"


section \<open>Entries and tables\<close>

definition good_table :: "nat set \<Rightarrow> u64 \<Rightarrow> bool" where
  "good_table A t \<longleftrightarrow>
     t \<noteq> 0 \<and> 4096 dvd unat t \<and> fits t PAGE_SIZE \<and> span t PAGE_SIZE \<inter> A = {}"

lemma unat_entry_addr:
  assumes "fits t PAGE_SIZE" "unat i < 512"
  shows "unat (entry_addr t i) = unat t + 8 * unat i"
proof -
  have "unat (8 * i) = 8 * unat i"
    using assms(2) by (simp add: unat_word_ariths)
  then show ?thesis
    using assms by (simp add: entry_addr_def unat_add_nowrap fits_def)
qed

lemma entry_addr_in_span:
  "fits t PAGE_SIZE \<Longrightarrow> unat i < 512 \<Longrightarrow> unat (entry_addr t i) \<in> span t PAGE_SIZE"
  by (simp add: unat_entry_addr span_def)

lemma word_index_unique:
  assumes "4096 * k + 8 * a = 4096 * l + 8 * b" "a < 512" "b < (512::nat)"
  shows "k = l \<and> a = b"
proof -
  have "(4096 * k + 8 * a) div 4096 = k" "(4096 * l + 8 * b) div 4096 = l"
    using assms(2,3) by (simp_all add: div_add1_eq)
  then show ?thesis using assms(1) by simp
qed

lemma entry_addr_inj:
  assumes "good_table A t" "good_table B t'" "unat i < 512" "unat j < 512"
    and "entry_addr t i = entry_addr t' j"
  shows "t = t' \<and> i = j"
proof -
  have "4096 dvd unat t" "4096 dvd unat t'"
    using assms(1,2) by (simp_all add: good_table_def)
  then obtain k l where k: "unat t = 4096 * k" and l: "unat t' = 4096 * l"
    unfolding dvd_def by blast
  have "unat t + 8 * unat i = unat t' + 8 * unat j"
    using assms by (metis good_table_def unat_entry_addr)
  then have e: "4096 * k + 8 * unat i = 4096 * l + 8 * unat j" using k l by simp
  have "k = l \<and> unat i = unat j" using word_index_unique [OF e assms(3,4)] .
  then show ?thesis using k l by (simp add: word_unat_eq_iff)
qed

lemma entry_addr_free: "good_table A t \<Longrightarrow> unat i < 512 \<Longrightarrow> unat (entry_addr t i) \<notin> A"
  using entry_addr_in_span [of t i] by (auto simp: good_table_def)

lemma good_table_mono: "good_table A t \<Longrightarrow> B \<subseteq> A \<Longrightarrow> good_table B t"
  by (auto simp: good_table_def)

lemma index_bound:
  "unat (va_pml4_index v) < 512" "unat (va_pdp_index v) < 512"
  "unat (va_pd_index v) < 512" "unat (va_pt_index v) < 512"
proof -
  have "unat (x AND 0x1FF) < 512" for x :: u64
    using mask_9 unat_and_mask [of x 9] by simp
  then show "unat (va_pml4_index v) < 512" "unat (va_pdp_index v) < 512"
    "unat (va_pd_index v) < 512" "unat (va_pt_index v) < 512"
    by (simp_all add: va_pml4_index_def va_pdp_index_def va_pd_index_def va_pt_index_def)
qed

lemma short_path_append: "short_path (is @ js) \<Longrightarrow> short_path is"
  by (auto simp: short_path_def)

lemma short_path_va:
  "short_path []" "short_path [va_pml4_index v]" "short_path [va_pml4_index v, va_pdp_index v]"
  "short_path [va_pml4_index v, va_pdp_index v, va_pd_index v]"
  by (auto simp: short_path_def index_bound)

lemma pt_wf_table:
  "pt_wf s root A \<Longrightarrow> short_path is \<Longrightarrow> table_at s root is = Some t \<Longrightarrow> good_table A t"
  by (simp add: pt_wf_def good_table_def)

lemma pt_wf_unique:
  "pt_wf s root A \<Longrightarrow> short_path is \<Longrightarrow> short_path js \<Longrightarrow> table_at s root is = Some t
     \<Longrightarrow> table_at s root js = Some t \<Longrightarrow> is = js"
  unfolding pt_wf_def by blast

lemma pt_wfI:
  assumes "\<And>is t. short_path is \<Longrightarrow> table_at s root is = Some t \<Longrightarrow> good_table A t"
    and "\<And>is js t. short_path is \<Longrightarrow> short_path js \<Longrightarrow> table_at s root is = Some t
           \<Longrightarrow> table_at s root js = Some t \<Longrightarrow> is = js"
  shows "pt_wf s root A"
  using assms unfolding pt_wf_def good_table_def by blast

section \<open>Walks\<close>

lemma table_at_append:
  "table_at s t (is @ js) = Option.bind (table_at s t is) (\<lambda>u. table_at s u js)"
  by (induction "is" arbitrary: t) auto

lemma table_at_frame:
  assumes "hhdm_offset s' = hhdm_offset s"
    and "\<And>ps k qs u. is = ps @ k # qs \<Longrightarrow> table_at s t ps = Some u
           \<Longrightarrow> mem s' (entry_addr u k) = mem s (entry_addr u k)"
  shows "table_at s' t is = table_at s t is"
  using assms(2)
proof (induction "is" arbitrary: t)
  case (Cons i "is")
  have e: "mem s' (entry_addr t i) = mem s (entry_addr t i)"
    using Cons.prems [of "[]" i "is" t] by simp
  have c: "child s' x = child s x" for x by (simp add: child_def assms(1))
  have "table_at s' (child s (mem s (entry_addr t i))) is = table_at s (child s (mem s (entry_addr t i))) is"
    if "present (mem s (entry_addr t i))"
  proof (rule Cons.IH)
    fix ps k qs u
    assume "is = ps @ k # qs" "table_at s (child s (mem s (entry_addr t i))) ps = Some u"
    then show "mem s' (entry_addr u k) = mem s (entry_addr u k)"
      using Cons.prems [of "i # ps" k qs u] that by simp
  qed
  then show ?case by (simp add: e c)
qed simp

lemma translate_eq:
  "translate s root v = Option.bind (table_at s root [va_pml4_index v, va_pdp_index v, va_pd_index v])
     (\<lambda>t. if present (mem s (entry_addr t (va_pt_index v))) then Some (mem s (entry_addr t (va_pt_index v)))
          else None)"
  by (simp add: translate_def Let_def split: option.splits)

text \<open>The tables do not change when the words of the tables do not.\<close>

lemma walks_unchanged:
  assumes "pt_wf s root A" "hhdm_offset s' = hhdm_offset s"
    and "\<And>x. unat x \<notin> A \<Longrightarrow> mem s' x = mem s x"
  shows "short_path is \<Longrightarrow> table_at s' root is = table_at s root is"
    and "translate s' root v = translate s root v"
    and "B \<subseteq> A \<Longrightarrow> pt_wf s' root B"
proof -
  have w: "table_at s' root is = table_at s root is" if "short_path is" for "is"
  proof (rule table_at_frame [OF assms(2)])
    fix ps k qs u
    assume a: "is = ps @ k # qs" "table_at s root ps = Some u"
    then have "good_table A u" "unat k < 512"
      using that pt_wf_table [OF assms(1), of ps u] by (auto simp: short_path_def)
    then show "mem s' (entry_addr u k) = mem s (entry_addr u k)"
      by (simp add: entry_addr_free assms(3))
  qed
  then show "short_path is \<Longrightarrow> table_at s' root is = table_at s root is" .
  let ?p = "[va_pml4_index v, va_pdp_index v, va_pd_index v]"
  have "mem s' (entry_addr t (va_pt_index v)) = mem s (entry_addr t (va_pt_index v))"
    if "table_at s root ?p = Some t" for t
    using pt_wf_table [OF assms(1) short_path_va(4) that] index_bound(4)
    by (simp add: entry_addr_free assms(3))
  then show "translate s' root v = translate s root v"
    unfolding translate_eq w [OF short_path_va(4)]
    by (cases "table_at s root ?p") auto
  show "pt_wf s' root B" if "B \<subseteq> A"
  proof (rule pt_wfI)
    fix "is" t
    assume "short_path is" "table_at s' root is = Some t"
    then show "good_table B t"
      using pt_wf_table [OF assms(1)] w good_table_mono that by metis
  next
    fix "is" js t
    assume "short_path is" "short_path js" "table_at s' root is = Some t" "table_at s' root js = Some t"
    then show "is = js" using pt_wf_unique [OF assms(1)] w by metis
  qed
qed


section \<open>Growing the tree\<close>

lemma seg_cong:
  "(\<And>x. x \<in> hdrs bs \<Longrightarrow> m' x = m x) \<Longrightarrow> seg m' p bs q = seg m p bs q"
  by (induction bs arbitrary: p) auto

lemma pma_free_at_cong:
  assumes "pma_free_at s A" "m_head t = m_head s" "\<And>x. unat x \<in> A \<Longrightarrow> mem t x = mem s x"
  shows "pma_free_at t A"
proof -
  obtain bs where bs: "blocks_at s bs" "wf_blocks bs" "cover bs = A"
    using assms(1) by (auto simp: pma_free_at_def)
  have "seg (mem t) (m_head s) bs 0 = seg (mem s) (m_head s) bs 0"
    by (rule seg_cong) (use hdrs_cover [OF bs(2)] bs(3) assms(3) in blast)
  then show ?thesis
    using bs assms(2) unfolding pma_free_at_def blocks_at_def by auto
qed

lemma pma_free_at_0: "pma_free_at s A \<Longrightarrow> 0 \<notin> A"
proof
  assume "pma_free_at s A" "0 \<in> A"
  then obtain bs where "wf_blocks bs" "0 \<in> cover bs" by (auto simp: pma_free_at_def)
  then show False
    by (induction bs) (auto simp: wf_blocks_Cons wf_block_def span_def unat_eq_0)
qed

lemma bit_ppn_mask: "bit ppn_mask k \<longleftrightarrow> 12 \<le> k \<and> k < 52"
proof -
  have "ppn_mask = push_bit 12 (mask 40)"
    by (simp add: ppn_mask_def mask_eq_exp_minus_1 push_bit_eq_mult)
  then have "bit ppn_mask k \<longleftrightarrow> bit (push_bit 12 (mask 40) :: u64) k" by simp
  also have "\<dots> \<longleftrightarrow> 12 \<le> k \<and> k < 52" by (auto simp: bit_simps)
  finally show ?thesis .
qed

lemma and_ppn_mask:
  assumes "4096 dvd unat x" "unat x < 2 ^ 52"
  shows "x AND ppn_mask = x"
proof (rule bit_word_eqI)
  fix k assume k: "k < LENGTH(64)"
  have "bit x k \<longrightarrow> 12 \<le> k \<and> k < 52"
  proof
    assume b: "bit x k"
    then have bn: "bit (unat x) k" by (simp add: bit_unsigned_iff)
    have "\<not> bit (unat x) k" if "k < 12"
    proof -
      have "take_bit 12 (unat x) = 0" using assms(1) by (simp add: take_bit_eq_mod dvd_eq_mod_eq_0)
      then show ?thesis using that by (metis bit_take_bit_iff bit_0_eq bot_apply bot_bool_def)
    qed
    moreover have "\<not> bit (unat x) k" if "52 \<le> k"
    proof -
      have "take_bit 52 (unat x) = unat x" using assms(2) by (simp add: take_bit_nat_eq_self)
      then show ?thesis using that by (metis bit_take_bit_iff linorder_not_less)
    qed
    ultimately show "12 \<le> k \<and> k < 52" using bn by (meson not_le)
  qed
  then show "bit (x AND ppn_mask) k = bit x k"
    by (auto simp: bit_and_iff bit_ppn_mask)
qed

text \<open>The entry that links a table at page \<open>p\<close> is present and leads to it.\<close>

definition table_entry :: "u64 \<Rightarrow> u64" where
  "table_entry p = (p AND ppn_mask) OR PB_Present OR PB_ReadWrite OR PB_User"

lemma table_entry_links: "present (table_entry p)" "table_entry p AND ppn_mask = p AND ppn_mask"
proof -
  have "bit (table_entry p AND PB_Present) 0"
    by (simp add: table_entry_def PB_Present_def bit_simps)
  then show "present (table_entry p)" unfolding present_def by force
  have "(PB_Present OR PB_ReadWrite OR PB_User) AND ppn_mask = 0"
    by (simp add: PB_Present_def PB_ReadWrite_def PB_User_def ppn_mask_def)
  then show "table_entry p AND ppn_mask = p AND ppn_mask"
    by (simp add: table_entry_def bit.conj_disj_distrib2 and.assoc)
qed

lemma zero_page_frame [simp, frame_simps]:
  "hhdm_offset (zero_page v s) = hhdm_offset s" "cr3 (zero_page v s) = cr3 s"
  "m_head (zero_page v p) = m_head p"
  by (simp_all add: zero_page_def)

lemma span_diff: "fits t PAGE_SIZE \<Longrightarrow> unat x \<in> span t PAGE_SIZE \<longleftrightarrow> unat (x - t) < 4096"
proof -
  assume f: "fits t PAGE_SIZE"
  show ?thesis
  proof
    assume "unat x \<in> span t PAGE_SIZE"
    then show "unat (x - t) < 4096" by (auto simp: span_def unat_sub_le)
  next
    assume d: "unat (x - t) < 4096"
    have "unat (t + (x - t)) = unat t + unat (x - t)"
      using f d by (intro unat_add_nowrap) (simp add: fits_def)
    then show "unat x \<in> span t PAGE_SIZE" using d by (simp add: span_def)
  qed
qed

lemma mem_zero_page:
  "fits v PAGE_SIZE \<Longrightarrow> mem (zero_page v s) x = (if unat x \<in> span v PAGE_SIZE then 0 else mem s x)"
  by (simp add: zero_page_def span_diff)

lemma present_0 [simp]: "\<not> present 0"
  by (simp add: present_def)

text \<open>A zeroed table \<open>T\<close> is linked at an empty entry \<open>i\<close> of the table reached by \<open>is\<close>.\<close>

lemma link_table:
  assumes wf: "pt_wf s root A" and t: "table_at s root is = Some t"
    and i: "short_path (is @ [i])"
    and absent: "\<not> present (mem s (entry_addr t i))"
    and off: "hhdm_offset s' = hhdm_offset s"
    and T: "good_table B T" "span T PAGE_SIZE \<subseteq> A" "B \<subseteq> A"
    and entry: "present (mem s' (entry_addr t i))" "child s (mem s' (entry_addr t i)) = T"
    and zero: "\<And>x. unat x \<in> span T PAGE_SIZE \<Longrightarrow> mem s' x = 0"
    and same: "\<And>x. unat x \<notin> A \<Longrightarrow> x \<noteq> entry_addr t i \<Longrightarrow> mem s' x = mem s x"
  shows "pt_wf s' root B" "table_at s' root (is @ [i]) = Some T"
    "translate s' root v = translate s root v"
    "short_path js \<Longrightarrow> table_at s root js = Some u \<Longrightarrow> table_at s' root js = Some u"
    "short_path js \<Longrightarrow> table_at s' root js = Some u \<Longrightarrow> table_at s root js = Some u \<or> u = T"
proof -
  have pis: "short_path is" using i by (rule short_path_append)
  have ib: "unat i < 512" and len: "length is \<le> 2" using i by (auto simp: short_path_def)
  have gt: "good_table A t" by (rule pt_wf_table [OF wf pis t])
  have stay: "mem s' (entry_addr u k) = mem s (entry_addr u k)"
    if "short_path ps" "table_at s root ps = Some u" "unat k < 512" "ps \<noteq> is \<or> k \<noteq> i" for ps u k
  proof (rule same)
    show "unat (entry_addr u k) \<notin> A"
      using entry_addr_free [OF pt_wf_table [OF wf that(1,2)] that(3)] .
    show "entry_addr u k \<noteq> entry_addr t i"
      using entry_addr_inj [OF pt_wf_table [OF wf that(1,2)] gt that(3) ib]
        pt_wf_unique [OF wf that(1) pis that(2)] t that(4) by blast
  qed
  have old: "table_at s' root js = table_at s root js"
    if "short_path js" "\<nexists>ks. js = is @ i # ks" for js
  proof (rule table_at_frame [OF off])
    fix ps k qs u
    assume a: "js = ps @ k # qs" "table_at s root ps = Some u"
    have "short_path ps" "unat k < 512" using that(1) a(1) by (auto simp: short_path_def)
    moreover have "ps \<noteq> is \<or> k \<noteq> i" using that(2) a(1) by blast
    ultimately show "mem s' (entry_addr u k) = mem s (entry_addr u k)"
      using stay a(2) by blast
  qed
  have none: "table_at s root (is @ i # ks) = None" for ks
    using t absent by (simp add: table_at_append)
  have t': "table_at s' root is = Some t" using old [OF pis] t by simp
  have child': "child s' x = child s x" for x by (simp add: child_def off)
  have new: "table_at s' root (is @ i # ks) = (if ks = [] then Some T else None)"
    if "short_path (is @ i # ks)" for ks
  proof (cases ks)
    case Nil
    then show ?thesis using t' entry by (simp add: table_at_append child')
  next
    case (Cons k ks')
    have "unat k < 512" using that Cons by (simp add: short_path_def)
    then have "mem s' (entry_addr T k) = 0"
      using T(1) by (intro zero entry_addr_in_span) (auto simp: good_table_def)
    then show ?thesis using t' entry Cons by (simp add: table_at_append child')
  qed
  show "table_at s' root (is @ [i]) = Some T" using new [of "[]"] i by simp
  show keep: "table_at s' root js = Some u" if "short_path js" "table_at s root js = Some u" for js u
    using old [OF that(1)] none that(2) by fastforce
  have inv: "table_at s root js = Some u \<or> js = is @ [i] \<and> u = T"
    if "short_path js" "table_at s' root js = Some u" for js u
  proof (cases "\<exists>ks. js = is @ i # ks")
    case True
    then obtain ks where ks: "js = is @ i # ks" by blast
    then show ?thesis using new [of ks] that by (auto split: if_splits)
  next
    case False
    then show ?thesis using old that by simp
  qed
  show "table_at s root js = Some u \<or> u = T" if "short_path js" "table_at s' root js = Some u" for js u
    using inv [OF that] by blast
  have "unat T \<in> span T PAGE_SIZE" by (simp add: span_def)
  then have fresh: "u \<noteq> T" if "good_table A u" for u
    using that T(2) unfolding good_table_def by blast
  show "pt_wf s' root B"
  proof (rule pt_wfI)
    fix js u
    assume "short_path js" "table_at s' root js = Some u"
    then show "good_table B u"
      using inv [of js u] pt_wf_table [OF wf, of js u] good_table_mono [OF _ T(3)] T(1) by blast
  next
    fix js ks u
    assume "short_path js" "short_path ks" "table_at s' root js = Some u" "table_at s' root ks = Some u"
    then show "js = ks"
      using inv [of js u] inv [of ks u] fresh pt_wf_table [OF wf] pt_wf_unique [OF wf] by blast
  qed
  let ?p = "[va_pml4_index v, va_pdp_index v, va_pd_index v]"
  show "translate s' root v = translate s root v"
  proof (cases "\<exists>ks. ?p = is @ i # ks")
    case True
    then obtain ks where ks: "?p = is @ i # ks" by blast
    have "mem s' (entry_addr T (va_pt_index v)) = 0"
      using T(1) by (intro zero entry_addr_in_span index_bound) (auto simp: good_table_def)
    then show ?thesis
      unfolding translate_eq ks using new [of ks] none [of ks] short_path_va(4) [of v] ks by simp
  next
    case False
    then have e: "table_at s' root ?p = table_at s root ?p" by (rule old [OF short_path_va(4)])
    have "mem s' (entry_addr u (va_pt_index v)) = mem s (entry_addr u (va_pt_index v))"
      if "table_at s root ?p = Some u" for u
    proof (rule stay [OF short_path_va(4) that index_bound(4)])
      have "length ?p \<noteq> length is" using len by simp
      then show "?p \<noteq> is \<or> va_pt_index v \<noteq> i" by metis
    qed
    then show ?thesis unfolding translate_eq e by (cases "table_at s root ?p") auto
  qed
qed


section \<open>The steps of the walk\<close>

definition vm_ok :: "'a pma_scheme \<Rightarrow> u64 \<Rightarrow> nat set \<Rightarrow> bool" where
  "vm_ok s root A \<longleftrightarrow> pt_wf s root A \<and> pma_free_at s A \<and> direct_mapped s A"

text \<open>Only memory and the list head have changed.\<close>

definition only_mem :: "'a pma_scheme \<Rightarrow> 'a pma_scheme \<Rightarrow> bool" where
  "only_mem s t \<longleftrightarrow> t = s\<lparr>m_head := m_head t, mem := mem t\<rparr>"

lemma only_mem_refl [simp]: "only_mem s s"
  by (simp add: only_mem_def)

lemma only_mem_upd [simp]: "only_mem s (t\<lparr>mem := m\<rparr>) = only_mem s t"
proof
  assume "only_mem s t"
  then have t: "t = s\<lparr>m_head := m_head t, mem := mem t\<rparr>" by (simp add: only_mem_def)
  show "only_mem s (t\<lparr>mem := m\<rparr>)" unfolding only_mem_def by (subst t) simp
next
  assume "only_mem s (t\<lparr>mem := m\<rparr>)"
  then have "t\<lparr>mem := m\<rparr> = s\<lparr>m_head := m_head t, mem := m\<rparr>" by (simp add: only_mem_def)
  then have "(t\<lparr>mem := m\<rparr>)\<lparr>mem := mem t\<rparr> = (s\<lparr>m_head := m_head t, mem := m\<rparr>)\<lparr>mem := mem t\<rparr>"
    by (rule arg_cong)
  then show "only_mem s t" by (simp add: only_mem_def)
qed

lemma only_mem_trans: "only_mem s t \<Longrightarrow> only_mem t u \<Longrightarrow> only_mem s u"
  unfolding only_mem_def
proof -
  assume t: "t = s\<lparr>m_head := m_head t, mem := mem t\<rparr>" and u: "u = t\<lparr>m_head := m_head u, mem := mem u\<rparr>"
  show "u = s\<lparr>m_head := m_head u, mem := mem u\<rparr>"
    by (subst u, subst t) simp
qed

lemma only_mem_fields:
  assumes "only_mem s t"
  shows "hhdm_offset t = hhdm_offset s" "cr3 t = cr3 s" "percpus t = percpus s" "msrs t = msrs s"
    "invlpg_log t = invlpg_log s" "last_error t = last_error s"
proof -
  note t = assms [unfolded only_mem_def]
  show "hhdm_offset t = hhdm_offset s" by (subst t) simp
  show "cr3 t = cr3 s" by (subst t) simp
  show p: "percpus t = percpus s" by (subst t) simp
  show m: "msrs t = msrs s" by (subst t) simp
  show "invlpg_log t = invlpg_log s" by (subst t) simp
  show "last_error t = last_error s" by (simp add: last_error_def get_percpu_def rdmsr_eq p m)
qed

lemma alloc_page_only_mem:
  assumes "pma_free_at s A" "alloc_page s = Some (p, t)"
  shows "only_mem s t"
proof -
  obtain bs where bs: "blocks_at s bs" "wf_blocks bs"
    using assms(1) by (auto simp: pma_free_at_def)
  obtain r bs' where r: "alloc_list PAGE_SIZE bs = (r, bs')" by (cases "alloc_list PAGE_SIZE bs")
  have "ok_size PAGE_SIZE" by (simp add: ok_size_def)
  from fla_alloc_step [OF bs this r] assms(2)
  have "t = s\<lparr>mem := mem t, m_head := m_head t\<rparr>"
    by (auto simp: alloc_page_def same_outside_def)
  also have "\<dots> = s\<lparr>m_head := m_head t, mem := mem t\<rparr>" by simp
  finally show ?thesis by (simp only: only_mem_def)
qed

lemma direct_mapped_mono:
  "direct_mapped s A \<Longrightarrow> B \<subseteq> A \<Longrightarrow> hhdm_offset t = hhdm_offset s \<Longrightarrow> direct_mapped t B"
  by (auto simp: direct_mapped_def)

lemma frame_of_table:
  assumes "direct_mapped s A" "good_table B (p + hhdm_offset s)"
    and "span (p + hhdm_offset s) PAGE_SIZE \<subseteq> A"
  shows "p AND ppn_mask = p"
proof -
  let ?T = "p + hhdm_offset s"
  have "unat ?T \<in> A" using assms(3) by (auto simp: span_def)
  then have b: "unat (hhdm_offset s) \<le> unat ?T" "unat ?T < unat (hhdm_offset s) + 2 ^ 52"
    and o: "4096 dvd unat (hhdm_offset s)"
    using assms(1) by (auto simp: direct_mapped_def)
  have "unat (?T - hhdm_offset s) = unat ?T - unat (hhdm_offset s)" using b(1) by (rule unat_sub_le)
  then have p: "unat p = unat ?T - unat (hhdm_offset s)" by simp
  have "unat p < 2 ^ 52" "4096 dvd unat p"
    using p b o assms(2) by (auto simp: good_table_def intro: dvd_diff_nat)
  then show ?thesis by (intro and_ppn_mask)
qed

lemma ensure_table_step:
  assumes ok: "vm_ok s root A" and t: "table_at s root is = Some t" and i: "short_path (is @ [i])"
  shows "\<exists>r s' B. ensure_table (entry_addr t i) s = Some (r, s') \<and> vm_ok s' root B \<and> B \<subseteq> A
    \<and> only_mem s s' \<and> (\<forall>v. translate s' root v = translate s root v)
    \<and> (r \<noteq> 0 \<longrightarrow> table_at s' root (is @ [i]) = Some r)"
proof -
  let ?e = "entry_addr t i"
  have wf: "pt_wf s root A" and pm: "pma_free_at s A" and dm: "direct_mapped s A"
    using ok by (auto simp: vm_ok_def)
  have pis: "short_path is" using i by (rule short_path_append)
  have ib: "unat i < 512" using i by (simp add: short_path_def)
  have gt: "good_table A t" by (rule pt_wf_table [OF wf pis t])
  have eA: "unat ?e \<notin> A" by (rule entry_addr_free [OF gt ib])
  show ?thesis
  proof (cases "present (mem s ?e)")
    case True
    then have "ensure_table ?e s = Some (child s (mem s ?e), s)"
      by (simp add: ensure_table_def present_def child_def get_memory_slide_def)
    moreover have "table_at s root (is @ [i]) = Some (child s (mem s ?e))"
      using t True by (simp add: table_at_append)
    ultimately show ?thesis using ok by auto
  next
    case False
    obtain p s1 B where a: "alloc_page s = Some (p, s1)" "pma_free_at s1 B" "B \<subseteq> A"
      "hhdm_offset s1 = hhdm_offset s" "\<And>x. unat x \<notin> A \<Longrightarrow> mem s1 x = mem s x"
      "p \<noteq> 0 \<longrightarrow> 4096 dvd unat (p + hhdm_offset s) \<and> fits (p + hhdm_offset s) PAGE_SIZE
         \<and> page_span (hhdm_offset s) p \<subseteq> A - B"
      using phys.alloc_ok [OF pm] by blast
    have om: "only_mem s s1" by (rule alloc_page_only_mem [OF pm a(1)])
    have dm1: "direct_mapped u B" if "hhdm_offset u = hhdm_offset s" for u :: "'a pma_scheme"
      by (rule direct_mapped_mono [OF dm a(3) that])
    show ?thesis
    proof (cases "p = 0")
      case True
      then have "ensure_table ?e s = Some (0, s1)"
        using False a(1) by (simp add: ensure_table_def alloc_table_def present_def)
      moreover have "vm_ok s1 root B"
        using walks_unchanged(3) [OF wf a(4,5) a(3)] a(2) dm1 [OF a(4)] by (simp add: vm_ok_def)
      moreover have "translate s1 root v = translate s root v" for v
        by (rule walks_unchanged(2) [OF wf a(4,5)])
      ultimately show ?thesis using a(3) om by blast
    next
      case False: False
      let ?T = "p + hhdm_offset s"
      have T: "4096 dvd unat ?T" "fits ?T PAGE_SIZE" "span ?T PAGE_SIZE \<subseteq> A - B"
        using a(6) False by (auto simp: page_span_def)
      have "unat ?T \<in> span ?T PAGE_SIZE" by (simp add: span_def)
      then have "unat ?T \<in> A" using T(3) by blast
      then have "?T \<noteq> 0" using pma_free_at_0 [OF pm] by (metis unat_0)
      then have gT: "good_table B ?T" using T by (auto simp: good_table_def)
      have TA: "span ?T PAGE_SIZE \<subseteq> A" using T(3) by blast
      let ?s' = "(zero_page ?T s1)\<lparr>mem := (mem (zero_page ?T s1))(?e := table_entry p)\<rparr>"
      have eT: "unat ?e \<notin> span ?T PAGE_SIZE" using eA TA by blast
      have run: "ensure_table ?e s = Some (?T, ?s')"
        using \<open>\<not> present (mem s ?e)\<close> a(1,4) False \<open>?T \<noteq> 0\<close>
        by (simp add: ensure_table_def alloc_table_def present_def get_memory_slide_def
            table_entry_def Let_def)
      have off: "hhdm_offset ?s' = hhdm_offset s" using a(4) by simp
      have entry: "present (mem ?s' ?e)" "child s (mem ?s' ?e) = ?T"
        using table_entry_links [of p] frame_of_table [OF dm gT TA] by (simp_all add: child_def)
      have zero: "mem ?s' x = 0" if "unat x \<in> span ?T PAGE_SIZE" for x
        using that eT T(2) by (auto simp: mem_zero_page)
      have same: "mem ?s' x = mem s x" if "unat x \<notin> A" "x \<noteq> ?e" for x
        using that TA T(2) a(5) by (auto simp: mem_zero_page)
      note link = link_table [OF wf t i \<open>\<not> present (mem s ?e)\<close> off gT TA a(3) entry zero same]
      have "pma_free_at ?s' B"
      proof (rule pma_free_at_cong [OF a(2)])
        show "mem ?s' x = mem s1 x" if "unat x \<in> B" for x
          using that T(2,3) eA a(3) by (auto simp: mem_zero_page)
      qed simp
      then have "vm_ok ?s' root B" using link(1) dm1 [OF off] by (simp add: vm_ok_def)
      moreover have "only_mem s ?s'" using om by (simp add: zero_page_def)
      ultimately show ?thesis using run link(2,3) a(3) by blast
    qed
  qed
qed

text \<open>Writing a leaf entry.\<close>

lemma write_leaf:
  assumes ok: "vm_ok s root A"
    and t: "table_at s root [va_pml4_index v, va_pdp_index v, va_pd_index v] = Some t"
    and s': "s' = s\<lparr>mem := (mem s)(entry_addr t (va_pt_index v) := e)\<rparr>"
  shows "vm_ok s' root A"
    "page_path w \<noteq> page_path v \<Longrightarrow> translate s' root w = translate s root w"
    "present e \<Longrightarrow> translate s' root v = Some e"
    "short_path js \<Longrightarrow> table_at s' root js = table_at s root js"
proof -
  let ?p = "\<lambda>v. [va_pml4_index v, va_pdp_index v, va_pd_index v]"
  let ?e = "entry_addr t (va_pt_index v)"
  have wf: "pt_wf s root A" and pm: "pma_free_at s A" and dm: "direct_mapped s A"
    using ok by (auto simp: vm_ok_def)
  have gt: "good_table A t" by (rule pt_wf_table [OF wf short_path_va(4) t])
  have eA: "unat ?e \<notin> A" by (rule entry_addr_free [OF gt index_bound(4)])
  have off: "hhdm_offset s' = hhdm_offset s" by (simp add: s')
  have stay: "mem s' (entry_addr u k) = mem s (entry_addr u k)"
    if "short_path ps" "table_at s root ps = Some u" "unat k < 512" "ps \<noteq> ?p v \<or> k \<noteq> va_pt_index v"
    for ps u k
    using entry_addr_inj [OF pt_wf_table [OF wf that(1,2)] gt that(3) index_bound(4)]
      pt_wf_unique [OF wf that(1) short_path_va(4) that(2), of v] t that(4)
    by (auto simp: s')
  have old: "table_at s' root js = table_at s root js" if "short_path js" for js
  proof (rule table_at_frame [OF off])
    fix ps k qs u
    assume a: "js = ps @ k # qs" "table_at s root ps = Some u"
    have "short_path ps" "unat k < 512" "length ps \<le> 2" using that a(1) by (auto simp: short_path_def)
    moreover from this have "ps \<noteq> ?p v" by auto
    ultimately show "mem s' (entry_addr u k) = mem s (entry_addr u k)"
      using stay a(2) by blast
  qed
  show "short_path js \<Longrightarrow> table_at s' root js = table_at s root js" by (rule old)
  have "pt_wf s' root A"
  proof (rule pt_wfI)
    fix js u
    assume "short_path js" "table_at s' root js = Some u"
    then show "good_table A u" using pt_wf_table [OF wf] old by metis
  next
    fix js ks u
    assume "short_path js" "short_path ks" "table_at s' root js = Some u" "table_at s' root ks = Some u"
    then show "js = ks" using pt_wf_unique [OF wf] old by metis
  qed
  moreover have "pma_free_at s' A"
    by (rule pma_free_at_cong [OF pm]) (use eA in \<open>auto simp: s'\<close>)
  ultimately show "vm_ok s' root A"
    using direct_mapped_mono [OF dm subset_refl off] by (simp add: vm_ok_def)
  show "translate s' root v = Some e" if "present e"
    using that t old [OF short_path_va(4) [of v]] by (simp add: translate_eq s')
  show "translate s' root w = translate s root w" if w: "page_path w \<noteq> page_path v"
  proof -
    have "mem s' (entry_addr u (va_pt_index w)) = mem s (entry_addr u (va_pt_index w))"
      if "table_at s root (?p w) = Some u" for u
      by (rule stay [OF short_path_va(4) that index_bound(4)]) (use w in \<open>auto simp: page_path_def\<close>)
    then show ?thesis
      unfolding translate_eq old [OF short_path_va(4)] by (cases "table_at s root (?p w)") auto
  qed
qed


section \<open>The whole call\<close>

lemma page_path_index:
  "drop_bit 39 v AND 0x1FF = va_pml4_index v" "drop_bit 30 v AND 0x1FF = va_pdp_index v"
  "drop_bit 21 v AND 0x1FF = va_pd_index v" "drop_bit 12 v AND 0x1FF = va_pt_index v"
  by (simp_all add: va_pml4_index_def va_pdp_index_def va_pd_index_def va_pt_index_def)

lemma present_bit: "present e = bit e 0"
  by (simp add: present_def PB_Present_def and_one_eq mod_2_eq_odd bit_0)

lemma PB_bits:
  "bit PB_Present n \<longleftrightarrow> n = 0" "bit PB_ReadWrite n \<longleftrightarrow> n = 1" "bit PB_User n \<longleftrightarrow> n = 2"
  "bit PB_WriteThrough n \<longleftrightarrow> n = 3" "bit PB_CacheDisable n \<longleftrightarrow> n = 4" "bit PB_NoExecute n \<longleftrightarrow> n = 63"
proof -
  have b: "PB_Present = 2 ^ 0" "PB_ReadWrite = 2 ^ 1" "PB_User = 2 ^ 2" "PB_WriteThrough = 2 ^ 3"
    "PB_CacheDisable = 2 ^ 4" "PB_NoExecute = 2 ^ 63"
    by (simp_all add: PB_Present_def PB_ReadWrite_def PB_User_def PB_WriteThrough_def
        PB_CacheDisable_def PB_NoExecute_def)
  have p: "bit ((2::u64) ^ k) n \<longleftrightarrow> n = k" if "k < 64" for k
    using that by (auto simp: bit_exp_iff)
  show "bit PB_Present n \<longleftrightarrow> n = 0" "bit PB_ReadWrite n \<longleftrightarrow> n = 1" "bit PB_User n \<longleftrightarrow> n = 2"
    "bit PB_WriteThrough n \<longleftrightarrow> n = 3" "bit PB_CacheDisable n \<longleftrightarrow> n = 4" "bit PB_NoExecute n \<longleftrightarrow> n = 63"
    unfolding b by (rule p; simp)+
qed

lemma entry_flags_bits:
  "bit (entry_flags flags) n \<longleftrightarrow> n = 0
     \<or> n = 1 \<and> is_flag_set flags MapWrite \<or> n = 2 \<and> is_flag_set flags MapUser
     \<or> n = 3 \<and> is_flag_set flags MapWriteThrough \<or> n = 4 \<and> is_flag_set flags MapCacheDisable
     \<or> n = 63 \<and> \<not> is_flag_set flags MapExecute"
proof -
  have "bit (if b then x OR y else x) n \<longleftrightarrow> bit x n \<or> b \<and> bit y n" for b and x y :: u64
    by (simp add: bit_or_iff)
  then show ?thesis unfolding entry_flags_def Let_def by (simp only: PB_bits) blast
qed

definition good_args :: "u64 \<Rightarrow> u64 \<Rightarrow> bool" where
  "good_args virt phys \<longleftrightarrow>
     virt \<noteq> 0 \<and> phys \<noteq> 0 \<and> check_aligned virt PAGE_SIZE \<and> check_aligned phys PAGE_SIZE"

text \<open>The state after a call: memory, list head and, on success, the log of \<open>invlpg\<close>.\<close>

lemma map_virtual_run:
  assumes ok: "vm_ok s root A" and args: "good_args virt phys"
  shows "\<exists>r t B. map_virtual root virt phys flags s = Some (r, t) \<and> vm_ok t root B \<and> B \<subseteq> A
    \<and> (\<forall>w. page_path w \<noteq> page_path virt \<or> \<not> r \<longrightarrow> translate t root w = translate s root w)
    \<and> (r \<longrightarrow> translate t root virt = Some ((phys AND ppn_mask) OR entry_flags flags))
    \<and> only_mem s (t\<lparr>invlpg_log := invlpg_log s\<rparr>)
    \<and> invlpg_log t = (if r \<and> cr3 s = root - hhdm_offset s then virt # invlpg_log s else invlpg_log s)"
proof -
  note idx = page_path_index [of virt]
  let ?i = "va_pml4_index virt" and ?j = "va_pdp_index virt" and ?k = "va_pd_index virt"
  have "good_table A root"
    using ok pt_wf_table [of s root A "[]" root] short_path_va(1) by (simp add: vm_ok_def)
  then have root: "root \<noteq> 0" by (simp add: good_table_def)
  have sp: "short_path ([] @ [?i])" "short_path ([?i] @ [?j])" "short_path ([?i, ?j] @ [?k])"
    using short_path_va by auto
  note start = args [unfolded good_args_def] root
  have fail: ?thesis
    if "map_virtual root virt phys flags s = Some (False, t)" "vm_ok t root B" "B \<subseteq> A"
      "only_mem s t" "\<forall>v. translate t root v = translate s root v" for t B
  proof -
    have "t\<lparr>invlpg_log := invlpg_log s\<rparr> = t" using only_mem_fields(5) [OF that(4)] by simp
    then have "only_mem s (t\<lparr>invlpg_log := invlpg_log s\<rparr>)" using that(4) by simp
    then show ?thesis using that only_mem_fields(5) [OF that(4)]
      by (intro exI [of _ False] exI [of _ t] exI [of _ B]) simp
  qed
  obtain r1 s1 A1 where e1: "ensure_table (entry_addr root ?i) s = Some (r1, s1)" "vm_ok s1 root A1"
    "A1 \<subseteq> A" "only_mem s s1" "\<forall>v. translate s1 root v = translate s root v"
    "r1 \<noteq> 0 \<longrightarrow> table_at s1 root [?i] = Some r1"
    using ensure_table_step [OF ok _ sp(1), of root] by auto
  show ?thesis
  proof (cases "r1 = 0")
    case True
    then show ?thesis
      using start e1 by (intro fail [of s1 A1]) (simp_all add: map_virtual_def Let_def idx)
  next
    case r1: False
    obtain r2 s2 A2 where e2: "ensure_table (entry_addr r1 ?j) s1 = Some (r2, s2)" "vm_ok s2 root A2"
      "A2 \<subseteq> A1" "only_mem s1 s2" "\<forall>v. translate s2 root v = translate s1 root v"
      "r2 \<noteq> 0 \<longrightarrow> table_at s2 root [?i, ?j] = Some r2"
      using ensure_table_step [OF e1(2) _ sp(2), of r1] e1(6) r1 by auto
    have om2: "only_mem s s2" by (rule only_mem_trans [OF e1(4) e2(4)])
    show ?thesis
    proof (cases "r2 = 0")
      case True
      then show ?thesis
        using start e1 e2 r1 om2
        by (intro fail [of s2 A2]) (simp_all add: map_virtual_def Let_def idx)
    next
      case r2: False
      obtain r3 s3 A3 where e3: "ensure_table (entry_addr r2 ?k) s2 = Some (r3, s3)" "vm_ok s3 root A3"
        "A3 \<subseteq> A2" "only_mem s2 s3" "\<forall>v. translate s3 root v = translate s2 root v"
        "r3 \<noteq> 0 \<longrightarrow> table_at s3 root [?i, ?j, ?k] = Some r3"
        using ensure_table_step [OF e2(2) _ sp(3), of r2] e2(6) r2 by auto
      have om3: "only_mem s s3" by (rule only_mem_trans [OF om2 e3(4)])
      have sub: "A3 \<subseteq> A" using e1(3) e2(3) e3(3) by blast
      have tr3: "translate s3 root v = translate s root v" for v using e1(5) e2(5) e3(5) by simp
      show ?thesis
      proof (cases "r3 = 0")
        case True
        then show ?thesis
          using start e1 e2 e3 r1 r2 om3 sub
          by (intro fail [of s3 A3]) (simp_all add: map_virtual_def Let_def idx)
      next
        case r3: False
        let ?e = "(phys AND ppn_mask) OR entry_flags flags"
        let ?s4 = "s3\<lparr>mem := (mem s3)(entry_addr r3 (va_pt_index virt) := ?e)\<rparr>"
        let ?t = "if cr3 s = root - hhdm_offset s then invlpg virt ?s4 else ?s4"
        have pe: "present ?e" by (simp add: present_bit bit_or_iff entry_flags_bits)
        have t3: "table_at s3 root [?i, ?j, ?k] = Some r3" using e3(6) r3 by simp
        note leaf = write_leaf [OF e3(2) t3 refl, where e = ?e]
        have run: "map_virtual root virt phys flags s = Some (True, ?t)"
          using start e1(1) e2(1) e3(1) r1 r2 r3 only_mem_fields(1,2) [OF om3]
          by (simp add: map_virtual_def Let_def idx get_cr3_def get_memory_slide_def)
        have m: "mem ?t = mem ?s4" "hhdm_offset ?t = hhdm_offset ?s4" "m_head ?t = m_head ?s4"
          by (auto simp: invlpg_def)
        have tab: "table_at ?t u js = table_at ?s4 u js" for u js
          by (rule table_at_frame [OF m(2)]) (simp only: m(1))
        have tr: "translate ?t root v = translate ?s4 root v" for v
          unfolding translate_def tab m(1) ..
        have "vm_ok ?t root A3"
          using leaf(1) unfolding vm_ok_def pt_wf_def tab pma_free_at_def blocks_at_def direct_mapped_def m .
        moreover have "only_mem s (?t\<lparr>invlpg_log := invlpg_log s\<rparr>)"
        proof -
          have "?t\<lparr>invlpg_log := invlpg_log s\<rparr> = ?s4"
            using only_mem_fields(5) [OF om3] by (simp add: invlpg_def)
          then show ?thesis using om3 by simp
        qed
        moreover have "invlpg_log ?t = (if cr3 s = root - hhdm_offset s then virt # invlpg_log s else invlpg_log s)"
          using only_mem_fields(5) [OF om3] by (simp add: invlpg_def)
        moreover have "translate ?t root w = translate s root w" if "page_path w \<noteq> page_path virt" for w
          using tr leaf(2) [OF that] tr3 by simp
        moreover have "translate ?t root virt = Some ?e" using tr leaf(3) [OF pe] by simp
        ultimately show ?thesis
          using run sub by (intro exI [of _ True] exI [of _ ?t] exI [of _ A3]) simp
      qed
    qed
  qed
qed


text \<open>Addresses of the same page are walked the same way.\<close>

lemma same_page_path:
  assumes "4096 dvd unat virt" "unat virt \<le> unat v" "unat v < unat virt + 4096"
  shows "drop_bit 12 v = drop_bit 12 virt" "unat (va_offset v) = unat v - unat virt"
proof -
  obtain k where k: "unat virt = 4096 * k" using assms(1) by blast
  then obtain d where d: "unat v = 4096 * k + d" "d < 4096"
    using assms(2,3) by (metis add_less_cancel_left le_iff_add)
  have db: "unat (drop_bit 12 x) = unat x div 4096" for x :: u64
    unfolding unat_drop_bit_eq by (simp add: drop_bit_eq_div)
  have "unat (drop_bit 12 v) = unat (drop_bit 12 virt)"
    by (simp only: db k d(1)) (use d(2) in simp)
  then show "drop_bit 12 v = drop_bit 12 virt" by (simp add: word_unat_eq_iff)
  have "unat (va_offset v) = unat v mod 4096"
    using unat_and_mask [of v 12] by (simp add: va_offset_def mask_12)
  then show "unat (va_offset v) = unat v - unat virt" using k d by simp
qed

lemma page_path_of_page: "drop_bit 12 v = drop_bit 12 w \<Longrightarrow> page_path v = page_path w"
proof -
  assume e: "drop_bit 12 v = drop_bit 12 w"
  have "drop_bit 9 (drop_bit 12 x) = drop_bit 21 x" "drop_bit 18 (drop_bit 12 x) = drop_bit 30 x"
    "drop_bit 27 (drop_bit 12 x) = drop_bit 39 x" for x :: u64
    by (simp_all add: drop_bit_drop_bit)
  then have "drop_bit 21 v = drop_bit 21 w" "drop_bit 30 v = drop_bit 30 w" "drop_bit 39 v = drop_bit 39 w"
    using e by metis+
  then show ?thesis
    using e by (simp add: page_path_def va_pml4_index_def va_pdp_index_def va_pd_index_def va_pt_index_def)
qed

lemma translate_path: "page_path v = page_path w \<Longrightarrow> translate s root v = translate s root w"
  by (simp add: page_path_def translate_def)

lemma entry_flags_frame:
  "((x AND ppn_mask) OR entry_flags flags) AND ppn_mask = x AND ppn_mask"
proof (rule bit_word_eqI)
  fix k assume "k < LENGTH(64)"
  show "bit (((x AND ppn_mask) OR entry_flags flags) AND ppn_mask) k = bit (x AND ppn_mask) k"
    by (auto simp: bit_and_iff bit_or_iff bit_ppn_mask entry_flags_bits)
qed

text \<open>Where the processor finds a byte: the frame of the entry and the offset in the page.\<close>

definition resolve :: "'a machine_scheme \<Rightarrow> u64 \<Rightarrow> u64 \<Rightarrow> u64 option" where
  "resolve s root v =
     map_option (\<lambda>e. (e AND ppn_mask) OR va_offset v) (translate s root v)"

definition writable :: "'a machine_scheme \<Rightarrow> u64 \<Rightarrow> u64 \<Rightarrow> bool" where
  "writable s root v \<longleftrightarrow> (\<exists>e. translate s root v = Some e \<and> e AND PB_ReadWrite \<noteq> 0)"

definition executable :: "'a machine_scheme \<Rightarrow> u64 \<Rightarrow> u64 \<Rightarrow> bool" where
  "executable s root v \<longleftrightarrow> (\<exists>e. translate s root v = Some e \<and> e AND PB_NoExecute = 0)"

lemma and_PB_bit:
  "e AND PB_ReadWrite \<noteq> 0 \<longleftrightarrow> bit e 1" "e AND PB_NoExecute = 0 \<longleftrightarrow> \<not> bit e 63"
proof -
  have z: "w = 0 \<longleftrightarrow> (\<forall>n. \<not> bit w n)" for w :: u64
    by (metis bit_0_eq bit_eq_iff bot_apply bot_bool_def)
  show "e AND PB_ReadWrite \<noteq> 0 \<longleftrightarrow> bit e 1" by (simp add: z bit_and_iff PB_bits)
  show "e AND PB_NoExecute = 0 \<longleftrightarrow> \<not> bit e 63" by (auto simp: z bit_and_iff PB_bits)
qed

lemma bit_ppn_offset:
  assumes "4096 dvd unat phys" "unat phys < 2 ^ 52"
  shows "unat ((phys AND ppn_mask) OR va_offset v) = unat phys + unat (va_offset v)"
proof -
  have p: "phys AND ppn_mask = phys" by (rule and_ppn_mask [OF assms])
  have "phys AND va_offset v = (phys AND ppn_mask) AND (v AND mask 12)"
    by (simp add: p va_offset_def mask_12)
  also have "\<dots> = 0"
    by (rule bit_word_eqI) (auto simp: bit_and_iff bit_ppn_mask bit_mask_iff)
  finally have "phys + va_offset v = phys OR va_offset v" by (rule disjunctive_add_eq_or)
  moreover have "unat (va_offset v) < 4096"
    using unat_and_mask [of v 12] by (simp add: va_offset_def mask_12)
  then have "unat (phys + va_offset v) = unat phys + unat (va_offset v)"
    using assms(2) by (intro unat_add_nowrap) simp
  ultimately show ?thesis by (simp add: p)
qed

text \<open>A request for a page leaves room for later ones.\<close>

lemma alloc_list_room:
  assumes "wf_blocks bs" "b \<in> set bs" "k + 8192 \<le> unat (snd b)" "k = 0 \<or> 16 < k"
  shows "fst (alloc_list PAGE_SIZE bs) \<noteq> None
    \<and> (0 < k \<longrightarrow> (\<exists>c \<in> set (snd (alloc_list PAGE_SIZE bs)). k \<le> unat (snd c)))"
  using assms(1,2)
proof (induction bs)
  case (Cons c bs)
  obtain a n where c: "c = (a, n)" by (cases c)
  have wf: "wf_block (a, n)" "wf_blocks bs" using Cons.prems(1) c by (auto simp: wf_blocks_Cons)
  have need: "block_need PAGE_SIZE a = 8192"
    using block_need_eq [OF wf(1), of PAGE_SIZE] by (simp add: PAGE_SIZE_def)
  show ?case
  proof (cases "n \<ge> 8192")
    case fit: True
    have sub: "unat (n - 8192) = unat n - 8192" using fit by (simp add: unat_sub_le word_le_nat_alt)
    show ?thesis
    proof (cases "b = c")
      case True
      then have "unat n \<ge> k + 8192" using assms(3) c by simp
      moreover have "n > 8192 + 16 \<longleftrightarrow> unat n > 8208" by (simp add: word_less_nat_alt)
      ultimately show ?thesis
        using fit c assms(4) sub by (auto simp: need sizeof_FreeBlock_def)
    next
      case False
      then have "b \<in> set bs" using Cons.prems(2) by simp
      then have "b \<in> set (snd (alloc_list PAGE_SIZE (c # bs)))" using fit c by (auto simp: need)
      moreover have "k \<le> unat (snd b)" using assms(3) by simp
      ultimately show ?thesis using fit c by (auto simp: need)
    qed
  next
    case False
    then have "unat n < 8192" by (simp add: word_le_nat_alt)
    then have "b \<in> set bs" using Cons.prems(2) assms(3) c by auto
    then show ?thesis using Cons.IH wf(2) False c by (auto simp: need)
  qed
qed simp


text \<open>There is a free block of at least \<open>k\<close> bytes.\<close>

definition room :: "'a pma_scheme \<Rightarrow> nat \<Rightarrow> bool" where
  "room s k \<longleftrightarrow> (\<exists>bs. blocks_at s bs \<and> wf_blocks bs \<and> (\<exists>b \<in> set bs. k \<le> unat (snd b)))"

lemma alloc_list_start:
  assumes "wf_blocks bs" "fst (alloc_list sz bs) = Some q"
  shows "\<exists>b \<in> set bs. unat q = unat (fst b) + 4096"
  using assms
proof (induction bs)
  case (Cons b bs)
  obtain a n where b: "b = (a, n)" by (cases b)
  have w: "wf_block (a, n)" "wf_blocks bs" using Cons.prems(1) b by (auto simp: wf_blocks_Cons)
  show ?case
    using Cons.IH [OF w(2)] Cons.prems(2) aligned_start [OF w(1)] b by (auto split: if_splits)
qed simp

lemma alloc_page_room:
  assumes "vm_ok s root A" "room s (k + 8192)" "k = 0 \<or> 16 < k"
  shows "\<exists>p t bs'. alloc_page s = Some (p, t) \<and> p \<noteq> 0 \<and> blocks_at t bs' \<and> wf_blocks bs'
    \<and> cover bs' \<subseteq> A \<and> span (p + hhdm_offset s) PAGE_SIZE \<subseteq> A - cover bs' \<and> fits (p + hhdm_offset s) PAGE_SIZE
    \<and> hhdm_offset t = hhdm_offset s \<and> (0 < k \<longrightarrow> (\<exists>c \<in> set bs'. k \<le> unat (snd c)))"
proof -
  obtain bs b where bs: "blocks_at s bs" "wf_blocks bs" "b \<in> set bs" "k + 8192 \<le> unat (snd b)"
    using assms(2) by (auto simp: room_def)
  obtain cs where "blocks_at s cs" "cover cs = A"
    using assms(1) by (auto simp: vm_ok_def pma_free_at_def)
  then have A: "cover bs = A" using bs(1) seg_unique by (metis blocks_at_def)
  obtain r bs' where r: "alloc_list PAGE_SIZE bs = (r, bs')" by (cases "alloc_list PAGE_SIZE bs")
  have okz: "ok_size PAGE_SIZE" by (simp add: ok_size_def)
  obtain q where q: "r = Some q" and room': "0 < k \<longrightarrow> (\<exists>c \<in> set bs'. k \<le> unat (snd c))"
    using alloc_list_room [OF bs(2-4) assms(3)] r by auto
  obtain t where t: "alloc_page s = Some (q - hhdm_offset s, t)" "blocks_at t bs'" "same_outside (cover bs) s t"
    using fla_alloc_step [OF bs(1,2) okz r] q by (auto simp: alloc_page_def alloc_result_def)
  have w: "wf_blocks bs'" "cover bs' \<subseteq> A" "span q PAGE_SIZE \<subseteq> A - cover bs'" "fits q PAGE_SIZE"
    using alloc_list_wf [OF bs(2) okz r] q A by auto
  obtain c where c: "c \<in> set bs" "unat q = unat (fst c) + 4096"
    using alloc_list_start [OF bs(2), of PAGE_SIZE q] r q by auto
  have "wf_block c" using bs(2) c(1) by (induction bs) (auto simp: wf_blocks_Cons)
  then have "unat (fst c) \<in> A" using hdr_in_span(1) c(1) A by (auto simp: cover_def)
  then have "unat (hhdm_offset s) \<le> unat (fst c)"
    using assms(1) by (auto simp: vm_ok_def direct_mapped_def)
  then have "q \<noteq> hhdm_offset s" using c(2) by auto
  then show ?thesis
    using t w room' same_outside_offset [OF t(3)] by (intro exI [of _ "q - hhdm_offset s"]) auto
qed


lemma ensure_table_room:
  assumes ok: "vm_ok s root A" and t: "table_at s root is = Some t" and i: "short_path (is @ [i])"
    and rm: "room s (k + 8192)" "k = 0 \<or> 16 < k"
    and run: "ensure_table (entry_addr t i) s = Some (r, s')"
  shows "r \<noteq> 0" "0 < k \<Longrightarrow> room s' k"
proof -
  let ?e = "entry_addr t i"
  have wf: "pt_wf s root A" using ok by (simp add: vm_ok_def)
  have gt: "good_table A t" by (rule pt_wf_table [OF wf short_path_append [OF i] t])
  have eA: "unat ?e \<notin> A" by (rule entry_addr_free [OF gt]) (use i in \<open>simp add: short_path_def\<close>)
  have "r \<noteq> 0 \<and> (0 < k \<longrightarrow> room s' k)"
  proof (cases "present (mem s ?e)")
    case True
    then have "r = child s (mem s ?e)" "s' = s"
      using run by (auto simp: ensure_table_def present_def child_def get_memory_slide_def)
    moreover have "table_at s root (is @ [i]) = Some (child s (mem s ?e))"
      using t True by (simp add: table_at_append)
    ultimately have "good_table A r" using pt_wf_table [OF wf i] by simp
    moreover have "room s k" using rm(1) unfolding room_def by (meson add_leE)
    ultimately show ?thesis using \<open>s' = s\<close> by (simp add: good_table_def)
  next
    case False
    obtain p u bs where a: "alloc_page s = Some (p, u)" "p \<noteq> 0" "blocks_at u bs" "wf_blocks bs"
      "cover bs \<subseteq> A" "span (p + hhdm_offset s) PAGE_SIZE \<subseteq> A - cover bs"
      "fits (p + hhdm_offset s) PAGE_SIZE" "hhdm_offset u = hhdm_offset s"
      "0 < k \<longrightarrow> (\<exists>c \<in> set bs. k \<le> unat (snd c))"
      using alloc_page_room [OF ok rm] by blast
    let ?T = "p + hhdm_offset s"
    have "unat ?T \<in> span ?T PAGE_SIZE" by (simp add: span_def)
    then have "unat ?T \<in> A" using a(6) by blast
    then have T: "?T \<noteq> 0" using pma_free_at_0 ok by (metis unat_0 vm_ok_def)
    have s': "s' = (zero_page ?T u)\<lparr>mem := (mem (zero_page ?T u))(?e := table_entry p)\<rparr>" "r = ?T"
      using run False a(1,2,8) T
      by (auto simp: ensure_table_def alloc_table_def present_def get_memory_slide_def
          table_entry_def Let_def)
    have "mem s' x = mem u x" if "x \<in> hdrs bs" for x
      using hdrs_cover [OF a(4) that] a(5,6) eA a(7) by (auto simp: s'(1) mem_zero_page)
    then have "seg (mem s') (m_head u) bs 0 = seg (mem u) (m_head u) bs 0" by (rule seg_cong)
    then have "blocks_at s' bs" using a(3) by (simp add: blocks_at_def s'(1))
    then show ?thesis using a(4,9) T s'(2) by (auto simp: room_def)
  qed
  then show "r \<noteq> 0" "0 < k \<Longrightarrow> room s' k" by simp_all
qed

lemma map_virtual_room:
  assumes ok: "vm_ok s root A" and args: "good_args virt phys" and rm: "room s (k + 24576)" "k = 0 \<or> 16 < k"
  shows "\<exists>t. map_virtual root virt phys flags s = Some (True, t) \<and> (0 < k \<longrightarrow> room t k)"
proof -
  note idx = page_path_index [of virt]
  let ?i = "va_pml4_index virt" and ?j = "va_pdp_index virt" and ?k = "va_pd_index virt"
  have "good_table A root"
    using ok pt_wf_table [of s root A "[]" root] short_path_va(1) by (simp add: vm_ok_def)
  then have root: "root \<noteq> 0" by (simp add: good_table_def)
  have sp: "short_path ([] @ [?i])" "short_path ([?i] @ [?j])" "short_path ([?i, ?j] @ [?k])"
    using short_path_va by auto
  obtain r1 s1 A1 where e1: "ensure_table (entry_addr root ?i) s = Some (r1, s1)" "vm_ok s1 root A1"
    "r1 \<noteq> 0 \<longrightarrow> table_at s1 root [?i] = Some r1"
    using ensure_table_step [OF ok _ sp(1), of root] by auto
  have m1: "r1 \<noteq> 0" "room s1 ((k + 8192) + 8192)"
    using ensure_table_room [OF ok _ sp(1) _ _ e1(1), of "(k + 8192) + 8192"] rm by (simp_all add: add.commute)
  obtain r2 s2 A2 where e2: "ensure_table (entry_addr r1 ?j) s1 = Some (r2, s2)" "vm_ok s2 root A2"
    "r2 \<noteq> 0 \<longrightarrow> table_at s2 root [?i, ?j] = Some r2"
    using ensure_table_step [OF e1(2) _ sp(2), of r1] e1(3) m1(1) by auto
  have m2: "r2 \<noteq> 0" "room s2 (k + 8192)"
    using ensure_table_room [OF e1(2) _ sp(2) _ _ e2(1), of "k + 8192"] e1(3) m1 by simp_all
  obtain r3 s3 A3 where e3: "ensure_table (entry_addr r2 ?k) s2 = Some (r3, s3)" "vm_ok s3 root A3"
    "r3 \<noteq> 0 \<longrightarrow> table_at s3 root [?i, ?j, ?k] = Some r3"
    using ensure_table_step [OF e2(2) _ sp(3), of r2] e2(3) m2(1) by auto
  have m3: "r3 \<noteq> 0" "0 < k \<Longrightarrow> room s3 k"
    using ensure_table_room [OF e2(2) _ sp(3) m2(2) rm(2) e3(1)] e2(3) m2(1) by simp_all
  obtain t where t: "map_virtual root virt phys flags s = Some (True, t)" "m_head t = m_head s3"
    "\<And>x. x \<noteq> entry_addr r3 (va_pt_index virt) \<Longrightarrow> mem t x = mem s3 x"
    using args root e1(1) e2(1) e3(1) m1(1) m2(1) m3
    by (simp add: map_virtual_def Let_def idx good_args_def invlpg_def)
  have "table_at s3 root [?i, ?j, ?k] = Some r3" "pt_wf s3 root A3"
    using e3(2,3) m3(1) by (auto simp only: vm_ok_def)
  then have "good_table A3 r3" using pt_wf_table short_path_va(4) by blast
  then have free: "unat (entry_addr r3 (va_pt_index virt)) \<notin> A3" by (rule entry_addr_free [OF _ index_bound(4)])
  have "room t k" if k: "0 < k"
  proof -
    obtain bs where bs: "blocks_at s3 bs" "wf_blocks bs" "\<exists>b \<in> set bs. k \<le> unat (snd b)"
      using m3(2) [OF k] by (auto simp: room_def)
    obtain cs where "blocks_at s3 cs" "cover cs = A3" using e3(2) by (auto simp: vm_ok_def pma_free_at_def)
    then have A3: "cover bs = A3" using bs(1) seg_unique by (metis blocks_at_def)
    have "mem t x = mem s3 x" if "x \<in> hdrs bs" for x
      using hdrs_cover [OF bs(2) that] free A3 t(3) by metis
    then have "seg (mem t) (m_head s3) bs 0 = seg (mem s3) (m_head s3) bs 0" by (rule seg_cong)
    then have "blocks_at t bs" using bs(1) t(2) by (simp add: blocks_at_def)
    then show ?thesis using bs(2,3) by (auto simp: room_def)
  qed
  then show ?thesis using t(1) by blast
qed

section \<open>Properties\<close>

text \<open>A page table that is one empty table, beside the free list of \<open>demo_pma\<close>.\<close>

lemma demo_pma_tables:
  assumes "short_path is" "table_at demo_pma 0x9000 is = Some t" shows "is = [] \<and> t = 0x9000"
proof (cases "is")
  case Nil
  then show ?thesis using assms by simp
next
  case (Cons i js)
  then have i: "unat i < 512" using assms(1) by (simp add: short_path_def)
  have "unat (entry_addr 0x9000 i) = 0x9000 + 8 * unat i"
    using i by (subst unat_entry_addr) (simp_all add: fits_def)
  then have "entry_addr 0x9000 i < 0x10000" using i by (simp add: word_less_nat_alt)
  then have "mem demo_pma (entry_addr 0x9000 i) = 0" by (auto simp: demo_pma_def)
  then show ?thesis using assms(2) Cons by simp
qed

lemma demo_pma_vm:
  "vm_ok demo_pma 0x9000 (cover [(0x10000, 0x8000), (0x20000, 0x4000)])"
proof -
  let ?A = "cover [(0x10000, 0x8000), (0x20000, 0x4000)]"
  have g: "good_table ?A 0x9000"
    by (auto simp: good_table_def fits_def span_def)
  have "pt_wf demo_pma 0x9000 ?A"
    by (rule pt_wfI) (use demo_pma_tables g in blast)+
  moreover have "pma_free_at demo_pma ?A"
    using demo_pma_blocks unfolding pma_free_at_def by blast
  moreover have "direct_mapped demo_pma ?A"
    by (auto simp: direct_mapped_def demo_pma_blocks span_def)
  ultimately show ?thesis by (simp add: vm_ok_def)
qed

text \<open>
  C12: a call with a page-aligned, non-zero virtual and physical address returns. The page table
  stays a tree of tables outside the free memory, the allocator stays consistent, no other page
  is mapped differently, and the page itself is mapped to the frame with the flags of the call
  if the call succeeds and as before if it does not. Nothing but memory, the free list and the
  log of flushed addresses changes, and the address is flushed if this page table is active.
\<close>

theorem map_virtual_maps:
  assumes "vm_ok s root A" "good_args virt phys"
  shows "\<exists>r t B. map_virtual root virt phys flags s = Some (r, t) \<and> vm_ok t root B \<and> B \<subseteq> A
    \<and> (\<forall>w. page_path w \<noteq> page_path virt \<or> \<not> r \<longrightarrow> translate t root w = translate s root w)
    \<and> (r \<longrightarrow> translate t root virt = Some ((phys AND ppn_mask) OR entry_flags flags))
    \<and> only_mem s (t\<lparr>invlpg_log := invlpg_log s\<rparr>)
    \<and> invlpg_log t = (if r \<and> cr3 s = root - hhdm_offset s then virt # invlpg_log s else invlpg_log s)"
  by (rule map_virtual_run [OF assms])

lemma demo_args: "good_args 0x40000000 0x5000"
  by (simp add: good_args_def check_aligned_def PAGE_SIZE_def)

theorem map_virtual_maps_witness:
  "\<exists>r t. map_virtual 0x9000 0x40000000 0x5000 MapWrite demo_pma = Some (r, t)
     \<and> (r \<longrightarrow> translate t 0x9000 0x40000000 = Some ((0x5000 AND ppn_mask) OR entry_flags MapWrite))"
  using map_virtual_maps [OF demo_pma_vm demo_args, of MapWrite] by blast


text \<open>
  C21: with one free block of six pages, enough for three tables and the header pages of their
  requests, a call with good arguments succeeds.
\<close>

theorem map_virtual_succeeds:
  assumes "vm_ok s root A" "good_args virt phys" "room s 24576"
  shows "\<exists>t. map_virtual root virt phys flags s = Some (True, t)"
  using map_virtual_room [OF assms(1,2), of 0] assms(3) by simp

lemma demo_pma_room: "room demo_pma 24576"
  using demo_pma_blocks unfolding room_def
  by (intro exI [of _ "[(0x10000, 0x8000), (0x20000, 0x4000)]"]) simp

theorem map_virtual_succeeds_witness:
  "\<exists>t. map_virtual 0x9000 0x40000000 0x5000 MapWrite demo_pma = Some (True, t)"
  by (rule map_virtual_succeeds [OF demo_pma_vm demo_args demo_pma_room])


text \<open>Arguments that are null or not aligned are refused; nothing is written.\<close>

lemma map_virtual_rejects:
  "\<not> good_args virt phys \<Longrightarrow>
     map_virtual root virt phys flags s = Some (False, set_error IncorrectParameter s)"
  by (auto simp: map_virtual_def good_args_def)

end
