(* ===== verification/Vma.thy ===== *)
theory Vma
  imports Vmm
begin

text \<open>
  The virtual address allocator of \<open>mm/vma.hpp\<close>, a doubly linked list of page ranges whose
  nodes come from a static pool, and the functions of \<open>mm/vma.cpp\<close> over its one instance.
\<close>

unbundle bit_operations_syntax

section \<open>Definitions\<close>

text \<open>
  A node pointer is the index of the node: below \<open>max_nodes\<close> for the static pool
  \<open>nodes_\<close>, at or above it for a node from the heap; \<open>None\<close> is the null pointer.
\<close>

record vma_node =
  n_valid :: bool
  n_dynamic :: bool
  n_is_free :: bool
  n_start :: u64
  n_npages :: u64
  n_prev :: "nat option"
  n_next :: "nat option"

text \<open>
  \<open>max_nodes\<close> is the template parameter. \<open>free_stack\<close> is the used part of the array
  \<open>free_stack_\<close>, top first. \<open>new_answers\<close> are the nodes that the next calls of the heap's
  non-throwing \<open>operator new\<close> return, the null pointer once there are no more.
\<close>

record vaddr_allocator =
  max_nodes :: nat
  nodes :: "nat \<Rightarrow> vma_node"
  free_stack :: "nat list"
  head :: "nat option"
  va_base :: u64
  total_pages :: u64
  va_lock :: bool
  new_answers :: "nat list"

definition upd_node :: "nat \<Rightarrow> (vma_node \<Rightarrow> vma_node) \<Rightarrow> vaddr_allocator \<Rightarrow> vaddr_allocator" where
  "upd_node i f s = s\<lparr>nodes := (nodes s)(i := f (nodes s i))\<rparr>"

definition vma_align_up :: "u64 \<Rightarrow> u64 \<Rightarrow> u64" where
  "vma_align_up v al = (if al \<le> 1 then v else (v + al - 1) AND NOT (al - 1))"

definition vaddr_from_page :: "vaddr_allocator \<Rightarrow> u64 \<Rightarrow> u64" where
  "vaddr_from_page s page = va_base s + page * PAGE_SIZE"

definition page_from_vaddr :: "vaddr_allocator \<Rightarrow> u64 \<Rightarrow> u64" where
  "page_from_vaddr s vaddr = (vaddr - va_base s) div PAGE_SIZE"

definition fresh_node :: "bool \<Rightarrow> vma_node" where
  "fresh_node dyn = \<lparr>n_valid = True, n_dynamic = dyn, n_is_free = False, n_start = 0, n_npages = 0,
     n_prev = None, n_next = None\<rparr>"

definition allocate_node :: "vaddr_allocator \<Rightarrow> nat option \<times> vaddr_allocator" where
  "allocate_node s =
     (case free_stack s of
        idx # st \<Rightarrow> (Some idx, upd_node idx (\<lambda>_. fresh_node False) (s\<lparr>free_stack := st\<rparr>))
      | [] \<Rightarrow>
          (case new_answers s of
             [] \<Rightarrow> (None, s)
           | p # ps \<Rightarrow> (Some p, upd_node p (\<lambda>_. fresh_node True) (s\<lparr>new_answers := ps\<rparr>))))"

definition free_node :: "nat \<Rightarrow> vaddr_allocator \<Rightarrow> vaddr_allocator option" where
  "free_node n s =
     (if n_dynamic (nodes s n) then Some s
      else if \<not> n < max_nodes s then None
      else if \<not> List.length (free_stack s) < max_nodes s then None
      else Some ((upd_node n (\<lambda>nd. nd\<lparr>n_valid := False, n_is_free := False,
                                      n_next := None, n_prev := None\<rparr>) s)
                   \<lparr>free_stack := n # free_stack s\<rparr>))"

definition set_prev_of :: "nat option \<Rightarrow> nat option \<Rightarrow> vaddr_allocator \<Rightarrow> vaddr_allocator" where
  "set_prev_of p v s = (case p of None \<Rightarrow> s | Some i \<Rightarrow> upd_node i (\<lambda>nd. nd\<lparr>n_prev := v\<rparr>) s)"

definition split_node_left :: "nat \<Rightarrow> u64 \<Rightarrow> vaddr_allocator \<Rightarrow> nat \<times> vaddr_allocator" where
  "split_node_left orig left_npages s =
     (if left_npages = 0 then (orig, s)
      else if left_npages \<ge> n_npages (nodes s orig) then (orig, s)
      else case allocate_node s of
        (None, s) \<Rightarrow> (orig, s)
      | (Some right, s) \<Rightarrow>
          let s = upd_node right (\<lambda>nd. nd\<lparr>n_valid := True, n_is_free := n_is_free (nodes s orig),
                    n_start := n_start (nodes s orig) + left_npages,
                    n_npages := n_npages (nodes s orig) - left_npages,
                    n_next := n_next (nodes s orig), n_prev := Some orig\<rparr>) s;
              s = set_prev_of (n_next (nodes s orig)) (Some right) s;
              s = upd_node orig (\<lambda>nd. nd\<lparr>n_next := Some right, n_npages := left_npages\<rparr>) s
          in (right, s))"

definition merge_prev :: "nat \<Rightarrow> vaddr_allocator \<Rightarrow> (nat \<times> vaddr_allocator) option" where
  "merge_prev n s =
     (case n_prev (nodes s n) of
        None \<Rightarrow> Some (n, s)
      | Some p \<Rightarrow>
          if n_is_free (nodes s p) then do {
            let s = upd_node p (\<lambda>nd. nd\<lparr>n_npages := n_npages nd + n_npages (nodes s n)\<rparr>) s;
            let s = upd_node p (\<lambda>nd. nd\<lparr>n_next := n_next (nodes s n)\<rparr>) s;
            let s = set_prev_of (n_next (nodes s n)) (Some p) s;
            s \<leftarrow> free_node n s;
            Some (p, s) }
          else Some (n, s))"

definition merge_next :: "nat \<Rightarrow> vaddr_allocator \<Rightarrow> vaddr_allocator option" where
  "merge_next n s =
     (case n_next (nodes s n) of
        None \<Rightarrow> Some s
      | Some nx \<Rightarrow>
          if n_is_free (nodes s nx) then
            let s = upd_node n (\<lambda>nd. nd\<lparr>n_npages := n_npages nd + n_npages (nodes s nx)\<rparr>) s;
                s = upd_node n (\<lambda>nd. nd\<lparr>n_next := n_next (nodes s nx)\<rparr>) s;
                s = set_prev_of (n_next (nodes s nx)) (Some n) s
            in free_node nx s
          else Some s)"

definition vma_coalesce :: "nat \<Rightarrow> vaddr_allocator \<Rightarrow> vaddr_allocator option" where
  "vma_coalesce n s = do { (n, s) \<leftarrow> merge_prev n s; merge_next n s }"

definition vma_init :: "u64 \<Rightarrow> u64 \<Rightarrow> vaddr_allocator \<Rightarrow> vaddr_allocator option" where
  "vma_init start sz s =
     (let s = s\<lparr>va_base := start, total_pages := sz div PAGE_SIZE\<rparr>;
          s = s\<lparr>nodes := (\<lambda>i. if i < max_nodes s
                   then (nodes s i)\<lparr>n_valid := False, n_dynamic := False, n_next := None, n_prev := None\<rparr>
                   else nodes s i)\<rparr>;
          s = s\<lparr>free_stack := [0..<max_nodes s]\<rparr>
      in case allocate_node s of
           (None, s) \<Rightarrow> None
         | (Some n, s) \<Rightarrow>
             Some ((upd_node n (\<lambda>nd. nd\<lparr>n_start := 0, n_npages := total_pages s, n_is_free := True,
                       n_prev := None, n_next := None\<rparr>) s)\<lparr>head := Some n\<rparr>))"

definition unlock :: "vaddr_allocator \<Rightarrow> vaddr_allocator" where
  "unlock s = s\<lparr>va_lock := spin_unlock (va_lock s)\<rparr>"

definition take_lock :: "vaddr_allocator \<Rightarrow> vaddr_allocator option" where
  "take_lock s = do { l \<leftarrow> spin_lock (va_lock s); Some (s\<lparr>va_lock := l\<rparr>) }"

definition set_is_free :: "nat \<Rightarrow> bool \<Rightarrow> vaddr_allocator \<Rightarrow> vaddr_allocator" where
  "set_is_free i b s = upd_node i (\<lambda>nd. nd\<lparr>n_is_free := b\<rparr>) s"

text \<open>
  The body of the loop of \<open>alloc_pages\<close>: \<open>Inl r\<close> goes on with the node behind \<open>r\<close>,
  \<open>Inr r\<close> returns the range of \<open>r\<close>.
\<close>

definition claim_range :: "u64 \<Rightarrow> nat \<Rightarrow> vaddr_allocator \<Rightarrow> (nat + nat) \<times> vaddr_allocator" where
  "claim_range npages cur s =
     (if n_npages (nodes s cur) > npages then
        let (right_after_alloc, s) = split_node_left cur npages s in
        if right_after_alloc = cur then (Inl cur, s)
        else (Inr cur, set_is_free cur False s)
      else (Inr cur, set_is_free cur False s))"

definition try_node :: "u64 \<Rightarrow> u64 \<Rightarrow> nat \<Rightarrow> vaddr_allocator \<Rightarrow> (nat + nat) \<times> vaddr_allocator" where
  "try_node npages align_pages cur s =
     (if n_is_free (nodes s cur) \<and> n_npages (nodes s cur) \<ge> npages then
        let aligned_start = vma_align_up (n_start (nodes s cur)) align_pages;
            padding = aligned_start - n_start (nodes s cur)
        in
          if padding + npages \<le> n_npages (nodes s cur) then
            if padding > 0 then
              let (right, s) = split_node_left cur padding s in
              if right = cur then (Inl cur, s) else claim_range npages right s
            else claim_range npages cur s
          else (Inl cur, s)
      else (Inl cur, s))"

partial_function (option) alloc_walk ::
  "u64 \<Rightarrow> u64 \<Rightarrow> nat option \<Rightarrow> vaddr_allocator \<Rightarrow> (u64 option \<times> vaddr_allocator) option" where
  "alloc_walk npages align_pages cur s =
     (case cur of
        None \<Rightarrow> Some (None, unlock s)
      | Some c \<Rightarrow>
          (case try_node npages align_pages c s of
             (Inr r, s) \<Rightarrow> Some (Some (vaddr_from_page s (n_start (nodes s r))), unlock s)
           | (Inl r, s) \<Rightarrow> alloc_walk npages align_pages (n_next (nodes s r)) s))"

definition alloc_pages ::
  "u64 \<Rightarrow> u64 \<Rightarrow> vaddr_allocator \<Rightarrow> (u64 option \<times> vaddr_allocator) option" where
  "alloc_pages npages align_pages s =
     (if npages = 0 then Some (None, s)
      else if \<not> (align_pages AND (align_pages - 1) = 0 \<and> align_pages \<ge> 1) then None
      else do { s \<leftarrow> take_lock s; alloc_walk npages align_pages (head s) s })"

text \<open>The case of \<open>free\<close> where the pages lie inside a longer allocated range.\<close>

definition free_middle :: "u64 \<Rightarrow> u64 \<Rightarrow> nat \<Rightarrow> vaddr_allocator \<Rightarrow> (bool \<times> vaddr_allocator) option" where
  "free_middle page npages cur s =
     (let cur_end = n_start (nodes s cur) + n_npages (nodes s cur) in
      if page + npages > cur_end then Some (False, unlock s)
      else
        let left = page - n_start (nodes s cur);
            right = cur_end - (page + npages);
            (right_tail, s) = (if right > 0 then split_node_left cur (n_npages (nodes s cur) - right) s
                               else (cur, s))
        in
          if right > 0 \<and> right_tail = cur then Some (False, unlock s)
          else
            let (mid, s) = (if left > 0 then split_node_left cur left s else (cur, s)) in
            if left > 0 \<and> mid = cur then Some (False, unlock s)
            else if n_npages (nodes s mid) \<noteq> npages then None
            else do { s \<leftarrow> vma_coalesce mid (set_is_free mid True s); Some (True, unlock s) })"

partial_function (option) free_walk ::
  "u64 \<Rightarrow> u64 \<Rightarrow> nat option \<Rightarrow> vaddr_allocator \<Rightarrow> (bool \<times> vaddr_allocator) option" where
  "free_walk page npages cur s =
     (case cur of
        None \<Rightarrow> Some (False, unlock s)
      | Some c \<Rightarrow>
          if \<not> n_is_free (nodes s c) \<and> n_start (nodes s c) = page \<and> n_npages (nodes s c) = npages then
            do { s \<leftarrow> vma_coalesce c (set_is_free c True s); Some (True, unlock s) }
          else if \<not> n_is_free (nodes s c) \<and> page \<ge> n_start (nodes s c)
                  \<and> page < n_start (nodes s c) + n_npages (nodes s c) then
            free_middle page npages c s
          else free_walk page npages (n_next (nodes s c)) s)"

definition vma_free :: "u64 \<Rightarrow> u64 \<Rightarrow> vaddr_allocator \<Rightarrow> (bool \<times> vaddr_allocator) option" where
  "vma_free vaddr npages s =
     (if npages = 0 then Some (True, s)
      else
        let page = page_from_vaddr s vaddr in
        if page \<ge> total_pages s then Some (False, s)
        else do { s \<leftarrow> take_lock s; free_walk page npages (head s) s })"

partial_function (option) free_total_walk :: "nat option \<Rightarrow> u64 \<Rightarrow> vaddr_allocator \<Rightarrow> u64 option" where
  "free_total_walk cur acc s =
     (case cur of
        None \<Rightarrow> Some acc
      | Some c \<Rightarrow>
          free_total_walk (n_next (nodes s c))
            (if n_is_free (nodes s c) then acc + n_npages (nodes s c) else acc) s)"

definition free_pages_total :: "vaddr_allocator \<Rightarrow> u64 option" where
  "free_pages_total s = free_total_walk (head s) 0 s"

subsection \<open>The instance of the kernel\<close>

record vm = pma +
  allocator :: vaddr_allocator

text \<open>\<open>VAddrAllocator<2048>\<close>, as its default member initialisers leave it.\<close>

definition allocator_init :: vaddr_allocator where
  "allocator_init = \<lparr>max_nodes = 2048,
     nodes = (\<lambda>_. \<lparr>n_valid = False, n_dynamic = False, n_is_free = False, n_start = 0, n_npages = 0,
                   n_prev = None, n_next = None\<rparr>),
     free_stack = [], head = None, va_base = 0, total_pages = 0, va_lock = False, new_answers = []\<rparr>"

definition init_kernel_virtual_allocator ::
  "(nat \<Rightarrow> memmap_entry option) \<Rightarrow> 'a vm_scheme \<Rightarrow> 'a vm_scheme option" where
  "init_kernel_virtual_allocator ptrs s = do {
     hi \<leftarrow> get_highest_physical_address ptrs;
     let range_start = align_down (get_memory_slide s + hi) PAGE_SIZE;
     let range_end = align_down (get_kernel_base_address s) PAGE_SIZE;
     let range_length = range_end - range_start;
     a \<leftarrow> vma_init range_start range_length (allocator s);
     Some (s\<lparr>allocator := a\<rparr>) }"

definition allocate_virtual_memory :: "u64 \<Rightarrow> 'a vm_scheme \<Rightarrow> (u64 option \<times> 'a vm_scheme) option" where
  "allocate_virtual_memory len s =
     (if \<not> check_aligned len PAGE_SIZE then Some (None, set_error MemoryMisaligned s)
      else do {
        (r, a) \<leftarrow> alloc_pages (len div PAGE_SIZE) 1 (allocator s);
        Some (r, s\<lparr>allocator := a\<rparr>) })"

definition deallocate_virtual_memory :: "u64 \<Rightarrow> u64 \<Rightarrow> 'a vm_scheme \<Rightarrow> 'a vm_scheme option" where
  "deallocate_virtual_memory address len s = do {
     (r, a) \<leftarrow> vma_free address (len div PAGE_SIZE) (allocator s);
     Some (s\<lparr>allocator := a\<rparr>) }"


subsection \<open>Specification: ranges that tile the address space\<close>

text \<open>The nodes are linked both ways in the order of the list.\<close>

fun dl :: "(nat \<Rightarrow> vma_node) \<Rightarrow> nat option \<Rightarrow> nat option \<Rightarrow> nat list \<Rightarrow> bool" where
  "dl nd pr p [] = (p = None)"
| "dl nd pr p (i # is) = (p = Some i \<and> n_prev (nd i) = pr \<and> dl nd (Some i) (n_next (nd i)) is)"

definition chain :: "vaddr_allocator \<Rightarrow> nat list \<Rightarrow> bool" where
  "chain s ids \<longleftrightarrow> dl (nodes s) None (head s) ids \<and> distinct ids"

text \<open>A range of pages: first page, number of pages, and whether it is free.\<close>

type_synonym range = "u64 \<times> u64 \<times> bool"

definition range_of :: "vma_node \<Rightarrow> range" where
  "range_of nd = (n_start nd, n_npages nd, n_is_free nd)"

definition ranges :: "vaddr_allocator \<Rightarrow> nat list \<Rightarrow> range list" where
  "ranges s ids = map (\<lambda>i. range_of (nodes s i)) ids"

fun tiled :: "nat \<Rightarrow> range list \<Rightarrow> nat \<Rightarrow> bool" where
  "tiled a [] b = (a = b)"
| "tiled a ((st, n, f) # rs) b = (unat st = a \<and> 0 < unat n \<and> tiled (a + unat n) rs b)"

definition pages :: "u64 \<Rightarrow> u64 \<Rightarrow> nat set" where
  "pages st n = {unat st ..< unat st + unat n}"

text \<open>The pages in allocated ranges.\<close>

fun used :: "range list \<Rightarrow> nat set" where
  "used [] = {}"
| "used ((st, n, f) # rs) = (if f then {} else pages st n) \<union> used rs"

text \<open>Every node is in the list, on the stack of free nodes, or still with the heap.\<close>

definition pool_ok :: "vaddr_allocator \<Rightarrow> nat list \<Rightarrow> bool" where
  "pool_ok s ids \<longleftrightarrow>
     distinct (free_stack s) \<and> set (free_stack s) \<inter> set ids = {}
     \<and> (\<forall>i \<in> set (free_stack s). i < max_nodes s)
     \<and> distinct (new_answers s) \<and> set (new_answers s) \<inter> set ids = {}
     \<and> (\<forall>i \<in> set (new_answers s). max_nodes s \<le> i)
     \<and> (\<forall>i \<in> set ids. n_dynamic (nodes s i) \<longleftrightarrow> max_nodes s \<le> i)"

definition vma_inv :: "vaddr_allocator \<Rightarrow> nat list \<Rightarrow> bool" where
  "vma_inv s ids \<longleftrightarrow> chain s ids \<and> pool_ok s ids
     \<and> tiled 0 (ranges s ids) (unat (total_pages s)) \<and> unat (total_pages s) \<le> 2 ^ 52"

definition same_config :: "vaddr_allocator \<Rightarrow> vaddr_allocator \<Rightarrow> bool" where
  "same_config s t \<longleftrightarrow> max_nodes t = max_nodes s \<and> head t = head s \<and> va_base t = va_base s
     \<and> total_pages t = total_pages s \<and> va_lock t = va_lock s"

section \<open>Lists of ranges\<close>

lemma tiled_append: "tiled a (xs @ ys) b \<longleftrightarrow> (\<exists>c. tiled a xs c \<and> tiled c ys b)"
  by (induction xs arbitrary: a) auto

lemma tiled_le: "tiled a rs b \<Longrightarrow> a \<le> b"
  by (induction rs arbitrary: a) force+

lemma tiled_mem: "tiled a rs b \<Longrightarrow> (st, n, f) \<in> set rs \<Longrightarrow> a \<le> unat st \<and> unat st + unat n \<le> b"
proof (induction rs arbitrary: a)
  case (Cons r rs)
  obtain st' n' f' where r: "r = (st', n', f')" by (cases r) auto
  then show ?case using Cons tiled_le [of "a + unat n'" rs b] by fastforce
qed simp

lemma used_append: "used (xs @ ys) = used xs \<union> used ys"
  by (induction xs) auto

lemma used_bounds: "tiled a rs b \<Longrightarrow> used rs \<subseteq> {a..<b}"
proof (induction rs arbitrary: a)
  case (Cons r rs)
  obtain st' n' f' where r: "r = (st', n', f')" by (cases r) auto
  then have t: "unat st' = a" "tiled (a + unat n') rs b" using Cons.prems by auto
  have "used rs \<subseteq> {a + unat n'..<b}" using Cons.IH [OF t(2)] .
  then have "used rs \<subseteq> {a..<b}" by fastforce
  moreover have "pages st' n' \<subseteq> {a..<b}" using t(1) tiled_le [OF t(2)] by (auto simp: pages_def)
  ultimately show ?case using r by auto
qed simp

lemma ranges_append: "ranges s (xs @ ys) = ranges s xs @ ranges s ys"
  by (simp add: ranges_def)

lemma ranges_Cons: "ranges s (x # xs) = (n_start (nodes s x), n_npages (nodes s x), n_is_free (nodes s x)) # ranges s xs"
  by (simp add: ranges_def range_of_def)

lemma ranges_Nil [simp]: "ranges s [] = []"
  by (simp add: ranges_def)

text \<open>Splitting a range and merging two ranges keeps the tiling.\<close>

lemma tiled_split:
  assumes "0 < unat k" "unat k < unat n" "tiled a (xs @ [(st, n, f)] @ ys) b" "b < 2 ^ 64"
  shows "tiled a (xs @ [(st, k, f), (st + k, n - k, f)] @ ys) b"
    "used (xs @ [(st, k, f), (st + k, n - k, f)] @ ys) = used (xs @ [(st, n, f)] @ ys)"
proof -
  have "unat st + unat n \<le> b" using tiled_mem [OF assms(3), of st n f] by simp
  then have u: "unat (st + k) = unat st + unat k" "unat (n - k) = unat n - unat k"
    using assms(2,4) by (auto intro!: unat_add_nowrap unat_sub_le)
  then show "tiled a (xs @ [(st, k, f), (st + k, n - k, f)] @ ys) b"
    using assms(1-3) by (auto simp: tiled_append)
  have "pages st k \<union> pages (st + k) (n - k) = pages st n"
    using u assms(1,2) by (auto simp: pages_def)
  then show "used (xs @ [(st, k, f), (st + k, n - k, f)] @ ys) = used (xs @ [(st, n, f)] @ ys)"
    by (auto simp: used_append)
qed

lemma tiled_merge:
  assumes "tiled a (xs @ [(st, n, f), (st', n', f')] @ ys) b" "b < 2 ^ 64"
  shows "tiled a (xs @ [(st, n + n', f)] @ ys) b"
    "f = f' \<Longrightarrow> used (xs @ [(st, n + n', f)] @ ys) = used (xs @ [(st, n, f), (st', n', f')] @ ys)"
proof -
  have "unat st' + unat n' \<le> b" using tiled_mem [OF assms(1), of st' n' f'] by simp
  moreover have st': "unat st' = unat st + unat n" using assms(1) by (auto simp: tiled_append)
  ultimately have u: "unat (n + n') = unat n + unat n'"
    using assms(2) by (intro unat_add_nowrap) linarith
  then show "tiled a (xs @ [(st, n + n', f)] @ ys) b"
    using assms(1) by (auto simp: tiled_append add.assoc)
  have "pages st (n + n') = pages st n \<union> pages st' n'"
    using u st' by (auto simp: pages_def)
  then show "f = f' \<Longrightarrow> used (xs @ [(st, n + n', f)] @ ys) = used (xs @ [(st, n, f), (st', n', f')] @ ys)"
    by (auto simp: used_append)
qed

text \<open>Changing the state of one range.\<close>

lemma used_flip:
  assumes "tiled a (xs @ [(st, n, f)] @ ys) b"
  shows "used (xs @ [(st, n, False)] @ ys) = used (xs @ ys) \<union> pages st n"
    "used (xs @ [(st, n, True)] @ ys) = used (xs @ ys)"
    "pages st n \<inter> used (xs @ ys) = {}"
proof -
  show "used (xs @ [(st, n, False)] @ ys) = used (xs @ ys) \<union> pages st n"
    "used (xs @ [(st, n, True)] @ ys) = used (xs @ ys)"
    by (auto simp: used_append)
  obtain c where "tiled a xs c" "c = unat st" "tiled (unat st + unat n) ys b"
    using assms by (auto simp: tiled_append)
  then show "pages st n \<inter> used (xs @ ys) = {}"
    using used_bounds [of a xs c] used_bounds [of "unat st + unat n" ys b]
    by (fastforce simp: used_append pages_def)
qed

lemma tiled_flag: "tiled a (xs @ [(st, n, f)] @ ys) b = tiled a (xs @ [(st, n, g)] @ ys) b"
  by (auto simp: tiled_append)

section \<open>Linked nodes\<close>

definition first :: "nat list \<Rightarrow> nat option" where
  "first ids = (case ids of [] \<Rightarrow> None | i # is \<Rightarrow> Some i)"

definition end_of :: "nat option \<Rightarrow> nat list \<Rightarrow> nat option" where
  "end_of pr ids = (if ids = [] then pr else Some (last ids))"

lemma first_simps [simp]: "first [] = None" "first (i # is) = Some i"
  by (simp_all add: first_def)

lemma dl_first: "dl nd pr p ids \<Longrightarrow> p = first ids"
  by (cases ids) auto

text \<open>The list as conditions on each node.\<close>

fun linked :: "(nat \<Rightarrow> vma_node) \<Rightarrow> nat option \<Rightarrow> nat list \<Rightarrow> nat option \<Rightarrow> bool" where
  "linked nd pr [] q = True"
| "linked nd pr (i # is) q =
     (n_prev (nd i) = pr \<and> n_next (nd i) = (if is = [] then q else first is) \<and> linked nd (Some i) is q)"

lemma dl_linked: "dl nd pr p ids \<longleftrightarrow> p = first ids \<and> linked nd pr ids None"
proof (induction ids arbitrary: pr p)
  case (Cons i "is")
  then show ?case by (cases "is") auto
qed simp

lemma linked_append:
  "linked nd pr (xs @ ys) q \<longleftrightarrow>
     linked nd pr xs (if ys = [] then q else first ys) \<and> linked nd (end_of pr xs) ys q"
proof (induction xs arbitrary: pr)
  case (Cons x xs)
  then show ?case by (cases xs; cases ys) (auto simp: end_of_def)
qed (simp add: end_of_def)

lemma linked_cong:
  "(\<And>i. i \<in> set ids \<Longrightarrow> n_prev (nd' i) = n_prev (nd i) \<and> n_next (nd' i) = n_next (nd i))
     \<Longrightarrow> linked nd' pr ids q = linked nd pr ids q"
  by (induction ids arbitrary: pr) auto

lemma end_of_snoc [simp]: "end_of pr (xs @ [x]) = Some x"
  by (simp add: end_of_def)

lemma nodes_upd_node [simp]: "nodes (upd_node i f s) = (nodes s)(i := f (nodes s i))"
  by (simp add: upd_node_def)

lemma upd_node_frame [simp, frame_simps]:
  "max_nodes (upd_node i f s) = max_nodes s" "free_stack (upd_node i f s) = free_stack s"
  "head (upd_node i f s) = head s" "va_base (upd_node i f s) = va_base s"
  "total_pages (upd_node i f s) = total_pages s" "va_lock (upd_node i f s) = va_lock s"
  "new_answers (upd_node i f s) = new_answers s"
  by (simp_all add: upd_node_def)

lemma set_prev_of_frame [simp, frame_simps]:
  "max_nodes (set_prev_of i v s) = max_nodes s" "free_stack (set_prev_of i v s) = free_stack s"
  "head (set_prev_of i v s) = head s" "va_base (set_prev_of i v s) = va_base s"
  "total_pages (set_prev_of i v s) = total_pages s" "va_lock (set_prev_of i v s) = va_lock s"
  "new_answers (set_prev_of i v s) = new_answers s"
  by (auto simp: set_prev_of_def split: option.splits)

lemma nodes_set_prev_of:
  "nodes (set_prev_of p v s) j =
     (if p = Some j then (nodes s j)\<lparr>n_prev := v\<rparr> else nodes s j)"
  by (auto simp: set_prev_of_def split: option.splits)

lemma same_config_refl [simp]: "same_config s s"
  by (simp add: same_config_def)

lemma same_config_trans: "same_config s t \<Longrightarrow> same_config t u \<Longrightarrow> same_config s u"
  by (simp add: same_config_def)


section \<open>Nodes of the pool\<close>

lemma allocate_node_spec:
  assumes "pool_ok s ids"
  shows "(allocate_node s = (None, s) \<and> free_stack s = [] \<and> new_answers s = [])
    \<or> (\<exists>i t. allocate_node s = (Some i, t) \<and> i \<notin> set ids \<and> same_config s t
         \<and> nodes t = (nodes s)(i := fresh_node (max_nodes s \<le> i))
         \<and> (\<forall>nd. pool_ok (t\<lparr>nodes := nd\<rparr>) (i # ids) \<longleftrightarrow>
              (n_dynamic (nd i) \<longleftrightarrow> max_nodes s \<le> i) \<and> (\<forall>j \<in> set ids. n_dynamic (nd j) \<longleftrightarrow> max_nodes s \<le> j)))"
proof (cases "free_stack s")
  case (Cons i st)
  then have "i \<notin> set ids" "i < max_nodes s" "i \<notin> set st" using assms by (auto simp: pool_ok_def)
  then show ?thesis
    using Cons assms
    by (intro disjI2 exI [of _ i] exI [of _ "upd_node i (\<lambda>_. fresh_node False) (s\<lparr>free_stack := st\<rparr>)"])
      (auto simp: allocate_node_def same_config_def pool_ok_def)
next
  case free: Nil
  show ?thesis
  proof (cases "new_answers s")
    case Nil
    then show ?thesis using free by (simp add: allocate_node_def)
  next
    case (Cons i ps)
    then have "i \<notin> set ids" "max_nodes s \<le> i" "i \<notin> set ps" using assms by (auto simp: pool_ok_def)
    then show ?thesis
      using Cons free assms
      by (intro disjI2 exI [of _ i] exI [of _ "upd_node i (\<lambda>_. fresh_node True) (s\<lparr>new_answers := ps\<rparr>)"])
        (auto simp: allocate_node_def same_config_def pool_ok_def)
  qed
qed

lemma pool_ok_perm: "set ids = set js \<Longrightarrow> pool_ok s ids = pool_ok s js"
  by (simp add: pool_ok_def)

lemma ranges_cong: "(\<And>i. i \<in> set ids \<Longrightarrow> range_of (nodes t i) = range_of (nodes s i)) \<Longrightarrow> ranges t ids = ranges s ids"
  by (simp add: ranges_def)

lemma linked_first_next: "linked nd pr (xs @ c # ys) q \<Longrightarrow> n_next (nd c) = (if ys = [] then q else first ys)"
  by (simp add: linked_append)

text \<open>\<open>split_node_left\<close> puts a new node behind the one it splits.\<close>

lemma split_spec:
  assumes ch: "chain s (xs @ c # ys)" and pool: "pool_ok s (xs @ c # ys)"
    and k: "k \<noteq> 0" "k < n_npages (nodes s c)"
  shows "(split_node_left c k s = (c, s) \<and> free_stack s = [] \<and> new_answers s = [])
    \<or> (\<exists>r t. split_node_left c k s = (r, t) \<and> r \<noteq> c \<and> chain t (xs @ c # r # ys)
         \<and> pool_ok t (xs @ c # r # ys) \<and> same_config s t
         \<and> ranges t (xs @ c # r # ys) = ranges s xs
             @ [(n_start (nodes s c), k, n_is_free (nodes s c)),
                (n_start (nodes s c) + k, n_npages (nodes s c) - k, n_is_free (nodes s c))]
             @ ranges s ys)"
proof (cases "fst (allocate_node s)")
  case None
  then show ?thesis
    using allocate_node_spec [OF pool] k by (auto simp: split_node_left_def)
next
  case (Some r)
  then obtain u where u: "allocate_node s = (Some r, u)" "r \<notin> set (xs @ c # ys)" "same_config s u"
    "nodes u = (nodes s)(r := fresh_node (max_nodes s \<le> r))"
    "\<And>nd. pool_ok (u\<lparr>nodes := nd\<rparr>) (r # xs @ c # ys) \<longleftrightarrow>
       (n_dynamic (nd r) \<longleftrightarrow> max_nodes s \<le> r)
       \<and> (\<forall>j \<in> set (xs @ c # ys). n_dynamic (nd j) \<longleftrightarrow> max_nodes s \<le> j)"
    using allocate_node_spec [OF pool] by auto
  have rc: "r \<noteq> c" using u(2) by auto
  define t where "t = snd (split_node_left c k s)"
  have next_c: "n_next (nodes s c) = first ys"
    using ch linked_first_next [of "nodes s" None xs c ys None]
    by (auto simp: chain_def dl_linked)
  have dist: "distinct (xs @ c # ys)" using ch by (simp add: chain_def)
  have k': "\<not> n_npages (nodes s c) \<le> k" using k(2) by simp
  have cfg: "split_node_left c k s = (r, t)" "same_config s t"
    "free_stack t = free_stack u" "new_answers t = new_answers u" "max_nodes t = max_nodes u"
    using u(1,3) k k' by (simp_all add: t_def split_node_left_def Let_def same_config_def)
  have nd: "nodes t j =
      (if j = c then (nodes s c)\<lparr>n_next := Some r, n_npages := k\<rparr>
       else if j = r then \<lparr>n_valid = True, n_dynamic = (max_nodes s \<le> r), n_is_free = n_is_free (nodes s c),
              n_start = n_start (nodes s c) + k, n_npages = n_npages (nodes s c) - k,
              n_prev = Some c, n_next = first ys\<rparr>
       else if first ys = Some j then (nodes s j)\<lparr>n_prev := Some r\<rparr> else nodes s j)" for j
    using u(1,2,4) k k' rc dist next_c
    by (cases ys) (auto simp: t_def split_node_left_def Let_def nodes_set_prev_of fresh_node_def)
  have ln: "linked (nodes s) None xs (Some c)" "n_prev (nodes s c) = end_of None xs"
    "linked (nodes s) (Some c) ys None"
    using ch by (auto simp: chain_def dl_linked linked_append)
  have nx: "nodes t i = nodes s i" if "i \<in> set xs" for i
    using that dist u(2) by (cases ys) (auto simp: nd)
  then have "linked (nodes t) None xs (Some c)"
    using ln(1) linked_cong [of xs "nodes t" "nodes s"] by simp
  moreover have "linked (nodes t) (Some r) ys None"
  proof (cases ys)
    case (Cons y zs)
    then have "nodes t i = nodes s i" if "i \<in> set zs" for i
      using that dist u(2) by (auto simp: nd)
    then have "linked (nodes t) (Some y) zs None"
      using Cons ln(3) linked_cong [of zs "nodes t" "nodes s"] by simp
    then show ?thesis using Cons ln(3) dist u(2) by (auto simp: nd)
  qed simp
  ultimately have "linked (nodes t) None (xs @ c # r # ys) None"
    using ln(2) rc by (auto simp: linked_append nd)
  moreover have "head t = first (xs @ c # r # ys)"
    using ch cfg(2) by (cases xs) (auto simp: chain_def dl_linked same_config_def)
  ultimately have "chain t (xs @ c # r # ys)"
    using dist u(2) by (auto simp: chain_def dl_linked)
  moreover have "pool_ok t (xs @ c # r # ys)"
  proof -
    have "pool_ok t (r # xs @ c # ys) = pool_ok (u\<lparr>nodes := nodes t\<rparr>) (r # xs @ c # ys)"
      using cfg by (simp add: pool_ok_def)
    moreover have "\<dots>"
      unfolding u(5) using pool rc by (auto simp: nd pool_ok_def)
    ultimately show ?thesis using pool_ok_perm [of "xs @ c # r # ys" "r # xs @ c # ys" t] by auto
  qed
  moreover have "ranges t xs = ranges s xs" "ranges t ys = ranges s ys"
    using dist u(2) by (auto intro!: ranges_cong simp: nd range_of_def)
  ultimately show ?thesis
    using cfg(1,2) rc by (auto simp: ranges_append ranges_Cons nd)
qed

text \<open>Both merges absorb the node behind a node.\<close>

definition absorb_next :: "nat \<Rightarrow> nat \<Rightarrow> vaddr_allocator \<Rightarrow> vaddr_allocator option" where
  "absorb_next p n s =
     (let s = upd_node p (\<lambda>nd. nd\<lparr>n_npages := n_npages nd + n_npages (nodes s n)\<rparr>) s;
          s = upd_node p (\<lambda>nd. nd\<lparr>n_next := n_next (nodes s n)\<rparr>) s;
          s = set_prev_of (n_next (nodes s n)) (Some p) s
      in free_node n s)"

lemma free_node_spec:
  assumes "pool_ok s (n # ids)" "n \<notin> set ids"
  shows "\<exists>t. free_node n s = Some t \<and> pool_ok t ids \<and> same_config s t
    \<and> (\<forall>j. j \<noteq> n \<longrightarrow> nodes t j = nodes s j)"
proof (cases "n_dynamic (nodes s n)")
  case True
  then show ?thesis using assms by (auto simp: free_node_def pool_ok_def)
next
  case False
  then have n: "n < max_nodes s" "n \<notin> set (free_stack s)" using assms by (auto simp: pool_ok_def)
  have "set (free_stack s) \<subseteq> {..<max_nodes s} - {n}" using assms n by (auto simp: pool_ok_def)
  then have "card (set (free_stack s)) \<le> card ({..<max_nodes s} - {n})" by (intro card_mono) auto
  then have "List.length (free_stack s) < max_nodes s"
    using assms(1) n by (auto simp: pool_ok_def distinct_card)
  then show ?thesis
    using False n assms
    by (auto simp: free_node_def pool_ok_def same_config_def)
qed

lemma absorb_next_spec:
  assumes ch: "chain s (xs @ p # n # ys)" and pool: "pool_ok s (xs @ p # n # ys)"
  shows "\<exists>t. absorb_next p n s = Some t \<and> chain t (xs @ p # ys) \<and> pool_ok t (xs @ p # ys)
    \<and> same_config s t
    \<and> ranges t (xs @ p # ys) = ranges s xs
        @ [(n_start (nodes s p), n_npages (nodes s p) + n_npages (nodes s n), n_is_free (nodes s p))]
        @ ranges s ys"
proof -
  have dist: "distinct (xs @ p # n # ys)" using ch by (simp add: chain_def)
  have ln: "linked (nodes s) None xs (Some p)" "n_prev (nodes s p) = end_of None xs"
    "n_next (nodes s n) = first ys" "linked (nodes s) (Some n) ys None"
    using ch by (auto simp: chain_def dl_linked linked_append)
  define u where "u = set_prev_of (first ys) (Some p) (upd_node p (\<lambda>nd. nd\<lparr>n_next := first ys\<rparr>)
      (upd_node p (\<lambda>nd. nd\<lparr>n_npages := n_npages nd + n_npages (nodes s n)\<rparr>) s))"
  have abs: "absorb_next p n s = free_node n u"
    using ln(3) dist by (simp add: absorb_next_def u_def Let_def)
  have nd: "nodes u j =
      (if j = p then (nodes s p)\<lparr>n_next := first ys, n_npages := n_npages (nodes s p) + n_npages (nodes s n)\<rparr>
       else if first ys = Some j then (nodes s j)\<lparr>n_prev := Some p\<rparr> else nodes s j)" for j
    using dist by (cases ys) (auto simp: u_def nodes_set_prev_of)
  have cfg: "same_config s u" "free_stack u = free_stack s" "new_answers u = new_answers s"
    by (simp_all add: u_def same_config_def)
  have "pool_ok u (n # xs @ p # ys)"
    using pool cfg by (auto simp: pool_ok_def nd same_config_def)
  then obtain t where t: "free_node n u = Some t" "pool_ok t (xs @ p # ys)" "same_config u t"
    "\<And>j. j \<noteq> n \<Longrightarrow> nodes t j = nodes u j"
    using free_node_spec [of u n "xs @ p # ys"] dist by auto
  have nt: "nodes t j = nodes u j" if "j \<in> set (xs @ p # ys)" for j
  proof -
    have "j \<noteq> n" using that dist by auto
    then show ?thesis by (rule t(4))
  qed
  have nx: "nodes t i = nodes s i" if "i \<in> set xs" for i
    using that dist nt [of i] by (cases ys) (auto simp: nd)
  then have "linked (nodes t) None xs (Some p)"
    using ln(1) linked_cong [of xs "nodes t" "nodes s"] by simp
  moreover have "linked (nodes t) (Some p) ys None"
  proof (cases ys)
    case (Cons y zs)
    then have "nodes t i = nodes s i" if "i \<in> set zs" for i
      using that dist nt [of i] by (auto simp: nd)
    then have "linked (nodes t) (Some y) zs None"
      using Cons ln(4) linked_cong [of zs "nodes t" "nodes s"] by simp
    then show ?thesis using Cons ln(4) dist nt by (auto simp: nd)
  qed simp
  ultimately have "linked (nodes t) None (xs @ p # ys) None"
    using ln(2) nt by (auto simp: linked_append nd)
  moreover have "head t = first (xs @ p # ys)"
    using ch cfg(1) t(3) by (cases xs) (auto simp: chain_def dl_linked same_config_def)
  ultimately have "chain t (xs @ p # ys)" using dist by (simp add: chain_def dl_linked)
  moreover have "ranges t xs = ranges s xs" "ranges t ys = ranges s ys"
    using dist nt by (auto intro!: ranges_cong simp: nd range_of_def)
  ultimately show ?thesis
    using abs t(1,2) same_config_trans [OF cfg(1) t(3)] nt
    by (auto simp: ranges_append ranges_Cons nd)
qed


section \<open>The invariant under the operations\<close>

lemma set_is_free_frame [simp, frame_simps]:
  "same_config s (set_is_free i b s)" "free_stack (set_is_free i b s) = free_stack s"
  "new_answers (set_is_free i b s) = new_answers s"
  "nodes (set_is_free i b s) = (nodes s)(i := (nodes s i)\<lparr>n_is_free := b\<rparr>)"
  by (simp_all add: set_is_free_def same_config_def)

lemma set_is_free_chain:
  "chain (set_is_free i b s) ids = chain s ids" "pool_ok (set_is_free i b s) ids = pool_ok s ids"
proof -
  have "linked (nodes (set_is_free i b s)) None ids None = linked (nodes s) None ids None"
    by (rule linked_cong) simp
  then show "chain (set_is_free i b s) ids = chain s ids"
    by (simp add: chain_def dl_linked set_is_free_def)
  show "pool_ok (set_is_free i b s) ids = pool_ok s ids"
    unfolding pool_ok_def by (auto simp: set_is_free_def)
qed

text \<open>The ranges around a node of the list.\<close>

lemma ranges_mid:
  "ranges s (xs @ c # ys) = ranges s xs @ [(n_start (nodes s c), n_npages (nodes s c), n_is_free (nodes s c))] @ ranges s ys"
  by (simp add: ranges_append ranges_Cons)

lemma ranges_set_is_free:
  "distinct (xs @ c # ys) \<Longrightarrow> ranges (set_is_free c b s) (xs @ c # ys)
     = ranges s xs @ [(n_start (nodes s c), n_npages (nodes s c), b)] @ ranges s ys"
proof -
  assume d: "distinct (xs @ c # ys)"
  have "ranges (set_is_free c b s) xs = ranges s xs" "ranges (set_is_free c b s) ys = ranges s ys"
    using d by (auto intro!: ranges_cong)
  then show ?thesis by (simp add: ranges_mid)
qed

lemma total_lt: "vma_inv s ids \<Longrightarrow> unat (total_pages s) < 2 ^ 64"
  by (simp add: vma_inv_def)

lemma vma_invD:
  assumes "vma_inv s ids"
  shows "chain s ids" "pool_ok s ids" "tiled 0 (ranges s ids) (unat (total_pages s))"
    "unat (total_pages s) \<le> 2 ^ 52" "distinct ids"
  using assms by (simp_all add: vma_inv_def chain_def)

lemma range_bound:
  assumes "vma_inv s ids" "c \<in> set ids"
  shows "unat (n_start (nodes s c)) + unat (n_npages (nodes s c)) \<le> unat (total_pages s)"
    "0 < unat (n_npages (nodes s c))"
proof -
  obtain xs ys where ids: "ids = xs @ c # ys" using assms(2) by (meson split_list)
  have t: "tiled 0 (ranges s xs @ [(n_start (nodes s c), n_npages (nodes s c), n_is_free (nodes s c))] @ ranges s ys)
      (unat (total_pages s))"
    using vma_invD(3) [OF assms(1)] by (simp add: ids ranges_mid)
  then show "unat (n_start (nodes s c)) + unat (n_npages (nodes s c)) \<le> unat (total_pages s)"
    using tiled_mem [OF t, of "n_start (nodes s c)" "n_npages (nodes s c)" "n_is_free (nodes s c)"] by simp
  show "0 < unat (n_npages (nodes s c))" using t by (auto simp: tiled_append)
qed

lemma split_inv:
  assumes inv: "vma_inv s (xs @ c # ys)" and k: "k \<noteq> 0" "k < n_npages (nodes s c)"
  shows "(split_node_left c k s = (c, s) \<and> free_stack s = [] \<and> new_answers s = [])
    \<or> (\<exists>r t. split_node_left c k s = (r, t) \<and> r \<noteq> c \<and> vma_inv t (xs @ c # r # ys) \<and> same_config s t
         \<and> used (ranges t (xs @ c # r # ys)) = used (ranges s (xs @ c # ys))
         \<and> range_of (nodes t c) = (n_start (nodes s c), k, n_is_free (nodes s c))
         \<and> range_of (nodes t r) = (n_start (nodes s c) + k, n_npages (nodes s c) - k, n_is_free (nodes s c)))"
proof -
  note i = vma_invD [OF inv]
  have k': "0 < unat k" "unat k < unat (n_npages (nodes s c))"
    using k by (simp_all add: word_less_nat_alt unat_gt_0)
  note sp = tiled_split [OF k' i(3) [unfolded ranges_mid] total_lt [OF inv]]
  have fin: "vma_inv t (xs @ c # r # ys)
      \<and> used (ranges t (xs @ c # r # ys)) = used (ranges s (xs @ c # ys))
      \<and> range_of (nodes t c) = (n_start (nodes s c), k, n_is_free (nodes s c))
      \<and> range_of (nodes t r) = (n_start (nodes s c) + k, n_npages (nodes s c) - k, n_is_free (nodes s c))"
    if "chain t (xs @ c # r # ys)" "pool_ok t (xs @ c # r # ys)" "same_config s t"
      "ranges t (xs @ c # r # ys) = ranges s xs
             @ [(n_start (nodes s c), k, n_is_free (nodes s c)),
                (n_start (nodes s c) + k, n_npages (nodes s c) - k, n_is_free (nodes s c))]
             @ ranges s ys" for r t
  proof -
    have "map (\<lambda>i. range_of (nodes t i)) xs = map (\<lambda>i. range_of (nodes s i)) xs
        \<and> range_of (nodes t c) = (n_start (nodes s c), k, n_is_free (nodes s c))
        \<and> range_of (nodes t r) = (n_start (nodes s c) + k, n_npages (nodes s c) - k, n_is_free (nodes s c))"
      using that(4) by (simp add: ranges_def)
    then show ?thesis
      using that sp i(4) by (simp add: vma_inv_def same_config_def ranges_mid)
  qed
  show ?thesis using split_spec [OF i(1,2) k] fin by metis
qed

lemma absorb_inv:
  assumes inv: "vma_inv s (xs @ p # n # ys)" and f: "n_is_free (nodes s p) = n_is_free (nodes s n)"
  shows "\<exists>t. absorb_next p n s = Some t \<and> vma_inv t (xs @ p # ys) \<and> same_config s t
    \<and> used (ranges t (xs @ p # ys)) = used (ranges s (xs @ p # n # ys))
    \<and> n_is_free (nodes t p) = n_is_free (nodes s p)"
proof -
  note i = vma_invD [OF inv]
  obtain t where t: "absorb_next p n s = Some t" "chain t (xs @ p # ys)" "pool_ok t (xs @ p # ys)"
    "same_config s t" "ranges t (xs @ p # ys) = ranges s xs
        @ [(n_start (nodes s p), n_npages (nodes s p) + n_npages (nodes s n), n_is_free (nodes s p))]
        @ ranges s ys"
    using absorb_next_spec [OF i(1,2)] by blast
  have r: "ranges s (xs @ p # n # ys) = ranges s xs
      @ [(n_start (nodes s p), n_npages (nodes s p), n_is_free (nodes s p)),
         (n_start (nodes s n), n_npages (nodes s n), n_is_free (nodes s n))] @ ranges s ys"
    by (simp add: ranges_append ranges_Cons)
  note m = tiled_merge [OF i(3) [unfolded r] total_lt [OF inv]]
  have "n_is_free (nodes t p) = n_is_free (nodes s p)"
  proof -
    have "length (ranges t xs) = length (ranges s xs)" by (simp add: ranges_def)
    then show ?thesis using t(5) by (simp add: ranges_mid)
  qed
  then show ?thesis using t m f i(4) r by (simp add: vma_inv_def same_config_def)
qed

lemma merge_prev_eq:
  "merge_prev n s = (case n_prev (nodes s n) of None \<Rightarrow> Some (n, s)
     | Some p \<Rightarrow> if n_is_free (nodes s p) then map_option (Pair p) (absorb_next p n s) else Some (n, s))"
  by (auto simp: merge_prev_def absorb_next_def Let_def map_option_case split: option.splits)

lemma merge_next_eq:
  "merge_next n s = (case n_next (nodes s n) of None \<Rightarrow> Some s
     | Some nx \<Rightarrow> if n_is_free (nodes s nx) then absorb_next n nx s else Some s)"
  by (auto simp: merge_next_def absorb_next_def Let_def split: option.splits)

text \<open>Coalescing around a free node keeps the ranges tiled and the pages in use.\<close>

lemma coalesce_inv:
  assumes inv: "vma_inv s (xs @ n # ys)" and f: "n_is_free (nodes s n)"
  shows "\<exists>t ids. vma_coalesce n s = Some t \<and> vma_inv t ids \<and> same_config s t
    \<and> used (ranges t ids) = used (ranges s (xs @ n # ys))"
proof -
  have next_step: "\<exists>t ids. merge_next m u = Some t \<and> vma_inv t ids \<and> same_config u t
      \<and> used (ranges t ids) = used (ranges u (as @ m # bs))"
    if "vma_inv u (as @ m # bs)" "n_is_free (nodes u m)" for u m as bs
  proof -
    have nx: "n_next (nodes u m) = first bs"
      using vma_invD(1) [OF that(1)] linked_first_next [of "nodes u" None as m bs None]
      by (auto simp: chain_def dl_linked)
    show ?thesis
    proof (cases "bs \<noteq> [] \<and> n_is_free (nodes u (hd bs))")
      case True
      then obtain b cs where b: "bs = b # cs" "n_is_free (nodes u b)" by (cases bs) auto
      then show ?thesis
        using absorb_inv [of u as m b cs] that nx by (fastforce simp: merge_next_eq)
    next
      case False
      then have "merge_next m u = Some u" using nx by (cases bs) (auto simp: merge_next_eq)
      then show ?thesis using that(1) same_config_refl by blast
    qed
  qed
  have pv: "n_prev (nodes s n) = end_of None xs"
    using vma_invD(1) [OF inv] by (auto simp: chain_def dl_linked linked_append)
  show ?thesis
  proof (cases "xs \<noteq> [] \<and> n_is_free (nodes s (last xs))")
    case True
    then obtain as p where p: "xs = as @ [p]" "n_is_free (nodes s p)"
      by (metis append_butlast_last_id)
    obtain u where u: "absorb_next p n s = Some u" "vma_inv u (as @ p # ys)" "same_config s u"
      "used (ranges u (as @ p # ys)) = used (ranges s (xs @ n # ys))" "n_is_free (nodes u p)"
      using absorb_inv [of s as p n ys] inv f p by auto
    have "merge_prev n s = Some (p, u)" using pv p u(1) by (simp add: merge_prev_eq end_of_def)
    then show ?thesis
      using next_step [OF u(2,5)] u(3,4) same_config_trans by (fastforce simp: vma_coalesce_def)
  next
    case False
    then have "merge_prev n s = Some (n, s)" using pv by (auto simp: merge_prev_eq end_of_def)
    then show ?thesis using next_step [OF inv f] by (simp add: vma_coalesce_def)
  qed
qed


section \<open>Allocation\<close>

definition pool_empty :: "vaddr_allocator \<Rightarrow> bool" where
  "pool_empty s \<longleftrightarrow> free_stack s = [] \<and> new_answers s = []"

text \<open>Marking a whole free range as allocated, or an allocated one as free.\<close>

lemma mark_inv:
  assumes inv: "vma_inv s (xs @ c # ys)"
  shows "vma_inv (set_is_free c b s) (xs @ c # ys)"
    "n_is_free (nodes s c) \<Longrightarrow> \<not> b \<Longrightarrow> used (ranges (set_is_free c b s) (xs @ c # ys))
       = used (ranges s (xs @ c # ys)) \<union> pages (n_start (nodes s c)) (n_npages (nodes s c))"
    "n_is_free (nodes s c) \<Longrightarrow> pages (n_start (nodes s c)) (n_npages (nodes s c)) \<inter> used (ranges s (xs @ c # ys)) = {}"
    "\<not> n_is_free (nodes s c) \<Longrightarrow> b \<Longrightarrow> used (ranges (set_is_free c b s) (xs @ c # ys))
       = used (ranges s (xs @ c # ys)) - pages (n_start (nodes s c)) (n_npages (nodes s c))"
    "\<not> n_is_free (nodes s c) \<Longrightarrow> pages (n_start (nodes s c)) (n_npages (nodes s c)) \<subseteq> used (ranges s (xs @ c # ys))"
proof -
  note i = vma_invD [OF inv]
  let ?st = "n_start (nodes s c)" and ?n = "n_npages (nodes s c)"
  have t: "tiled 0 (ranges s xs @ [(?st, ?n, n_is_free (nodes s c))] @ ranges s ys) (unat (total_pages s))"
    using i(3) by (simp add: ranges_mid)
  then have tb: "tiled 0 (ranges s xs @ [(?st, ?n, b)] @ ranges s ys) (unat (total_pages s))" for b
    using tiled_flag by blast
  note fl = used_flip [OF tb [of False]]
  have cfg: "total_pages (set_is_free c b s) = total_pages s" by (simp add: set_is_free_def)
  note rs = ranges_set_is_free [OF i(5), of b]
  show "vma_inv (set_is_free c b s) (xs @ c # ys)"
    using i tb cfg rs by (simp add: vma_inv_def set_is_free_chain)
  show "used (ranges (set_is_free c b s) (xs @ c # ys))
      = used (ranges s (xs @ c # ys)) \<union> pages ?st ?n" if "n_is_free (nodes s c)" "\<not> b"
    unfolding rs unfolding ranges_mid using that fl by simp
  show "pages ?st ?n \<inter> used (ranges s (xs @ c # ys)) = {}" if "n_is_free (nodes s c)"
    unfolding ranges_mid using that fl by simp
  show "used (ranges (set_is_free c b s) (xs @ c # ys))
      = used (ranges s (xs @ c # ys)) - pages ?st ?n" if "\<not> n_is_free (nodes s c)" "b"
    unfolding rs unfolding ranges_mid using that fl by auto
  show "pages ?st ?n \<subseteq> used (ranges s (xs @ c # ys))" if "\<not> n_is_free (nodes s c)"
    unfolding ranges_mid using that fl by simp
qed

definition granted :: "vaddr_allocator \<Rightarrow> nat list \<Rightarrow> vaddr_allocator \<Rightarrow> nat list \<Rightarrow> u64 \<Rightarrow> u64 \<Rightarrow> bool" where
  "granted s ids t js pg n \<longleftrightarrow> vma_inv t js \<and> same_config s t
     \<and> unat pg + unat n \<le> unat (total_pages s)
     \<and> pages pg n \<inter> used (ranges s ids) = {}
     \<and> used (ranges t js) = used (ranges s ids) \<union> pages pg n
     \<and> (pg, n, False) \<in> set (ranges t js)"

lemma claim_spec:
  assumes inv: "vma_inv s (xs @ c # ys)" and f: "n_is_free (nodes s c)"
    and n: "n \<noteq> 0" "n \<le> n_npages (nodes s c)"
  shows "(claim_range n c s = (Inl c, s) \<and> pool_empty s)
    \<or> (\<exists>t js. claim_range n c s = (Inr c, t) \<and> n_start (nodes t c) = n_start (nodes s c)
         \<and> granted s (xs @ c # ys) t js (n_start (nodes s c)) n)"
proof (cases "n < n_npages (nodes s c)")
  case True
  note rb = range_bound [OF inv, of c]
  consider "split_node_left c n s = (c, s)" "pool_empty s"
    | r t where "split_node_left c n s = (r, t)" "r \<noteq> c" "vma_inv t (xs @ c # r # ys)" "same_config s t"
      "used (ranges t (xs @ c # r # ys)) = used (ranges s (xs @ c # ys))"
      "range_of (nodes t c) = (n_start (nodes s c), n, n_is_free (nodes s c))"
    using split_inv [OF inv n(1) True] unfolding pool_empty_def by blast
  then show ?thesis
  proof cases
    case 1
    then show ?thesis using True by (simp add: claim_range_def)
  next
    case 2
    let ?u = "set_is_free c False t"
    have c: "n_start (nodes t c) = n_start (nodes s c)" "n_npages (nodes t c) = n" "n_is_free (nodes t c)"
      using 2(6) f by (simp_all add: range_of_def)
    note m = mark_inv(1,2) [OF 2(3), where b = False] mark_inv(3) [OF 2(3)]
    have "claim_range n c s = (Inr c, ?u)" using True 2(1,2) by (simp add: claim_range_def)
    moreover have "granted s (xs @ c # ys) ?u (xs @ c # r # ys) (n_start (nodes s c)) n"
    proof -
      have "unat n \<le> unat (n_npages (nodes s c))" using n(2) by (simp add: word_le_nat_alt)
      then have "unat (n_start (nodes s c)) + unat n \<le> unat (total_pages s)" using rb by simp
      moreover have "same_config s ?u"
        using same_config_trans [OF 2(4) set_is_free_frame(1)] .
      moreover have "(n_start (nodes s c), n, False) \<in> set (ranges ?u (xs @ c # r # ys))"
        using c by (simp add: ranges_def range_of_def)
      ultimately show ?thesis
        unfolding granted_def using m(1-3) c 2(5) by simp
    qed
    ultimately show ?thesis using c(1) by fastforce
  qed
next
  case False
  then have e: "n_npages (nodes s c) = n" using n(2) by simp
  let ?u = "set_is_free c False s"
  note m = mark_inv(1,2) [OF inv, where b = False] mark_inv(3) [OF inv]
  have "(n_start (nodes s c), n, False) \<in> set (ranges ?u (xs @ c # ys))"
    using e by (simp add: ranges_def range_of_def)
  then have "granted s (xs @ c # ys) ?u (xs @ c # ys) (n_start (nodes s c)) n"
    unfolding granted_def using m(1-3) f e range_bound [OF inv, of c] by simp
  then show ?thesis using False by (fastforce simp: claim_range_def)
qed

lemma unat_pow2: "k < 64 \<Longrightarrow> unat ((2::u64) ^ k) = 2 ^ k"
proof -
  assume k: "k < 64"
  have "unat ((2::u64) ^ k) = 2 ^ k mod 2 ^ 64" using unat_of_nat [where 'a = 64, of "2 ^ k"] by simp
  moreover have "(2::nat) ^ k < 2 ^ 64" using k by (intro power_strict_increasing) auto
  ultimately show ?thesis by simp
qed

lemma vma_align_up_spec:
  assumes "k < 64" "unat v \<le> 2 ^ 52"
  shows "unat v \<le> unat (vma_align_up v (2 ^ k))" "2 ^ k dvd unat (vma_align_up v (2 ^ k))"
    "unat (vma_align_up v (2 ^ k)) < unat v + 2 ^ k"
proof -
  have "(2::nat) ^ k \<le> 2 ^ 63" using assms(1) by (intro power_increasing) auto
  then have b: "unat v + 2 ^ k \<le> 2 ^ 64" using assms(2) by simp
  have u: "unat ((2::u64) ^ k) = 2 ^ k" using assms(1) by (rule unat_pow2)
  have e: "vma_align_up v (2 ^ k) = align_up v (2 ^ k)" if "k \<noteq> 0"
  proof -
    have "(2::nat) \<le> 2 ^ k" using that by (cases k) auto
    then have "\<not> unat ((2::u64) ^ k) \<le> unat (1::u64)" unfolding u by simp
    then have "\<not> (2::u64) ^ k \<le> 1" by (simp only: word_le_nat_alt not_False_eq_True)
    then show ?thesis by (simp add: vma_align_up_def align_up_def)
  qed
  show "unat v \<le> unat (vma_align_up v (2 ^ k))" "2 ^ k dvd unat (vma_align_up v (2 ^ k))"
    "unat (vma_align_up v (2 ^ k)) < unat v + 2 ^ k"
    using align_up_pow2_spec [OF assms(1) b] e
    by (cases "k = 0"; simp add: vma_align_up_def)+
qed

lemma try_node_spec:
  assumes inv: "vma_inv s (xs @ c # ys)" and k: "k < 64" and n: "n \<noteq> 0"
  shows "(\<exists>r t as. try_node n (2 ^ k) c s = (Inl r, t) \<and> vma_inv t (as @ r # ys) \<and> same_config s t
         \<and> used (ranges t (as @ r # ys)) = used (ranges s (xs @ c # ys)))
    \<or> (\<exists>r t js. try_node n (2 ^ k) c s = (Inr r, t) \<and> granted s (xs @ c # ys) t js (n_start (nodes t r)) n
         \<and> 2 ^ k dvd unat (n_start (nodes t r)))"
proof -
  let ?st = "n_start (nodes s c)" and ?m = "n_npages (nodes s c)"
  let ?a = "vma_align_up ?st (2 ^ k)"
  have rb: "unat ?st + unat ?m \<le> unat (total_pages s)" using range_bound [OF inv, of c] by simp
  then have b52: "unat ?st \<le> 2 ^ 52" "unat ?m \<le> 2 ^ 52" using vma_invD(4) [OF inv] by linarith+
  note al = vma_align_up_spec [OF k b52(1)]
  have pad: "unat (?a - ?st) = unat ?a - unat ?st" using al(1) by (rule unat_sub_le)
  have stay: ?thesis if "try_node n (2 ^ k) c s = (Inl c, s)"
    using that inv by (intro disjI1 exI [of _ c] exI [of _ s] exI [of _ xs]) simp
  show ?thesis
  proof (cases "n_is_free (nodes s c) \<and> n \<le> ?m \<and> ?a - ?st + n \<le> ?m")
    case False
    then show ?thesis by (intro stay) (auto simp: try_node_def Let_def)
  next
    case True
    have "(2::nat) ^ k \<le> 2 ^ 63" using k by (intro power_increasing) auto
    moreover have "unat n \<le> unat ?m" using True by (simp add: word_le_nat_alt)
    ultimately have "unat (?a - ?st + n) = unat (?a - ?st) + unat n"
      using al(3) pad b52 by (intro unat_add_nowrap) simp
    then have fit: "unat (?a - ?st) + unat n \<le> unat ?m" using True by (simp add: word_le_nat_alt)
    show ?thesis
    proof (cases "?a - ?st > 0")
      case False
      then have e: "?a = ?st" by (simp add: word_gt_0)
      then have "try_node n (2 ^ k) c s = claim_range n c s"
        using True False by (simp add: try_node_def Let_def)
      then show ?thesis
        using claim_spec [OF inv _ n, of] True stay al(2) e by fastforce
    next
      case pos: True
      have "0 < unat n" using n by (simp add: unat_gt_0)
      then have lt: "?a - ?st < ?m" unfolding word_less_nat_alt using fit by linarith
      have nz: "?a - ?st \<noteq> 0" using pos by (simp add: word_gt_0)
      have run: "try_node n (2 ^ k) c s = (let (right, s) = split_node_left c (?a - ?st) s in
          if right = c then (Inl c, s) else claim_range n right s)"
        using True pos by (simp add: try_node_def Let_def)
      consider "split_node_left c (?a - ?st) s = (c, s)"
        | r t where "split_node_left c (?a - ?st) s = (r, t)" "r \<noteq> c" "vma_inv t (xs @ c # r # ys)" "same_config s t"
          "used (ranges t (xs @ c # r # ys)) = used (ranges s (xs @ c # ys))"
          "range_of (nodes t r) = (?st + (?a - ?st), ?m - (?a - ?st), n_is_free (nodes s c))"
        using split_inv [OF inv nz lt] by blast
      then show ?thesis
      proof cases
        case 1
        then show ?thesis using run by (intro stay) simp
      next
        case 2
        have r: "n_start (nodes t r) = ?a" "n_is_free (nodes t r)" "n_npages (nodes t r) = ?m - (?a - ?st)"
          using 2(6) True by (simp_all add: range_of_def)
        have "unat (n_npages (nodes t r)) = unat ?m - unat (?a - ?st)"
          unfolding r(3) using fit by (intro unat_sub_le) simp
        then have "n \<le> n_npages (nodes t r)" using fit by (simp add: word_le_nat_alt)
        then consider "claim_range n r t = (Inl r, t)"
          | u js where "claim_range n r t = (Inr r, u)" "n_start (nodes u r) = ?a"
            "granted t ((xs @ [c]) @ r # ys) u js ?a n"
          using claim_spec [of t "xs @ [c]" r ys n] 2(3) r(1,2) n by auto
        then show ?thesis
        proof cases
          case 1
          then show ?thesis
            using run 2 by (intro disjI1 exI [of _ r] exI [of _ t] exI [of _ "xs @ [c]"]) simp
        next
          case g: 2
          have "granted s (xs @ c # ys) u js ?a n"
            using g(3) 2(4,5) same_config_trans [OF 2(4), of u]
            by (simp add: granted_def same_config_def)
          then show ?thesis
            using run 2(1,2) g(1,2) al(2)
            by (intro disjI2 exI [of _ r] exI [of _ u] exI [of _ js]) simp
        qed
      qed
    qed
  qed
qed


lemma unlock_frame [simp, frame_simps]:
  "nodes (unlock s) = nodes s" "head (unlock s) = head s" "free_stack (unlock s) = free_stack s"
  "new_answers (unlock s) = new_answers s" "total_pages (unlock s) = total_pages s"
  "va_base (unlock s) = va_base s" "max_nodes (unlock s) = max_nodes s" "\<not> va_lock (unlock s)"
  by (simp_all add: unlock_def spin_unlock_def)

text \<open>The lock is no part of the invariant.\<close>

lemma inv_lock:
  "vma_inv (s\<lparr>va_lock := l\<rparr>) ids = vma_inv s ids" "ranges (s\<lparr>va_lock := l\<rparr>) ids = ranges s ids"
  by (simp_all add: vma_inv_def chain_def pool_ok_def ranges_def)

lemma inv_unlock: "vma_inv (unlock s) ids = vma_inv s ids" "ranges (unlock s) ids = ranges s ids"
  by (simp_all add: unlock_def inv_lock)

lemma next_of_inv:
  "vma_inv s (as @ r # ys) \<Longrightarrow> n_next (nodes s r) = first ys"
  using linked_first_next [of "nodes s" None as r ys None]
  by (auto simp: vma_inv_def chain_def dl_linked)

text \<open>What a call that has released the lock leaves of the configuration.\<close>

definition same_base :: "vaddr_allocator \<Rightarrow> vaddr_allocator \<Rightarrow> bool" where
  "same_base s t \<longleftrightarrow> max_nodes t = max_nodes s \<and> va_base t = va_base s \<and> total_pages t = total_pages s"

text \<open>
  What \<open>alloc_pages\<close> promises about the pages in use before (\<open>U\<close>) and the ranges after it:
  it hands out the address of an aligned run of \<open>n\<close> pages none of which was in use and records
  the run as one range, or leaves the pages in use alone.
\<close>

definition alloc_post ::
  "vaddr_allocator \<Rightarrow> nat set \<Rightarrow> u64 \<Rightarrow> nat \<Rightarrow> u64 option \<Rightarrow> range list \<Rightarrow> bool" where
  "alloc_post s U n k r rs \<longleftrightarrow>
     (case r of None \<Rightarrow> used rs = U
      | Some v \<Rightarrow> \<exists>pg. v = vaddr_from_page s pg \<and> 2 ^ k dvd unat pg
          \<and> unat pg + unat n \<le> unat (total_pages s) \<and> pages pg n \<inter> U = {}
          \<and> used rs = U \<union> pages pg n \<and> (pg, n, False) \<in> set rs)"

lemma alloc_post_base: "same_base s t \<Longrightarrow> alloc_post t = alloc_post s"
  by (simp add: alloc_post_def same_base_def vaddr_from_page_def fun_eq_iff split: option.splits)

lemma same_base_config: "same_config s t \<Longrightarrow> same_base s t"
  by (simp add: same_config_def same_base_def)

lemma same_base_trans: "same_base s t \<Longrightarrow> same_base t u \<Longrightarrow> same_base s u"
  by (simp add: same_base_def)

lemma same_base_unlock [simp]: "same_base s (unlock t) = same_base s t"
  by (simp add: same_base_def)

lemma alloc_walk_spec:
  assumes "vma_inv s (xs @ ys)" "k < 64" "n \<noteq> 0" "cur = first ys"
  shows "\<exists>r t js. alloc_walk n (2 ^ k) cur s = Some (r, t) \<and> vma_inv t js \<and> \<not> va_lock t \<and> same_base s t
    \<and> alloc_post s (used (ranges s (xs @ ys))) n k r (ranges t js)"
  using assms
proof (induction ys arbitrary: xs cur s)
  case Nil
  then show ?case
    by (subst alloc_walk.simps)
      (auto simp: inv_unlock same_base_def alloc_post_def intro!: exI [of _ xs])
next
  case (Cons c ys)
  from try_node_spec [OF Cons.prems(1-3)]
  consider (go) r t as where "try_node n (2 ^ k) c s = (Inl r, t)" "vma_inv t (as @ r # ys)" "same_config s t"
      "used (ranges t (as @ r # ys)) = used (ranges s (xs @ c # ys))"
    | (take) r t js where "try_node n (2 ^ k) c s = (Inr r, t)" "granted s (xs @ c # ys) t js (n_start (nodes t r)) n"
      "2 ^ k dvd unat (n_start (nodes t r))"
    by blast
  then show ?case
  proof cases
    case go
    have e: "alloc_walk n (2 ^ k) cur s = alloc_walk n (2 ^ k) (first ys) t"
      using Cons.prems(4) go(1) next_of_inv [OF go(2)] by (subst alloc_walk.simps) simp
    have i: "vma_inv t ((as @ [r]) @ ys)" using go(2) by simp
    note sb = same_base_config [OF go(3)]
    have u: "used (ranges t ((as @ [r]) @ ys)) = used (ranges s (xs @ c # ys))" using go(4) by simp
    show ?thesis
      using Cons.IH [OF i Cons.prems(2,3) refl] same_base_trans [OF sb]
      unfolding e alloc_post_base [OF sb] u by blast
  next
    case take
    have "vaddr_from_page t p = vaddr_from_page s p" for p
      using take(2) by (simp add: vaddr_from_page_def same_config_def granted_def)
    then have "alloc_walk n (2 ^ k) cur s
        = Some (Some (vaddr_from_page s (n_start (nodes t r))), unlock t)"
      using Cons.prems(4) take(1) by (subst alloc_walk.simps) simp
    then show ?thesis
      using take(2,3) same_base_config [of s t]
      by (auto simp: granted_def inv_unlock alloc_post_def intro!: exI [of _ js])
  qed
qed

lemma pow2_check: "k < 64 \<Longrightarrow> (2::u64) ^ k AND (2 ^ k - 1) = 0 \<and> (2::u64) ^ k \<ge> 1"
proof -
  assume k: "k < 64"
  have "(2::u64) ^ k AND mask k = 0"
    using unat_pow2 [OF k] by (simp only: and_mask_zero_iff) simp
  moreover have "unat (1::u64) \<le> unat ((2::u64) ^ k)" unfolding unat_pow2 [OF k] by simp
  ultimately show ?thesis by (simp only: pow2_minus_1 word_le_nat_alt)
qed

lemma alloc_pages_run:
  assumes "vma_inv s ids" "\<not> va_lock s" "k < 64"
  shows "\<exists>r t js. alloc_pages n (2 ^ k) s = Some (r, t) \<and> vma_inv t js \<and> \<not> va_lock t \<and> same_base s t
    \<and> alloc_post s (used (ranges s ids)) n k r (ranges t js)"
proof (cases "n = 0")
  case True
  then show ?thesis using assms by (fastforce simp: alloc_pages_def same_base_def alloc_post_def)
next
  case False
  let ?u = "s\<lparr>va_lock := True\<rparr>"
  have "head s = first ids" using assms(1) by (simp add: vma_inv_def chain_def dl_linked)
  then have e: "alloc_pages n (2 ^ k) s = alloc_walk n (2 ^ k) (first ids) ?u"
    using False assms(2) pow2_check [OF assms(3)]
    by (simp add: alloc_pages_def take_lock_def spin_lock_def)
  have i: "vma_inv ?u ([] @ ids)" using assms(1) by (simp add: inv_lock)
  have sb: "same_base s ?u" by (simp add: same_base_def)
  have u: "used (ranges ?u ([] @ ids)) = used (ranges s ids)" by (simp add: inv_lock)
  show ?thesis
    using alloc_walk_spec [OF i assms(3) False refl] same_base_trans [OF sb]
    unfolding e alloc_post_base [OF sb] u by blast
qed

section \<open>Release\<close>

text \<open>What \<open>free\<close> promises about the pages in use.\<close>

definition free_post :: "nat set \<Rightarrow> u64 \<Rightarrow> u64 \<Rightarrow> bool \<Rightarrow> nat set \<Rightarrow> bool" where
  "free_post U page n r V \<longleftrightarrow> (if r then pages page n \<subseteq> U \<and> V = U - pages page n else V = U)"

definition freed :: "vaddr_allocator \<Rightarrow> nat list \<Rightarrow> u64 \<Rightarrow> u64 \<Rightarrow> (bool \<times> vaddr_allocator) option \<Rightarrow> bool" where
  "freed s ids page n res \<longleftrightarrow> (\<exists>r t js. res = Some (r, t) \<and> vma_inv t js \<and> \<not> va_lock t \<and> same_base s t
     \<and> free_post (used (ranges s ids)) page n r (used (ranges t js)))"

lemma freed_false:
  "vma_inv t js \<Longrightarrow> same_base s t \<Longrightarrow> used (ranges t js) = used (ranges s ids)
     \<Longrightarrow> freed s ids page n (Some (False, unlock t))"
  unfolding freed_def free_post_def
  by (intro exI [of _ False] exI [of _ "unlock t"] exI [of _ js]) (simp add: inv_unlock)

lemma release_spec:
  assumes inv: "vma_inv t (xs @ c # ys)" and f: "\<not> n_is_free (nodes t c)" and sb: "same_base s t"
    and u: "used (ranges t (xs @ c # ys)) = used (ranges s ids)"
    and pg: "pages (n_start (nodes t c)) (n_npages (nodes t c)) = pages page n"
  shows "freed s ids page n (do { t \<leftarrow> vma_coalesce c (set_is_free c True t); Some (True, unlock t) })"
proof -
  note m = mark_inv(1,4,5) [OF inv]
  let ?t = "set_is_free c True t"
  obtain v js where v: "vma_coalesce c ?t = Some v" "vma_inv v js" "same_config ?t v"
    "used (ranges v js) = used (ranges ?t (xs @ c # ys))"
    using coalesce_inv [OF m(1) [of True]] by auto
  have "same_base s v"
    using same_base_trans [OF sb] same_base_config [OF same_config_trans [OF set_is_free_frame(1) v(3)]] .
  then show ?thesis
    unfolding freed_def free_post_def
    using v m(2,3) f u pg
    by (intro exI [of _ True] exI [of _ "unlock v"] exI [of _ js]) (simp add: inv_unlock)
qed

lemma free_middle_spec:
  assumes inv: "vma_inv s (xs @ c # ys)" and f: "\<not> n_is_free (nodes s c)"
    and pg: "n_start (nodes s c) \<le> page" "page < n_start (nodes s c) + n_npages (nodes s c)"
    and n: "n \<noteq> 0" "unat n \<le> 2 ^ 52"
  shows "freed s (xs @ c # ys) page n (free_middle page n c s)"
proof -
  let ?st = "n_start (nodes s c)" and ?m = "n_npages (nodes s c)"
  have rb: "unat ?st + unat ?m \<le> 2 ^ 52"
    using range_bound [OF inv, of c] vma_invD(4) [OF inv] by simp
  then have e: "unat (?st + ?m) = unat ?st + unat ?m" by (intro unat_add_nowrap) simp
  then have pn: "unat ?st \<le> unat page" "unat page < unat ?st + unat ?m"
    using pg by (simp_all add: word_le_nat_alt word_less_nat_alt)
  have pe: "unat (page + n) = unat page + unat n" using pn rb n(2) by (intro unat_add_nowrap) simp
  have n0: "0 < unat n" using n(1) by (simp add: unat_gt_0)
  have refuse: ?thesis if "free_middle page n c s = Some (False, unlock t)" "vma_inv t js" "same_base s t"
    "used (ranges t js) = used (ranges s (xs @ c # ys))" for t js
    using freed_false [OF that(2-4)] that(1) by simp
  show ?thesis
  proof (cases "page + n > ?st + ?m")
    case True
    then show ?thesis
      using inv by (intro refuse [of s]) (simp_all add: free_middle_def Let_def same_base_def)
  next
    case False
    then have fit: "unat page + unat n \<le> unat ?st + unat ?m"
      using e pe by (simp add: word_less_nat_alt)
    let ?left = "page - ?st" and ?right = "?st + ?m - (page + n)"
    have l: "unat ?left = unat page - unat ?st" using pn(1) by (rule unat_sub_le)
    have r: "unat ?right = unat ?st + unat ?m - (unat page + unat n)"
      using fit e pe by (subst unat_sub_le) simp_all
    have second: "freed s (xs @ c # ys) page n
       (let (mid, s) = (if ?left > 0 then split_node_left c ?left t else (c, t)) in
            if ?left > 0 \<and> mid = c then Some (False, unlock s)
            else if n_npages (nodes s mid) \<noteq> n then None
            else do { s \<leftarrow> vma_coalesce mid (set_is_free mid True s); Some (True, unlock s) })"
      if t: "vma_inv t (xs @ c # zs)" "same_base s t" "used (ranges t (xs @ c # zs)) = used (ranges s (xs @ c # ys))"
        "n_start (nodes t c) = ?st" "\<not> n_is_free (nodes t c)"
        "unat (n_npages (nodes t c)) = unat ?left + unat n" for t zs
    proof (cases "?left > 0")
      case False
      then have "?left = 0" by (simp add: word_gt_0)
      then have "page = ?st" "n_npages (nodes t c) = n" using t(6) by (simp, simp add: word_unat_eq_iff)
      then show ?thesis using False t release_spec [OF t(1,5,2,3)] by simp
    next
      case True
      then have nz: "?left \<noteq> 0" by (simp add: word_gt_0)
      have lt: "?left < n_npages (nodes t c)" using t(6) n0 by (simp add: word_less_nat_alt)
      consider "split_node_left c ?left t = (c, t)"
        | q v where "split_node_left c ?left t = (q, v)" "q \<noteq> c" "vma_inv v (xs @ c # q # zs)" "same_config t v"
          "used (ranges v (xs @ c # q # zs)) = used (ranges t (xs @ c # zs))"
          "range_of (nodes v q) = (n_start (nodes t c) + ?left, n_npages (nodes t c) - ?left, n_is_free (nodes t c))"
        using split_inv [OF t(1) nz lt] by blast
      then show ?thesis
      proof cases
        case 1
        then show ?thesis using True freed_false [OF t(1-3)] by simp
      next
        case 2
        have "unat (n_npages (nodes t c) - ?left) = unat n" using t(6) by (subst unat_sub_le) simp_all
        then have q: "n_start (nodes v q) = page" "n_npages (nodes v q) = n" "\<not> n_is_free (nodes v q)"
          using 2(6) t(4,5) by (simp_all add: range_of_def word_unat_eq_iff)
        have "vma_inv v ((xs @ [c]) @ q # zs)"
          "used (ranges v ((xs @ [c]) @ q # zs)) = used (ranges s (xs @ c # ys))"
          using 2(3,5) t(3) by simp_all
        then show ?thesis
          using release_spec [of v "xs @ [c]" q zs s] q same_base_trans [OF t(2) same_base_config [OF 2(4)]]
            2(1,2) True by simp
      qed
    qed
    show ?thesis
    proof (cases "?right > 0")
      case False
      then have "?right = 0" by (simp add: word_gt_0)
      then have "unat ?m = unat ?left + unat n" using r fit l pn by simp
      then show ?thesis
        using second [OF inv _ refl refl f] False \<open>\<not> page + n > ?st + ?m\<close>
        by (simp add: free_middle_def Let_def same_base_def)
    next
      case True
      let ?k = "?m - ?right"
      have "unat ?right \<le> unat ?m" using r pn n0 by linarith
      then have k: "unat ?k = unat ?m - unat ?right" by (rule unat_sub_le)
      have kl: "unat ?k = unat ?left + unat n" using k r l fit pn by linarith
      have "0 < unat ?right" using True by (simp add: word_less_nat_alt)
      then have lt: "?k < ?m" using k kl n0 unfolding word_less_nat_alt by linarith
      have nz: "?k \<noteq> 0" using kl n0 by (metis add_gr_0 unat_0 less_irrefl)
      have run: "free_middle page n c s = (let (right_tail, s) = split_node_left c ?k s in
          if right_tail = c then Some (False, unlock s) else
          (let (mid, s) = (if ?left > 0 then split_node_left c ?left s else (c, s)) in
            if ?left > 0 \<and> mid = c then Some (False, unlock s)
            else if n_npages (nodes s mid) \<noteq> n then None
            else do { s \<leftarrow> vma_coalesce mid (set_is_free mid True s); Some (True, unlock s) }))"
        using True \<open>\<not> page + n > ?st + ?m\<close>
        by (simp add: free_middle_def Let_def split_beta)
      consider "split_node_left c ?k s = (c, s)"
        | q t where "split_node_left c ?k s = (q, t)" "q \<noteq> c" "vma_inv t (xs @ c # q # ys)" "same_config s t"
          "used (ranges t (xs @ c # q # ys)) = used (ranges s (xs @ c # ys))"
          "range_of (nodes t c) = (?st, ?k, n_is_free (nodes s c))"
        using split_inv [OF inv nz lt] by blast
      then show ?thesis
      proof cases
        case 1
        then show ?thesis using run inv by (intro refuse [of s]) (simp_all add: same_base_def)
      next
        case 2
        have "freed s (xs @ c # ys) page n
           (let (mid, s) = (if ?left > 0 then split_node_left c ?left t else (c, t)) in
            if ?left > 0 \<and> mid = c then Some (False, unlock s)
            else if n_npages (nodes s mid) \<noteq> n then None
            else do { s \<leftarrow> vma_coalesce mid (set_is_free mid True s); Some (True, unlock s) })"
          using 2(6) f kl by (intro second [OF 2(3) same_base_config [OF 2(4)] 2(5)]) (simp_all add: range_of_def)
        then show ?thesis using run 2(1,2) by simp
      qed
    qed
  qed
qed


lemma free_walk_spec:
  assumes "vma_inv s (xs @ ys)" "n \<noteq> 0" "unat n \<le> 2 ^ 52" "cur = first ys"
  shows "freed s (xs @ ys) page n (free_walk page n cur s)"
  using assms(1,4)
proof (induction ys arbitrary: xs cur)
  case Nil
  then show ?case
    using freed_false [of s xs s xs page n] by (subst free_walk.simps) (simp add: same_base_def)
next
  case (Cons c ys)
  let ?st = "n_start (nodes s c)" and ?m = "n_npages (nodes s c)"
  consider (exact) "\<not> n_is_free (nodes s c)" "?st = page" "?m = n"
    | (middle) "\<not> n_is_free (nodes s c)" "\<not> (?st = page \<and> ?m = n)" "page \<ge> ?st" "page < ?st + ?m"
    | (go) "\<not> (\<not> n_is_free (nodes s c) \<and> ?st = page \<and> ?m = n)"
        "\<not> (\<not> n_is_free (nodes s c) \<and> page \<ge> ?st \<and> page < ?st + ?m)"
    by blast
  then show ?case
  proof cases
    case exact
    then show ?thesis
      using release_spec [OF Cons.prems(1), of s] Cons.prems(2)
      by (subst free_walk.simps) (simp add: same_base_def)
  next
    case middle
    then show ?thesis
      using free_middle_spec [OF Cons.prems(1) _ _ _ assms(2,3)] Cons.prems(2)
      by (subst free_walk.simps) auto
  next
    case go
    have "free_walk page n cur s = free_walk page n (first ys) s"
      using go Cons.prems(2) next_of_inv [OF Cons.prems(1)]
      by (subst free_walk.simps) auto
    then show ?thesis using Cons.IH [of "xs @ [c]", OF _ refl] Cons.prems(1) by simp
  qed
qed

lemma vma_free_run:
  assumes inv: "vma_inv s ids" and l: "\<not> va_lock s" and n: "unat n \<le> 2 ^ 52"
  shows "\<exists>r t js. vma_free v n s = Some (r, t) \<and> vma_inv t js \<and> \<not> va_lock t \<and> same_base s t
    \<and> free_post (used (ranges s ids)) (page_from_vaddr s v) n r (used (ranges t js))"
proof -
  let ?page = "page_from_vaddr s v"
  consider "n = 0" | "n \<noteq> 0" "?page \<ge> total_pages s" | "n \<noteq> 0" "\<not> ?page \<ge> total_pages s" by blast
  then show ?thesis
  proof cases
    case 1
    then show ?thesis
      using inv l by (fastforce simp: vma_free_def same_base_def free_post_def pages_def)
  next
    case 2
    then show ?thesis
      using inv l by (fastforce simp: vma_free_def same_base_def free_post_def)
  next
    case 3
    let ?u = "s\<lparr>va_lock := True\<rparr>"
    have "head s = first ids" using inv by (simp add: vma_inv_def chain_def dl_linked)
    then have e: "vma_free v n s = free_walk ?page n (first ids) ?u"
      using 3 l by (simp add: vma_free_def take_lock_def spin_lock_def)
    have i: "vma_inv ?u ([] @ ids)" using inv by (simp add: inv_lock)
    have sb: "same_base s ?u" by (simp add: same_base_def)
    have u: "used (ranges ?u ([] @ ids)) = used (ranges s ids)" by (simp add: inv_lock)
    show ?thesis
      using free_walk_spec [OF i 3(1) n refl, of ?page] same_base_trans [OF sb]
      unfolding e freed_def u by blast
  qed
qed

section \<open>When a request succeeds\<close>

lemma try_node_one:
  "\<not> (n_is_free (nodes s c) \<and> n \<le> n_npages (nodes s c)) \<Longrightarrow> try_node n 1 c s = (Inl c, s)"
  "n_is_free (nodes s c) \<Longrightarrow> n \<le> n_npages (nodes s c) \<Longrightarrow> try_node n 1 c s = claim_range n c s"
  by (auto simp: try_node_def vma_align_up_def)

lemma alloc_walk_succeeds:
  assumes "vma_inv s (xs @ ys)" "n \<noteq> 0" "cur = first ys" "\<not> pool_empty s"
    and "\<exists>c \<in> set ys. n_is_free (nodes s c) \<and> n \<le> n_npages (nodes s c)"
  shows "\<exists>v t. alloc_walk n 1 cur s = Some (Some v, t)"
  using assms(1,3,5)
proof (induction ys arbitrary: xs cur)
  case (Cons c ys)
  show ?case
  proof (cases "n_is_free (nodes s c) \<and> n \<le> n_npages (nodes s c)")
    case True
    then obtain t where "try_node n 1 c s = (Inr c, t)"
      using claim_spec [OF Cons.prems(1) _ assms(2)] assms(4) try_node_one(2) [of s c n] by auto
    then show ?thesis using Cons.prems(2) by (subst alloc_walk.simps) simp
  next
    case False
    then have "alloc_walk n 1 cur s = alloc_walk n 1 (first ys) s"
      using Cons.prems(2) next_of_inv [OF Cons.prems(1)] try_node_one(1)
      by (subst alloc_walk.simps) auto
    then show ?thesis
      using Cons.IH [of "xs @ [c]", OF _ refl] Cons.prems(1,3) False by auto
  qed
qed simp

lemma alloc_pages_succeeds:
  assumes inv: "vma_inv s ids" and l: "\<not> va_lock s" and n: "n \<noteq> 0" and p: "\<not> pool_empty s"
    and fit: "\<exists>(st, m, f) \<in> set (ranges s ids). f \<and> n \<le> m"
  shows "\<exists>v t. alloc_pages n 1 s = Some (Some v, t)"
proof -
  let ?u = "s\<lparr>va_lock := True\<rparr>"
  have "head s = first ids" using inv by (simp add: vma_inv_def chain_def dl_linked)
  then have e: "alloc_pages n 1 s = alloc_walk n 1 (first ids) ?u"
    using n l by (simp add: alloc_pages_def take_lock_def spin_lock_def)
  have "\<exists>c \<in> set ids. n_is_free (nodes ?u c) \<and> n \<le> n_npages (nodes ?u c)"
    using fit by (auto simp: ranges_def range_of_def)
  moreover have "vma_inv ?u ([] @ ids)" using inv by (simp add: inv_lock)
  moreover have "\<not> pool_empty ?u" using p by (simp add: pool_empty_def)
  ultimately show ?thesis unfolding e using alloc_walk_succeeds [of ?u "[]" ids n] n by simp
qed

section \<open>Counting free pages\<close>

fun free_sum :: "range list \<Rightarrow> nat" where
  "free_sum [] = 0"
| "free_sum ((st, n, f) # rs) = (if f then unat n else 0) + free_sum rs"

lemma free_sum_used: "tiled a rs b \<Longrightarrow> a + free_sum rs + card (used rs) = b"
proof (induction rs arbitrary: a)
  case (Cons r rs)
  obtain st n f where r: "r = (st, n, f)" by (cases r) auto
  then have t: "unat st = a" "tiled (a + unat n) rs b" using Cons.prems by auto
  have fin: "finite (used rs)" using used_bounds [OF t(2)] finite_subset by blast
  have "pages st n \<inter> used rs = {}" using used_bounds [OF t(2)] t(1) by (fastforce simp: pages_def)
  then have "card (pages st n \<union> used rs) = unat n + card (used rs)"
    using fin by (subst card_Un_disjoint) (auto simp: pages_def)
  then show ?case using Cons.IH [OF t(2)] r by simp
qed simp

lemma free_total_walk_spec:
  assumes "vma_inv s (xs @ ys)" "cur = first ys" "unat acc + free_sum (ranges s ys) < 2 ^ 64"
  shows "\<exists>r. free_total_walk cur acc s = Some r \<and> unat r = unat acc + free_sum (ranges s ys)"
  using assms
proof (induction ys arbitrary: xs cur acc)
  case Nil
  then show ?case by (subst free_total_walk.simps) simp
next
  case (Cons c ys)
  let ?acc = "if n_is_free (nodes s c) then acc + n_npages (nodes s c) else acc"
  have a: "unat ?acc + free_sum (ranges s ys) = unat acc + free_sum (ranges s (c # ys))"
    using Cons.prems(3) by (auto simp: ranges_Cons unat_add_nowrap)
  have "free_total_walk cur acc s = free_total_walk (first ys) ?acc s"
    using Cons.prems(2) next_of_inv [OF Cons.prems(1)] by (subst free_total_walk.simps) simp
  then show ?case
    using Cons.IH [of "xs @ [c]" "first ys" ?acc] Cons.prems(1,3) a by simp
qed

section \<open>Initialisation\<close>

lemma vma_init_inv:
  assumes "0 < max_nodes s" "distinct (new_answers s)" "\<forall>i \<in> set (new_answers s). max_nodes s \<le> i"
    and "0 < unat sz div 4096"
  shows "\<exists>t. vma_init st sz s = Some t \<and> vma_inv t [0] \<and> used (ranges t [0]) = {} \<and> va_base t = st
    \<and> unat (total_pages t) = unat sz div 4096 \<and> va_lock t = va_lock s \<and> max_nodes t = max_nodes s
    \<and> ranges t [0] = [(0, sz div PAGE_SIZE, True)] \<and> (max_nodes s > 1 \<longrightarrow> \<not> pool_empty t)"
proof -
  have u: "unat (sz div PAGE_SIZE) = unat sz div 4096" by (simp add: unat_div)
  have m: "[0..<max_nodes s] = 0 # [1..<max_nodes s]" using assms(1) by (simp add: upt_conv_Cons)
  have "unat sz < 2 ^ 64" using unsigned_less [where ?'a = nat, of sz] by simp
  then have "unat sz div 4096 \<le> 2 ^ 52" by simp
  moreover have "0 \<notin> set (new_answers s)" using assms(1,3) by auto
  ultimately show ?thesis
    using assms u
    by (auto simp: vma_init_def m allocate_node_def Let_def vma_inv_def chain_def pool_ok_def ranges_def
        range_of_def fresh_node_def pool_empty_def)
qed


section \<open>What was handed out can be given back\<close>

lemma free_walk_exact:
  assumes "vma_inv s (xs @ ys)" "n \<noteq> 0" "cur = first ys" "(page, n, False) \<in> set (ranges s ys)"
  shows "\<exists>t. free_walk page n cur s = Some (True, t)"
  using assms(1,3,4)
proof (induction ys arbitrary: xs cur)
  case (Cons c ys)
  let ?st = "n_start (nodes s c)" and ?m = "n_npages (nodes s c)"
  show ?case
  proof (cases "?st = page \<and> ?m = n \<and> \<not> n_is_free (nodes s c)")
    case True
    have "vma_inv (set_is_free c True s) (xs @ c # ys)" by (rule mark_inv(1) [OF Cons.prems(1)])
    then obtain t where "vma_coalesce c (set_is_free c True s) = Some t"
      using coalesce_inv by fastforce
    then show ?thesis using True Cons.prems(2) by (subst free_walk.simps) simp
  next
    case False
    then have rest: "(page, n, False) \<in> set (ranges s ys)"
      using Cons.prems(3) by (auto simp: ranges_Cons)
    have "tiled 0 (ranges s xs @ [(?st, ?m, n_is_free (nodes s c))] @ ranges s ys) (unat (total_pages s))"
      using vma_invD(3) [OF Cons.prems(1)] by (simp add: ranges_mid)
    then have "tiled (unat ?st + unat ?m) (ranges s ys) (unat (total_pages s))"
      by (auto simp: tiled_append)
    then have far: "unat ?st + unat ?m \<le> unat page" using tiled_mem rest by blast
    have "unat (?st + ?m) = unat ?st + unat ?m"
      using range_bound [OF Cons.prems(1), of c] vma_invD(4) [OF Cons.prems(1)]
      by (intro unat_add_nowrap) simp
    then have "\<not> page < ?st + ?m" using far by (simp add: word_less_nat_alt)
    then have "free_walk page n cur s = free_walk page n (first ys) s"
      using False Cons.prems(2) next_of_inv [OF Cons.prems(1)]
      by (subst free_walk.simps) auto
    then show ?thesis using Cons.IH [of "xs @ [c]", OF _ refl rest] Cons.prems(1) by simp
  qed
qed simp

lemma page_of_vaddr:
  assumes "unat (va_base s) + unat (total_pages s) * 4096 \<le> 2 ^ 64" "unat pg < unat (total_pages s)"
  shows "page_from_vaddr s (vaddr_from_page s pg) = pg"
proof -
  have "unat pg * 4096 < 2 ^ 64" using assms by linarith
  then have "unat (pg * PAGE_SIZE) = unat pg * 4096" by (simp add: unat_word_ariths)
  then have "unat (pg * PAGE_SIZE div PAGE_SIZE) = unat pg" by (simp add: unat_div)
  then show ?thesis by (simp add: page_from_vaddr_def vaddr_from_page_def word_unat_eq_iff)
qed

lemma vma_free_exact:
  assumes inv: "vma_inv s ids" and l: "\<not> va_lock s" and n: "n \<noteq> 0"
    and b: "unat (va_base s) + unat (total_pages s) * 4096 \<le> 2 ^ 64"
    and r: "(pg, n, False) \<in> set (ranges s ids)"
  shows "\<exists>t js. vma_free (vaddr_from_page s pg) n s = Some (True, t) \<and> vma_inv t js \<and> \<not> va_lock t
    \<and> same_base s t \<and> used (ranges t js) = used (ranges s ids) - pages pg n"
proof -
  have tm: "unat pg + unat n \<le> unat (total_pages s)" using tiled_mem [OF vma_invD(3) [OF inv] r] by simp
  have n0: "0 < unat n" using n by (simp add: unat_gt_0)
  have pg: "page_from_vaddr s (vaddr_from_page s pg) = pg"
    using tm n0 by (intro page_of_vaddr [OF b]) linarith
  have lt: "\<not> pg \<ge> total_pages s" using tm n0 by (simp add: word_le_nat_alt)
  have n52: "unat n \<le> 2 ^ 52" using tm vma_invD(4) [OF inv] by linarith
  let ?u = "s\<lparr>va_lock := True\<rparr>"
  have "head s = first ids" using inv by (simp add: vma_inv_def chain_def dl_linked)
  then have e: "vma_free (vaddr_from_page s pg) n s = free_walk pg n (first ids) ?u"
    using n l lt pg by (simp add: vma_free_def take_lock_def spin_lock_def)
  have "vma_inv ?u ([] @ ids)" using inv by (simp add: inv_lock)
  then obtain t where t: "vma_free (vaddr_from_page s pg) n s = Some (True, t)"
    unfolding e using free_walk_exact [of ?u "[]" ids n _ pg, OF _ n refl] r by (auto simp: inv_lock)
  then show ?thesis
    using vma_free_run [OF inv l n52, of "vaddr_from_page s pg"] pg by (auto simp: free_post_def)
qed

section \<open>The contract with the heap\<close>

text \<open>
  What a client sees of an allocator of address ranges: the bytes that are taken. A request
  takes a run of bytes none of which was taken, or nothing; giving back never takes anything.
\<close>

definition byte_span :: "u64 \<Rightarrow> u64 \<Rightarrow> nat set" where
  "byte_span v n = {unat v ..< unat v + unat n * 4096}"

locale range_source =
  fixes take_range :: "u64 \<Rightarrow> 's \<Rightarrow> (u64 option \<times> 's) option"
    and give_range :: "u64 \<Rightarrow> u64 \<Rightarrow> 's \<Rightarrow> (bool \<times> 's) option"
    and taken :: "'s \<Rightarrow> nat set \<Rightarrow> bool"
    and managed :: "'s \<Rightarrow> nat set"
  assumes take_ok: "taken s U \<Longrightarrow> \<exists>r t V. take_range n s = Some (r, t) \<and> taken t V
      \<and> managed t = managed s
      \<and> (case r of None \<Rightarrow> V = U
         | Some v \<Rightarrow> n \<noteq> 0 \<and> 4096 dvd unat v \<and> byte_span v n \<subseteq> managed s
             \<and> byte_span v n \<inter> U = {} \<and> V = U \<union> byte_span v n)"
    and give_ok: "taken s U \<Longrightarrow> unat n \<le> 2 ^ 52 \<Longrightarrow>
      \<exists>r t V. give_range v n s = Some (r, t) \<and> taken t V \<and> V \<subseteq> U \<and> managed t = managed s"
begin

text \<open>Two requests in a row do not overlap.\<close>

lemma take_again:
  assumes "taken s U" "take_range n s = Some (Some v, t)" "take_range m t = Some (Some w, u)"
  shows "byte_span v n \<inter> byte_span w m = {}"
proof -
  obtain V where "taken t V" "V = U \<union> byte_span v n" using take_ok [OF assms(1), of n] assms(2) by auto
  then show ?thesis using take_ok [of t V m] assms(3) by auto
qed

lemma take_after_refusal:
  assumes "taken s U" "take_range n s = Some (None, t)"
  shows "taken t U"
  using take_ok [OF assms(1), of n] assms(2) by auto

end

text \<open>The bytes of a set of pages behind a base address.\<close>

definition bytes_of :: "nat \<Rightarrow> nat set \<Rightarrow> nat set" where
  "bytes_of b P = {x. b \<le> x \<and> (x - b) div 4096 \<in> P}"

lemma bytes_of_pages:
  "bytes_of b (pages pg n) = {b + unat pg * 4096 ..< b + (unat pg + unat n) * 4096}"
proof (rule set_eqI)
  fix x
  have d: "unat pg \<le> y div 4096 \<longleftrightarrow> unat pg * 4096 \<le> y"
    "y div 4096 < unat pg + unat n \<longleftrightarrow> y < (unat pg + unat n) * 4096" for y :: nat
    by (simp_all add: less_eq_div_iff_mult_less_eq div_less_iff_less_mult)
  show "x \<in> bytes_of b (pages pg n) \<longleftrightarrow> x \<in> {b + unat pg * 4096 ..< b + (unat pg + unat n) * 4096}"
    by (auto simp: bytes_of_def pages_def d)
qed

lemma bytes_of_set: "bytes_of b (P \<union> Q) = bytes_of b P \<union> bytes_of b Q"
  "bytes_of b P \<inter> bytes_of b Q = bytes_of b (P \<inter> Q)" "P \<subseteq> Q \<Longrightarrow> bytes_of b P \<subseteq> bytes_of b Q"
  "bytes_of b {} = {}"
  by (auto simp: bytes_of_def)

definition vma_managed :: "vaddr_allocator \<Rightarrow> nat set" where
  "vma_managed s = bytes_of (unat (va_base s)) {0 ..< unat (total_pages s)}"

definition vma_taken :: "vaddr_allocator \<Rightarrow> nat set \<Rightarrow> bool" where
  "vma_taken s U \<longleftrightarrow> \<not> va_lock s \<and> 4096 dvd unat (va_base s)
     \<and> unat (va_base s) + unat (total_pages s) * 4096 < 2 ^ 64
     \<and> (\<exists>ids. vma_inv s ids \<and> U = bytes_of (unat (va_base s)) (used (ranges s ids)))"

lemma vaddr_bytes:
  assumes "unat (va_base s) + unat (total_pages s) * 4096 < 2 ^ 64" "unat pg + unat n \<le> unat (total_pages s)"
  shows "unat (vaddr_from_page s pg) = unat (va_base s) + unat pg * 4096"
    "byte_span (vaddr_from_page s pg) n = bytes_of (unat (va_base s)) (pages pg n)"
proof -
  have le: "unat pg * 4096 \<le> unat (total_pages s) * 4096" using assms(2) by simp
  then have "unat pg * 4096 < 2 ^ 64" using assms(1) by linarith
  then have m: "unat (pg * PAGE_SIZE) = unat pg * 4096" by (simp add: unat_word_ariths)
  then show v: "unat (vaddr_from_page s pg) = unat (va_base s) + unat pg * 4096"
    unfolding vaddr_from_page_def using assms(1) le by (subst unat_add_nowrap) simp_all
  show "byte_span (vaddr_from_page s pg) n = bytes_of (unat (va_base s)) (pages pg n)"
    unfolding bytes_of_pages byte_span_def v by (simp add: algebra_simps)
qed

lemma vma_take_ok:
  assumes "vma_taken s U"
  shows "\<exists>r t V. alloc_pages n 1 s = Some (r, t) \<and> vma_taken t V \<and> vma_managed t = vma_managed s
      \<and> (case r of None \<Rightarrow> V = U
         | Some v \<Rightarrow> n \<noteq> 0 \<and> 4096 dvd unat v \<and> byte_span v n \<subseteq> vma_managed s
             \<and> byte_span v n \<inter> U = {} \<and> V = U \<union> byte_span v n)"
proof -
  obtain ids where s: "vma_inv s ids" "\<not> va_lock s" "4096 dvd unat (va_base s)"
    "unat (va_base s) + unat (total_pages s) * 4096 < 2 ^ 64"
    "U = bytes_of (unat (va_base s)) (used (ranges s ids))"
    using assms by (auto simp: vma_taken_def)
  obtain r t js where t: "alloc_pages n 1 s = Some (r, t)" "vma_inv t js" "\<not> va_lock t" "same_base s t"
    "alloc_post s (used (ranges s ids)) n 0 r (ranges t js)"
    using alloc_pages_run [OF s(1,2), of 0 n] by auto
  let ?V = "bytes_of (unat (va_base s)) (used (ranges t js))"
  have V: "vma_taken t ?V"
    unfolding vma_taken_def using t(2-4) s(3,4) by (auto simp: same_base_def)
  have mg: "vma_managed t = vma_managed s" using t(4) by (simp add: vma_managed_def same_base_def)
  show ?thesis
  proof (cases r)
    case None
    then show ?thesis using t(1,5) V s(5) mg by (auto simp: alloc_post_def)
  next
    case (Some v)
    obtain pg where pg: "v = vaddr_from_page s pg" "unat pg + unat n \<le> unat (total_pages s)"
      "pages pg n \<inter> used (ranges s ids) = {}" "used (ranges t js) = used (ranges s ids) \<union> pages pg n"
      using t(5) Some by (auto simp: alloc_post_def)
    note vb = vaddr_bytes [OF s(4) pg(2)]
    have "pages pg n \<subseteq> {0 ..< unat (total_pages s)}" using pg(2) by (auto simp: pages_def)
    then have "byte_span v n \<subseteq> vma_managed s"
      unfolding pg(1) vb(2) vma_managed_def by (rule bytes_of_set(3))
    moreover have "n \<noteq> 0" using t(1) Some by (auto simp: alloc_pages_def)
    moreover have "4096 dvd unat v" using vb(1) pg(1) s(3) by simp
    moreover have "byte_span v n \<inter> U = {}" "?V = U \<union> byte_span v n"
      using pg(1,3,4) s(5) vb(2) by (simp_all add: bytes_of_set)
    ultimately show ?thesis using t(1) V Some mg by auto
  qed
qed

lemma vma_give_ok:
  assumes "vma_taken s U" "unat n \<le> 2 ^ 52"
  shows "\<exists>r t V. vma_free v n s = Some (r, t) \<and> vma_taken t V \<and> V \<subseteq> U
    \<and> vma_managed t = vma_managed s"
proof -
  obtain ids where s: "vma_inv s ids" "\<not> va_lock s" "4096 dvd unat (va_base s)"
    "unat (va_base s) + unat (total_pages s) * 4096 < 2 ^ 64"
    "U = bytes_of (unat (va_base s)) (used (ranges s ids))"
    using assms(1) by (auto simp: vma_taken_def)
  obtain r t js where t: "vma_free v n s = Some (r, t)" "vma_inv t js" "\<not> va_lock t" "same_base s t"
    "free_post (used (ranges s ids)) (page_from_vaddr s v) n r (used (ranges t js))"
    using vma_free_run [OF s(1,2) assms(2)] by blast
  have "used (ranges t js) \<subseteq> used (ranges s ids)"
    using t(5) by (auto simp: free_post_def split: if_splits)
  then have "bytes_of (unat (va_base s)) (used (ranges t js)) \<subseteq> U"
    using s(5) by (simp add: bytes_of_set)
  moreover have "vma_taken t (bytes_of (unat (va_base s)) (used (ranges t js)))"
    unfolding vma_taken_def using t(2-4) s(3,4) by (auto simp: same_base_def)
  moreover have "vma_managed t = vma_managed s" using t(4) by (simp add: vma_managed_def same_base_def)
  ultimately show ?thesis using t(1) by blast
qed

interpretation vaddr: range_source "\<lambda>n. alloc_pages n 1" vma_free vma_taken vma_managed
  by unfold_locales (rule vma_take_ok, assumption, rule vma_give_ok)

section \<open>Properties\<close>

text \<open>A small allocator: three nodes, eight pages from \<open>0x100000\<close>.\<close>

definition demo_vma :: vaddr_allocator where
  "demo_vma = the (vma_init 0x100000 0x8000 (allocator_init\<lparr>max_nodes := 3\<rparr>))"

lemma demo_vma_inv:
  "vma_inv demo_vma [0]" "used (ranges demo_vma [0]) = {}" "va_base demo_vma = 0x100000"
  "unat (total_pages demo_vma) = 8" "\<not> va_lock demo_vma" "\<not> pool_empty demo_vma"
  "ranges demo_vma [0] = [(0, 8, True)]"
  using vma_init_inv [of "allocator_init\<lparr>max_nodes := 3\<rparr>" "0x8000" "0x100000"]
  by (auto simp: demo_vma_def allocator_init_def PAGE_SIZE_def)

text \<open>
  C14: \<open>alloc_pages\<close> with a power-of-two alignment always returns and releases the lock. The
  ranges still tile the managed pages; the call hands out an aligned run of pages inside them
  none of which was in use and marks exactly these as in use, or, when it fails, leaves the set of
  pages in use as it was, even if it had already split a range.
\<close>

theorem vma_alloc_safe:
  assumes "vma_inv s ids" "\<not> va_lock s" "k < 64"
  shows "\<exists>r t js. alloc_pages n (2 ^ k) s = Some (r, t) \<and> vma_inv t js \<and> \<not> va_lock t \<and> same_base s t
    \<and> alloc_post s (used (ranges s ids)) n k r (ranges t js)"
  by (rule alloc_pages_run [OF assms])

theorem vma_alloc_safe_witness:
  "\<exists>r t js. alloc_pages 3 (2 ^ 1) demo_vma = Some (r, t) \<and> vma_inv t js \<and> alloc_post demo_vma {} 3 1 r (ranges t js)"
  using vma_alloc_safe [OF demo_vma_inv(1,5), of 1 3] unfolding demo_vma_inv(2) by auto

text \<open>
  C39: a request without alignment succeeds whenever some free range is long enough and a node
  is left for the remainder.
\<close>

theorem vma_alloc_succeeds:
  assumes "vma_inv s ids" "\<not> va_lock s" "n \<noteq> 0" "\<not> pool_empty s"
    and "\<exists>(st, m, f) \<in> set (ranges s ids). f \<and> n \<le> m"
  shows "\<exists>v t. alloc_pages n 1 s = Some (Some v, t)"
  by (rule alloc_pages_succeeds [OF assms])

theorem vma_alloc_succeeds_witness: "\<exists>v t. alloc_pages 3 1 demo_vma = Some (Some v, t)"
  by (rule vma_alloc_succeeds [OF demo_vma_inv(1,5) _ demo_vma_inv(6)]) (simp_all add: demo_vma_inv(7))

text \<open>
  C18: \<open>free\<close> always returns and releases the lock, the ranges still tile the managed pages,
  and it either takes exactly the given pages, all of them in use before, out of use (from the
  middle of a range if need be) and answers true, or changes no page's state and answers false.
\<close>

theorem vma_free_safe:
  assumes "vma_inv s ids" "\<not> va_lock s" "unat n \<le> 2 ^ 52"
  shows "\<exists>r t js. vma_free v n s = Some (r, t) \<and> vma_inv t js \<and> \<not> va_lock t \<and> same_base s t
    \<and> free_post (used (ranges s ids)) (page_from_vaddr s v) n r (used (ranges t js))"
  by (rule vma_free_run [OF assms])

theorem vma_free_safe_witness:
  "\<exists>r t js. vma_free 0x102000 2 demo_vma = Some (r, t) \<and> vma_inv t js \<and> used (ranges t js) = {}"
  using vma_free_safe [OF demo_vma_inv(1,5), of 2 "0x102000"] unfolding demo_vma_inv(2)
  by (fastforce simp: free_post_def split: if_splits)

text \<open>
  C19: giving a run back at the address it was handed out at always succeeds, and the pages in use
  are then those before the request.
\<close>

theorem vma_roundtrip:
  assumes "vma_inv s ids" "\<not> va_lock s" "k < 64" "n \<noteq> 0"
    and "unat (va_base s) + unat (total_pages s) * 4096 \<le> 2 ^ 64"
    and "alloc_pages n (2 ^ k) s = Some (Some v, t)"
  shows "\<exists>u js. vma_free v n t = Some (True, u) \<and> vma_inv u js \<and> \<not> va_lock u
    \<and> used (ranges u js) = used (ranges s ids)"
proof -
  obtain js where t: "vma_inv t js" "\<not> va_lock t" "same_base s t"
    "alloc_post s (used (ranges s ids)) n k (Some v) (ranges t js)"
    using alloc_pages_run [OF assms(1-3), of n] assms(6) by auto
  obtain pg where pg: "v = vaddr_from_page s pg" "pages pg n \<inter> used (ranges s ids) = {}"
    "used (ranges t js) = used (ranges s ids) \<union> pages pg n" "(pg, n, False) \<in> set (ranges t js)"
    using t(4) by (auto simp: alloc_post_def)
  have "vaddr_from_page t pg = v" "unat (va_base t) + unat (total_pages t) * 4096 \<le> 2 ^ 64"
    using t(3) pg(1) assms(5) by (simp_all add: vaddr_from_page_def same_base_def)
  then show ?thesis
    using vma_free_exact [OF t(1,2) assms(4) _ pg(4)] pg(2,3) by fastforce
qed

theorem vma_roundtrip_witness:
  "\<exists>v t u. alloc_pages 3 (2 ^ 0) demo_vma = Some (Some v, t) \<and> vma_free v 3 t = Some (True, u)"
proof -
  obtain v t where t: "alloc_pages 3 (2 ^ 0) demo_vma = Some (Some v, t)"
    using alloc_pages_succeeds [OF demo_vma_inv(1,5) _ demo_vma_inv(6), of 3] by (auto simp: demo_vma_inv(7))
  then show ?thesis using vma_roundtrip [OF demo_vma_inv(1,5) _ _ _ t] by (auto simp: demo_vma_inv)
qed

text \<open>\<open>free_pages_total\<close> is the number of managed pages that are not in use.\<close>

lemma vma_free_total:
  assumes "vma_inv s ids"
  shows "\<exists>r. free_pages_total s = Some r
    \<and> unat r + card (used (ranges s ids)) = unat (total_pages s)"
proof -
  have t: "0 + free_sum (ranges s ids) + card (used (ranges s ids)) = unat (total_pages s)"
    by (rule free_sum_used [OF vma_invD(3) [OF assms]])
  have "head s = first ids" using assms by (simp add: vma_inv_def chain_def dl_linked)
  then obtain r where "free_pages_total s = Some r" "unat r = free_sum (ranges s ids)"
    using free_total_walk_spec [of s "[]" ids "head s" 0] assms t vma_invD(4) [OF assms]
    by (auto simp: free_pages_total_def)
  then show ?thesis using t by auto
qed

lemma vma_free_total_witness: "\<exists>r. free_pages_total demo_vma = Some r \<and> unat r = 8"
  using vma_free_total [OF demo_vma_inv(1)] by (simp add: demo_vma_inv)

text \<open>
  A call that needs a node from the heap while the lock is held waits for ever if the heap asks this
  allocator for memory: taking the lock again has no result.
\<close>

lemma alloc_pages_reentry:
  "va_lock s \<Longrightarrow> n \<noteq> 0 \<Longrightarrow> alloc_pages n al s = None"
  by (simp add: alloc_pages_def take_lock_def spin_lock_def)

end
