(* ===== verification/Heap.thy ===== *)
theory Heap
  imports Vma
begin

text \<open>
  The memory the C allocator asks for, \<open>mm/heap.cpp\<close>: \<open>sbrk\<close> grows a heap of fixed maximal
  size, \<open>mmap\<close> maps fresh anonymous pages, \<open>munmap\<close> is not implemented and halts.
\<close>

unbundle bit_operations_syntax

section \<open>Definitions\<close>

text \<open>\<open>heap_top\<close> is the local static variable of \<open>sbrk\<close>: set when control first reaches it.\<close>

record kernel = vm +
  is_initialized :: bool
  heap_base :: u64
  heap_size :: u64
  heap_top :: "u64 option"

definition MAP_PRIVATE :: u32 where "MAP_PRIVATE = 1"
definition MAP_ANONYMOUS :: u32 where "MAP_ANONYMOUS = 2"
definition PROT_READ :: u32 where "PROT_READ = 1"
definition PROT_WRITE :: u32 where "PROT_WRITE = 2"

text \<open>\<open>reinterpret_cast<void *>(-1ULL)\<close>.\<close>

definition map_failed :: u64 where
  "map_failed = - 1"

definition pagemap :: "'a machine_scheme \<Rightarrow> u64" where
  "pagemap s = get_cr3 s + get_memory_slide s"

text \<open>The loop over the pages; \<open>k\<close> is \<open>page_count - i\<close>.\<close>

fun mmap_loop :: "u64 \<Rightarrow> u64 \<Rightarrow> u64 \<Rightarrow> nat \<Rightarrow> 'a kernel_scheme \<Rightarrow> (u64 \<times> 'a kernel_scheme) option" where
  "mmap_loop start len i 0 s = Some (start, s)"
| "mmap_loop start len i (Suc k) s =
     do { (page, s) \<leftarrow> alloc_page s;
          if page = 0 then
            do { s \<leftarrow> deallocate_virtual_memory start len (set_error OutOfMemory s);
                 Some (map_failed, s) }
          else
            do { (result, s) \<leftarrow> map_virtual (pagemap s) (start + i * PAGE_SIZE) page
                                  (enum_or MapRead MapWrite) s;
                 if \<not> result then Some (map_failed, set_error MapFail s)
                 else mmap_loop start len (i + 1) k s }}"

definition mmap ::
  "u64 \<Rightarrow> u64 \<Rightarrow> u32 \<Rightarrow> u32 \<Rightarrow> u32 \<Rightarrow> u64 \<Rightarrow> 'a kernel_scheme \<Rightarrow> (u64 \<times> 'a kernel_scheme) option" where
  "mmap addr len prot flags fd ofs s =
     (if \<not> is_flag_set flags MAP_PRIVATE \<or> \<not> is_flag_set flags MAP_ANONYMOUS then
        Some (map_failed, s)
      else if len = 0 then Some (map_failed, s)
      else
        let len = align_up len PAGE_SIZE in
        do { (start, s) \<leftarrow> allocate_virtual_memory len s;
             case start of
               None \<Rightarrow> Some (map_failed, s)
             | Some start \<Rightarrow> mmap_loop start len 0 (unat (len div PAGE_SIZE)) s })"

definition munmap :: "u64 \<Rightarrow> u64 \<Rightarrow> 'a kernel_scheme \<Rightarrow> (u32 \<times> 'a kernel_scheme) option" where
  "munmap addr len s = None"

fun sbrk_loop :: "u64 \<Rightarrow> u64 \<Rightarrow> nat \<Rightarrow> 'a kernel_scheme \<Rightarrow> (bool \<times> 'a kernel_scheme) option" where
  "sbrk_loop old i 0 s = Some (True, s)"
| "sbrk_loop old i (Suc k) s =
     do { (phys, s) \<leftarrow> alloc_page s;
          if phys = 0 then Some (False, set_error OutOfMemory s)
          else
            do { (result, s) \<leftarrow> map_virtual (pagemap s) (old + i * PAGE_SIZE) phys
                                  (enum_or MapRead MapWrite) s;
                 if \<not> result then Some (False, set_error MapFail s)
                 else sbrk_loop old (i + 1) k s }}"

definition sbrk :: "u64 \<Rightarrow> 'a kernel_scheme \<Rightarrow> (u64 \<times> 'a kernel_scheme) option" where
  "sbrk increment s =
     (if \<not> is_initialized s then Some (0, s)
      else
        let s = (if heap_top s = None then s\<lparr>heap_top := Some (heap_base s)\<rparr> else s);
            old = the (heap_top s)
        in
          if increment = 0 then Some (old, s)
          else if increment <s 0 then None
          else
            let aligned_increment = align_up increment PAGE_SIZE;
                page_count = aligned_increment div PAGE_SIZE
            in
              if old + aligned_increment > heap_base s + heap_size s then
                Some (0, set_error OutOfMemory s)
              else
                do { (ok, s) \<leftarrow> sbrk_loop old 0 (unat page_count) s;
                     if \<not> ok then Some (0, s)
                     else Some (old, s\<lparr>heap_top := Some (old + aligned_increment)\<rparr>) })"

definition init_heap :: "'a kernel_scheme \<Rightarrow> 'a kernel_scheme option" where
  "init_heap s =
     (let s = s\<lparr>heap_size := 32 * 1024 * 1024\<rparr> in
      do { (address, s) \<leftarrow> allocate_virtual_memory (heap_size s) s;
           case address of
             None \<Rightarrow> None
           | Some a \<Rightarrow> Some (s\<lparr>heap_base := a, is_initialized := True\<rparr>) })"

section \<open>Pages of the heap\<close>

lemma page_index:
  "page_path v = page_path w \<longleftrightarrow> take_bit 36 (drop_bit 12 v) = take_bit 36 (drop_bit 12 w)"
proof
  assume e: "page_path v = page_path w"
  have idx: "bit v (k + 12) = bit w (k + 12)" if "k < 36" for k
  proof -
    have m: "bit (x AND 511) j \<longleftrightarrow> bit x j \<and> j < 9" for x :: u64 and j
      by (simp only: mask_9 bit_and_iff bit_mask_iff) auto
    have "bit v (12 + (k mod 9) + 9 * (k div 9)) = bit w (12 + (k mod 9) + 9 * (k div 9))"
    proof -
      have "k div 9 < 4" using that by simp
      then have "k div 9 = 0 \<or> k div 9 = 1 \<or> k div 9 = 2 \<or> k div 9 = 3" by linarith
      then show ?thesis
      proof (elim disjE)
        assume 1: "k div 9 = 0"
        have "bit (va_pt_index v) (k mod 9) = bit (va_pt_index w) (k mod 9)" using e by (simp add: page_path_def)
        moreover have "k < 9" using 1 by simp
        ultimately show ?thesis using 1 by (simp add: va_pt_index_def m bit_drop_bit_eq)
      next
        assume 2: "k div 9 = 1"
        have "bit (va_pd_index v) (k mod 9) = bit (va_pd_index w) (k mod 9)" using e by (simp add: page_path_def)
        then show ?thesis using 2 by (simp add: va_pd_index_def m bit_drop_bit_eq ac_simps)
      next
        assume 3: "k div 9 = 2"
        have "bit (va_pdp_index v) (k mod 9) = bit (va_pdp_index w) (k mod 9)" using e by (simp add: page_path_def)
        then show ?thesis using 3 by (simp add: va_pdp_index_def m bit_drop_bit_eq ac_simps)
      next
        assume 4: "k div 9 = 3"
        have "bit (va_pml4_index v) (k mod 9) = bit (va_pml4_index w) (k mod 9)" using e by (simp add: page_path_def)
        then show ?thesis using 4 by (simp add: va_pml4_index_def m bit_drop_bit_eq ac_simps)
      qed
    qed
    moreover have "12 + k mod 9 + 9 * (k div 9) = k + 12" by simp
    ultimately show ?thesis by metis
  qed
  show "take_bit 36 (drop_bit 12 v) = take_bit 36 (drop_bit 12 w)"
    by (rule bit_word_eqI) (auto simp: bit_take_bit_iff bit_drop_bit_eq idx add.commute [of 12])
next
  assume e: "take_bit 36 (drop_bit 12 v) = take_bit 36 (drop_bit 12 w)"
  have sub: "drop_bit n x AND 511 = take_bit 9 (drop_bit (n - 12) (take_bit 36 (drop_bit 12 x)))"
    if "n \<in> {12, 21, 30, 39}" for n and x :: u64
    using that by (intro bit_word_eqI)
      (auto simp: mask_9 bit_and_iff bit_mask_iff bit_take_bit_iff bit_drop_bit_eq)
  show "page_path v = page_path w"
    by (simp add: page_path_def va_pml4_index_def va_pdp_index_def va_pd_index_def va_pt_index_def sub e)
qed

lemma page_path_neq:
  assumes "4096 dvd unat v" "4096 dvd unat w" "unat v < unat w" "unat w < unat v + 2 ^ 48"
  shows "page_path v \<noteq> page_path w"
proof
  assume "page_path v = page_path w"
  then have "unat (take_bit 36 (drop_bit 12 v)) = unat (take_bit 36 (drop_bit 12 w))"
    by (simp add: page_index)
  moreover have "unat (take_bit 36 (drop_bit 12 x)) = unat x div 4096 mod 2 ^ 36" for x :: u64
    by (simp only: unsigned_take_bit_eq unat_drop_bit_eq) (simp add: take_bit_eq_mod drop_bit_eq_div)
  ultimately have "unat v div 4096 mod 2 ^ 36 = unat w div 4096 mod 2 ^ 36" by simp
  moreover obtain a b where ab: "unat v = 4096 * a" "unat w = 4096 * b" using assms(1,2) by (auto elim!: dvdE)
  ultimately have m: "a mod 2 ^ 36 = b mod 2 ^ 36" by simp
  have "a < b" "b < a + 2 ^ 36" using assms(3,4) ab by simp_all
  then have "b - a < 2 ^ 36" "0 < b - a" by simp_all
  moreover have "(2::nat) ^ 36 dvd b - a" using m \<open>a < b\<close> by (metis mod_eq_dvd_iff_nat less_imp_le)
  ultimately show False by (auto dest: dvd_imp_le)
qed


section \<open>Growing the heap\<close>

lemma vm_ok_cong:
  assumes "mem t = mem s" "hhdm_offset t = hhdm_offset s" "m_head t = m_head s"
  shows "vm_ok t root A = vm_ok s root A" "translate t root v = translate s root v"
proof -
  have tab: "table_at t u js = table_at s u js" for u js
    by (rule table_at_frame [OF assms(2)]) (simp only: assms(1))
  show "translate t root v = translate s root v" unfolding translate_def tab assms(1) ..
  show "vm_ok t root A = vm_ok s root A"
    unfolding vm_ok_def pt_wf_def tab pma_free_at_def blocks_at_def direct_mapped_def assms ..
qed

lemma m_head_set_error [simp, frame_simps]: "m_head (set_error c s) = m_head s"
  by (simp add: set_error_def)

text \<open>What growing the heap leaves alone.\<close>

definition same_kernel :: "'a kernel_scheme \<Rightarrow> 'a kernel_scheme \<Rightarrow> bool" where
  "same_kernel s t \<longleftrightarrow> allocator t = allocator s \<and> is_initialized t = is_initialized s
     \<and> heap_base t = heap_base s \<and> heap_size t = heap_size s \<and> heap_top t = heap_top s
     \<and> kernel.more t = kernel.more s \<and> cr3 t = cr3 s \<and> hhdm_offset t = hhdm_offset s"

lemma same_kernel_refl [simp]: "same_kernel s s"
  by (simp add: same_kernel_def)

lemma same_kernel_trans: "same_kernel s t \<Longrightarrow> same_kernel t u \<Longrightarrow> same_kernel s u"
  by (simp add: same_kernel_def)

lemma same_kernel_error [simp]: "same_kernel s (set_error c t) = same_kernel s t"
  by (simp add: same_kernel_def set_error_def)

lemma only_mem_kernel: "only_mem s t \<Longrightarrow> same_kernel s t"
proof -
  assume t: "only_mem s t"
  show ?thesis
    unfolding same_kernel_def by (subst (1 2 3 4 5 6 7 8) t [unfolded only_mem_def]) simp
qed

lemma only_mem_log: "only_mem s (t\<lparr>invlpg_log := l\<rparr>) \<Longrightarrow> same_kernel s t"
  using only_mem_kernel [of s "t\<lparr>invlpg_log := l\<rparr>"] by (simp add: same_kernel_def)

lemma pagemap_same: "same_kernel s t \<Longrightarrow> pagemap t = pagemap s"
  by (simp add: same_kernel_def pagemap_def get_cr3_def get_memory_slide_def)

lemma alloc_page_vm:
  assumes "vm_ok s root A"
  shows "\<exists>p t B. alloc_page s = Some (p, t) \<and> vm_ok t root B \<and> B \<subseteq> A \<and> only_mem s t
    \<and> (\<forall>v. translate t root v = translate s root v)
    \<and> (p \<noteq> 0 \<longrightarrow> 4096 dvd unat p \<and> page_span (hhdm_offset s) p \<subseteq> A - B)"
proof -
  have wf: "pt_wf s root A" and pm: "pma_free_at s A" and dm: "direct_mapped s A"
    using assms by (auto simp: vm_ok_def)
  obtain p t B where a: "alloc_page s = Some (p, t)" "pma_free_at t B" "B \<subseteq> A"
    "hhdm_offset t = hhdm_offset s" "\<And>x. unat x \<notin> A \<Longrightarrow> mem t x = mem s x"
    "p \<noteq> 0 \<longrightarrow> 4096 dvd unat (p + hhdm_offset s) \<and> fits (p + hhdm_offset s) PAGE_SIZE
       \<and> page_span (hhdm_offset s) p \<subseteq> A - B"
    using phys.alloc_ok [OF pm] by blast
  have "vm_ok t root B"
    using walks_unchanged(3) [OF wf a(4,5,3)] a(2) direct_mapped_mono [OF dm a(3,4)] by (simp add: vm_ok_def)
  moreover have "4096 dvd unat p" if "p \<noteq> 0"
  proof -
    let ?T = "p + hhdm_offset s"
    have "unat ?T \<in> page_span (hhdm_offset s) p" by (simp add: page_span_def span_def)
    then have "unat ?T \<in> A" using a(6) that by blast
    then have "unat (hhdm_offset s) \<le> unat ?T" "4096 dvd unat (hhdm_offset s)"
      using dm by (auto simp: direct_mapped_def)
    moreover from this have "unat (?T - hhdm_offset s) = unat ?T - unat (hhdm_offset s)"
      by (intro unat_sub_le)
    ultimately show ?thesis using a(6) that by (auto intro: dvd_diff_nat)
  qed
  ultimately show ?thesis
    using a alloc_page_only_mem [OF pm a(1)] walks_unchanged(2) [OF wf a(4,5)] by blast
qed

definition heap_flags :: u32 where
  "heap_flags = enum_or MapRead MapWrite"

definition heap_page :: "u64 \<Rightarrow> u64 \<Rightarrow> nat \<Rightarrow> u64" where
  "heap_page old i j = old + (i + of_nat j) * PAGE_SIZE"

text \<open>The \<open>k\<close> pages from index \<open>i\<close> are mapped to \<open>fs\<close>, pairwise disjoint frames taken from \<open>A\<close>.\<close>

definition pages_mapped ::
  "'a machine_scheme \<Rightarrow> u64 \<Rightarrow> u64 \<Rightarrow> u64 \<Rightarrow> nat \<Rightarrow> nat set \<Rightarrow> u64 list \<Rightarrow> bool" where
  "pages_mapped s root old i k A fs \<longleftrightarrow> length fs = k
     \<and> (\<forall>j<k. fs ! j \<noteq> 0
          \<and> translate s root (heap_page old i j) = Some ((fs ! j AND ppn_mask) OR entry_flags heap_flags))
     \<and> pages_span (hhdm_offset s) fs \<subseteq> A
     \<and> (\<forall>j<k. \<forall>l<k. j \<noteq> l \<longrightarrow>
          page_span (hhdm_offset s) (fs ! j) \<inter> page_span (hhdm_offset s) (fs ! l) = {})"

lemma heap_page_0: "heap_page old i 0 = old + i * PAGE_SIZE"
  by (simp add: heap_page_def)

lemma heap_page_Suc: "heap_page old i (Suc j) = heap_page old (i + 1) j"
  by (simp add: heap_page_def algebra_simps)

lemma unat_heap_page:
  assumes "unat old + (unat i + k) * 4096 \<le> 2 ^ 64" "j < k"
  shows "unat (heap_page old i j) = unat old + (unat i + j) * 4096"
proof -
  have b: "unat old + (unat i + j) * 4096 < 2 ^ 64" using assms by simp
  then have "unat i + j < 2 ^ 64" by simp
  then have ij: "unat (i + of_nat j) = unat i + j"
    by (subst unat_add_nowrap) (simp_all add: unat_of_nat)
  then have "unat ((i + of_nat j) * PAGE_SIZE) = (unat i + j) * 4096"
    using b by (simp add: unat_word_ariths)
  then show ?thesis unfolding heap_page_def using b by (subst unat_add_nowrap) simp_all
qed

lemma pages_mapped_Cons:
  assumes "pages_mapped t root old (i + 1) k B fs" "B \<subseteq> A" "p \<noteq> 0"
    and "translate t root (heap_page old i 0) = Some ((p AND ppn_mask) OR entry_flags heap_flags)"
    and "page_span (hhdm_offset t) p \<subseteq> A" "page_span (hhdm_offset t) p \<inter> B = {}"
  shows "pages_mapped t root old i (Suc k) A (p # fs)"
proof -
  have fs: "page_span (hhdm_offset t) (fs ! j) \<subseteq> B" if "j < k" for j
  proof -
    have "fs ! j \<in> set fs - {0}" using assms(1) that by (auto simp: pages_mapped_def)
    then show ?thesis using assms(1) by (auto simp: pages_mapped_def pages_span_def)
  qed
  have "translate t root (heap_page old i j) = Some (((p # fs) ! j AND ppn_mask) OR entry_flags heap_flags)
      \<and> (p # fs) ! j \<noteq> 0" if "j < Suc k" for j
    using that assms(1,3,4) by (cases j) (auto simp: pages_mapped_def heap_page_Suc)
  moreover have "page_span (hhdm_offset t) ((p # fs) ! j) \<inter> page_span (hhdm_offset t) ((p # fs) ! l) = {}"
    if "j < Suc k" "l < Suc k" "j \<noteq> l" for j l
    using that assms(1,6) fs by (cases j; cases l) (fastforce simp: pages_mapped_def)+
  moreover have "pages_span (hhdm_offset t) (p # fs) \<subseteq> A"
    using assms(1,2,5) by (auto simp: pages_mapped_def pages_span_def)
  ultimately show ?thesis using assms(1) by (simp add: pages_mapped_def)
qed

lemma sbrk_loop_spec:
  assumes "vm_ok s (pagemap s) A" "old \<noteq> 0" "4096 dvd unat old"
    and "unat old + (unat i + k) * 4096 < 2 ^ 64" "k \<le> 2 ^ 35"
  shows "\<exists>ok t B. sbrk_loop old i k s = Some (ok, t) \<and> vm_ok t (pagemap s) B \<and> B \<subseteq> A \<and> same_kernel s t
    \<and> (\<forall>w. (\<forall>j<k. page_path w \<noteq> page_path (heap_page old i j)) \<longrightarrow>
         translate t (pagemap s) w = translate s (pagemap s) w)
    \<and> (ok \<longrightarrow> (\<exists>fs. pages_mapped t (pagemap s) old i k (A - B) fs))
    \<and> (\<not> ok \<longrightarrow> last_error t = OutOfMemory \<or> last_error t = MapFail)"
  using assms
proof (induction k arbitrary: i s A)
  case 0
  then show ?case by (auto simp: pages_mapped_def pages_span_def)
next
  case (Suc k)
  let ?r = "pagemap s" and ?v = "heap_page old i 0"
  obtain p s1 A1 where a: "alloc_page s = Some (p, s1)" "vm_ok s1 ?r A1" "A1 \<subseteq> A" "only_mem s s1"
    "\<forall>v. translate s1 ?r v = translate s ?r v"
    "p \<noteq> 0 \<longrightarrow> 4096 dvd unat p \<and> page_span (hhdm_offset s) p \<subseteq> A - A1"
    using alloc_page_vm [OF Suc.prems(1)] by blast
  have k1: "same_kernel s s1" by (rule only_mem_kernel [OF a(4)])
  have r1: "pagemap s1 = ?r" by (rule pagemap_same [OF k1])
  show ?case
  proof (cases "p = 0")
    case True
    have "vm_ok (set_error OutOfMemory s1) ?r A1" using a(2) by (subst vm_ok_cong(1)) simp_all
    moreover have "translate (set_error OutOfMemory s1) ?r v = translate s ?r v" for v
      using a(5) vm_ok_cong(2) [of "set_error OutOfMemory s1" s1] by simp
    ultimately show ?thesis using True a(1,3) k1
      by (intro exI [of _ False] exI [of _ "set_error OutOfMemory s1"] exI [of _ A1]) simp
  next
    case p: False
    have v: "unat ?v = unat old + unat i * 4096"
      using unat_heap_page [of old i "Suc k" 0] Suc.prems(4) by simp
    then have "?v \<noteq> 0" "4096 dvd unat ?v"
      using Suc.prems(2,3) by (auto simp: unat_eq_0 dest: arg_cong [of _ _ unat])
    then have args: "good_args ?v p" using p a(6) by (simp add: good_args_def check_aligned_page)
    obtain ok s2 A2 where m: "map_virtual ?r ?v p heap_flags s1 = Some (ok, s2)" "vm_ok s2 ?r A2" "A2 \<subseteq> A1"
      "\<forall>w. page_path w \<noteq> page_path ?v \<or> \<not> ok \<longrightarrow> translate s2 ?r w = translate s1 ?r w"
      "ok \<longrightarrow> translate s2 ?r ?v = Some ((p AND ppn_mask) OR entry_flags heap_flags)"
      "only_mem s1 (s2\<lparr>invlpg_log := invlpg_log s1\<rparr>)"
      using map_virtual_run [OF a(2) args, of heap_flags] by blast
    have k2: "same_kernel s s2" by (rule same_kernel_trans [OF k1 only_mem_log [OF m(6)]])
    have run: "sbrk_loop old i (Suc k) s
        = (if \<not> ok then Some (False, set_error MapFail s2) else sbrk_loop old (i + 1) k s2)"
      using a(1) p m(1) r1 by (simp add: heap_page_0 heap_flags_def)
    show ?thesis
    proof (cases ok)
      case False
      have "vm_ok (set_error MapFail s2) ?r A2" using m(2) by (subst vm_ok_cong(1)) simp_all
      moreover have "translate (set_error MapFail s2) ?r v = translate s ?r v" for v
        using a(5) m(4) False vm_ok_cong(2) [of "set_error MapFail s2" s2] by simp
      ultimately show ?thesis using run False a(3) m(3) k2
        by (intro exI [of _ False] exI [of _ "set_error MapFail s2"] exI [of _ A2]) simp
    next
      case True
      have r2: "pagemap s2 = ?r" by (rule pagemap_same [OF k2])
      have i1: "unat (i + 1) = unat i + 1"
        using Suc.prems(4) by (subst unat_add_nowrap) auto
      have "unat old + (unat (i + 1) + k) * 4096 < 2 ^ 64" "k \<le> 2 ^ 35"
        using Suc.prems(4,5) i1 by simp_all
      from Suc.IH [OF _ Suc.prems(2,3) this, of s2 A2] m(2) r2
      obtain ok' t B where t: "sbrk_loop old (i + 1) k s2 = Some (ok', t)" "vm_ok t ?r B" "B \<subseteq> A2"
        "same_kernel s2 t"
        "\<forall>w. (\<forall>j<k. page_path w \<noteq> page_path (heap_page old (i + 1) j)) \<longrightarrow> translate t ?r w = translate s2 ?r w"
        "ok' \<longrightarrow> (\<exists>fs. pages_mapped t ?r old (i + 1) k (A2 - B) fs)"
        "\<not> ok' \<longrightarrow> last_error t = OutOfMemory \<or> last_error t = MapFail"
        by auto
      have k3: "same_kernel s t" by (rule same_kernel_trans [OF k2 t(4)])
      have off: "hhdm_offset t = hhdm_offset s" using k3 by (simp add: same_kernel_def)
      have other: "translate t ?r w = translate s ?r w"
        if "\<forall>j<Suc k. page_path w \<noteq> page_path (heap_page old i j)" for w
      proof -
        have "page_path w \<noteq> page_path ?v" using that by blast
        moreover have "\<forall>j<k. page_path w \<noteq> page_path (heap_page old (i + 1) j)"
          using that by (metis Suc_less_eq heap_page_Suc)
        ultimately show ?thesis using t(5) m(4) a(5) by simp
      qed
      have "\<exists>fs. pages_mapped t ?r old i (Suc k) (A - B) fs" if ok': ok'
      proof -
        obtain fs where fs: "pages_mapped t ?r old (i + 1) k (A2 - B) fs" using t(6) ok' by blast
        have "page_path ?v \<noteq> page_path (heap_page old (i + 1) j)" if "j < k" for j
        proof (rule page_path_neq)
          have u: "unat (heap_page old (i + 1) j) = unat old + (unat i + Suc j) * 4096"
            using unat_heap_page [of old "i + 1" k j] Suc.prems(4) that i1 by simp
          show "4096 dvd unat (heap_page old (i + 1) j)" using u Suc.prems(3) by simp
          show "unat ?v < unat (heap_page old (i + 1) j)" using u v by simp
          show "unat (heap_page old (i + 1) j) < unat ?v + 2 ^ 48"
            using u v that Suc.prems(5) by simp
          show "4096 dvd unat ?v" by fact
        qed
        then have tv: "translate t ?r ?v = Some ((p AND ppn_mask) OR entry_flags heap_flags)"
          using t(5) m(5) True by simp
        have "page_span (hhdm_offset t) p \<subseteq> A - B" "page_span (hhdm_offset t) p \<inter> (A2 - B) = {}"
          using a(6) p m(3) t(3) off by auto
        then have "pages_mapped t ?r old i (Suc k) (A - B) (p # fs)"
          using a(3) m(3) by (intro pages_mapped_Cons [OF fs _ p tv]) auto
        then show ?thesis by blast
      qed
      moreover have "B \<subseteq> A" using t(3) a(3) m(3) by blast
      ultimately show ?thesis using run True t(1,2,7) k3 other
        by (intro exI [of _ ok'] exI [of _ t] exI [of _ B]) simp
    qed
  qed
qed


section \<open>The heap as a whole\<close>

definition cur_top :: "'a kernel_scheme \<Rightarrow> u64" where
  "cur_top s = (case heap_top s of None \<Rightarrow> heap_base s | Some t \<Rightarrow> t)"

definition heap_ok :: "'a kernel_scheme \<Rightarrow> nat set \<Rightarrow> bool" where
  "heap_ok s A \<longleftrightarrow> vm_ok s (pagemap s) A \<and> is_initialized s
     \<and> heap_base s \<noteq> 0 \<and> 4096 dvd unat (heap_base s) \<and> 4096 dvd unat (cur_top s)
     \<and> unat (heap_base s) \<le> unat (cur_top s)
     \<and> unat (cur_top s) \<le> unat (heap_base s) + unat (heap_size s)
     \<and> unat (heap_size s) \<le> 2 ^ 47 \<and> unat (heap_base s) + unat (heap_size s) < 2 ^ 64"

lemma unat_div_page: "unat (n div PAGE_SIZE) = unat n div 4096"
  by (simp add: unat_div)

lemma cur_top_same: "same_kernel s t \<Longrightarrow> cur_top t = cur_top s"
  by (auto simp: same_kernel_def cur_top_def split: option.splits)

lemma heap_ok_kernel:
  "same_kernel s t \<Longrightarrow> vm_ok t (pagemap s) B \<Longrightarrow> heap_ok s A \<Longrightarrow> heap_ok t B"
  using pagemap_same [of s t] cur_top_same [of s t] by (simp add: heap_ok_def same_kernel_def)

lemma vm_ok_heap_top [simp]: "vm_ok (s\<lparr>heap_top := x\<rparr>) root A = vm_ok s root A"
  "translate (s\<lparr>heap_top := x\<rparr>) root v = translate s root v" "pagemap (s\<lparr>heap_top := x\<rparr>) = pagemap s"
  "pages_mapped (s\<lparr>heap_top := x\<rparr>) root old i k A fs = pages_mapped s root old i k A fs"
  using vm_ok_cong [of "s\<lparr>heap_top := x\<rparr>" s]
  by (simp_all add: pagemap_def get_cr3_def get_memory_slide_def pages_mapped_def)

definition grown_pages :: "u64 \<Rightarrow> nat" where
  "grown_pages increment = unat (align_up increment PAGE_SIZE) div 4096"

lemma sbrk_run:
  assumes ok: "heap_ok s A" and inc: "increment \<noteq> 0" "\<not> increment <s 0"
    and nowrap: "unat (cur_top s) + unat increment + 4096 \<le> 2 ^ 64"
  shows "\<exists>r t B. sbrk increment s = Some (r, t) \<and> heap_ok t B \<and> B \<subseteq> A
    \<and> (if r = 0 then cur_top t = cur_top s \<and> (last_error t = OutOfMemory \<or> last_error t = MapFail)
       else r = cur_top s \<and> cur_top t = cur_top s + align_up increment PAGE_SIZE
         \<and> (\<exists>fs. pages_mapped t (pagemap s) r 0 (grown_pages increment) (A - B) fs))
    \<and> (\<forall>w. (\<forall>j<grown_pages increment. page_path w \<noteq> page_path (heap_page (cur_top s) 0 j)) \<longrightarrow>
         translate t (pagemap s) w = translate s (pagemap s) w)"
proof -
  let ?old = "cur_top s" and ?al = "align_up increment PAGE_SIZE" and ?k = "grown_pages increment"
  let ?u = "s\<lparr>heap_top := Some ?old\<rparr>"
  have u: "(if heap_top s = None then s\<lparr>heap_top := Some (heap_base s)\<rparr> else s) = ?u"
    by (cases "heap_top s") (simp_all add: cur_top_def)
  have sk: "vm_ok ?u (pagemap ?u) A" "is_initialized s" "heap_ok ?u A" "cur_top ?u = ?old"
    using ok by (auto simp: heap_ok_def cur_top_def)
  have old: "?old \<noteq> 0" "4096 dvd unat ?old" "unat ?old \<le> unat (heap_base s) + unat (heap_size s)"
    using ok by (auto simp: heap_ok_def unat_eq_0)
  have al: "4096 dvd unat ?al" "unat increment \<le> unat ?al" "unat ?al < unat increment + 4096"
    using align_up_page_spec [of increment] nowrap by simp_all
  have nw: "unat (?old + ?al) = unat ?old + unat ?al"
    using nowrap al(3) by (intro unat_add_nowrap) simp
  have lim: "unat (heap_base s + heap_size s) = unat (heap_base s) + unat (heap_size s)"
    using ok by (intro unat_add_nowrap) (simp add: heap_ok_def)
  have run: "sbrk increment s =
      (if ?old + ?al > heap_base s + heap_size s then Some (0, set_error OutOfMemory ?u)
       else do { (b, t) \<leftarrow> sbrk_loop ?old 0 ?k ?u;
                 if \<not> b then Some (0, t) else Some (?old, t\<lparr>heap_top := Some (?old + ?al)\<rparr>) })"
    using sk(2) inc unfolding sbrk_def u
    by (simp add: Let_def grown_pages_def unat_div_page cong: if_cong)
  show ?thesis
  proof (cases "?old + ?al > heap_base s + heap_size s")
    case True
    have "heap_ok (set_error OutOfMemory ?u) A"
      using heap_ok_kernel [of ?u "set_error OutOfMemory ?u" A A] sk(1,3)
        vm_ok_cong(1) [of "set_error OutOfMemory ?u" ?u] by simp
    moreover have "translate (set_error OutOfMemory ?u) (pagemap s) w = translate s (pagemap s) w" for w
      using vm_ok_cong(2) [of "set_error OutOfMemory ?u" ?u] by simp
    moreover have "cur_top (set_error OutOfMemory ?u) = ?old"
      by (simp add: cur_top_def set_error_def)
    ultimately show ?thesis
      using True run by (intro exI [of _ 0] exI [of _ "set_error OutOfMemory ?u"] exI [of _ A]) simp
  next
    case False
    then have fit: "unat ?old + unat ?al \<le> unat (heap_base s) + unat (heap_size s)"
      using nw lim by (simp add: word_less_nat_alt)
    have k: "?k * 4096 = unat ?al" using al(1) by (simp add: grown_pages_def)
    have b: "unat (heap_base s) \<le> unat ?old" "unat (heap_size s) \<le> 2 ^ 47"
      "unat (heap_base s) + unat (heap_size s) < 2 ^ 64"
      using ok by (simp_all add: heap_ok_def)
    have "unat ?old + (unat (0::u64) + ?k) * 4096 < 2 ^ 64" using k fit b by simp
    moreover have "?k \<le> 2 ^ 35"
    proof -
      have "?k * 4096 \<le> 2 ^ 47" using k fit b by linarith
      then show ?thesis by simp
    qed
    ultimately obtain b t B where t: "sbrk_loop ?old 0 ?k ?u = Some (b, t)" "vm_ok t (pagemap s) B" "B \<subseteq> A"
      "same_kernel ?u t"
      "\<forall>w. (\<forall>j<?k. page_path w \<noteq> page_path (heap_page ?old 0 j)) \<longrightarrow>
           translate t (pagemap s) w = translate s (pagemap s) w"
      "b \<longrightarrow> (\<exists>fs. pages_mapped t (pagemap s) ?old 0 ?k (A - B) fs)"
      "\<not> b \<longrightarrow> last_error t = OutOfMemory \<or> last_error t = MapFail"
      using sbrk_loop_spec [OF sk(1) old(1,2), of 0 ?k] by auto
    have hk: "heap_ok t B" using heap_ok_kernel [OF t(4) _ sk(3)] t(2) by simp
    have ct: "cur_top t = ?old" using t(4) by (simp add: same_kernel_def cur_top_def)
    show ?thesis
    proof (cases b)
      case False
      then show ?thesis
        using run \<open>\<not> ?old + ?al > _\<close> t hk ct
        by (intro exI [of _ 0] exI [of _ t] exI [of _ B]) simp
    next
      case True
      let ?t = "t\<lparr>heap_top := Some (?old + ?al)\<rparr>"
      have hb: "heap_base t = heap_base s" "heap_size t = heap_size s"
        using t(4) by (simp_all add: same_kernel_def)
      have "heap_ok ?t B"
        using hk fit nw b al(1) old(2) hb by (simp add: heap_ok_def cur_top_def dvd_add)
      moreover have "cur_top ?t = ?old + ?al" by (simp add: cur_top_def)
      moreover obtain fs where "pages_mapped t (pagemap s) ?old 0 ?k (A - B) fs" using t(6) True by blast
      then have "\<exists>fs. pages_mapped ?t (pagemap s) ?old 0 ?k (A - B) fs" by (intro exI [of _ fs]) simp
      ultimately show ?thesis
        using run True \<open>\<not> ?old + ?al > _\<close> t(1,3,5) old(1)
        by (intro exI [of _ ?old] exI [of _ ?t] exI [of _ B]) (simp del: vm_ok_heap_top(4))
    qed
  qed
qed

section \<open>Anonymous mappings\<close>

text \<open>The loop of \<open>mmap\<close> does what the loop of \<open>sbrk\<close> does, up to the clean-up.\<close>

lemma mmap_loop_sbrk:
  "sbrk_loop start i k s = Some (ok, t) \<Longrightarrow>
     (if ok then mmap_loop start len i k s = Some (start, t)
      else mmap_loop start len i k s = Some (map_failed, t)
        \<or> mmap_loop start len i k s
            = do { t \<leftarrow> deallocate_virtual_memory start len t; Some (map_failed, t) })"
proof (induction k arbitrary: i s)
  case (Suc k)
  obtain p s1 where a: "alloc_page s = Some (p, s1)"
    using Suc.prems by (cases "alloc_page s") (auto split: if_splits)
  show ?case
  proof (cases "p = 0")
    case True
    then show ?thesis using Suc.prems a by auto
  next
    case False
    obtain r s2 where m: "map_virtual (pagemap s1) (start + i * PAGE_SIZE) p (enum_or MapRead MapWrite) s1 = Some (r, s2)"
      using Suc.prems a False
      by (cases "map_virtual (pagemap s1) (start + i * PAGE_SIZE) p (enum_or MapRead MapWrite) s1") auto
    then show ?thesis using Suc.IH [of "i + 1" s2] Suc.prems a False by (cases r) auto
  qed
qed simp

definition vm_free :: "'a vm_scheme \<Rightarrow> nat set \<Rightarrow> bool" where
  "vm_free s U \<longleftrightarrow> vma_taken (allocator s) U \<and> vma_managed (allocator s) \<subseteq> {2 ^ 64 - 2 ^ 47 ..< 2 ^ 64 - 2 ^ 31}"

lemma vm_ok_allocator [simp]:
  "vm_ok (s\<lparr>allocator := a\<rparr>) root A = vm_ok s root A"
  "translate (s\<lparr>allocator := a\<rparr>) root v = translate s root v" "pagemap (s\<lparr>allocator := a\<rparr>) = pagemap s"
  "pages_mapped (s\<lparr>allocator := a\<rparr>) root old i k A fs = pages_mapped s root old i k A fs"
  using vm_ok_cong [of "s\<lparr>allocator := a\<rparr>" s]
  by (simp_all add: pagemap_def get_cr3_def get_memory_slide_def pages_mapped_def)

text \<open>A run of pages in the managed upper half of the address space.\<close>

lemma managed_run:
  assumes "byte_span v n \<subseteq> {2 ^ 64 - 2 ^ 47 ..< 2 ^ 64 - 2 ^ 31}" "n \<noteq> 0" "unat n \<le> 2 ^ 52"
  shows "v \<noteq> 0" "unat v + unat n * 4096 < 2 ^ 64" "unat n \<le> 2 ^ 35" "2 ^ 63 \<le> unat v"
proof -
  have n0: "0 < unat n" using assms(2) by (simp add: unat_gt_0)
  have a: "unat v \<in> byte_span v n" "unat v + unat n * 4096 - 1 \<in> byte_span v n"
    using n0 by (auto simp: byte_span_def)
  then have "2 ^ 64 - 2 ^ 47 \<le> unat v" "unat v + unat n * 4096 - 1 < 2 ^ 64 - 2 ^ 31"
    using assms(1) by auto
  then show "2 ^ 63 \<le> unat v" "unat v + unat n * 4096 < 2 ^ 64" "unat n \<le> 2 ^ 35" "v \<noteq> 0"
    by (auto simp: unat_eq_0)
qed


definition mmap_args :: "u64 \<Rightarrow> u32 \<Rightarrow> bool" where
  "mmap_args len flags \<longleftrightarrow> is_flag_set flags MAP_PRIVATE \<and> is_flag_set flags MAP_ANONYMOUS
     \<and> len \<noteq> 0 \<and> unat len + 4096 \<le> 2 ^ 64"

lemma mmap_run:
  assumes vm: "vm_ok s (pagemap s) A" and fr: "vm_free s U" and args: "mmap_args len flags"
    and n: "n = align_up len PAGE_SIZE div PAGE_SIZE"
  shows "\<exists>r t B V. mmap addr len prot flags fd ofs s = Some (r, t) \<and> vm_ok t (pagemap s) B \<and> B \<subseteq> A
    \<and> vm_free t V
    \<and> (r \<noteq> map_failed \<longrightarrow> byte_span r n \<inter> U = {} \<and> V = U \<union> byte_span r n \<and> 4096 dvd unat r
         \<and> (\<exists>fs. pages_mapped t (pagemap s) r 0 (unat n) (A - B) fs))"
proof -
  let ?len = "align_up len PAGE_SIZE"
  have al: "4096 dvd unat ?len"
    using align_up_page_spec [of len] args by (simp add: mmap_args_def)
  have n52: "unat n \<le> 2 ^ 52"
  proof -
    have "unat ?len < 2 ^ 64" using unsigned_less [where ?'a = nat, of ?len] by simp
    then show ?thesis by (simp add: n unat_div_page)
  qed
  obtain r a V where a: "alloc_pages n 1 (allocator s) = Some (r, a)" "vma_taken a V"
    "vma_managed a = vma_managed (allocator s)"
    "case r of None \<Rightarrow> V = U
     | Some v \<Rightarrow> n \<noteq> 0 \<and> 4096 dvd unat v \<and> byte_span v n \<subseteq> vma_managed (allocator s)
         \<and> byte_span v n \<inter> U = {} \<and> V = U \<union> byte_span v n"
    using vaddr.take_ok [of "allocator s" U n] fr by (auto simp: vm_free_def)
  let ?s = "s\<lparr>allocator := a\<rparr>"
  have av: "allocate_virtual_memory ?len s = Some (r, ?s)"
    using al a(1) by (simp add: allocate_virtual_memory_def check_aligned_page n)
  have run: "mmap addr len prot flags fd ofs s =
      (case r of None \<Rightarrow> Some (map_failed, ?s) | Some v \<Rightarrow> mmap_loop v ?len 0 (unat n) ?s)"
    using args av by (simp add: mmap_def mmap_args_def Let_def n split: option.splits)
  have fr': "vm_free ?s V" using fr a(2,3) by (simp add: vm_free_def)
  show ?thesis
  proof (cases r)
    case None
    then show ?thesis
      using run vm fr' by (intro exI [of _ map_failed] exI [of _ ?s] exI [of _ A] exI [of _ V]) simp
  next
    case (Some v)
    have v: "n \<noteq> 0" "4096 dvd unat v" "byte_span v n \<inter> U = {}" "V = U \<union> byte_span v n"
      "byte_span v n \<subseteq> {2 ^ 64 - 2 ^ 47 ..< 2 ^ 64 - 2 ^ 31}"
      using a(4) Some fr by (auto simp: vm_free_def)
    note mr = managed_run [OF v(5,1) n52]
    have vf: "v \<noteq> map_failed"
    proof
      assume "v = map_failed"
      then have "v AND mask 12 = mask 12" by (simp add: map_failed_def)
      moreover have "v AND mask 12 = 0" using v(2) by (simp add: and_mask_zero_iff)
      ultimately show False by simp
    qed
    have "vm_ok ?s (pagemap ?s) A" using vm by simp
    then obtain ok t B where t: "sbrk_loop v 0 (unat n) ?s = Some (ok, t)" "vm_ok t (pagemap s) B" "B \<subseteq> A"
      "same_kernel ?s t" "ok \<longrightarrow> (\<exists>fs. pages_mapped t (pagemap s) v 0 (unat n) (A - B) fs)"
      using sbrk_loop_spec [of ?s A v 0 "unat n"] mr v(2) by auto
    have ft: "vm_free t V" using fr' t(4) by (simp add: vm_free_def same_kernel_def)
    show ?thesis
    proof (cases ok)
      case True
      then have "mmap addr len prot flags fd ofs s = Some (v, t)"
        using mmap_loop_sbrk [OF t(1), of ?len] run Some by simp
      then show ?thesis
        using t(2,3,5) True ft v vf by (intro exI [of _ v] exI [of _ t] exI [of _ B] exI [of _ V]) simp
    next
      case False
      then consider "mmap addr len prot flags fd ofs s = Some (map_failed, t)"
        | "mmap addr len prot flags fd ofs s
             = do { t \<leftarrow> deallocate_virtual_memory v ?len t; Some (map_failed, t) }"
        using mmap_loop_sbrk [OF t(1), of ?len] run Some by auto
      then show ?thesis
      proof cases
        case 1
        then show ?thesis
          using t(2,3) ft by (intro exI [of _ map_failed] exI [of _ t] exI [of _ B] exI [of _ V]) simp
      next
        case 2
        obtain b c W where "vma_free v n (allocator t) = Some (b, c)" "vma_taken c W" "W \<subseteq> V"
          "vma_managed c = vma_managed (allocator t)"
          using vaddr.give_ok [of "allocator t" V n v] ft n52 by (auto simp: vm_free_def)
        then show ?thesis
          using 2 t(2,3) ft n
          by (intro exI [of _ map_failed] exI [of _ "t\<lparr>allocator := c\<rparr>"] exI [of _ B] exI [of _ W])
            (simp add: deallocate_virtual_memory_def vm_free_def)
      qed
    qed
  qed
qed

lemma init_heap_run:
  assumes vm: "vm_ok s (pagemap s) A" and fr: "vm_free s U" and top: "heap_top s = None"
    and some: "\<exists>v a. alloc_pages 8192 1 (allocator s) = Some (Some v, a)"
  shows "\<exists>t. init_heap s = Some t \<and> heap_ok t A \<and> unat (heap_size t) = 2 ^ 25 \<and> cur_top t = heap_base t
    \<and> byte_span (heap_base t) 8192 \<inter> U = {} \<and> vm_free t (U \<union> byte_span (heap_base t) 8192)
    \<and> byte_span (heap_base t) 8192 \<subseteq> vma_managed (allocator s)"
proof -
  obtain v a V where a: "alloc_pages 8192 1 (allocator s) = Some (Some v, a)" "vma_taken a V"
    "vma_managed a = vma_managed (allocator s)" "4096 dvd unat v"
    "byte_span v 8192 \<subseteq> vma_managed (allocator s)" "byte_span v 8192 \<inter> U = {}" "V = U \<union> byte_span v 8192"
    using vaddr.take_ok [of "allocator s" U 8192] fr some by (auto simp: vm_free_def)
  have sub: "byte_span v 8192 \<subseteq> {2 ^ 64 - 2 ^ 47 ..< 2 ^ 64 - 2 ^ 31}"
    using a(5) fr by (auto simp: vm_free_def)
  note mr = managed_run [OF sub]
  let ?t = "s\<lparr>heap_size := 32 * 1024 * 1024, allocator := a, heap_base := v, is_initialized := True\<rparr>"
  have "init_heap s = Some ?t"
    using a(1) by (simp add: init_heap_def allocate_virtual_memory_def check_aligned_def PAGE_SIZE_def)
  moreover have "pagemap ?t = pagemap s" by (simp add: pagemap_def get_cr3_def get_memory_slide_def)
  moreover have "vm_ok ?t (pagemap s) A" using vm vm_ok_cong(1) [of ?t s] by simp
  ultimately show ?thesis
    using a mr top fr by (intro exI [of _ ?t]) (simp add: heap_ok_def cur_top_def vm_free_def)
qed

section \<open>Properties\<close>

text \<open>A kernel state over \<open>demo_pma\<close>: page table at \<open>0x9000\<close>, an empty heap of 1 MiB.\<close>

definition demo_kernel :: kernel where
  "demo_kernel = pma.extend (demo_pma\<lparr>cr3 := 0x1000\<rparr>)
     \<lparr>allocator = the (vma_init 0xFFFF900000000000 0x4000000 (allocator_init\<lparr>max_nodes := 3\<rparr>)),
      is_initialized = True, heap_base = 0xFFFF880000000000, heap_size = 0x100000, heap_top = None\<rparr>"


lemma demo_vm_ok: "vm_ok demo_kernel (pagemap demo_kernel) (cover [(0x10000, 0x8000), (0x20000, 0x4000)])"
proof -
  have m: "mem demo_kernel = mem demo_pma" "hhdm_offset demo_kernel = hhdm_offset demo_pma"
    "m_head demo_kernel = m_head demo_pma" "pagemap demo_kernel = 0x9000"
    by (simp_all add: demo_kernel_def demo_pma_def pma.defs pagemap_def get_cr3_def get_memory_slide_def)
  have tab: "table_at demo_kernel u js = table_at demo_pma u js" for u js
  proof (induction js arbitrary: u)
    case (Cons i js)
    then show ?case by (simp add: m(1) child_def m(2))
  qed simp
  show ?thesis
    using demo_pma_vm
    unfolding vm_ok_def pt_wf_def tab pma_free_at_def blocks_at_def direct_mapped_def m .
qed

lemma demo_heap_ok: "heap_ok demo_kernel (cover [(0x10000, 0x8000), (0x20000, 0x4000)])"
  using demo_vm_ok by (simp add: heap_ok_def demo_kernel_def cur_top_def pma.defs)

lemma demo_vm_free:
  "vm_free demo_kernel {}" "vma_inv (allocator demo_kernel) [0]" "\<not> va_lock (allocator demo_kernel)"
  "ranges (allocator demo_kernel) [0] = [(0, 0x4000, True)]" "\<not> pool_empty (allocator demo_kernel)"
proof -
  obtain t where t: "vma_init 0xFFFF900000000000 0x4000000 (allocator_init\<lparr>max_nodes := 3\<rparr>) = Some t"
    "vma_inv t [0]" "used (ranges t [0]) = {}" "va_base t = 0xFFFF900000000000" "unat (total_pages t) = 0x4000"
    "\<not> va_lock t" "ranges t [0] = [(0, 0x4000, True)]" "\<not> pool_empty t"
    using vma_init_inv [of "allocator_init\<lparr>max_nodes := 3\<rparr>" "0x4000000" "0xFFFF900000000000"]
    by (auto simp: allocator_init_def PAGE_SIZE_def)
  have a: "allocator demo_kernel = t" using t(1) by (simp add: demo_kernel_def pma.defs)
  show "vma_inv (allocator demo_kernel) [0]" "\<not> va_lock (allocator demo_kernel)"
    "ranges (allocator demo_kernel) [0] = [(0, 0x4000, True)]" "\<not> pool_empty (allocator demo_kernel)"
    using t a by simp_all
  have "vma_managed t = {0xFFFF900000000000 ..< 0xFFFF900004000000}"
  proof (rule set_eqI)
    fix x
    show "x \<in> vma_managed t \<longleftrightarrow> x \<in> {0xFFFF900000000000 ..< 0xFFFF900004000000}"
      by (simp add: vma_managed_def bytes_of_def t(4,5)) linarith
  qed
  moreover have "vma_taken t {}"
    unfolding vma_taken_def using t(2-6) by (auto simp: bytes_of_set intro!: exI [of _ "[0]"])
  ultimately show "vm_free demo_kernel {}" by (simp add: vm_free_def a)
qed

text \<open>
  C13: a growing \<open>sbrk\<close> on a consistent heap returns. If it succeeds it returns the old top,
  moves the top up by the increment rounded up to pages, inside the heap, and every page of the
  new part is mapped writable to its own frame, which the physical allocator no longer owns. If
  it fails it returns 0 with an error code set and the top stays. No other page's mapping changes.
\<close>

theorem sbrk_grows:
  assumes "heap_ok s A" "increment \<noteq> 0" "\<not> increment <s 0"
    and "unat (cur_top s) + unat increment + 4096 \<le> 2 ^ 64"
  shows "\<exists>r t B. sbrk increment s = Some (r, t) \<and> heap_ok t B \<and> B \<subseteq> A
    \<and> (if r = 0 then cur_top t = cur_top s \<and> (last_error t = OutOfMemory \<or> last_error t = MapFail)
       else r = cur_top s \<and> cur_top t = cur_top s + align_up increment PAGE_SIZE
         \<and> (\<exists>fs. pages_mapped t (pagemap s) r 0 (grown_pages increment) (A - B) fs))
    \<and> (\<forall>w. (\<forall>j<grown_pages increment. page_path w \<noteq> page_path (heap_page (cur_top s) 0 j)) \<longrightarrow>
         translate t (pagemap s) w = translate s (pagemap s) w)"
  by (rule sbrk_run [OF assms])

theorem sbrk_grows_witness:
  "\<exists>r t B. sbrk 0x1800 demo_kernel = Some (r, t) \<and> heap_ok t B \<and> (r = 0 \<or> r = 0xFFFF880000000000)"
proof -
  have c: "cur_top demo_kernel = 0xFFFF880000000000"
    by (simp add: demo_kernel_def cur_top_def pma.defs)
  have "\<not> (0x1800::u64) <s 0" by (simp add: word_sless_alt)
  then show ?thesis
    using sbrk_grows [OF demo_heap_ok, of "0x1800"] unfolding c by (fastforce split: if_splits)
qed

text \<open>
  C17: an anonymous private \<open>mmap\<close> of any positive length returns and leaves page tables, free
  memory and the address allocator consistent. If it succeeds, the pages of the length rounded up
  are a range of addresses that was not taken, now taken, each mapped to a frame of its own.
\<close>

theorem mmap_maps:
  assumes "vm_ok s (pagemap s) A" "vm_free s U" "mmap_args len flags"
    and "n = align_up len PAGE_SIZE div PAGE_SIZE"
  shows "\<exists>r t B V. mmap addr len prot flags fd ofs s = Some (r, t) \<and> vm_ok t (pagemap s) B \<and> B \<subseteq> A
    \<and> vm_free t V
    \<and> (r \<noteq> map_failed \<longrightarrow> byte_span r n \<inter> U = {} \<and> V = U \<union> byte_span r n \<and> 4096 dvd unat r
         \<and> (\<exists>fs. pages_mapped t (pagemap s) r 0 (unat n) (A - B) fs))"
  by (rule mmap_run [OF assms])

theorem mmap_maps_witness:
  "\<exists>r t V. mmap 0 0x1800 (enum_or PROT_READ PROT_WRITE) (enum_or MAP_PRIVATE MAP_ANONYMOUS) 0 0 demo_kernel
      = Some (r, t) \<and> vm_free t V"
proof -
  have "mmap_args 0x1800 (enum_or MAP_PRIVATE MAP_ANONYMOUS)"
    by (simp add: mmap_args_def enum_or_def MAP_PRIVATE_def MAP_ANONYMOUS_def is_flag_set_def)
  from mmap_maps [OF demo_vm_ok demo_vm_free(1) this refl] show ?thesis by blast
qed

text \<open>
  If the address allocator has 32 MiB, \<open>init_heap\<close> leaves a consistent heap of that size
  whose address range was free and is now taken.
\<close>

lemma init_heap_ok:
  assumes "vm_ok s (pagemap s) A" "vm_free s U" "heap_top s = None"
    and "\<exists>v a. alloc_pages 8192 1 (allocator s) = Some (Some v, a)"
  shows "\<exists>t. init_heap s = Some t \<and> heap_ok t A \<and> unat (heap_size t) = 2 ^ 25 \<and> cur_top t = heap_base t
    \<and> byte_span (heap_base t) 8192 \<inter> U = {} \<and> vm_free t (U \<union> byte_span (heap_base t) 8192)"
  using init_heap_run [OF assms] by blast

lemma init_heap_ok_witness: "\<exists>t A. init_heap demo_kernel = Some t \<and> heap_ok t A"
proof -
  have "\<exists>v a. alloc_pages 8192 1 (allocator demo_kernel) = Some (Some v, a)"
    by (rule alloc_pages_succeeds [OF demo_vm_free(2,3) _ demo_vm_free(5)]) (simp_all add: demo_vm_free(4))
  moreover have "heap_top demo_kernel = None" by (simp add: demo_kernel_def pma.defs)
  ultimately show ?thesis using init_heap_ok [OF demo_vm_ok demo_vm_free(1)] by blast
qed

text \<open>
  Outside that range: the limit check adds the increment to the top modulo
  \<open>2 ^ 64\<close>, so a heap in the upper half of the address space accepts an increment that wraps
  around it, and the loop runs over pages beyond the heap.
\<close>

lemma sbrk_limit_wraps:
  assumes "is_initialized s" "heap_top s = Some old" "increment \<noteq> 0" "\<not> increment <s 0"
    and "\<not> old + align_up increment PAGE_SIZE > heap_base s + heap_size s"
  shows "sbrk increment s =
    do { (b, t) \<leftarrow> sbrk_loop old 0 (unat (align_up increment PAGE_SIZE div PAGE_SIZE)) s;
         if \<not> b then Some (0, t)
         else Some (old, t\<lparr>heap_top := Some (old + align_up increment PAGE_SIZE)\<rparr>) }"
  using assms by (simp add: sbrk_def Let_def cong: if_cong)

lemma sbrk_halts: "is_initialized s \<Longrightarrow> increment <s 0 \<Longrightarrow> sbrk increment s = None"
  by (auto simp: sbrk_def Let_def word_sless_alt)

lemma sbrk_uninitialised: "\<not> is_initialized s \<Longrightarrow> sbrk increment s = Some (0, s)"
  by (simp add: sbrk_def)

end
