(* ===== verification/Gdt_Idt.thy ===== *)
theory Gdt_Idt
  imports Prelude
begin

text \<open>
  The descriptor tables of the processor: \<open>arch/x86_64/gdt.hpp\<close>, \<open>gdt.cpp\<close>, \<open>idt.hpp\<close>,
  \<open>idt.cpp\<close> and \<open>registers.hpp\<close>. Bit fields are words of their width. What the processor makes
  of a descriptor (the base, limit and offset it puts together from the parts) is the
  specification.
\<close>

unbundle bit_operations_syntax

section \<open>Definitions\<close>

subsection \<open>Segments\<close>

record GdtSegmentDescriptor =
  limit_low :: u16
  base_low :: u16
  base_mid :: u8
  access :: u8
  limit_high :: "4 word"
  gflags :: "4 word"
  base_high :: u8

definition ACC_Accessed :: u8 where "ACC_Accessed = push_bit 0 1"
definition ACC_ReadWrite :: u8 where "ACC_ReadWrite = push_bit 1 1"
definition ACC_Direction :: u8 where "ACC_Direction = push_bit 2 1"
definition ACC_Executable :: u8 where "ACC_Executable = push_bit 3 1"
definition ACC_DescriptorType :: u8 where "ACC_DescriptorType = push_bit 4 1"
definition ACC_Dpl0 :: u8 where "ACC_Dpl0 = 0"
definition ACC_Dpl1 :: u8 where "ACC_Dpl1 = push_bit 5 1"
definition ACC_Dpl2 :: u8 where "ACC_Dpl2 = push_bit 6 1"
definition ACC_Dpl3 :: u8 where "ACC_Dpl3 = push_bit 5 1 OR push_bit 6 1"
definition ACC_Present :: u8 where "ACC_Present = push_bit 7 1"

definition GF_None :: u8 where "GF_None = 0"
definition GF_LongMode :: u8 where "GF_LongMode = push_bit 1 1"
definition GF_Size :: u8 where "GF_Size = push_bit 2 1"
definition GF_Granularity :: u8 where "GF_Granularity = push_bit 3 1"

text \<open>The operators on both enumerations.\<close>

definition access_or :: "u8 \<Rightarrow> u8 \<Rightarrow> u8" where "access_or a b = a OR b"
definition gflags_or :: "u8 \<Rightarrow> u8 \<Rightarrow> u8" where "gflags_or a b = a OR b"
definition access_test :: "u8 \<Rightarrow> u8 \<Rightarrow> bool" where "access_test a b = (a AND b \<noteq> 0)"
definition gflags_test :: "u8 \<Rightarrow> u8 \<Rightarrow> bool" where "gflags_test a b = (a AND b \<noteq> 0)"

definition create_descriptor :: "u64 \<Rightarrow> u64 \<Rightarrow> u8 \<Rightarrow> u8 \<Rightarrow> GdtSegmentDescriptor" where
  "create_descriptor base limit acc fl =
     \<lparr>limit_low = ucast (limit AND 0xFFFF),
      base_low = ucast (base AND 0xFFFF),
      base_mid = ucast (drop_bit 16 base AND 0xFF),
      access = acc,
      limit_high = ucast (ucast (drop_bit 16 limit AND 0xF) :: u8),
      gflags = ucast fl,
      base_high = ucast (drop_bit 24 base AND 0xFF)\<rparr>"

text \<open>The table, the operand of \<open>lgdt\<close> and the selectors loaded after it.\<close>

record gdt_state =
  segments :: "GdtSegmentDescriptor list"
  gdt_size :: u16
  gdt_base :: u64
  code_selector :: u16
  data_selector :: u16

definition gdt_segments :: "GdtSegmentDescriptor list" where
  "gdt_segments =
     [create_descriptor 0 0 0 0,
      create_descriptor 0 0
        (access_or (access_or (access_or (access_or ACC_Present ACC_Dpl0) ACC_DescriptorType) ACC_ReadWrite) ACC_Executable)
        (gflags_or GF_LongMode GF_Granularity),
      create_descriptor 0 0
        (access_or (access_or (access_or ACC_Present ACC_Dpl0) ACC_DescriptorType) ACC_ReadWrite)
        (gflags_or GF_Granularity GF_Size),
      create_descriptor 0 0 0 0,
      create_descriptor 0 0
        (access_or (access_or (access_or ACC_Present ACC_Dpl3) ACC_DescriptorType) ACC_ReadWrite)
        (gflags_or GF_Granularity GF_Size),
      create_descriptor 0 0
        (access_or (access_or (access_or (access_or ACC_Present ACC_Dpl3) ACC_DescriptorType) ACC_ReadWrite) ACC_Executable)
        (gflags_or GF_LongMode GF_Granularity)]"

text \<open>\<open>segments_addr\<close> is where the linker put the table.\<close>

definition init_gdt :: "u64 \<Rightarrow> gdt_state" where
  "init_gdt segments_addr =
     \<lparr>segments = gdt_segments, gdt_size = 8 * 6 - 1, gdt_base = segments_addr,
      code_selector = 0x8, data_selector = 0x10\<rparr>"

subsection \<open>Interrupt gates\<close>

record IdtEntry =
  offset0 :: u16
  segment :: u16
  ist :: "3 word"
  gate_type :: "4 word"
  dpl :: "2 word"
  gate_present :: "1 word"
  offset1 :: u16
  offset2 :: u32

datatype GateType = Interrupt | Trap
datatype Dpl = Ring0 | Ring1 | Ring2 | Ring3

fun gate_code :: "GateType \<Rightarrow> u8" where
  "gate_code Interrupt = 0xE"
| "gate_code Trap = 0xF"

fun dpl_code :: "Dpl \<Rightarrow> u8" where
  "dpl_code Ring0 = 0"
| "dpl_code Ring1 = 1"
| "dpl_code Ring2 = 2"
| "dpl_code Ring3 = 3"

definition create_idt_entry :: "u64 \<Rightarrow> u8 \<Rightarrow> GateType \<Rightarrow> Dpl \<Rightarrow> bool \<Rightarrow> u16 \<Rightarrow> IdtEntry" where
  "create_idt_entry offset ist_index gt ring pres seg =
     \<lparr>offset0 = ucast (offset AND 0xFFFF),
      segment = seg,
      ist = ucast (ist_index AND 0x7),
      gate_type = ucast (gate_code gt),
      dpl = ucast (dpl_code ring),
      gate_present = (if pres then 1 else 0),
      offset1 = ucast (drop_bit 16 offset AND 0xFFFF),
      offset2 = ucast (drop_bit 32 offset AND 0xFFFFFFFF)\<rparr>"

text \<open>\<open>handlers\<close> is the array of the assembly stubs' addresses.\<close>

definition init_idt_table :: "(nat \<Rightarrow> u64) \<Rightarrow> IdtEntry list" where
  "init_idt_table handlers = map (\<lambda>i. create_idt_entry (handlers i) 0 Interrupt Ring0 True 0x8) [0..<256]"

record idt_state =
  idt :: "IdtEntry list"
  idt_size :: u16
  idt_address :: u64

definition init_idt :: "(nat \<Rightarrow> u64) \<Rightarrow> u64 \<Rightarrow> idt_state" where
  "init_idt handlers idt_addr =
     \<lparr>idt = init_idt_table handlers, idt_size = 16 * 256 - 1, idt_address = idt_addr\<rparr>"

text \<open>The frame the stubs push; only the vector number decides what happens.\<close>

record Registers =
  r_es :: u64
  r_ds :: u64
  r15 :: u64
  r14 :: u64
  r13 :: u64
  r12 :: u64
  r11 :: u64
  r10 :: u64
  r9 :: u64
  r8 :: u64
  rdi :: u64
  rsi :: u64
  rbp :: u64
  rdx :: u64
  rcx :: u64
  rbx :: u64
  rax :: u64
  interrupt_number :: u64
  error_code :: u64
  rip :: u64
  r_cs :: u64
  rflags :: u64
  original_rsp :: u64
  r_ss :: u64

text \<open>\<open>None\<close>: the CPU halts. Otherwise the registers are restored as they are.\<close>

definition interrupt_handler :: "Registers \<Rightarrow> Registers option" where
  "interrupt_handler regs = (if interrupt_number regs < 32 then None else Some regs)"

section \<open>What the processor reads\<close>

definition seg_base :: "GdtSegmentDescriptor \<Rightarrow> u32" where
  "seg_base d = push_bit 24 (ucast (base_high d)) OR push_bit 16 (ucast (base_mid d)) OR ucast (base_low d)"

definition seg_limit :: "GdtSegmentDescriptor \<Rightarrow> u32" where
  "seg_limit d = push_bit 16 (ucast (limit_high d)) OR ucast (limit_low d)"

definition gate_offset :: "IdtEntry \<Rightarrow> u64" where
  "gate_offset e = push_bit 32 (ucast (offset2 e)) OR push_bit 16 (ucast (offset1 e)) OR ucast (offset0 e)"

definition ring_of :: "GdtSegmentDescriptor \<Rightarrow> u8" where
  "ring_of d = drop_bit 5 (access d) AND 3"

definition code_segment :: "GdtSegmentDescriptor \<Rightarrow> bool" where
  "code_segment d = (access_test (access d) ACC_Present \<and> access_test (access d) ACC_DescriptorType \<and>
     access_test (access d) ACC_Executable \<and> gflags d AND 2 \<noteq> 0 \<and> gflags d AND 4 = 0)"

definition data_segment :: "GdtSegmentDescriptor \<Rightarrow> bool" where
  "data_segment d = (access_test (access d) ACC_Present \<and> access_test (access d) ACC_DescriptorType \<and>
     \<not> access_test (access d) ACC_Executable \<and> access_test (access d) ACC_ReadWrite)"

text \<open>The descriptor a selector names: its index is the selector without its low three bits.\<close>

definition selected :: "gdt_state \<Rightarrow> u16 \<Rightarrow> GdtSegmentDescriptor option" where
  "selected g sel = (let i = unat (drop_bit 3 sel) in
     if 8 * i + 7 \<le> unat (gdt_size g) \<and> i < length (segments g) then Some (segments g ! i) else None)"

lemma field_masks: "(0xFFFF :: u64) = mask 16" "(0xFF :: u64) = mask 8" "(0xF :: u64) = mask 4" "(0xFFFFFFFF :: u64) = mask 32"
  by (simp_all add: mask_eq_exp_minus_1)

lemma descriptor_base: "seg_base (create_descriptor b l a f) = ucast b"
proof (rule bit_word_eqI)
  fix n assume "n < LENGTH(32)"
  then show "bit (seg_base (create_descriptor b l a f)) n = bit (ucast b :: u32) n"
    by (cases "n < 24") (auto simp: seg_base_def create_descriptor_def field_masks bit_simps)
qed

lemma descriptor_limit: "seg_limit (create_descriptor b l a f) = ucast (l AND mask 20)"
  by (rule bit_word_eqI) (auto simp: seg_limit_def create_descriptor_def field_masks bit_simps)

lemma gate_offset_create: "gate_offset (create_idt_entry off i gt r p sg) = off"
proof (rule bit_word_eqI)
  fix n assume "n < LENGTH(64)"
  then show "bit (gate_offset (create_idt_entry off i gt r p sg)) n = bit off n"
    by (cases "n < 32") (auto simp: gate_offset_def create_idt_entry_def field_masks bit_simps)
qed

text \<open>The segments the kernel and its user programs run in.\<close>

lemma init_gdt_segments:
  "\<exists>c d. selected (init_gdt a) (code_selector (init_gdt a)) = Some c \<and> code_segment c \<and> ring_of c = 0 \<and>
     selected (init_gdt a) (data_selector (init_gdt a)) = Some d \<and> data_segment d \<and> ring_of d = 0"
  "code_segment (gdt_segments ! 5)" "ring_of (gdt_segments ! 5) = 3"
  "data_segment (gdt_segments ! 4)" "ring_of (gdt_segments ! 4) = 3"
  by (simp_all add: selected_def init_gdt_def gdt_segments_def create_descriptor_def code_segment_def data_segment_def
      ring_of_def access_or_def gflags_or_def access_test_def ACC_Present_def ACC_Dpl0_def ACC_Dpl3_def ACC_DescriptorType_def
      ACC_ReadWrite_def ACC_Executable_def GF_LongMode_def GF_Granularity_def GF_Size_def)

text \<open>
  C35: the processor gets back from a segment descriptor the low 32 bits of the base and the low
  20 bits of the limit it was made from, and from an interrupt gate the whole address of the
  handler; gate \<open>i\<close> of the table that \<open>init_idt\<close> loads leads to stub \<open>i\<close> in the kernel's code
  segment, at ring 0 with interrupts off, and that segment is the 64-bit code segment of ring 0.
\<close>

theorem descriptor_tables:
  "seg_base (create_descriptor b l a f) = ucast b \<and> seg_limit (create_descriptor b l a f) = ucast (l AND mask 20) \<and>
   (i \<ge> 256 \<or> gate_offset (idt (init_idt h x) ! i) = h i \<and> gate_type (idt (init_idt h x) ! i) = 0xE \<and>
      dpl (idt (init_idt h x) ! i) = 0 \<and> gate_present (idt (init_idt h x) ! i) = 1 \<and>
      map_option (\<lambda>c. code_segment c \<and> ring_of c = 0) (selected (init_gdt y) (segment (idt (init_idt h x) ! i))) = Some True)"
proof (cases "i < 256")
  case True
  then have e: "idt (init_idt h x) ! i = create_idt_entry (h i) 0 Interrupt Ring0 True 0x8"
    by (simp add: init_idt_def init_idt_table_def)
  have "code_selector (init_gdt y) = 8" by (simp add: init_gdt_def)
  then show ?thesis using init_gdt_segments(1) [of y]
    by (auto simp: e descriptor_base descriptor_limit gate_offset_create) (auto simp: create_idt_entry_def)
qed (simp add: descriptor_base descriptor_limit)

end
