(* ===== verification/Ports.thy ===== *)
theory Ports
  imports Machine
begin

text \<open>
  The I/O ports (\<open>arch/x86_64/io.hpp\<close>), the debug output on port \<open>0xE9\<close>
  (\<open>kernel/logger.cpp\<close>) and the port ranges handed to the ACPI interpreter
  (\<open>acpi/uacpi_io.cpp\<close>). What a device answers depends on all accesses so far: the answers are
  an arbitrary function of the history.
\<close>

section \<open>Definitions\<close>

subsection \<open>Port instructions\<close>

datatype port_event =
    Inb u16 | Inw u16 | Inl u16
  | Outb u16 u8 | Outw u16 u16 | Outl u16 u32

record ports =
  history :: "port_event list"
  device :: "port_event list \<Rightarrow> u32"

definition outb :: "u16 \<Rightarrow> u8 \<Rightarrow> 'a ports_scheme \<Rightarrow> 'a ports_scheme" where
  "outb port val s = s\<lparr>history := Outb port val # history s\<rparr>"

definition inb :: "u16 \<Rightarrow> 'a ports_scheme \<Rightarrow> u8 \<times> 'a ports_scheme" where
  "inb port s = (let h = Inb port # history s in (ucast (device s h), s\<lparr>history := h\<rparr>))"

definition outw :: "u16 \<Rightarrow> u16 \<Rightarrow> 'a ports_scheme \<Rightarrow> 'a ports_scheme" where
  "outw port val s = s\<lparr>history := Outw port val # history s\<rparr>"

definition inw :: "u16 \<Rightarrow> 'a ports_scheme \<Rightarrow> u16 \<times> 'a ports_scheme" where
  "inw port s = (let h = Inw port # history s in (ucast (device s h), s\<lparr>history := h\<rparr>))"

definition outl :: "u16 \<Rightarrow> u32 \<Rightarrow> 'a ports_scheme \<Rightarrow> 'a ports_scheme" where
  "outl port val s = s\<lparr>history := Outl port val # history s\<rparr>"

definition inl :: "u16 \<Rightarrow> 'a ports_scheme \<Rightarrow> u32 \<times> 'a ports_scheme" where
  "inl port s = (let h = Inl port # history s in (device s h, s\<lparr>history := h\<rparr>))"

subsection \<open>Debug output\<close>

text \<open>\<open>buf\<close> has \<open>bufsz\<close> bytes at least: the formatter's output, which is not modelled.\<close>

fun log_to_e9 :: "u8 list \<Rightarrow> 'a ports_scheme \<Rightarrow> 'a ports_scheme" where
  "log_to_e9 [] s = s"
| "log_to_e9 (c # buf) s = (if c \<noteq> 0 then log_to_e9 buf (outb 0xE9 c s) else s)"

subsection \<open>Port ranges\<close>

text \<open>The two statuses of the ACPI interpreter that the accessors return.\<close>

datatype uacpi_status = UACPI_STATUS_OK | UACPI_STATUS_INVALID_ARGUMENT | UACPI_STATUS_UNIMPLEMENTED

record IoMap =
  m_base :: u64
  m_len :: u64

definition io_map_new :: "u64 \<Rightarrow> u64 \<Rightarrow> IoMap" where
  "io_map_new base len = \<lparr>m_base = base, m_len = len\<rparr>"

definition read8 :: "IoMap \<Rightarrow> u64 \<Rightarrow> 'a ports_scheme \<Rightarrow> u8 option \<times> 'a ports_scheme" where
  "read8 io ofs s =
     (if ofs \<ge> m_len io then (None, s)
      else let (v, s) = inb (ucast (m_base io + ofs)) s in (Some v, s))"

definition read16 :: "IoMap \<Rightarrow> u64 \<Rightarrow> 'a ports_scheme \<Rightarrow> u16 option \<times> 'a ports_scheme" where
  "read16 io ofs s =
     (if ofs + 1 \<ge> m_len io then (None, s)
      else let (v, s) = inw (ucast (m_base io + ofs)) s in (Some v, s))"

definition read32 :: "IoMap \<Rightarrow> u64 \<Rightarrow> 'a ports_scheme \<Rightarrow> u32 option \<times> 'a ports_scheme" where
  "read32 io ofs s =
     (if ofs + 3 \<ge> m_len io then (None, s)
      else let (v, s) = inl (ucast (m_base io + ofs)) s in (Some v, s))"

definition write8 :: "IoMap \<Rightarrow> u64 \<Rightarrow> u8 \<Rightarrow> 'a ports_scheme \<Rightarrow> uacpi_status \<times> 'a ports_scheme" where
  "write8 io ofs v s =
     (if ofs \<ge> m_len io then (UACPI_STATUS_INVALID_ARGUMENT, s)
      else (UACPI_STATUS_OK, outb (ucast (m_base io + ofs)) v s))"

definition write16 :: "IoMap \<Rightarrow> u64 \<Rightarrow> u16 \<Rightarrow> 'a ports_scheme \<Rightarrow> uacpi_status \<times> 'a ports_scheme" where
  "write16 io ofs v s =
     (if ofs + 1 \<ge> m_len io then (UACPI_STATUS_INVALID_ARGUMENT, s)
      else (UACPI_STATUS_OK, outw (ucast (m_base io + ofs)) v s))"

definition write32 :: "IoMap \<Rightarrow> u64 \<Rightarrow> u32 \<Rightarrow> 'a ports_scheme \<Rightarrow> uacpi_status \<times> 'a ports_scheme" where
  "write32 io ofs v s =
     (if ofs + 3 \<ge> m_len io then (UACPI_STATUS_INVALID_ARGUMENT, s)
      else (UACPI_STATUS_OK, outl (ucast (m_base io + ofs)) v s))"

section \<open>Debug output\<close>

lemma log_to_e9_history:
  "history (log_to_e9 buf s) = rev (List.map (Outb 0xE9) (takeWhile (\<lambda>c. c \<noteq> 0) buf)) @ history s"
  by (induction buf s rule: log_to_e9.induct) (simp_all add: outb_def)

section \<open>Access stays in range\<close>

text \<open>The ports an event touches.\<close>

fun ports_of :: "port_event \<Rightarrow> nat set" where
  "ports_of (Inb p) = {unat p}"
| "ports_of (Inw p) = {unat p, unat p + 1}"
| "ports_of (Inl p) = {unat p ..< unat p + 4}"
| "ports_of (Outb p _) = {unat p}"
| "ports_of (Outw p _) = {unat p, unat p + 1}"
| "ports_of (Outl p _) = {unat p ..< unat p + 4}"

text \<open>The accesses made between two states.\<close>

definition touched :: "'a ports_scheme \<Rightarrow> 'a ports_scheme \<Rightarrow> nat set" where
  "touched s t = (\<Union>e \<in> set (take (length (history t) - length (history s)) (history t)). ports_of e)"

lemma port_of_offset:
  assumes "unat b + unat l \<le> 2 ^ 16" "unat ofs < unat l"
  shows "unat (ucast (b + ofs :: u64) :: u16) = unat b + unat ofs"
proof -
  have "unat (b + ofs) = unat b + unat ofs" using assms by (intro unat_add_nowrap) simp
  moreover have "unat (ucast (b + ofs) :: u16) = unat (b + ofs) mod 2 ^ 16"
    by (simp add: unsigned_ucast_eq unsigned_take_bit_eq take_bit_eq_mod)
  ultimately show ?thesis using assms by simp
qed

lemma touched_none [simp]: "touched s s = {}"
  by (simp add: touched_def)

lemma touched_one: "history t = e # history s \<Longrightarrow> touched s t = ports_of e"
  by (simp add: touched_def)

text \<open>The bound tests, as numbers.\<close>

lemma fits8: "ofs \<ge> l \<longleftrightarrow> \<not> unat ofs + 1 \<le> unat (l :: u64)"
  by (simp add: word_le_nat_alt not_less Suc_le_eq)

lemma fits16: "unat ofs + 1 < 2 ^ 64 \<Longrightarrow> ofs + 1 \<ge> l \<longleftrightarrow> \<not> unat ofs + 2 \<le> unat (l :: u64)"
  using unat_add_nowrap [of ofs 1] by (auto simp: word_le_nat_alt)

lemma fits32: "unat ofs + 3 < 2 ^ 64 \<Longrightarrow> ofs + 3 \<ge> l \<longleftrightarrow> \<not> unat ofs + 4 \<le> unat (l :: u64)"
  using unat_add_nowrap [of ofs 3] by (auto simp: word_le_nat_alt)

lemmas port_defs = read8_def read16_def read32_def write8_def write16_def write32_def
  inb_def inw_def inl_def outb_def outw_def outl_def



text \<open>
  At the last offset of the address space the sum wraps around to 0: a two-byte read of any
  range that is not empty is granted there, and reads the port below the range.
\<close>

lemma iomap_offset_wraps:
  assumes "0 < m_len io" "unat (m_base io) + unat (m_len io) \<le> 2 ^ 16" "0 < m_base io"
  shows "fst (read16 io (- 1) s) \<noteq> None \<and> unat (m_base io) - 1 \<in> touched s (snd (read16 io (- 1) s))"
proof -
  have "unat (m_base io - 1) = unat (m_base io) - 1" using assms(3) by (simp add: unat_sub word_le_nat_alt word_less_nat_alt)
  then have "unat (ucast (m_base io - 1) :: u16) = unat (m_base io) - 1"
    using assms(2) by (simp add: unsigned_ucast_eq unsigned_take_bit_eq take_bit_eq_mod)
  then show ?thesis using assms(1) by (simp add: port_defs Let_def touched_one not_le)
qed

end
