(* ===== verification/Vector.thy ===== *)
theory Vector
  imports Prelude
begin

text \<open>
  \<open>lib/vector.hpp\<close>: the growable array. A vector owns a buffer of slots, each of which holds an
  object or is raw storage. Buffers are found by their address in a store; the addresses that
  \<open>operator new\<close> answers are an input of the store, a list that is used up from the front.
  Iterators are modelled by the index \<open>pos - data_\<close>. Touching a slot outside its buffer, reading
  or destroying raw storage and releasing what is no buffer are undefined behaviour: \<open>None\<close>.
\<close>

section \<open>Definitions\<close>

text \<open>\<open>elem_size\<close> is \<open>sizeof(T)\<close>.\<close>

record 'a store =
  bufs :: "u64 \<Rightarrow> 'a option list option"
  answers :: "u64 list"
  elem_size :: u64

record vector =
  vdata :: u64
  vsize :: u64
  vcap :: u64

subsection \<open>Storage\<close>

text \<open>The byte count is computed in \<open>std::size_t\<close>; the null pointer is an answer too.\<close>

definition new_slots :: "u64 \<Rightarrow> 'a store \<Rightarrow> (u64 \<times> 'a store) option" where
  "new_slots n st =
     (case answers st of
        [] \<Rightarrow> None
      | a # as \<Rightarrow>
          let slots = replicate (unat (elem_size st * n) div unat (elem_size st)) None;
              st = st\<lparr>answers := as\<rparr>
          in Some (a, if a = 0 then st else st\<lparr>bufs := (bufs st)(a \<mapsto> slots)\<rparr>))"

definition delete_slots :: "u64 \<Rightarrow> 'a store \<Rightarrow> 'a store option" where
  "delete_slots p st =
     (if p = 0 then Some st
      else case bufs st p of None \<Rightarrow> None | Some _ \<Rightarrow> Some (st\<lparr>bufs := (bufs st)(p := None)\<rparr>))"

definition set_buf :: "u64 \<Rightarrow> 'a option list \<Rightarrow> 'a store \<Rightarrow> 'a store" where
  "set_buf p b st = st\<lparr>bufs := (bufs st)(p \<mapsto> b)\<rparr>"

definition read_slot :: "u64 \<Rightarrow> u64 \<Rightarrow> 'a store \<Rightarrow> 'a option" where
  "read_slot p i st =
     do { b \<leftarrow> bufs st p; if unat i < length b then b ! unat i else None }"

definition put_slot :: "u64 \<Rightarrow> u64 \<Rightarrow> 'a option \<Rightarrow> 'a store \<Rightarrow> 'a store option" where
  "put_slot p i c st =
     do { b \<leftarrow> bufs st p;
          if unat i < length b then Some (set_buf p (b[unat i := c]) st) else None }"

definition construct :: "u64 \<Rightarrow> u64 \<Rightarrow> 'a \<Rightarrow> 'a store \<Rightarrow> 'a store option" where
  "construct p i x st = put_slot p i (Some x) st"

definition destroy :: "u64 \<Rightarrow> u64 \<Rightarrow> 'a store \<Rightarrow> 'a store option" where
  "destroy p i st = do { _ \<leftarrow> read_slot p i st; put_slot p i None st }"

text \<open>Assignment to an object.\<close>

definition assign_slot :: "u64 \<Rightarrow> u64 \<Rightarrow> 'a \<Rightarrow> 'a store \<Rightarrow> 'a store option" where
  "assign_slot p i x st = do { _ \<leftarrow> read_slot p i st; put_slot p i (Some x) st }"

subsection \<open>Operations\<close>

definition empty_vector :: vector where
  "empty_vector = \<lparr>vdata = 0, vsize = 0, vcap = 0\<rparr>"

definition vec_at :: "u64 \<Rightarrow> vector \<Rightarrow> 'a store \<Rightarrow> 'a option" where
  "vec_at idx v st = read_slot (vdata v) idx st"

definition vec_front :: "vector \<Rightarrow> 'a store \<Rightarrow> 'a option" where
  "vec_front v st = read_slot (vdata v) 0 st"

definition vec_back :: "vector \<Rightarrow> 'a store \<Rightarrow> 'a option" where
  "vec_back v st = read_slot (vdata v) (vsize v - 1) st"

definition vec_end :: "vector \<Rightarrow> u64" where
  "vec_end v = vsize v"

definition vec_empty :: "vector \<Rightarrow> bool" where
  "vec_empty v = (vsize v = 0)"

partial_function (option) reserve_loop :: "u64 \<Rightarrow> u64 \<Rightarrow> u64 \<Rightarrow> u64 \<Rightarrow> 'a store \<Rightarrow> 'a store option" where
  "reserve_loop dat new_data sz i st =
     (if i < sz then
        do { x \<leftarrow> read_slot dat i st;
             st \<leftarrow> construct new_data i x st;
             st \<leftarrow> destroy dat i st;
             reserve_loop dat new_data sz (i + 1) st }
      else Some st)"

definition reserve :: "u64 \<Rightarrow> vector \<Rightarrow> 'a store \<Rightarrow> (vector \<times> 'a store) option" where
  "reserve new_cap v st =
     (if new_cap \<le> vcap v then Some (v, st)
      else do { (new_data, st) \<leftarrow> new_slots new_cap st;
                st \<leftarrow> reserve_loop (vdata v) new_data (vsize v) 0 st;
                st \<leftarrow> delete_slots (vdata v) st;
                Some (v\<lparr>vdata := new_data, vcap := new_cap\<rparr>, st) })"

definition push_back :: "'a \<Rightarrow> vector \<Rightarrow> 'a store \<Rightarrow> (vector \<times> 'a store) option" where
  "push_back x v st =
     do { (v, st) \<leftarrow> (if vsize v = vcap v
                       then reserve (if vcap v \<noteq> 0 then vcap v * 2 else 4) v st
                       else Some (v, st));
          st \<leftarrow> construct (vdata v) (vsize v) x st;
          Some (v\<lparr>vsize := vsize v + 1\<rparr>, st) }"

definition pop_back :: "vector \<Rightarrow> 'a store \<Rightarrow> (vector \<times> 'a store) option" where
  "pop_back v st =
     (if vsize v \<noteq> 0 then
        let v = v\<lparr>vsize := vsize v - 1\<rparr> in
        do { st \<leftarrow> destroy (vdata v) (vsize v) st; Some (v, st) }
      else Some (v, st))"

partial_function (option) vec_clear :: "vector \<Rightarrow> 'a store \<Rightarrow> (vector \<times> 'a store) option" where
  "vec_clear v st =
     (if vsize v \<noteq> 0 then do { (v, st) \<leftarrow> pop_back v st; vec_clear v st } else Some (v, st))"

text \<open>\<open>std::swap\<close> of two elements.\<close>

definition swap_slots :: "u64 \<Rightarrow> u64 \<Rightarrow> u64 \<Rightarrow> 'a store \<Rightarrow> 'a store option" where
  "swap_slots p i j st =
     do { x \<leftarrow> read_slot p i st; y \<leftarrow> read_slot p j st;
          st \<leftarrow> assign_slot p i y st; assign_slot p j x st }"

partial_function (option) bubble_down :: "u64 \<Rightarrow> u64 \<Rightarrow> u64 \<Rightarrow> 'a store \<Rightarrow> 'a store option" where
  "bubble_down dat idx i st =
     (if i > idx then do { st \<leftarrow> swap_slots dat i (i - 1) st; bubble_down dat idx (i - 1) st }
      else Some st)"

definition vec_insert :: "u64 \<Rightarrow> 'a \<Rightarrow> vector \<Rightarrow> 'a store \<Rightarrow> (u64 \<times> vector \<times> 'a store) option" where
  "vec_insert idx x v st =
     do { (v, st) \<leftarrow> push_back x v st;
          st \<leftarrow> bubble_down (vdata v) idx (vsize v - 1) st;
          Some (idx, v, st) }"

partial_function (option) shift_left :: "u64 \<Rightarrow> u64 \<Rightarrow> u64 \<Rightarrow> 'a store \<Rightarrow> 'a store option" where
  "shift_left dat sz i st =
     (if i + 1 < sz then
        do { x \<leftarrow> read_slot dat (i + 1) st; st \<leftarrow> assign_slot dat i x st; shift_left dat sz (i + 1) st }
      else Some st)"

definition vec_erase :: "u64 \<Rightarrow> vector \<Rightarrow> 'a store \<Rightarrow> (u64 \<times> vector \<times> 'a store) option" where
  "vec_erase idx v st =
     do { st \<leftarrow> shift_left (vdata v) (vsize v) idx st;
          (v, st) \<leftarrow> pop_back v st;
          Some (idx, v, st) }"

definition vec_swap :: "vector \<Rightarrow> vector \<Rightarrow> vector \<times> vector" where
  "vec_swap v other =
     (v\<lparr>vdata := vdata other, vsize := vsize other, vcap := vcap other\<rparr>,
      other\<lparr>vdata := vdata v, vsize := vsize v, vcap := vcap v\<rparr>)"

text \<open>The move constructor: the new vector and what is left of the old one.\<close>

definition vec_move :: "vector \<Rightarrow> vector \<times> vector" where
  "vec_move other =
     (\<lparr>vdata = vdata other, vsize = vsize other, vcap = vcap other\<rparr>,
      other\<lparr>vdata := 0, vsize := 0, vcap := 0\<rparr>)"

definition vec_destroy :: "vector \<Rightarrow> 'a store \<Rightarrow> 'a store option" where
  "vec_destroy v st = do { (v, st) \<leftarrow> vec_clear v st; delete_slots (vdata v) st }"

text \<open>The loop of the copy constructor over \<open>other\<close>, from \<open>begin()\<close> to \<open>end()\<close>.\<close>

partial_function (option) copy_elems :: "vector \<Rightarrow> u64 \<Rightarrow> vector \<Rightarrow> 'a store \<Rightarrow> (vector \<times> 'a store) option" where
  "copy_elems other i v st =
     (if i \<noteq> vec_end other then
        do { x \<leftarrow> vec_at i other st; (v, st) \<leftarrow> push_back x v st; copy_elems other (i + 1) v st }
      else Some (v, st))"

definition vec_copy :: "vector \<Rightarrow> 'a store \<Rightarrow> (vector \<times> 'a store) option" where
  "vec_copy other st =
     do { (v, st) \<leftarrow> reserve (vsize other) empty_vector st; copy_elems other 0 v st }"

text \<open>
  Assignment takes its argument by value, swaps with it and destroys it: copy assignment makes the
  argument with the copy constructor, move assignment with the move constructor.
\<close>

definition vec_assign :: "vector \<Rightarrow> vector \<Rightarrow> 'a store \<Rightarrow> (vector \<times> 'a store) option" where
  "vec_assign v other st =
     (let (v, other) = vec_swap v other in do { st \<leftarrow> vec_destroy other st; Some (v, st) })"

definition vec_copy_assign :: "vector \<Rightarrow> vector \<Rightarrow> 'a store \<Rightarrow> (vector \<times> 'a store) option" where
  "vec_copy_assign v other st = do { (c, st) \<leftarrow> vec_copy other st; vec_assign v c st }"

definition vec_move_assign :: "vector \<Rightarrow> vector \<Rightarrow> 'a store \<Rightarrow> (vector \<times> vector \<times> 'a store) option" where
  "vec_move_assign v other st =
     (let (c, other) = vec_move other in do { (v, st) \<leftarrow> vec_assign v c st; Some (v, other, st) })"

section \<open>Slots\<close>

lemma set_buf_simps [simp]:
  "bufs (set_buf p b st) = (bufs st)(p \<mapsto> b)" "answers (set_buf p b st) = answers st"
  "elem_size (set_buf p b st) = elem_size st" "set_buf p c (set_buf p b st) = set_buf p c st"
  by (simp_all add: set_buf_def)

lemma set_buf_same: "bufs st p = Some b \<Longrightarrow> set_buf p b st = st"
  by (simp add: set_buf_def fun_upd_idem)

lemma set_buf_swap: "p \<noteq> q \<Longrightarrow> set_buf p b (set_buf q c st) = set_buf q c (set_buf p b st)"
  by (simp add: set_buf_def fun_upd_twist)

lemma read_at:
  "bufs st p = Some (l @ c # r) \<Longrightarrow> unat i = length l \<Longrightarrow> read_slot p i st = c"
  by (simp add: read_slot_def)

lemma put_at:
  "bufs st p = Some (l @ c # r) \<Longrightarrow> unat i = length l \<Longrightarrow>
     put_slot p i d st = Some (set_buf p (l @ d # r) st)"
  by (simp add: put_slot_def)

lemma destroy_at:
  "bufs st p = Some (l @ Some x # r) \<Longrightarrow> unat i = length l \<Longrightarrow>
     destroy p i st = Some (set_buf p (l @ None # r) st)"
  by (simp add: destroy_def read_at put_at)

lemma assign_at:
  "bufs st p = Some (l @ Some x # r) \<Longrightarrow> unat i = length l \<Longrightarrow>
     assign_slot p i y st = Some (set_buf p (l @ Some y # r) st)"
  by (simp add: assign_slot_def read_at put_at)

lemma swap_at:
  assumes "bufs st p = Some (l @ Some x # Some y # r)" "unat j = length l" "unat i = Suc (length l)"
  shows "swap_slots p i j st = Some (set_buf p (l @ Some y # Some x # r) st)"
proof -
  have r: "read_slot p j st = Some x" "read_slot p i st = Some y"
    using assms read_at [of st p l "Some x" "Some y # r" j] read_at [of st p "l @ [Some x]" "Some y" r i] by simp_all
  have a: "assign_slot p i x st = Some (set_buf p (l @ Some x # Some x # r) st)"
    using assms assign_at [of st p "l @ [Some x]" y r i x] by simp
  have "assign_slot p j y (set_buf p (l @ Some x # Some x # r) st) =
      Some (set_buf p (l @ Some y # Some x # r) st)"
    using assms(2) by (subst assign_at) auto
  then show ?thesis by (simp add: swap_slots_def r a)
qed

lemma next_word: "unat (i :: u64) < n \<Longrightarrow> n < 2 ^ 64 \<Longrightarrow> unat (i + 1) = Suc (unat i)"
  by (subst unat_add_nowrap) auto

section \<open>Loops\<close>

lemma reserve_loop_ok:
  assumes "p \<noteq> q" "bufs st p = Some (replicate n None @ map Some ys @ r)"
    "bufs st q = Some (map Some zs @ replicate (length ys + m) None)"
    "n = length zs" "unat i = n" "unat sz = n + length ys"
  shows "reserve_loop p q sz i st =
    Some (set_buf q (map Some (zs @ ys) @ replicate m None) (set_buf p (replicate (n + length ys) None @ r) st))"
  using assms
proof (induction ys arbitrary: st i zs n)
  case Nil
  then have "\<not> i < sz" by (simp add: word_less_nat_alt)
  then show ?case using Nil by (subst reserve_loop.simps) (simp add: set_buf_same)
next
  case (Cons y ys)
  let ?q = "map Some (zs @ [y]) @ replicate (length ys + m) None"
  let ?p = "replicate (Suc n) None @ map Some ys @ r"
  let ?st = "set_buf p ?p (set_buf q ?q st)"
  have n: "unat (i + 1) = Suc n" and lt: "i < sz"
    using Cons.prems next_word [of i "unat sz"] unsigned_less [where ?'a = nat, of sz] by (simp_all add: word_less_nat_alt)
  have rd: "read_slot p i st = Some y" using Cons.prems read_at [of st p "replicate n None" "Some y" _ i] by simp
  have c: "construct q i y st = Some (set_buf q ?q st)"
    using Cons.prems put_at [of st q "map Some zs" None _ i] by (simp add: construct_def)
  have d: "destroy p i (set_buf q ?q st) = Some ?st"
    using Cons.prems destroy_at [of "set_buf q ?q st" p "replicate n None" y _ i] by (simp add: replicate_append_same [symmetric])
  have "reserve_loop p q sz (i + 1) ?st =
      Some (set_buf q (map Some ((zs @ [y]) @ ys) @ replicate m None) (set_buf p (replicate (Suc n + length ys) None @ r) ?st))"
    by (rule Cons.IH) (use Cons.prems n in simp_all)
  then show ?case using lt rd c d Cons.prems(1)
    by (subst reserve_loop.simps) (simp add: set_buf_swap)
qed

lemma bubble_down_ok:
  assumes "bufs st p = Some (l @ map Some bs @ Some x # r)" "unat idx = length l" "unat i = length l + length bs"
  shows "bubble_down p idx i st = Some (set_buf p (l @ Some x # map Some bs @ r) st)"
  using assms
proof (induction bs arbitrary: st i r rule: rev_induct)
  case Nil
  then have "i = idx" by (simp add: word_unat_eq_iff)
  then show ?case using Nil by (subst bubble_down.simps) (simp add: set_buf_same)
next
  case (snoc y bs)
  have i: "idx < i" "unat (i - 1) = length l + length bs"
    using snoc.prems by (auto simp: word_less_nat_alt unat_sub_le)
  have sw: "swap_slots p i (i - 1) st = Some (set_buf p ((l @ map Some bs) @ Some x # Some y # r) st)"
    by (rule swap_at) (use snoc.prems i in simp_all)
  show ?case
    by (subst bubble_down.simps) (use snoc.IH [of _ "Some y # r" "i - 1"] snoc.prems(2) i sw in simp)
qed

lemma shift_left_ok:
  assumes "bufs st p = Some (l @ map Some (b # bs) @ r)" "unat i = length l" "unat sz = length l + length bs + 1"
  shows "shift_left p sz i st = Some (set_buf p (l @ map Some bs @ Some (last (b # bs)) # r) st)"
  using assms
proof (induction bs arbitrary: l b st i)
  case Nil
  have "unat (i + 1) = Suc (unat i)" using Nil next_word [of i "unat sz"] unsigned_less [where ?'a = nat, of sz] by simp
  then have "\<not> i + 1 < sz" using Nil by (simp add: word_less_nat_alt)
  then show ?case using Nil by (subst shift_left.simps) (simp add: set_buf_same)
next
  case (Cons c bs)
  have n: "unat (i + 1) = Suc (unat i)"
    using Cons.prems next_word [of i "unat sz"] unsigned_less [where ?'a = nat, of sz] by simp
  then have lt: "i + 1 < sz" using Cons.prems by (simp add: word_less_nat_alt)
  have rd: "read_slot p (i + 1) st = Some c"
    using Cons.prems n read_at [of st p "l @ [Some b]" "Some c" "map Some bs @ r" "i + 1"] by simp
  have as: "assign_slot p i c st = Some (set_buf p (l @ Some c # map Some (c # bs) @ r) st)"
    using Cons.prems by (subst assign_at [of _ _ l b]) simp_all
  show ?case
    by (subst shift_left.simps) (use Cons.IH [of _ "l @ [Some c]" c "i + 1"] Cons.prems(2,3) n lt rd as in simp)
qed

section \<open>Vectors as lists\<close>

text \<open>
  \<open>holds st v xs\<close>: the vector is well formed and its elements are \<open>xs\<close>: they are the first
  slots of its buffer, the rest is raw storage; without a buffer it is empty.
\<close>

definition holds :: "'a store \<Rightarrow> vector \<Rightarrow> 'a list \<Rightarrow> bool" where
  "holds st v xs \<longleftrightarrow> bufs st 0 = None \<and> unat (vsize v) = length xs \<and> length xs \<le> unat (vcap v) \<and>
     (if vdata v = 0 then vcap v = 0
      else bufs st (vdata v) = Some (map Some xs @ replicate (unat (vcap v) - length xs) None))"

text \<open>All buffers but the vector's own are the same: nothing is leaked or released.\<close>

definition owned :: "'a store \<Rightarrow> vector \<Rightarrow> 'a store \<Rightarrow> vector \<Rightarrow> bool" where
  "owned st v st' v' \<longleftrightarrow> (bufs st')(vdata v' := None) = (bufs st)(vdata v := None) \<and> elem_size st' = elem_size st"

text \<open>The next \<open>n\<close> answers of \<open>operator new\<close> are new addresses.\<close>

definition stocked :: "nat \<Rightarrow> 'a store \<Rightarrow> bool" where
  "stocked n st \<longleftrightarrow> n \<le> length (answers st) \<and> distinct (answers st) \<and> elem_size st \<noteq> 0 \<and>
     (\<forall>a\<in>set (answers st). a \<noteq> 0 \<and> bufs st a = None)"

text \<open>A vector with up to \<open>n\<close> elements can grow without overflow.\<close>

definition room :: "nat \<Rightarrow> 'a store \<Rightarrow> bool" where
  "room n st \<longleftrightarrow> unat (elem_size st) * (2 * n + 4) < 2 ^ 64"

lemma owned_refl [simp]: "owned st v st v"
  by (simp add: owned_def)

lemma owned_trans: "owned a u b v \<Longrightarrow> owned b v c w \<Longrightarrow> owned a u c w"
  by (simp add: owned_def)

lemma owned_set_buf: "vdata v' = vdata v \<Longrightarrow> owned st v (set_buf (vdata v) b st) v'"
  by (simp add: owned_def)

lemma holds_empty: "bufs st 0 = None \<Longrightarrow> holds st empty_vector []"
  by (simp add: holds_def empty_vector_def)

lemma holds_nonempty: "holds st v xs \<Longrightarrow> xs \<noteq> [] \<Longrightarrow> vdata v \<noteq> 0"
  by (auto simp: holds_def)

lemma holds_buffer:
  "holds st v xs \<Longrightarrow> vdata v \<noteq> 0 \<Longrightarrow>
     bufs st (vdata v) = Some (map Some xs @ replicate (unat (vcap v) - length xs) None)"
  by (simp add: holds_def)

lemma stocked_mono: "stocked n st \<Longrightarrow> m \<le> n \<Longrightarrow> stocked m st"
  by (simp add: stocked_def)

lemma room_mono: "room n st \<Longrightarrow> m \<le> n \<Longrightarrow> room m st"
proof -
  assume r: "room n st" and l: "m \<le> n"
  have "unat (elem_size st) * (2 * m + 4) \<le> unat (elem_size st) * (2 * n + 4)" by (rule mult_le_mono2) (use l in simp)
  from order.strict_trans1 [OF this r [unfolded room_def]] show "room m st" by (simp only: room_def)
qed

lemma stocked_set_buf: "stocked n st \<Longrightarrow> bufs st p \<noteq> None \<Longrightarrow> stocked n (set_buf p b st)"
  by (auto simp: stocked_def)

lemma reserve_ok:
  assumes h: "holds st v xs" and s: "stocked (Suc n) st" and c: "vcap v < k"
    and fit: "unat (elem_size st) * unat k < 2 ^ 64"
  obtains v' st' where "reserve k v st = Some (v', st')" "holds st' v' xs" "owned st v st' v'" "stocked n st'"
    "vcap v' = k" "vdata v' \<noteq> 0" "vsize v' = vsize v"
proof -
  obtain a as where a: "answers st = a # as" "a \<noteq> 0" "bufs st a = None" "elem_size st \<noteq> 0"
    "n \<le> length as" "distinct (a # as)" "\<forall>b\<in>set as. b \<noteq> 0 \<and> bufs st b = None"
    using s by (cases "answers st") (auto simp: stocked_def)
  let ?st = "set_buf a (replicate (unat k) None) (st\<lparr>answers := as\<rparr>)"
  have e: "unat (elem_size st * k) div unat (elem_size st) = unat k"
    using fit a(4) by (simp add: unat_mult_lem [THEN iffD1] unat_eq_0)
  have nw: "new_slots k st = Some (a, ?st)"
    using a by (simp add: new_slots_def e set_buf_def)
  have k: "length xs \<le> unat k" "unat k = length xs + (unat k - length xs)"
    using h c by (auto simp: holds_def word_less_nat_alt)
  show ?thesis
  proof (cases "vdata v = 0")
    case True
    then have "xs = []" "vsize v = 0" using h by (auto simp: holds_def unat_eq_0)
    then have "reserve k v st = Some (v\<lparr>vdata := a, vcap := k\<rparr>, ?st)"
      using c nw True by (simp add: reserve_def not_le reserve_loop.simps delete_slots_def)
    then show ?thesis
      by (rule that) (use h a True \<open>xs = []\<close> in \<open>auto simp: holds_def owned_def stocked_def fun_eq_iff set_buf_def\<close>)
  next
    case False
    let ?r = "replicate (unat (vcap v) - length xs) None"
    let ?st2 = "set_buf a (map Some xs @ replicate (unat k - length xs) None) (set_buf (vdata v) (replicate (length xs) None @ ?r) ?st)"
    have b: "bufs st (vdata v) = Some (map Some xs @ ?r)" by (rule holds_buffer [OF h False])
    then have ne: "vdata v \<noteq> a" using a(3) by auto
    have "reserve_loop (vdata v) a (vsize v) 0 ?st = Some ?st2"
      using reserve_loop_ok [of "vdata v" a ?st 0 xs ?r "[]" "unat k - length xs" 0 "vsize v"] ne b k h
      by (simp add: holds_def)
    then have r: "reserve k v st = Some (v\<lparr>vdata := a, vcap := k\<rparr>, ?st2\<lparr>bufs := (bufs ?st2)(vdata v := None)\<rparr>)"
      using c nw False ne by (simp add: reserve_def not_le delete_slots_def)
    show ?thesis
      by (rule that [OF r])
        (use h a ne False k in \<open>auto simp: holds_def owned_def stocked_def fun_eq_iff set_buf_def\<close>)
  qed
qed

lemma construct_ok:
  assumes h: "holds st v xs" and l: "length xs < unat (vcap v)" and d: "vdata v \<noteq> 0"
  obtains b where "construct (vdata v) (vsize v) x st = Some (set_buf (vdata v) b st)"
    "holds (set_buf (vdata v) b st) (v\<lparr>vsize := vsize v + 1\<rparr>) (xs @ [x])" "bufs st (vdata v) \<noteq> None"
proof -
  let ?r = "replicate (unat (vcap v) - Suc (length xs)) None"
  have b: "bufs st (vdata v) = Some (map Some xs @ None # ?r)"
    using holds_buffer [OF h d] l by (simp flip: replicate_Suc add: Suc_diff_Suc)
  have z: "unat (vsize v) = length xs" using h by (simp add: holds_def)
  have u: "unat (vsize v + 1) = Suc (length xs)"
    using next_word [of "vsize v" "unat (vcap v)"] l z unsigned_less [where ?'a = nat, of "vcap v"] by simp
  show ?thesis
  proof (rule that)
    show "construct (vdata v) (vsize v) x st = Some (set_buf (vdata v) (map Some xs @ Some x # ?r) st)"
      using put_at [OF b, of "vsize v" "Some x"] z by (simp add: construct_def)
  qed (use h d l u b in \<open>auto simp: holds_def\<close>)
qed

lemma push_back_ok:
  assumes h: "holds st v xs" and s: "stocked (Suc n) st" and f: "room (length xs) st"
  obtains v' st' where "push_back x v st = Some (v', st')" "holds st' v' (xs @ [x])" "owned st v st' v'" "stocked n st'"
proof -
  let ?k = "if vcap v \<noteq> 0 then vcap v * 2 else 4"
  have es: "elem_size st \<noteq> 0" using s by (simp add: stocked_def)
  obtain v1 st1 where 1: "(if vsize v = vcap v then reserve ?k v st else Some (v, st)) = Some (v1, st1)"
    "holds st1 v1 xs" "owned st v st1 v1" "stocked n st1" "vdata v1 \<noteq> 0" "length xs < unat (vcap v1)"
  proof (cases "vsize v = vcap v")
    case True
    then have l: "unat (vcap v) = length xs" using h by (simp add: holds_def)
    have "1 * (2 * length xs + 4) \<le> unat (elem_size st) * (2 * length xs + 4)"
      using es by (intro mult_le_mono1) (simp add: unat_gt_0 Suc_le_eq)
    from order.strict_trans1 [OF this f [unfolded room_def]] have "2 * length xs + 4 < 2 ^ 64" by simp
    then have k: "unat ?k = (if vcap v \<noteq> 0 then 2 * length xs else 4)"
      using l by (auto simp: unat_word_ariths)
    then have c: "vcap v < ?k" using l by (auto simp: word_less_nat_alt unat_eq_0)
    have "unat (elem_size st) * unat ?k \<le> unat (elem_size st) * (2 * length xs + 4)"
      by (rule mult_le_mono2) (simp only: k split: if_splits, simp)
    from order.strict_trans1 [OF this f [unfolded room_def]] have "unat (elem_size st) * unat ?k < 2 ^ 64" .
    then obtain w t where r: "reserve ?k v st = Some (w, t)" "holds t w xs" "owned st v t w" "stocked n t"
      "vcap w = ?k" "vdata w \<noteq> 0" by (rule reserve_ok [OF h s c])
    have "length xs < unat (vcap w)" using c l unfolding r(5) by (simp only: word_less_nat_alt)
    then show ?thesis using that [OF _ r(2-4,6)] True r(1) by simp
  next
    case False
    then have "length xs < unat (vcap v)" using h by (auto simp: holds_def word_unat_eq_iff)
    moreover have "vdata v \<noteq> 0" using calculation h by (auto simp: holds_def)
    ultimately show ?thesis using that [of v st] False h stocked_mono [OF s] by simp
  qed
  obtain b where b: "construct (vdata v1) (vsize v1) x st1 = Some (set_buf (vdata v1) b st1)"
    "holds (set_buf (vdata v1) b st1) (v1\<lparr>vsize := vsize v1 + 1\<rparr>) (xs @ [x])" "bufs st1 (vdata v1) \<noteq> None"
    by (rule construct_ok [OF 1(2,6,5)])
  have p: "push_back x v st = Some (v1\<lparr>vsize := vsize v1 + 1\<rparr>, set_buf (vdata v1) b st1)"
    using 1(1) b(1) by (simp add: push_back_def del: if_split)
  show ?thesis
    by (rule that [OF p b(2)])
      (use owned_trans [OF 1(3) owned_set_buf] stocked_set_buf [OF 1(4) b(3)] in simp_all)
qed

lemma push_fit_ok:
  assumes h: "holds st v xs" and l: "length xs < unat (vcap v)"
  obtains b where "push_back x v st = Some (v\<lparr>vsize := vsize v + 1\<rparr>, set_buf (vdata v) b st)"
    "holds (set_buf (vdata v) b st) (v\<lparr>vsize := vsize v + 1\<rparr>) (xs @ [x])" "bufs st (vdata v) \<noteq> None"
proof -
  have d: "vdata v \<noteq> 0" "vsize v \<noteq> vcap v" using h l by (auto simp: holds_def)
  obtain b where b: "construct (vdata v) (vsize v) x st = Some (set_buf (vdata v) b st)"
    "holds (set_buf (vdata v) b st) (v\<lparr>vsize := vsize v + 1\<rparr>) (xs @ [x])" "bufs st (vdata v) \<noteq> None"
    by (rule construct_ok [OF h l d(1)])
  then show ?thesis using that d(2) by (simp add: push_back_def)
qed

lemma pop_back_ok:
  assumes h: "holds st v xs"
  obtains v' st' where "pop_back v st = Some (v', st')" "holds st' v' (butlast xs)" "owned st v st' v'"
    "vdata v' = vdata v" "vcap v' = vcap v" "answers st' = answers st"
proof (cases xs rule: rev_cases)
  case Nil
  then show ?thesis using that [of v st] h by (auto simp: pop_back_def holds_def unat_eq_0)
next
  case (snoc ys y)
  then have d: "vdata v \<noteq> 0" using holds_nonempty [OF h] by simp
  let ?r = "replicate (unat (vcap v) - length xs) None"
  have b: "bufs st (vdata v) = Some (map Some ys @ Some y # ?r)"
    using holds_buffer [OF h d] snoc by simp
  have z: "vsize v \<noteq> 0" "unat (vsize v - 1) = length ys"
    using h snoc by (auto simp: holds_def unat_sub_le)
  have "pop_back v st = Some (v\<lparr>vsize := vsize v - 1\<rparr>, set_buf (vdata v) (map Some ys @ None # ?r) st)"
    using z destroy_at [OF b, of "vsize v - 1"] by (simp add: pop_back_def)
  then show ?thesis
  proof (rule that)
    show "owned st v (set_buf (vdata v) (map Some ys @ None # ?r) st) (v\<lparr>vsize := vsize v - 1\<rparr>)"
      by (rule owned_set_buf) simp
    show "holds (set_buf (vdata v) (map Some ys @ None # ?r) st) (v\<lparr>vsize := vsize v - 1\<rparr>) (butlast xs)"
      using h d z snoc by (auto simp: holds_def replicate_Suc [symmetric] Suc_diff_Suc simp del: replicate_Suc)
  qed simp_all
qed

lemma vec_insert_ok:
  assumes h: "holds st v xs" and s: "stocked (Suc n) st" and f: "room (length xs) st" and i: "unat idx \<le> length xs"
  obtains v' st' where "vec_insert idx x v st = Some (idx, v', st')" "owned st v st' v'" "stocked n st'"
    "holds st' v' (take (unat idx) xs @ x # drop (unat idx) xs)"
proof -
  obtain w t where p: "push_back x v st = Some (w, t)" "holds t w (xs @ [x])" "owned st v t w" "stocked n t"
    by (rule push_back_ok [OF h s f])
  let ?l = "map Some (take (unat idx) xs)" and ?b = "drop (unat idx) xs"
    and ?r = "replicate (unat (vcap w) - length (xs @ [x])) None"
  have d: "vdata w \<noteq> 0" using holds_nonempty [OF p(2)] by simp
  have split: "map Some xs = ?l @ map Some ?b" by (simp flip: map_append)
  have b: "bufs t (vdata w) = Some (?l @ map Some ?b @ Some x # ?r)"
    using holds_buffer [OF p(2) d] by (simp add: split)
  have z: "unat (vsize w - 1) = length ?l + length ?b" using p(2) i by (simp add: holds_def unat_sub_le)
  have "bubble_down (vdata w) idx (vsize w - 1) t = Some (set_buf (vdata w) (?l @ Some x # map Some ?b @ ?r) t)"
    using bubble_down_ok [OF b, of idx "vsize w - 1"] z i by simp
  then have r: "vec_insert idx x v st = Some (idx, w, set_buf (vdata w) (?l @ Some x # map Some ?b @ ?r) t)"
    by (simp add: vec_insert_def p(1))
  show ?thesis
  proof (rule that [OF r])
    show "owned st v (set_buf (vdata w) (?l @ Some x # map Some ?b @ ?r) t) w"
      using owned_trans [OF p(3) owned_set_buf] by simp
    show "stocked n (set_buf (vdata w) (?l @ Some x # map Some ?b @ ?r) t)"
      using p(4) b by (simp add: stocked_set_buf)
    show "holds (set_buf (vdata w) (?l @ Some x # map Some ?b @ ?r) t) w (take (unat idx) xs @ x # drop (unat idx) xs)"
      using p(2) d i by (auto simp: holds_def)
  qed
qed

lemma vec_erase_ok:
  assumes h: "holds st v xs" and i: "unat idx < length xs"
  obtains v' st' where "vec_erase idx v st = Some (idx, v', st')" "owned st v st' v'"
    "holds st' v' (take (unat idx) xs @ drop (Suc (unat idx)) xs)"
proof -
  let ?l = "map Some (take (unat idx) xs)" and ?b = "xs ! unat idx" and ?bs = "drop (Suc (unat idx)) xs"
    and ?r = "replicate (unat (vcap v) - length xs) None"
  have d: "vdata v \<noteq> 0" using holds_nonempty [OF h] i by fastforce
  have split: "xs = take (unat idx) xs @ ?b # ?bs" using i by (simp add: id_take_nth_drop)
  have b: "bufs st (vdata v) = Some (?l @ map Some (?b # ?bs) @ ?r)"
    using holds_buffer [OF h d] arg_cong [OF split, of "map Some"] by simp
  let ?st = "set_buf (vdata v) (?l @ map Some ?bs @ Some (last (?b # ?bs)) # ?r) st"
  have sh: "shift_left (vdata v) (vsize v) idx st = Some ?st"
    by (rule shift_left_ok [OF b]) (use h i in \<open>auto simp: holds_def\<close>)
  have len: "length (take (unat idx) xs @ ?bs @ [last (?b # ?bs)]) = length xs" using i by simp
  have "holds ?st v (take (unat idx) xs @ ?bs @ [last (?b # ?bs)])"
    using h d unfolding holds_def len by simp
  then obtain v' st' where p: "pop_back v ?st = Some (v', st')" "owned ?st v st' v'"
    "holds st' v' (butlast (take (unat idx) xs @ ?bs @ [last (?b # ?bs)]))"
    by (rule pop_back_ok)
  have "vec_erase idx v st = Some (idx, v', st')" using sh p(1) by (simp add: vec_erase_def)
  moreover have "owned st v st' v'" using owned_trans [OF owned_set_buf p(2)] by simp
  moreover have "butlast (take (unat idx) xs @ ?bs @ [last (?b # ?bs)]) = take (unat idx) xs @ ?bs"
    by (simp only: append_assoc [symmetric] butlast_snoc)
  ultimately show ?thesis using that p(3) by metis
qed

lemma vec_clear_ok:
  assumes "holds st v xs"
  obtains v' st' where "vec_clear v st = Some (v', st')" "holds st' v' []" "owned st v st' v'" "vdata v' = vdata v"
    "answers st' = answers st"
  using assms
proof (induction xs arbitrary: v st thesis rule: rev_induct)
  case Nil
  then have "vec_clear v st = Some (v, st)" by (subst vec_clear.simps) (auto simp: holds_def unat_eq_0)
  then show ?case using Nil by simp
next
  case (snoc x xs)
  obtain w t where p: "pop_back v st = Some (w, t)" "holds t w xs" "owned st v t w" "vdata w = vdata v" "answers t = answers st"
    using snoc.prems(2) by (rule pop_back_ok) simp
  obtain v' st' where c: "vec_clear w t = Some (v', st')" "holds st' v' []" "owned t w st' v'" "vdata v' = vdata w"
    "answers st' = answers t" using snoc.IH p(2) by blast
  have "vsize v \<noteq> 0" using snoc.prems(2) by (auto simp: holds_def)
  then have "vec_clear v st = Some (v', st')" using p(1) c(1) by (subst vec_clear.simps) simp
  then show ?case using snoc.prems(1) c owned_trans [OF p(3) c(3)] p by simp
qed

lemma vec_destroy_ok:
  assumes h: "holds st v xs"
  shows "vec_destroy v st = Some (st\<lparr>bufs := (bufs st)(vdata v := None)\<rparr>)"
proof -
  obtain w t where c: "vec_clear v st = Some (w, t)" "holds t w []" "owned st v t w" "vdata w = vdata v" "answers t = answers st"
    by (rule vec_clear_ok [OF h])
  have t: "t\<lparr>bufs := (bufs t)(vdata v := None)\<rparr> = st\<lparr>bufs := (bufs st)(vdata v := None)\<rparr>"
    using c(3-5) by (cases t; cases st) (simp add: owned_def)
  have "(bufs t)(vdata v := None) = bufs t" if "vdata v = 0" using c(2) that by (auto simp: holds_def)
  then have "delete_slots (vdata w) t = Some (t\<lparr>bufs := (bufs t)(vdata v := None)\<rparr>)"
    using holds_buffer [OF c(2)] c(4) by (auto simp: delete_slots_def)
  then show ?thesis using c(1) by (simp add: vec_destroy_def t)
qed

lemma holds_frame:
  assumes "holds st v xs" "bufs st' (vdata v) = bufs st (vdata v)" "bufs st' 0 = None"
  shows "holds st' v xs"
  using assms by (simp add: holds_def)

lemma read_elem:
  assumes "holds st v xs" "unat i < length xs" shows "vec_at i v st = Some (xs ! unat i)"
proof -
  have "vdata v \<noteq> 0" using holds_nonempty [OF assms(1)] assms(2) by fastforce
  from holds_buffer [OF assms(1) this] show ?thesis
    using assms(2) by (simp add: vec_at_def read_slot_def nth_append)
qed

lemma copy_elems_ok:
  assumes "holds st other xs" "holds st v (take (unat i) xs)" "unat i \<le> length xs" "unat (vcap v) = length xs"
    "vdata v \<noteq> vdata other"
  obtains v' st' where "copy_elems other i v st = Some (v', st')" "holds st' v' xs" "owned st v st' v'"
    "vdata v' = vdata v" "answers st' = answers st"
  using assms
proof (induction "length xs - unat i" arbitrary: i v st thesis)
  case 0
  then have e: "i = vsize other" by (simp add: holds_def word_unat_eq_iff)
  then have "copy_elems other i v st = Some (v, st)" by (subst copy_elems.simps) (simp add: vec_end_def)
  then show ?case using 0 by simp
next
  case (Suc n)
  then have l: "unat i < length xs" by simp
  have sz: "unat (vsize other) = length xs" using Suc.prems(2) by (simp add: holds_def)
  have ne: "i \<noteq> vsize other" using l sz by auto
  have u: "unat (i + 1) = Suc (unat i)"
    using next_word [of i "length xs"] l sz unsigned_less [where ?'a = nat, of "vsize other"] by simp
  obtain b where b: "push_back (xs ! unat i) v st = Some (v\<lparr>vsize := vsize v + 1\<rparr>, set_buf (vdata v) b st)"
    "holds (set_buf (vdata v) b st) (v\<lparr>vsize := vsize v + 1\<rparr>) (take (unat i) xs @ [xs ! unat i])"
    "bufs st (vdata v) \<noteq> None"
    by (rule push_fit_ok [OF Suc.prems(3), of "xs ! unat i"]) (use l Suc.prems(5) in auto)
  have o: "holds (set_buf (vdata v) b st) other xs"
    by (rule holds_frame [OF Suc.prems(2)]) (use Suc.prems(6) b(2) in \<open>auto simp: holds_def\<close>)
  obtain v' st' where c: "copy_elems other (i + 1) (v\<lparr>vsize := vsize v + 1\<rparr>) (set_buf (vdata v) b st) = Some (v', st')"
    "holds st' v' xs" "owned (set_buf (vdata v) b st) (v\<lparr>vsize := vsize v + 1\<rparr>) st' v'"
    "vdata v' = vdata (v\<lparr>vsize := vsize v + 1\<rparr>)" "answers st' = answers (set_buf (vdata v) b st)"
    by (rule Suc.hyps(1) [of "i + 1" "v\<lparr>vsize := vsize v + 1\<rparr>" "set_buf (vdata v) b st"])
      (use Suc.prems(5,6) Suc.hyps(2) l u o b(2) in \<open>simp_all add: take_Suc_conv_app_nth\<close>)
  have "copy_elems other i v st = Some (v', st')"
    using ne b(1) c(1) read_elem [OF Suc.prems(2) l] by (subst copy_elems.simps) (simp add: vec_end_def)
  then show ?case using Suc.prems(1) c owned_trans [OF owned_set_buf c(3)] by simp
qed

lemma vec_copy_ok:
  assumes h: "holds st other xs" and s: "stocked (Suc n) st" and f: "room (length xs) st"
  obtains v' st' where "vec_copy other st = Some (v', st')" "holds st' v' xs" "holds st' other xs"
    "owned st empty_vector st' v'" "xs \<noteq> [] \<longrightarrow> vdata v' \<noteq> vdata other"
proof (cases "xs = []")
  case True
  then have z: "vsize other = 0" using h by (simp add: holds_def unat_eq_0)
  then have "vec_copy other st = Some (empty_vector, st)"
    by (simp add: vec_copy_def reserve_def copy_elems.simps vec_end_def)
  then show ?thesis using that h True by (simp add: holds_def empty_vector_def)
next
  case False
  have b0: "bufs st 0 = None" using h by (simp add: holds_def)
  have sz: "unat (vsize other) = length xs" using h by (simp add: holds_def)
  have "unat (elem_size st) * unat (vsize other) \<le> unat (elem_size st) * (2 * length xs + 4)"
    by (rule mult_le_mono2) (simp add: sz)
  from order.strict_trans1 [OF this f [unfolded room_def]]
  have fit: "unat (elem_size st) * unat (vsize other) < 2 ^ 64" .
  have c: "vcap empty_vector < vsize other" using False sz by (simp add: empty_vector_def word_less_nat_alt)
  obtain v t where r: "reserve (vsize other) empty_vector st = Some (v, t)" "holds t v []" "owned st empty_vector t v"
    "vcap v = vsize other" "vdata v \<noteq> 0"
    by (rule reserve_ok [OF holds_empty [OF b0] s c fit])
  have same: "(bufs t)(vdata v := None) = bufs st" using r(3) b0 by (auto simp: owned_def empty_vector_def)
  have "bufs st (vdata v) = None" using fun_cong [OF same, of "vdata v"] by simp
  then have ne: "vdata v \<noteq> vdata other" using holds_buffer [OF h] holds_nonempty [OF h False] by auto
  have ho: "holds t other xs"
    by (rule holds_frame [OF h]) (use ne fun_cong [OF same, of "vdata other"] r(2) in \<open>auto simp: holds_def\<close>)
  obtain v' st' where k: "copy_elems other 0 v t = Some (v', st')" "holds st' v' xs" "owned t v st' v'"
    "vdata v' = vdata v" "answers st' = answers t"
    by (rule copy_elems_ok [OF ho, of v 0]) (use r ne sz in simp_all)
  have "(bufs st')(vdata v := None) = (bufs t)(vdata v := None)" using k(3,4) by (simp add: owned_def)
  from fun_cong [OF this, of "vdata other"] have same': "bufs st' (vdata other) = bufs t (vdata other)" using ne by simp
  show ?thesis
  proof (rule that)
    show "vec_copy other st = Some (v', st')" using r(1) k(1) by (simp add: vec_copy_def)
    show "holds st' other xs" by (rule holds_frame [OF ho same']) (use k(2) in \<open>simp add: holds_def\<close>)
    show "owned st empty_vector st' v'" by (rule owned_trans [OF r(3) k(3)])
  qed (use k ne in auto)
qed

section \<open>Properties\<close>

text \<open>
  C23: the vector implements a list. On a well-formed vector with elements \<open>xs\<close>, with an answer of
  \<open>operator new\<close> left and no overflow of the byte count, \<open>push_back\<close>, \<open>pop_back\<close>, \<open>insert\<close>
  and \<open>erase\<close> return, do what their names say to \<open>xs\<close>, keep the vector well formed, and leave
  the buffers of all other vectors as they are, releasing the old buffer when they move to a new one.
\<close>

theorem vector_refines_list:
  assumes "holds st v xs" "stocked 1 st" "room (length xs) st" "unat i \<le> length xs" "unat j < length xs"
  shows "(\<exists>v' st'. push_back x v st = Some (v', st') \<and> holds st' v' (xs @ [x]) \<and> owned st v st' v') \<and>
    (\<exists>v' st'. pop_back v st = Some (v', st') \<and> holds st' v' (butlast xs) \<and> owned st v st' v') \<and>
    (\<exists>v' st'. vec_insert i x v st = Some (i, v', st') \<and> owned st v st' v' \<and>
       holds st' v' (take (unat i) xs @ x # drop (unat i) xs)) \<and>
    (\<exists>v' st'. vec_erase j v st = Some (j, v', st') \<and> owned st v st' v' \<and>
       holds st' v' (take (unat j) xs @ drop (Suc (unat j)) xs))"
proof -
  have s: "stocked (Suc 0) st" using assms(2) by simp
  show ?thesis
    using push_back_ok [OF assms(1) s assms(3)] pop_back_ok [OF assms(1)]
      vec_insert_ok [OF assms(1) s assms(3,4)] vec_erase_ok [OF assms(1,5)] by metis
qed

text \<open>A full vector of four numbers, in a store with one answer left.\<close>

definition demo_store :: "u32 store" where
  "demo_store = \<lparr>bufs = [0x100 \<mapsto> [Some 1, Some 2, Some 3, Some 4]], answers = [0x200], elem_size = 4\<rparr>"

definition demo_vector :: vector where
  "demo_vector = \<lparr>vdata = 0x100, vsize = 4, vcap = 4\<rparr>"

lemma demo_holds: "holds demo_store demo_vector [1, 2, 3, 4]" "stocked 1 demo_store" "room (length [1, 2, 3, 4 :: u32]) demo_store"
  by (simp_all add: holds_def stocked_def room_def demo_store_def demo_vector_def)

theorem vector_refines_list_witness:
  "(\<exists>v st. vec_insert 1 9 demo_vector demo_store = Some (1, v, st) \<and> holds st v [1, 9, 2, 3, 4]) \<and>
   (\<exists>v st. vec_erase 2 demo_vector demo_store = Some (2, v, st) \<and> holds st v [1, 2, 4])"
  using vector_refines_list [OF demo_holds, of 1 2 9] by auto

text \<open>
  C30: the copy constructor makes an equal vector with a buffer of its own and leaves the original
  intact; destroying the copy gives back exactly the buffers there were
  before: nothing is leaked, and nothing is released twice.
\<close>

theorem vector_copy_independent:
  assumes "holds st other xs" "stocked 1 st" "room (length xs) st"
  shows "\<exists>v t u. vec_copy other st = Some (v, t) \<and> holds t v xs \<and> holds t other xs \<and>
    (xs \<noteq> [] \<longrightarrow> vdata v \<noteq> vdata other) \<and> vec_destroy v t = Some u \<and> bufs u = bufs st"
proof -
  have s: "stocked (Suc 0) st" using assms(2) by simp
  obtain v t where c: "vec_copy other st = Some (v, t)" "holds t v xs" "holds t other xs"
    "owned st empty_vector t v" "xs \<noteq> [] \<longrightarrow> vdata v \<noteq> vdata other"
    by (rule vec_copy_ok [OF assms(1) s assms(3)])
  have "(bufs t)(vdata v := None) = bufs st"
    using c(4) assms(1) by (auto simp: owned_def empty_vector_def holds_def)
  then show ?thesis using c vec_destroy_ok [OF c(2)] by auto
qed

theorem vector_copy_independent_witness:
  "\<exists>v t u. vec_copy demo_vector demo_store = Some (v, t) \<and> holds t v [1, 2, 3, 4] \<and>
     vec_destroy v t = Some u \<and> bufs u = bufs demo_store"
  using vector_copy_independent [OF demo_holds] by auto

section \<open>Appending\<close>

text \<open>What the users of a table rely on: \<open>able n s\<close> says that \<open>n\<close> more elements can be added.\<close>

fun push_all :: "('a \<Rightarrow> 's \<Rightarrow> 's option) \<Rightarrow> 'a list \<Rightarrow> 's \<Rightarrow> 's option" where
  "push_all push [] s = Some s"
| "push_all push (x # xs) s = do { s \<leftarrow> push x s; push_all push xs s }"

locale appendable =
  fixes push :: "'a \<Rightarrow> 's \<Rightarrow> 's option"
    and view :: "'s \<Rightarrow> 'a list"
    and able :: "nat \<Rightarrow> 's \<Rightarrow> bool"
  assumes push_ok: "able (Suc n) s \<Longrightarrow> \<exists>t. push x s = Some t \<and> able n t \<and> view t = view s @ [x]"
begin

lemma push_all_ok:
  "able (length xs + n) s \<Longrightarrow> \<exists>t. push_all push xs s = Some t \<and> able n t \<and> view t = view s @ xs"
proof (induction xs arbitrary: s)
  case (Cons x xs)
  obtain t where t: "push x s = Some t" "able (length xs + n) t" "view t = view s @ [x]"
    using push_ok [of "length xs + n" s x] Cons.prems by auto
  show ?case using Cons.IH [OF t(2)] t by auto
qed simp

end

text \<open>A vector together with the store of its element type.\<close>

type_synonym 'a table = "vector \<times> 'a store"

definition push_table :: "'a \<Rightarrow> 'a table \<Rightarrow> 'a table option" where
  "push_table x = (\<lambda>(v, st). push_back x v st)"

definition elems :: "'a table \<Rightarrow> 'a list" where
  "elems = (\<lambda>(v, st). case bufs st (vdata v) of None \<Rightarrow> [] | Some b \<Rightarrow> map the (take (unat (vsize v)) b))"

definition table_able :: "nat \<Rightarrow> 'a table \<Rightarrow> bool" where
  "table_able n = (\<lambda>(v, st). holds st v (elems (v, st)) \<and> stocked n st \<and> room (length (elems (v, st)) + n) st)"

lemma holds_elems: "holds st v xs \<Longrightarrow> elems (v, st) = xs"
  by (cases "vdata v = 0") (auto simp: holds_def elems_def)

interpretation tab: appendable push_table elems table_able
proof
  fix n x and s :: "'a table"
  assume able: "table_able (Suc n) s"
  obtain v st where s: "s = (v, st)" by (cases s)
  let ?xs = "elems (v, st)"
  have h: "holds st v ?xs" "stocked (Suc n) st" and rm: "room (length ?xs + Suc n) st"
    using able by (simp_all add: table_able_def s)
  have "room (length ?xs) st" by (rule room_mono [OF rm]) simp
  then obtain w t where t: "push_back x v st = Some (w, t)" "holds t w (?xs @ [x])" "owned st v t w" "stocked n t"
    by (rule push_back_ok [OF h])
  have "room (length (?xs @ [x]) + n) t" using rm t(3) by (simp add: room_def owned_def)
  then have "push_table x s = Some (w, t) \<and> table_able n (w, t) \<and> elems (w, t) = elems s @ [x]"
    using t holds_elems [OF t(2)] by (simp add: push_table_def table_able_def s)
  then show "\<exists>t. push_table x s = Some t \<and> table_able n t \<and> elems t = elems s @ [x]" by blast
qed

lemma table_able_mono: "table_able n s \<Longrightarrow> k \<le> n \<Longrightarrow> table_able k s"
  by (auto simp: table_able_def intro: stocked_mono room_mono)

end
