(* ===== verification/Clock.thy ===== *)
theory Clock
  imports Ports Vector
begin

text \<open>
  The clock sources (\<open>drivers/clocksource.hpp\<close>, \<open>drivers/clocksource.cpp\<close>, \<open>drivers/tsc.cpp\<close>,
  \<open>drivers/hpet.cpp\<close>, \<open>drivers/acpi_pm.cpp\<close>) and the time stamps made from them
  (\<open>drivers/ktime.hpp\<close>). What the bootloader and the ACPI tables answer is an input, and so are the
  counters: the time stamp counter, the registers of the HPET and, through its port, the PM timer.
\<close>

unbundle bit_operations_syntax

section \<open>Definitions\<close>

subsection \<open>Clock sources\<close>

record mult_shift =
  ms_mult :: u32
  ms_shift :: u32

definition FLAG_NONE :: u32 where "FLAG_NONE = 0"
definition FLAG_CONTINUOUS :: u32 where "FLAG_CONTINUOUS = push_bit 0 1"
definition FLAG_HIGH_RES :: u32 where "FLAG_HIGH_RES = push_bit 1 1"

text \<open>The subclasses of \<open>Clocksource\<close> with their members.\<close>

datatype source_class = TscClocksource | HpetClocksource u64 | AcpiPmClocksource u16

record clocksource =
  name :: "char list"
  rating :: u32
  cs_mask :: u64
  mult :: u32
  cs_shift :: u32
  cycle_last :: u64
  cs_flags :: u32
  source_kind :: source_class

definition Clocksource ::
  "char list \<Rightarrow> u32 \<Rightarrow> u64 \<Rightarrow> mult_shift \<Rightarrow> u32 \<Rightarrow> source_class \<Rightarrow> clocksource" where
  "Clocksource nm r mk ms fl cls =
     \<lparr>name = nm, rating = r, cs_mask = mk, mult = ms_mult ms, cs_shift = ms_shift ms, cycle_last = 0,
      cs_flags = fl, source_kind = cls\<rparr>"

definition isContinuous :: "clocksource \<Rightarrow> bool" where
  "isContinuous cs = (cs_flags cs AND FLAG_CONTINUOUS \<noteq> 0)"

definition isHighRes :: "clocksource \<Rightarrow> bool" where
  "isHighRes cs = (cs_flags cs AND FLAG_HIGH_RES \<noteq> 0)"

definition update_cycle_last :: "u64 \<Rightarrow> clocksource \<Rightarrow> clocksource" where
  "update_cycle_last cycles cs = cs\<lparr>cycle_last := cycles\<rparr>"

text \<open>
  The state: \<open>tsc\<close> is the value \<open>rdtsc\<close> reads, \<open>mmio\<close> the 32-bit registers of devices by
  address. Objects live at the addresses \<open>operator new\<close> answers; \<open>sources\<close> holds their addresses and
  \<open>best\<close> the one selected, or null.
\<close>

record clock = ports +
  tsc :: u64
  mmio :: "u64 \<Rightarrow> u32"
  objects :: "u64 \<Rightarrow> clocksource option"
  object_answers :: "u64 list"
  sources :: "u64 table"
  best :: u64

subsection \<open>Reading\<close>

definition HPET_GENERAL_CAPS :: u64 where "HPET_GENERAL_CAPS = 0x000"
definition HPET_GENERAL_CONFIG :: u64 where "HPET_GENERAL_CONFIG = 0x010"
definition HPET_MAIN_COUNTER :: u64 where "HPET_MAIN_COUNTER = 0x0F0"
definition HPET_CFG_ENABLE :: u64 where "HPET_CFG_ENABLE = 1"
definition HPET_FEMTOSEC_PER_SEC :: u64 where "HPET_FEMTOSEC_PER_SEC = 1000000000000000"
definition ACPI_PM_FREQ_HZ :: u32 where "ACPI_PM_FREQ_HZ = 3579545"

text \<open>\<open>rdtsc\<close> leaves the halves of the counter in \<open>edx:eax\<close>.\<close>

definition tsc_read :: "'a clock_scheme \<Rightarrow> u64" where
  "tsc_read s = (let lo = (ucast (tsc s) :: u32); hi = (ucast (drop_bit 32 (tsc s)) :: u32)
     in push_bit 32 (ucast hi) OR ucast lo)"

definition hpet_reg :: "u64 \<Rightarrow> u64 \<Rightarrow> 'a clock_scheme \<Rightarrow> u32" where
  "hpet_reg base ofs s = mmio s (base + ofs)"

definition cs_read :: "clocksource \<Rightarrow> 'a clock_scheme \<Rightarrow> u64 \<times> 'a clock_scheme" where
  "cs_read cs s =
     (case source_kind cs of
        TscClocksource \<Rightarrow> (tsc_read s, s)
      | HpetClocksource base \<Rightarrow> (ucast (hpet_reg base HPET_MAIN_COUNTER s), s)
      | AcpiPmClocksource port \<Rightarrow> let (v, s) = inl port s in (ucast v, s))"

definition read_delta :: "clocksource \<Rightarrow> 'a clock_scheme \<Rightarrow> u64 \<times> 'a clock_scheme" where
  "read_delta cs s = (let (now, s) = cs_read cs s; last = cycle_last cs in ((now - last) AND cs_mask cs, s))"

subsection \<open>Conversion\<close>

text \<open>A shift by 64 bits or more and a division by zero are undefined.\<close>

definition cycles_to_ns :: "u64 \<Rightarrow> u32 \<Rightarrow> u32 \<Rightarrow> u64 option" where
  "cycles_to_ns cycles mlt shift =
     (if unat shift < 64 then Some (drop_bit (unat shift) (cycles * ucast mlt)) else None)"

definition compute_shift :: u32 where
  "compute_shift = 32"

definition compute_ms :: "u32 \<Rightarrow> u32 \<Rightarrow> mult_shift option" where
  "compute_ms freq_hz shift =
     (let shift = (if shift = 0 then compute_shift else shift) in
      if freq_hz = 0 \<or> \<not> unat shift < 64 then None
      else let sec = push_bit (unat shift) 1 :: u64;
               mlt = (sec * 1000000000) div ucast freq_hz
           in Some \<lparr>ms_mult = ucast mlt, ms_shift = shift\<rparr>)"

subsection \<open>Registration\<close>

definition new_source :: "clocksource \<Rightarrow> 'a clock_scheme \<Rightarrow> (u64 \<times> 'a clock_scheme) option" where
  "new_source cs s =
     (case object_answers s of
        [] \<Rightarrow> None
      | a # as \<Rightarrow> if a = 0 then None
                  else Some (a, s\<lparr>object_answers := as, objects := (objects s)(a \<mapsto> cs)\<rparr>))"

definition register_clocksource :: "u64 \<Rightarrow> 'a clock_scheme \<Rightarrow> 'a clock_scheme option" where
  "register_clocksource cs s = do { t \<leftarrow> push_table cs (sources s); Some (s\<lparr>sources := t\<rparr>) }"

definition get_best :: "'a clock_scheme \<Rightarrow> u64" where
  "get_best s = best s"

text \<open>\<open>response\<close> is the frequency the bootloader reports, if it does.\<close>

definition tsc_init :: "u64 option \<Rightarrow> 'a clock_scheme \<Rightarrow> 'a clock_scheme option" where
  "tsc_init response s =
     (case response of
        None \<Rightarrow> Some s
      | Some frequency \<Rightarrow>
          let freq_hz = (ucast frequency :: u32) in
          if freq_hz = 0 then Some s
          else do { ms \<leftarrow> compute_ms freq_hz 0;
                    (cs, s) \<leftarrow> new_source (Clocksource ''tsc'' 300 0xFFFFFFFFFFFFFFFF ms
                                  (FLAG_CONTINUOUS OR FLAG_HIGH_RES) TscClocksource) s;
                    register_clocksource cs s })"

definition hpet_period_fs :: "u64 \<Rightarrow> 'a clock_scheme \<Rightarrow> u32" where
  "hpet_period_fs base s = mmio s (base + 4 * (HPET_GENERAL_CAPS div 4 + 1))"

text \<open>The constructor of the HPET source switches the counter on.\<close>

definition hpet_enable :: "u64 \<Rightarrow> 'a clock_scheme \<Rightarrow> 'a clock_scheme" where
  "hpet_enable base s =
     (let cfg = hpet_reg base HPET_GENERAL_CONFIG s in
      s\<lparr>mmio := (mmio s)(base + HPET_GENERAL_CONFIG := ucast ((ucast cfg :: u64) OR HPET_CFG_ENABLE))\<rparr>)"

text \<open>
  \<open>found\<close> is the HPET table, if the firmware has one: whether its address space is system memory,
  and its address.
\<close>

definition hpet_init :: "(bool \<times> u64) option \<Rightarrow> u64 \<Rightarrow> 'a clock_scheme \<Rightarrow> 'a clock_scheme option" where
  "hpet_init found slide s =
     (case found of
        None \<Rightarrow> Some s
      | Some (sys_mem, phys) \<Rightarrow>
          if \<not> sys_mem then Some s
          else let base = phys + slide; period_fs = hpet_period_fs base s in
            if period_fs = 0 then Some s
            else let freq_hz = (ucast (HPET_FEMTOSEC_PER_SEC div ucast period_fs) :: u32) in
              do { ms \<leftarrow> compute_ms freq_hz 0;
                   (cs, s) \<leftarrow> new_source (Clocksource ''hpet'' 200 0xFFFFFFFF ms FLAG_CONTINUOUS
                                 (HpetClocksource base)) s;
                   register_clocksource cs (hpet_enable base s) })"

text \<open>\<open>fadt\<close> is the FADT, if there is one: its fields \<open>pm_tmr_blk\<close> and \<open>pm_tmr_len\<close>.\<close>

definition acpi_pm_init :: "(u32 \<times> u8) option \<Rightarrow> 'a clock_scheme \<Rightarrow> 'a clock_scheme option" where
  "acpi_pm_init fadt s =
     (case fadt of
        None \<Rightarrow> Some s
      | Some (pm_tmr_blk, width) \<Rightarrow>
          let port = (ucast pm_tmr_blk :: u16) in
          if port = 0 then Some s
          else let mk = (if width = 4 then 0xFFFFFFFF else 0xFFFFFF) in
            do { ms \<leftarrow> compute_ms ACPI_PM_FREQ_HZ 0;
                 (cs, s) \<leftarrow> new_source (Clocksource ''acpi_pm'' 100 mk ms FLAG_NONE (AcpiPmClocksource port)) s;
                 register_clocksource cs s })"

text \<open>The selection loop: the first of the sources with the highest rating.\<close>

fun select_winner :: "(u64 \<Rightarrow> clocksource option) \<Rightarrow> u64 list \<Rightarrow> u64 \<Rightarrow> u64 option" where
  "select_winner objs [] winner = Some winner"
| "select_winner objs (c # cs) winner =
     do { a \<leftarrow> objs c; b \<leftarrow> objs winner;
          select_winner objs cs (if rating a > rating b then c else winner) }"

definition clock_init ::
  "u64 option \<Rightarrow> (bool \<times> u64) option \<Rightarrow> (u32 \<times> u8) option \<Rightarrow> u64 \<Rightarrow> 'a clock_scheme \<Rightarrow> 'a clock_scheme option" where
  "clock_init response found fadt slide s =
     do { s \<leftarrow> tsc_init response s;
          s \<leftarrow> hpet_init found slide s;
          s \<leftarrow> acpi_pm_init fadt s;
          case elems (sources s) of
            [] \<Rightarrow> Some s
          | c # cs \<Rightarrow> do { w \<leftarrow> select_winner (objects s) cs c; Some (s\<lparr>best := w\<rparr>) } }"

subsection \<open>Time stamps\<close>

text \<open>\<open>ns\<close> is an \<open>int64_t\<close>: a word that is compared as a signed number.\<close>

record ktime =
  ns :: u64

definition from_cycles :: "u64 \<Rightarrow> clocksource \<Rightarrow> ktime option" where
  "from_cycles cycles cs = do { n \<leftarrow> cycles_to_ns cycles (mult cs) (cs_shift cs); Some \<lparr>ns = n\<rparr> }"

definition ktime_now :: "'a clock_scheme \<Rightarrow> (ktime \<times> 'a clock_scheme) option" where
  "ktime_now s =
     do { cs \<leftarrow> objects s (get_best s);
          let (raw, s) = cs_read cs s in
          do { t \<leftarrow> from_cycles raw cs; Some (t, s) } }"

definition ktime_add :: "ktime \<Rightarrow> ktime \<Rightarrow> ktime" where "ktime_add a b = \<lparr>ns = ns a + ns b\<rparr>"
definition ktime_sub :: "ktime \<Rightarrow> ktime \<Rightarrow> ktime" where "ktime_sub a b = \<lparr>ns = ns a - ns b\<rparr>"
definition ktime_add_ns :: "ktime \<Rightarrow> u64 \<Rightarrow> ktime" where "ktime_add_ns a d = \<lparr>ns = ns a + d\<rparr>"
definition ktime_sub_ns :: "ktime \<Rightarrow> u64 \<Rightarrow> ktime" where "ktime_sub_ns a d = \<lparr>ns = ns a - d\<rparr>"
definition ktime_less :: "ktime \<Rightarrow> ktime \<Rightarrow> bool" where "ktime_less a b = (ns a <s ns b)"
definition ktime_le :: "ktime \<Rightarrow> ktime \<Rightarrow> bool" where "ktime_le a b = (ns a \<le>s ns b)"
definition ktime_eq :: "ktime \<Rightarrow> ktime \<Rightarrow> bool" where "ktime_eq a b = (ns a = ns b)"

section \<open>Conversion\<close>

lemma compute_ms_mult:
  assumes "f \<noteq> 0"
  obtains ms where "compute_ms f 0 = Some ms" "ms_shift ms = 32"
    "unat (ms_mult ms) = 4294967296000000000 div unat f mod 2 ^ 32"
proof -
  let ?m = "4294967296000000000 div ucast f :: u64"
  have c: "compute_ms f 0 = Some \<lparr>ms_mult = ucast ?m, ms_shift = 32\<rparr>"
    using assms by (simp add: compute_ms_def compute_shift_def push_bit_eq_mult)
  note unat_ucast_u32 [of f]
  then have "unat ?m = 4294967296000000000 div unat f" by (simp add: unat_div_distrib)
  then have "unat (ucast ?m :: u32) = 4294967296000000000 div unat f mod 2 ^ 32"
    by (simp add: unsigned_ucast_eq unsigned_take_bit_eq take_bit_eq_mod)
  then show ?thesis using that [OF c] by simp
qed

text \<open>
  The multiplier for a frequency is \<open>2^32\<close> times the nanoseconds of a cycle exactly for
  frequencies above 1 GHz; for every slower clock it does not fit 32 bits and is truncated.
\<close>

lemma compute_ms_exact:
  assumes "f \<noteq> 0"
  shows "\<exists>ms. compute_ms f 0 = Some ms \<and>
    (unat (ms_mult ms) = 2 ^ 32 * 10 ^ 9 div unat f) = (10 ^ 9 < unat f)"
proof -
  obtain ms where ms: "compute_ms f 0 = Some ms" "unat (ms_mult ms) = 4294967296000000000 div unat f mod 2 ^ 32"
    by (rule compute_ms_mult [OF assms])
  have f: "0 < unat f" using assms by (simp add: unat_gt_0)
  have "4294967296000000000 div unat f < 2 ^ 32 \<longleftrightarrow> 4294967296000000000 < 2 ^ 32 * unat f"
    by (rule div_less_iff_less_mult [OF f])
  then have "(4294967296000000000 div unat f < 2 ^ 32) = (10 ^ 9 < unat f)" by simp
  then show ?thesis using ms by (intro exI [of _ ms]) (auto simp: mod_eq_self_iff_div_eq_0)
qed

text \<open>The PM timer has 3579545 cycles to the second; the clock counts 1.3 ms for them.\<close>

lemma compute_ms_exact_witness:
  "\<exists>ms. compute_ms ACPI_PM_FREQ_HZ 0 = Some ms \<and> unat (ms_mult ms) \<noteq> 2 ^ 32 * 10 ^ 9 div 3579545"
  using compute_ms_exact [of ACPI_PM_FREQ_HZ] by (auto simp: ACPI_PM_FREQ_HZ_def)

lemma scaled_bounds:
  fixes c f g m :: nat
  assumes f: "0 < f" and m: "m = 2 ^ 32 * g div f"
  shows "c * m div 2 ^ 32 \<le> c * g div f" "c * g div f \<le> c * m div 2 ^ 32 + c div 2 ^ 32 + 1"
proof -
  let ?n = "c * m div 2 ^ 32" and ?q = "c * g div f" and ?K = "2 ^ 32 :: nat"
  have mf: "m * f \<le> ?K * g" "?K * g < (m + 1) * f"
    using f m div_times_less_eq_dividend [of "?K * g" f] dividend_less_div_times [of f "?K * g"] by (simp_all add: algebra_simps)
  have "?n * ?K \<le> c * m" by (rule div_times_less_eq_dividend)
  then have "?n * ?K * f \<le> c * m * f" by (rule mult_le_mono1)
  also have "\<dots> \<le> c * (?K * g)" using mult_le_mono2 [OF mf(1), of c] by (simp only: mult.assoc)
  finally have "?K * (?n * f) \<le> ?K * (c * g)" by (simp only: ac_simps)
  then have "?n * f \<le> c * g" by simp
  then show "?n \<le> ?q" using f by (simp add: less_eq_div_iff_mult_less_eq)
  have "?q * f \<le> c * g" by (rule div_times_less_eq_dividend)
  then have "?K * (?q * f) \<le> ?K * (c * g)" by (rule mult_le_mono2)
  also have "\<dots> = c * (?K * g)" by (simp only: ac_simps)
  also have "\<dots> \<le> c * ((m + 1) * f)" by (rule mult_le_mono2 [OF less_imp_le [OF mf(2)]])
  finally have "(?q * ?K) * f \<le> (c * m + c) * f" by (simp only: algebra_simps)
  then have "?q * ?K \<le> c * m + c" using f by simp
  then have "?q \<le> (c * m + c) div ?K" by (simp add: less_eq_div_iff_mult_less_eq)
  also have "\<dots> \<le> ?n + c div ?K + 1" by (simp add: div_add1_eq [of "c * m"])
  finally show "?q \<le> ?n + c div ?K + 1" .
qed



text \<open>
  With the shift of all clock sources a result is the upper half of a 64-bit product: no reading of \<open>ktime::now\<close>
  is ever 2^32 ns, about 4.3 s, or more.
\<close>

lemma clock_limit: "cycles_to_ns cycles m compute_shift = Some n \<Longrightarrow> unat n < 2 ^ 32"
proof -
  assume "cycles_to_ns cycles m compute_shift = Some n"
  then have n: "n = drop_bit 32 (cycles * ucast m)" by (simp add: cycles_to_ns_def compute_shift_def)
  have "unat (cycles * ucast m) < 2 ^ 32 * 2 ^ 32" using unsigned_less [where ?'a = nat, of "cycles * ucast m"] by simp
  then have "unat (cycles * ucast m) div 2 ^ 32 < 2 ^ 32" by (simp only: div_less_iff_less_mult zero_less_power zero_less_numeral)
  moreover have "unat n = unat (cycles * ucast m) div 2 ^ 32" unfolding n by (simp add: drop_bit_eq_div unat_div_distrib)
  ultimately show ?thesis by simp
qed

section \<open>Deltas and selection\<close>

text \<open>
  The delta of a counter of \<open>k\<close> bits is the number of cycles since the last reading, also
  when the counter has wrapped around in between, up to a full period.
\<close>

lemma read_delta_advances:
  assumes "cs_mask cs = mask k" "fst (cs_read cs s) = (cycle_last cs + d) AND mask k" "d AND mask k = d"
  shows "fst (read_delta cs s) = d"
proof -
  let ?x = "cycle_last cs + d"
  have "(?x AND mask k) - cycle_last cs = d + - (?x AND NOT (mask k))" by (simp add: and_not_mask_minus)
  moreover have "- (?x AND NOT (mask k)) AND mask k = 0"
  proof -
    have "(?x AND NOT (mask k)) AND mask k = 0" by (simp add: bit_eq_iff bit_simps)
    from and_mask_add_zero [OF this, of "- (?x AND NOT (mask k))"] show ?thesis by simp
  qed
  ultimately have "((?x AND mask k) - cycle_last cs) AND mask k = d"
    using and_mask_add_zero [of "- (?x AND NOT (mask k))" k d] assms(3) by simp
  then show ?thesis using assms(1,2) by (cases "cs_read cs s") (simp add: read_delta_def)
qed

text \<open>An HPET counter of 32 bits that went from \<open>0xFFFFFFFE\<close> to 3.\<close>

lemma read_delta_advances_witness:
  "fst (read_delta (Clocksource ''hpet'' 200 0xFFFFFFFF \<lparr>ms_mult = 0, ms_shift = 32\<rparr> FLAG_CONTINUOUS (HpetClocksource 0)
       \<lparr>cycle_last := 0xFFFFFFFE\<rparr>)
     \<lparr>history = [], device = (\<lambda>_. 0), tsc = 0, mmio = (\<lambda>_. 3), objects = Map.empty, object_answers = [],
      sources = (empty_vector, \<lparr>bufs = Map.empty, answers = [], elem_size = 8\<rparr>), best = 0\<rparr>) = 5"
  by (rule read_delta_advances [where k = 32])
    (simp_all add: Clocksource_def cs_read_def hpet_reg_def mask_eq_exp_minus_1)

text \<open>The winner is registered, no source has a higher rating, and all before it have a lower one.\<close>

lemma select_winner_max:
  "\<lbrakk>objs w \<noteq> None; \<forall>c\<in>set cs. objs c \<noteq> None\<rbrakk> \<Longrightarrow>
     \<exists>i r. select_winner objs cs w = Some r \<and> i \<le> length cs \<and> (w # cs) ! i = r \<and>
       (\<forall>c\<in>set (w # cs). rating (the (objs c)) \<le> rating (the (objs r))) \<and>
       (\<forall>c\<in>set (take i (w # cs)). rating (the (objs c)) < rating (the (objs r)))"
proof (induction cs arbitrary: w)
  case Nil
  then show ?case by (intro exI [of _ 0] exI [of _ w]) simp
next
  case (Cons c cs)
  obtain a b where o: "objs c = Some a" "objs w = Some b" using Cons.prems by auto
  let ?w = "if rating a > rating b then c else w"
  have "objs ?w \<noteq> None" "\<forall>c\<in>set cs. objs c \<noteq> None" using o Cons.prems(2) by simp_all
  from Cons.IH [OF this] obtain i r where r: "select_winner objs cs ?w = Some r" "i \<le> length cs" "(?w # cs) ! i = r"
    "\<forall>x\<in>set (?w # cs). rating (the (objs x)) \<le> rating (the (objs r))"
    "\<forall>x\<in>set (take i (?w # cs)). rating (the (objs x)) < rating (the (objs r))"
    by blast
  have ab: "rating a \<le> rating (the (objs r))" "rating b \<le> rating (the (objs r))"
    using r(4) o by (auto split: if_splits)
  let ?i = "if i = 0 \<and> \<not> rating a > rating b then 0 else Suc i"
  have "(w # c # cs) ! ?i = r" using r(3) by (cases i) (auto split: if_splits)
  moreover have "\<forall>x\<in>set (take ?i (w # c # cs)). rating (the (objs x)) < rating (the (objs r))"
    using r(5) o r(3) ab by (cases i) (auto split: if_splits)
  ultimately show ?case
    using r(1,2,4) o ab by (intro exI [of _ ?i] exI [of _ r]) auto
qed

end
