(* ===== verification/Dl_Chunks.thy ===== *)
theory Dl_Chunks
  imports Heap
begin

text \<open>
  \<open>lib/dlmalloc/malloc.c\<close>, part 1: chunks with boundary tags, request sizes, the bins and their
  indices, the bit map of bins, the fast bins, the flag words and the state with its
  initialisation. Chunks live in the word memory of the machine; the list heads of the bins are
  words of memory too (the C code treats a bin as a chunk), everything else of \<open>malloc_state\<close> is
  a field of the record.
\<close>

unbundle bit_operations_syntax

section \<open>Definitions\<close>

subsection \<open>Chunk fields\<close>

definition SIZE_SZ :: u64 where "SIZE_SZ = 8"
definition MALLOC_ALIGNMENT :: u64 where "MALLOC_ALIGNMENT = 2 * SIZE_SZ"
definition MALLOC_ALIGN_MASK :: u64 where "MALLOC_ALIGN_MASK = MALLOC_ALIGNMENT - 1"
definition MIN_CHUNK_SIZE :: u64 where "MIN_CHUNK_SIZE = 32"
definition MINSIZE :: u64 where
  "MINSIZE = (MIN_CHUNK_SIZE + MALLOC_ALIGN_MASK) AND NOT MALLOC_ALIGN_MASK"

definition wr :: "u64 \<Rightarrow> u64 \<Rightarrow> 'a machine_scheme \<Rightarrow> 'a machine_scheme" where
  "wr a v s = s\<lparr>mem := (mem s)(a := v)\<rparr>"

definition ck_prev_size :: "'a machine_scheme \<Rightarrow> u64 \<Rightarrow> u64" where "ck_prev_size s p = mem s p"
definition ck_size :: "'a machine_scheme \<Rightarrow> u64 \<Rightarrow> u64" where "ck_size s p = mem s (p + 8)"
definition ck_fd :: "'a machine_scheme \<Rightarrow> u64 \<Rightarrow> u64" where "ck_fd s p = mem s (p + 16)"
definition ck_bk :: "'a machine_scheme \<Rightarrow> u64 \<Rightarrow> u64" where "ck_bk s p = mem s (p + 24)"

definition set_prev_size :: "u64 \<Rightarrow> u64 \<Rightarrow> 'a machine_scheme \<Rightarrow> 'a machine_scheme" where
  "set_prev_size p v s = wr p v s"
definition set_fd :: "u64 \<Rightarrow> u64 \<Rightarrow> 'a machine_scheme \<Rightarrow> 'a machine_scheme" where
  "set_fd p v s = wr (p + 16) v s"
definition set_bk :: "u64 \<Rightarrow> u64 \<Rightarrow> 'a machine_scheme \<Rightarrow> 'a machine_scheme" where
  "set_bk p v s = wr (p + 24) v s"

definition chunk2mem :: "u64 \<Rightarrow> u64" where "chunk2mem p = p + 2 * SIZE_SZ"
definition mem2chunk :: "u64 \<Rightarrow> u64" where "mem2chunk m = m - 2 * SIZE_SZ"

definition aligned_OK :: "u64 \<Rightarrow> bool" where
  "aligned_OK m = (m AND MALLOC_ALIGN_MASK = 0)"

subsection \<open>Request sizes\<close>

definition REQUEST_OUT_OF_RANGE :: "u64 \<Rightarrow> bool" where
  "REQUEST_OUT_OF_RANGE req = (req \<ge> - 2 * MINSIZE)"

definition request2size :: "u64 \<Rightarrow> u64" where
  "request2size req =
     (if req + SIZE_SZ + MALLOC_ALIGN_MASK < MINSIZE then MINSIZE
      else (req + SIZE_SZ + MALLOC_ALIGN_MASK) AND NOT MALLOC_ALIGN_MASK)"

text \<open>\<open>None\<close> is the early return of 0 inside the macro.\<close>

definition checked_request2size :: "u64 \<Rightarrow> u64 option" where
  "checked_request2size req = (if REQUEST_OUT_OF_RANGE req then None else Some (request2size req))"

subsection \<open>Size field and its bits\<close>

definition PREV_INUSE :: u64 where "PREV_INUSE = 1"
definition IS_MMAPPED :: u64 where "IS_MMAPPED = 2"
definition SIZE_BITS :: u64 where "SIZE_BITS = PREV_INUSE OR IS_MMAPPED"

definition prev_inuse :: "'a machine_scheme \<Rightarrow> u64 \<Rightarrow> bool" where
  "prev_inuse s p = (ck_size s p AND PREV_INUSE \<noteq> 0)"

definition chunk_is_mmapped :: "'a machine_scheme \<Rightarrow> u64 \<Rightarrow> bool" where
  "chunk_is_mmapped s p = (ck_size s p AND IS_MMAPPED \<noteq> 0)"

definition chunksize :: "'a machine_scheme \<Rightarrow> u64 \<Rightarrow> u64" where
  "chunksize s p = ck_size s p AND NOT SIZE_BITS"

definition next_chunk :: "'a machine_scheme \<Rightarrow> u64 \<Rightarrow> u64" where
  "next_chunk s p = p + (ck_size s p AND NOT PREV_INUSE)"

definition prev_chunk :: "'a machine_scheme \<Rightarrow> u64 \<Rightarrow> u64" where
  "prev_chunk s p = p - ck_prev_size s p"

definition chunk_at_offset :: "u64 \<Rightarrow> u64 \<Rightarrow> u64" where
  "chunk_at_offset p ofs = p + ofs"

definition inuse :: "'a machine_scheme \<Rightarrow> u64 \<Rightarrow> bool" where
  "inuse s p = (ck_size s (next_chunk s p) AND PREV_INUSE \<noteq> 0)"

definition set_head :: "u64 \<Rightarrow> u64 \<Rightarrow> 'a machine_scheme \<Rightarrow> 'a machine_scheme" where
  "set_head p v s = wr (p + 8) v s"

definition set_head_size :: "u64 \<Rightarrow> u64 \<Rightarrow> 'a machine_scheme \<Rightarrow> 'a machine_scheme" where
  "set_head_size p v s = wr (p + 8) ((ck_size s p AND PREV_INUSE) OR v) s"

definition set_foot :: "u64 \<Rightarrow> u64 \<Rightarrow> 'a machine_scheme \<Rightarrow> 'a machine_scheme" where
  "set_foot p v s = set_prev_size (p + v) v s"

definition set_inuse :: "u64 \<Rightarrow> 'a machine_scheme \<Rightarrow> 'a machine_scheme" where
  "set_inuse p s = (let n = next_chunk s p in wr (n + 8) (ck_size s n OR PREV_INUSE) s)"

definition clear_inuse :: "u64 \<Rightarrow> 'a machine_scheme \<Rightarrow> 'a machine_scheme" where
  "clear_inuse p s = (let n = next_chunk s p in wr (n + 8) (ck_size s n AND NOT PREV_INUSE) s)"

definition inuse_bit_at_offset :: "'a machine_scheme \<Rightarrow> u64 \<Rightarrow> u64 \<Rightarrow> bool" where
  "inuse_bit_at_offset s p ofs = (ck_size s (p + ofs) AND PREV_INUSE \<noteq> 0)"

definition set_inuse_bit_at_offset :: "u64 \<Rightarrow> u64 \<Rightarrow> 'a machine_scheme \<Rightarrow> 'a machine_scheme" where
  "set_inuse_bit_at_offset p ofs s = wr (p + ofs + 8) (ck_size s (p + ofs) OR PREV_INUSE) s"

definition clear_inuse_bit_at_offset :: "u64 \<Rightarrow> u64 \<Rightarrow> 'a machine_scheme \<Rightarrow> 'a machine_scheme" where
  "clear_inuse_bit_at_offset p ofs s = wr (p + ofs + 8) (ck_size s (p + ofs) AND NOT PREV_INUSE) s"

subsection \<open>The allocator's state\<close>

text \<open>
  \<open>av_bins\<close> is the address of the array \<open>av_.bins\<close>. \<open>fastbins\<close> and \<open>binmap\<close> are the
  arrays of these names, read and written with a bounds check.
\<close>

record malloc_state = kernel +
  av_bins :: u64
  max_fast :: u64
  fastbins :: "nat \<Rightarrow> u64"
  top_chunk :: u64
  last_remainder :: u64
  binmap :: "nat \<Rightarrow> u32"
  trim_threshold :: u64
  top_pad :: u64
  mmap_threshold :: u64
  n_mmaps :: u32
  n_mmaps_max :: u32
  max_n_mmaps :: u32
  pagesize :: u32
  morecore_properties :: u32
  mmapped_mem :: u64
  sbrked_mem :: u64
  max_sbrked_mem :: u64
  max_mmapped_mem :: u64
  max_total_mem :: u64

definition NBINS :: u32 where "NBINS = 96"
definition NSMALLBINS :: u32 where "NSMALLBINS = 32"
definition SMALLBIN_WIDTH :: u64 where "SMALLBIN_WIDTH = 8"
definition MIN_LARGE_SIZE :: u64 where "MIN_LARGE_SIZE = 256"
definition FIRST_SORTED_BIN_SIZE :: u64 where "FIRST_SORTED_BIN_SIZE = MIN_LARGE_SIZE"

definition bin_at :: "'a malloc_state_scheme \<Rightarrow> u32 \<Rightarrow> u64" where
  "bin_at s i = av_bins s + 8 * ucast (push_bit 1 i) - 2 * SIZE_SZ"

definition next_bin :: "u64 \<Rightarrow> u64" where
  "next_bin b = b + 16"

definition unlink :: "u64 \<Rightarrow> 'a machine_scheme \<Rightarrow> 'a machine_scheme" where
  "unlink p s =
     (let fd = ck_fd s p; bk = ck_bk s p;
          s = set_bk fd bk s
      in set_fd bk fd s)"

definition in_smallbin_range :: "u64 \<Rightarrow> bool" where
  "in_smallbin_range sz = (sz < MIN_LARGE_SIZE)"

definition smallbin_index :: "u64 \<Rightarrow> u32" where
  "smallbin_index sz = drop_bit 3 (ucast sz)"

definition largebin_index :: "u32 \<Rightarrow> u32" where
  "largebin_index sz =
     (let x = drop_bit 8 sz in
      if x \<ge> 0x10000 then NBINS - 1
      else
        let n = drop_bit 16 (x - 0x100) AND 8;
            x = push_bit (unat n) x;
            m = drop_bit 16 (x - 0x1000) AND 4;
            n = n + m;
            x = push_bit (unat m) x;
            m = drop_bit 16 (x - 0x4000) AND 2;
            n = n + m;
            x = drop_bit 14 (push_bit (unat m) x);
            m = 13 - n + (x AND NOT (drop_bit 1 x))
        in NSMALLBINS + push_bit 2 m + (drop_bit (unat (m + 6)) sz AND 3))"

definition bin_index :: "u64 \<Rightarrow> u32" where
  "bin_index sz = (if in_smallbin_range sz then smallbin_index sz else largebin_index (ucast sz))"

definition unsorted_chunks :: "'a malloc_state_scheme \<Rightarrow> u64" where
  "unsorted_chunks s = bin_at s 1"

definition initial_top :: "'a malloc_state_scheme \<Rightarrow> u64" where
  "initial_top s = unsorted_chunks s"

subsection \<open>Bit map of bins\<close>

definition BINMAPSHIFT :: nat where "BINMAPSHIFT = 5"
definition BITSPERMAP :: u32 where "BITSPERMAP = push_bit BINMAPSHIFT 1"
definition BINMAPSIZE :: u32 where "BINMAPSIZE = NBINS div BITSPERMAP"

definition idx2block :: "u32 \<Rightarrow> u32" where
  "idx2block i = drop_bit BINMAPSHIFT i"

definition idx2bit :: "u32 \<Rightarrow> u32" where
  "idx2bit i = push_bit (unat (i AND (BITSPERMAP - 1))) 1"

text \<open>The array has \<open>BINMAPSIZE + 1\<close> words.\<close>

definition read_binmap :: "'a malloc_state_scheme \<Rightarrow> u32 \<Rightarrow> u32 option" where
  "read_binmap s block = (if block < BINMAPSIZE + 1 then Some (binmap s (unat block)) else None)"

definition write_binmap :: "u32 \<Rightarrow> u32 \<Rightarrow> 'a malloc_state_scheme \<Rightarrow> 'a malloc_state_scheme option" where
  "write_binmap block v s =
     (if block < BINMAPSIZE + 1 then Some (s\<lparr>binmap := (binmap s)(unat block := v)\<rparr>) else None)"

definition mark_bin :: "u32 \<Rightarrow> 'a malloc_state_scheme \<Rightarrow> 'a malloc_state_scheme option" where
  "mark_bin i s = do { w \<leftarrow> read_binmap s (idx2block i); write_binmap (idx2block i) (w OR idx2bit i) s }"

definition unmark_bin :: "u32 \<Rightarrow> 'a malloc_state_scheme \<Rightarrow> 'a malloc_state_scheme option" where
  "unmark_bin i s =
     do { w \<leftarrow> read_binmap s (idx2block i); write_binmap (idx2block i) (w AND NOT (idx2bit i)) s }"

definition get_binmap :: "'a malloc_state_scheme \<Rightarrow> u32 \<Rightarrow> u32 option" where
  "get_binmap s i = do { w \<leftarrow> read_binmap s (idx2block i); Some (w AND idx2bit i) }"

subsection \<open>Fast bins and flags\<close>

definition MAX_FAST_SIZE :: u64 where "MAX_FAST_SIZE = 80"

definition fastbin_index :: "u64 \<Rightarrow> u32" where
  "fastbin_index sz = drop_bit 3 (ucast sz) - 2"

definition NFASTBINS :: u32 where
  "NFASTBINS = fastbin_index (request2size MAX_FAST_SIZE) + 1"

definition read_fastbin :: "'a malloc_state_scheme \<Rightarrow> u32 \<Rightarrow> u64 option" where
  "read_fastbin s i = (if i < NFASTBINS then Some (fastbins s (unat i)) else None)"

definition write_fastbin :: "u32 \<Rightarrow> u64 \<Rightarrow> 'a malloc_state_scheme \<Rightarrow> 'a malloc_state_scheme option" where
  "write_fastbin i v s = (if i < NFASTBINS then Some (s\<lparr>fastbins := (fastbins s)(unat i := v)\<rparr>) else None)"

definition DEFAULT_MXFAST :: u64 where "DEFAULT_MXFAST = 64"
definition DEFAULT_TRIM_THRESHOLD :: u64 where "DEFAULT_TRIM_THRESHOLD = 256 * 1024"
definition DEFAULT_TOP_PAD :: u64 where "DEFAULT_TOP_PAD = 0"
definition DEFAULT_MMAP_THRESHOLD :: u64 where "DEFAULT_MMAP_THRESHOLD = 256 * 1024"
definition DEFAULT_MMAP_MAX :: u32 where "DEFAULT_MMAP_MAX = 65536"

definition FASTBIN_CONSOLIDATION_THRESHOLD :: u64 where
  "FASTBIN_CONSOLIDATION_THRESHOLD = drop_bit 1 DEFAULT_TRIM_THRESHOLD"

text \<open>The two flags are constants of type \<open>unsigned int\<close>: their complements have 32 bits.\<close>

definition ANYCHUNKS_BIT :: u32 where "ANYCHUNKS_BIT = 1"
definition FASTCHUNKS_BIT :: u32 where "FASTCHUNKS_BIT = 2"

definition have_anychunks :: "'a malloc_state_scheme \<Rightarrow> bool" where
  "have_anychunks s = (max_fast s AND ucast ANYCHUNKS_BIT \<noteq> 0)"

definition set_anychunks :: "'a malloc_state_scheme \<Rightarrow> 'a malloc_state_scheme" where
  "set_anychunks s = s\<lparr>max_fast := max_fast s OR ucast ANYCHUNKS_BIT\<rparr>"

definition clear_anychunks :: "'a malloc_state_scheme \<Rightarrow> 'a malloc_state_scheme" where
  "clear_anychunks s = s\<lparr>max_fast := max_fast s AND ucast (NOT ANYCHUNKS_BIT)\<rparr>"

definition have_fastchunks :: "'a malloc_state_scheme \<Rightarrow> bool" where
  "have_fastchunks s = (max_fast s AND ucast FASTCHUNKS_BIT \<noteq> 0)"

definition set_fastchunks :: "'a malloc_state_scheme \<Rightarrow> 'a malloc_state_scheme" where
  "set_fastchunks s = s\<lparr>max_fast := max_fast s OR ucast (FASTCHUNKS_BIT OR ANYCHUNKS_BIT)\<rparr>"

definition clear_fastchunks :: "'a malloc_state_scheme \<Rightarrow> 'a malloc_state_scheme" where
  "clear_fastchunks s = s\<lparr>max_fast := max_fast s AND ucast (NOT FASTCHUNKS_BIT)\<rparr>"

definition set_max_fast :: "u64 \<Rightarrow> 'a malloc_state_scheme \<Rightarrow> 'a malloc_state_scheme" where
  "set_max_fast v s =
     s\<lparr>max_fast := (if v = 0 then SMALLBIN_WIDTH else request2size v)
         OR (max_fast s AND ucast (FASTCHUNKS_BIT OR ANYCHUNKS_BIT))\<rparr>"

definition get_max_fast :: "'a malloc_state_scheme \<Rightarrow> u64" where
  "get_max_fast s = max_fast s AND ucast (NOT (FASTCHUNKS_BIT OR ANYCHUNKS_BIT))"

definition MORECORE_CONTIGUOUS_BIT :: u32 where "MORECORE_CONTIGUOUS_BIT = 1"

definition contiguous :: "'a malloc_state_scheme \<Rightarrow> bool" where
  "contiguous s = (morecore_properties s AND MORECORE_CONTIGUOUS_BIT \<noteq> 0)"

definition noncontiguous :: "'a malloc_state_scheme \<Rightarrow> bool" where
  "noncontiguous s = (morecore_properties s AND MORECORE_CONTIGUOUS_BIT = 0)"

definition set_contiguous :: "'a malloc_state_scheme \<Rightarrow> 'a malloc_state_scheme" where
  "set_contiguous s = s\<lparr>morecore_properties := morecore_properties s OR MORECORE_CONTIGUOUS_BIT\<rparr>"

definition set_noncontiguous :: "'a malloc_state_scheme \<Rightarrow> 'a malloc_state_scheme" where
  "set_noncontiguous s =
     s\<lparr>morecore_properties := morecore_properties s AND NOT MORECORE_CONTIGUOUS_BIT\<rparr>"

subsection \<open>Initialisation\<close>

text \<open>The loop over the bins; \<open>k\<close> is \<open>NBINS - i\<close>.\<close>

fun init_bins :: "u32 \<Rightarrow> nat \<Rightarrow> 'a malloc_state_scheme \<Rightarrow> 'a malloc_state_scheme" where
  "init_bins i 0 s = s"
| "init_bins i (Suc k) s =
     (let bin = bin_at s i in init_bins (i + 1) k (set_fd bin bin (set_bk bin bin s)))"

definition malloc_getpagesize :: u32 where "malloc_getpagesize = 4096"

definition malloc_init_state :: "'a malloc_state_scheme \<Rightarrow> 'a malloc_state_scheme" where
  "malloc_init_state s =
     (let s = init_bins 1 (unat NBINS - 1) s;
          s = s\<lparr>top_pad := DEFAULT_TOP_PAD, n_mmaps_max := DEFAULT_MMAP_MAX,
                mmap_threshold := DEFAULT_MMAP_THRESHOLD, trim_threshold := DEFAULT_TRIM_THRESHOLD\<rparr>;
          s = set_contiguous s;
          s = set_max_fast DEFAULT_MXFAST s
      in s\<lparr>top_chunk := initial_top s, pagesize := malloc_getpagesize\<rparr>)"

end
