(* ===== verification/Dl_Free.thy ===== *)
theory Dl_Free
  imports Dl_Chunks
begin

text \<open>
  \<open>lib/dlmalloc/malloc.c\<close>, part 2: giving memory back. \<open>fREe\<close> with its consolidation of
  neighbours, \<open>malloc_consolidate\<close>, which empties the fast bins, and \<open>sYSTRIm\<close>, which returns
  the end of the heap to the system.
\<close>

unbundle bit_operations_syntax

section \<open>Definitions\<close>

text \<open>
  \<open>MORECORE\<close> is \<open>sbrk\<close> of \<open>mm/heap.cpp\<close>; the value that stands for its failure, the null
  pointer that \<open>sbrk\<close> really returns, and \<open>MMAP\<close>.
\<close>

definition MORECORE_FAILURE :: u64 where "MORECORE_FAILURE = - 1"

definition MORECORE :: "u64 \<Rightarrow> 'a kernel_scheme \<Rightarrow> (u64 \<times> 'a kernel_scheme) option" where
  "MORECORE increment s = sbrk increment s"

definition MMAP :: "u64 \<Rightarrow> 'a kernel_scheme \<Rightarrow> (u64 \<times> 'a kernel_scheme) option" where
  "MMAP sz s = mmap 0 sz (PROT_READ OR PROT_WRITE) (MAP_PRIVATE OR MAP_ANONYMOUS) (- 1) 0 s"

subsection \<open>Consolidation\<close>

text \<open>
  Consolidate backward: the chunk and its size after absorbing a free chunk before it. Shared by
  \<open>fREe\<close> and \<open>malloc_consolidate\<close>.
\<close>

definition merge_backward :: "u64 \<Rightarrow> u64 \<Rightarrow> 'a machine_scheme \<Rightarrow> u64 \<times> u64 \<times> 'a machine_scheme" where
  "merge_backward p sz s =
     (if \<not> prev_inuse s p then
        let prevsize = ck_prev_size s p;
            sz = sz + prevsize;
            p = chunk_at_offset p (- prevsize)
        in (p, sz, unlink p s)
      else (p, sz, s))"

text \<open>Consolidate forward, when the next chunk is not the top chunk.\<close>

definition merge_forward :: "u64 \<Rightarrow> u64 \<Rightarrow> u64 \<Rightarrow> 'a machine_scheme \<Rightarrow> u64 \<times> 'a machine_scheme" where
  "merge_forward nextchunk nextsize sz s =
     (let nextinuse = inuse_bit_at_offset s nextchunk nextsize;
          s = set_head nextchunk nextsize s
      in if \<not> nextinuse then (sz + nextsize, unlink nextchunk s) else (sz, s))"

text \<open>Put the chunk at the front of the unsorted list and write its header and footer.\<close>

definition place_unsorted :: "u64 \<Rightarrow> u64 \<Rightarrow> 'a malloc_state_scheme \<Rightarrow> 'a malloc_state_scheme" where
  "place_unsorted p sz s =
     (let bck = unsorted_chunks s;
          fwd = ck_fd s bck;
          s = set_bk p bck s;
          s = set_fd p fwd s;
          s = set_fd bck p s;
          s = set_bk fwd p s;
          s = set_head p (sz OR PREV_INUSE) s
      in set_foot p sz s)"

text \<open>The order of the same stores in \<open>malloc_consolidate\<close>.\<close>

definition place_unsorted' :: "u64 \<Rightarrow> u64 \<Rightarrow> 'a malloc_state_scheme \<Rightarrow> 'a malloc_state_scheme" where
  "place_unsorted' p sz s =
     (let unsorted_bin = unsorted_chunks s;
          first_unsorted = ck_fd s unsorted_bin;
          s = set_fd unsorted_bin p s;
          s = set_bk first_unsorted p s;
          s = set_head p (sz OR PREV_INUSE) s;
          s = set_bk p unsorted_bin s;
          s = set_fd p first_unsorted s
      in set_foot p sz s)"

definition merge_top :: "u64 \<Rightarrow> u64 \<Rightarrow> 'a malloc_state_scheme \<Rightarrow> 'a malloc_state_scheme" where
  "merge_top p sz s = (set_head p (sz OR PREV_INUSE) s)\<lparr>top_chunk := p\<rparr>"

text \<open>The body of the inner loop of \<open>malloc_consolidate\<close>: one chunk of a fast bin.\<close>

definition consolidate_chunk :: "u64 \<Rightarrow> 'a malloc_state_scheme \<Rightarrow> 'a malloc_state_scheme" where
  "consolidate_chunk p s =
     (let sz = ck_size s p AND NOT PREV_INUSE;
          nextchunk = chunk_at_offset p sz;
          nextsize = chunksize s nextchunk;
          (p, sz, s) = merge_backward p sz s
      in
        if nextchunk \<noteq> top_chunk s then
          let (sz, s) = merge_forward nextchunk nextsize sz s in place_unsorted' p sz s
        else merge_top p (sz + nextsize) s)"

partial_function (option) consolidate_list :: "u64 \<Rightarrow> 'a malloc_state_scheme \<Rightarrow> 'a malloc_state_scheme option" where
  "consolidate_list p s =
     (let nextp = ck_fd s p;
          s = consolidate_chunk p s
      in if nextp \<noteq> 0 then consolidate_list nextp s else Some s)"

definition consolidate_bin :: "u32 \<Rightarrow> 'a malloc_state_scheme \<Rightarrow> 'a malloc_state_scheme option" where
  "consolidate_bin i s =
     do { p \<leftarrow> read_fastbin s i;
          if p \<noteq> 0 then do { s \<leftarrow> write_fastbin i 0 s; consolidate_list p s } else Some s }"

text \<open>The walk over the fast bins up to the last one in use.\<close>

partial_function (option) consolidate_bins :: "u32 \<Rightarrow> u32 \<Rightarrow> 'a malloc_state_scheme \<Rightarrow> 'a malloc_state_scheme option" where
  "consolidate_bins i maxfb s =
     do { s \<leftarrow> consolidate_bin i s;
          if i \<noteq> maxfb then consolidate_bins (i + 1) maxfb s else Some s }"

definition malloc_consolidate :: "'a malloc_state_scheme \<Rightarrow> 'a malloc_state_scheme option" where
  "malloc_consolidate s =
     (if max_fast s \<noteq> 0 then
        let s = clear_fastchunks s in consolidate_bins 0 (fastbin_index (max_fast s)) s
      else Some (malloc_init_state s))"

subsection \<open>Trimming\<close>

definition sYSTRIm :: "u64 \<Rightarrow> 'a malloc_state_scheme \<Rightarrow> (u32 \<times> 'a malloc_state_scheme) option" where
  "sYSTRIm pad s =
     (let pagesz = ucast (pagesize s);
          top_size = chunksize s (top_chunk s);
          extra = ((top_size - pad - MINSIZE + (pagesz - 1)) div pagesz - 1) * pagesz
      in
        if 0 <s extra then
          do { (current_brk, s) \<leftarrow> MORECORE 0 s;
               if current_brk = top_chunk s + top_size then
                 do { (_, s) \<leftarrow> MORECORE (- extra) s;
                      (new_brk, s) \<leftarrow> MORECORE 0 s;
                      if new_brk \<noteq> MORECORE_FAILURE then
                        let released = current_brk - new_brk in
                        if released \<noteq> 0 then
                          let s = s\<lparr>sbrked_mem := sbrked_mem s - released\<rparr>;
                              s = set_head (top_chunk s) ((top_size - released) OR PREV_INUSE) s
                          in Some (1, s)
                        else Some (0, s)
                      else Some (0, s) }
               else Some (0, s) }
        else Some (0, s))"

subsection \<open>free\<close>

text \<open>A chunk small enough for a fast bin.\<close>

definition free_fast :: "u64 \<Rightarrow> u64 \<Rightarrow> 'a malloc_state_scheme \<Rightarrow> 'a malloc_state_scheme option" where
  "free_fast p sz s =
     (let s = set_fastchunks s; fb = fastbin_index sz in
      do { head \<leftarrow> read_fastbin s fb; write_fastbin fb p (set_fd p head s) })"

text \<open>Consolidate the chunk with its neighbours and put it on the unsorted list or into top.\<close>

definition free_normal :: "u64 \<Rightarrow> u64 \<Rightarrow> 'a malloc_state_scheme \<Rightarrow> u64 \<times> 'a malloc_state_scheme" where
  "free_normal p sz s =
     (let s = set_anychunks s;
          nextchunk = chunk_at_offset p sz;
          nextsize = chunksize s nextchunk;
          (p, sz, s) = merge_backward p sz s
      in
        if nextchunk \<noteq> top_chunk s then
          let (sz, s) = merge_forward nextchunk nextsize sz s in (sz, place_unsorted p sz s)
        else let sz = sz + nextsize in (sz, merge_top p sz s))"

text \<open>After freeing a large space.\<close>

definition free_trim :: "u64 \<Rightarrow> 'a malloc_state_scheme \<Rightarrow> 'a malloc_state_scheme option" where
  "free_trim sz s =
     (if sz \<ge> FASTBIN_CONSOLIDATION_THRESHOLD then
        do { s \<leftarrow> (if have_fastchunks s then malloc_consolidate s else Some s);
             if chunksize s (top_chunk s) \<ge> trim_threshold s then
               do { (_, s) \<leftarrow> sYSTRIm (top_pad s) s; Some s }
             else Some s }
      else Some s)"

definition free_mmapped :: "u64 \<Rightarrow> u64 \<Rightarrow> 'a malloc_state_scheme \<Rightarrow> 'a malloc_state_scheme option" where
  "free_mmapped p sz s =
     (let offset = ck_prev_size s p;
          s = s\<lparr>n_mmaps := n_mmaps s - 1\<rparr>;
          s = s\<lparr>mmapped_mem := mmapped_mem s - (sz + offset)\<rparr>
      in do { (_, s) \<leftarrow> munmap (p - offset) (sz + offset) s; Some s })"

definition fREe :: "u64 \<Rightarrow> 'a malloc_state_scheme \<Rightarrow> 'a malloc_state_scheme option" where
  "fREe m s =
     (if m \<noteq> 0 then
        let p = mem2chunk m; sz = chunksize s p in
        if sz \<le> max_fast s then free_fast p sz s
        else if \<not> chunk_is_mmapped s p then
          let (sz, s) = free_normal p sz s in free_trim sz s
        else free_mmapped p sz s
      else Some s)"

end
