(* ===== verification/Dl_Malloc.thy ===== *)
theory Dl_Malloc
  imports Dl_Free
begin

text \<open>
  \<open>lib/dlmalloc/malloc.c\<close>, part 3: \<open>mALLOc\<close> in the order of its steps (fast bin, small bin,
  the unsorted list, the large bin, the next larger bins, the top chunk) and \<open>sYSMALLOc\<close>, which
  gets memory from the system.
\<close>

unbundle bit_operations_syntax

section \<open>Definitions\<close>

text \<open>
  A step of \<open>mALLOc\<close> gives \<open>Inl p\<close> where the C code returns the pointer and \<open>Inr x\<close> where it
  goes on, with what the next step needs.
\<close>

subsection \<open>Exact fits\<close>

definition malloc_fast :: "u64 \<Rightarrow> 'a malloc_state_scheme \<Rightarrow> ((u64 + unit) \<times> 'a malloc_state_scheme) option" where
  "malloc_fast nb s =
     (if nb \<le> max_fast s then
        do { victim \<leftarrow> read_fastbin s (fastbin_index nb);
             if victim \<noteq> 0 then
               do { s \<leftarrow> write_fastbin (fastbin_index nb) (ck_fd s victim) s;
                    Some (Inl (chunk2mem victim), s) }
             else Some (Inr (), s) }
      else Some (Inr (), s))"

definition malloc_small :: "u64 \<Rightarrow> 'a malloc_state_scheme \<Rightarrow> ((u64 + u32) \<times> 'a malloc_state_scheme) option" where
  "malloc_small nb s =
     (if in_smallbin_range nb then
        let idx = smallbin_index nb; bin = bin_at s idx; victim = ck_bk s bin in
        if victim \<noteq> bin then
          let bck = ck_bk s victim;
              s = set_inuse_bit_at_offset victim nb s;
              s = set_bk bin bck s;
              s = set_fd bck bin s
          in Some (Inl (chunk2mem victim), s)
        else Some (Inr idx, s)
      else
        let idx = largebin_index (ucast nb) in
        do { s \<leftarrow> (if have_fastchunks s then malloc_consolidate s else Some s);
             Some (Inr idx, s) })"

subsection \<open>Splitting and the unsorted list\<close>

text \<open>Make the remainder of a split the only chunk of the unsorted list.\<close>

definition link_remainder :: "u64 \<Rightarrow> 'a malloc_state_scheme \<Rightarrow> 'a malloc_state_scheme" where
  "link_remainder remainder s =
     (let u = unsorted_chunks s;
          s = set_fd u remainder s;
          s = set_bk u remainder s;
          s = set_fd remainder u s
      in set_bk remainder u s)"

definition split_heads :: "u64 \<Rightarrow> u64 \<Rightarrow> u64 \<Rightarrow> u64 \<Rightarrow> 'a malloc_state_scheme \<Rightarrow> 'a malloc_state_scheme" where
  "split_heads victim nb remainder remainder_size s =
     (let s = set_head victim (nb OR PREV_INUSE) s;
          s = set_head remainder (remainder_size OR PREV_INUSE) s
      in set_foot remainder remainder_size s)"

text \<open>The last remainder, when it is the only unsorted chunk and a small request fits in it.\<close>

definition split_last_remainder :: "u64 \<Rightarrow> u64 \<Rightarrow> u64 \<Rightarrow> 'a malloc_state_scheme \<Rightarrow> 'a malloc_state_scheme" where
  "split_last_remainder victim nb sz s =
     (let remainder_size = sz - nb;
          remainder = chunk_at_offset victim nb;
          u = unsorted_chunks s;
          s = set_fd u remainder s;
          s = set_bk u remainder s;
          s = s\<lparr>last_remainder := remainder\<rparr>;
          s = set_fd remainder u s;
          s = set_bk remainder u s
      in split_heads victim nb remainder remainder_size s)"

text \<open>The walk in a sorted bin: the first chunk that is not larger.\<close>

partial_function (option) sorted_position :: "u64 \<Rightarrow> u64 \<Rightarrow> 'a malloc_state_scheme \<Rightarrow> u64 option" where
  "sorted_position sz fwd s =
     (if sz < ck_size s fwd then sorted_position sz (ck_fd s fwd) s else Some fwd)"

text \<open>The index of the bin and the neighbours \<open>bck\<close> and \<open>fwd\<close> of the new chunk.\<close>

definition bin_position :: "u64 \<Rightarrow> 'a malloc_state_scheme \<Rightarrow> (u32 \<times> u64 \<times> u64) option" where
  "bin_position sz s =
     (if in_smallbin_range sz then
        let victim_index = smallbin_index sz; bck = bin_at s victim_index in
        Some (victim_index, bck, ck_fd s bck)
      else
        let victim_index = largebin_index (ucast sz);
            bck = bin_at s victim_index;
            fwd = ck_fd s bck
        in
          if fwd \<noteq> bck then
            if sz < ck_size s (ck_bk s bck) then Some (victim_index, ck_bk s bck, bck)
            else if sz \<ge> FIRST_SORTED_BIN_SIZE then
              do { fwd \<leftarrow> sorted_position (sz OR PREV_INUSE) fwd s;
                   Some (victim_index, ck_bk s fwd, fwd) }
            else Some (victim_index, bck, fwd)
          else Some (victim_index, bck, fwd))"

definition place_in_bin :: "u64 \<Rightarrow> u64 \<Rightarrow> 'a malloc_state_scheme \<Rightarrow> 'a malloc_state_scheme option" where
  "place_in_bin victim sz s =
     do { (victim_index, bck, fwd) \<leftarrow> bin_position sz s;
          s \<leftarrow> mark_bin victim_index s;
          let s = set_bk victim bck s;
              s = set_fd victim fwd s;
              s = set_bk fwd victim s
          in Some (set_fd bck victim s) }"

partial_function (option) malloc_unsorted ::
  "u64 \<Rightarrow> 'a malloc_state_scheme \<Rightarrow> ((u64 + unit) \<times> 'a malloc_state_scheme) option" where
  "malloc_unsorted nb s =
     (let victim = ck_bk s (unsorted_chunks s) in
      if victim = unsorted_chunks s then Some (Inr (), s)
      else
        let bck = ck_bk s victim; sz = chunksize s victim in
        if in_smallbin_range nb \<and> bck = unsorted_chunks s \<and> victim = last_remainder s
           \<and> sz > nb + MINSIZE then
          Some (Inl (chunk2mem victim), split_last_remainder victim nb sz s)
        else
          let s = set_bk (unsorted_chunks s) bck s;
              s = set_fd bck (unsorted_chunks s) s
          in
            if sz = nb then
              Some (Inl (chunk2mem victim), set_inuse_bit_at_offset victim sz s)
            else do { s \<leftarrow> place_in_bin victim sz s; malloc_unsorted nb s })"

subsection \<open>Best fit in the bins\<close>

text \<open>The scan of a large request's own bin, from its smallest chunk.\<close>

partial_function (option) large_scan ::
  "u64 \<Rightarrow> u64 \<Rightarrow> u64 \<Rightarrow> 'a malloc_state_scheme \<Rightarrow> ((u64 + unit) \<times> 'a malloc_state_scheme) option" where
  "large_scan nb bin victim s =
     (if victim = bin then Some (Inr (), s)
      else
        let sz = chunksize s victim in
        if sz \<ge> nb then
          let remainder_size = sz - nb; s = unlink victim s in
          if remainder_size < MINSIZE then
            Some (Inl (chunk2mem victim), set_inuse_bit_at_offset victim sz s)
          else
            let remainder = chunk_at_offset victim nb; s = link_remainder remainder s in
            Some (Inl (chunk2mem victim), split_heads victim nb remainder remainder_size s)
        else large_scan nb bin (ck_bk s victim) s)"

definition malloc_large :: "u64 \<Rightarrow> u32 \<Rightarrow> 'a malloc_state_scheme \<Rightarrow> ((u64 + unit) \<times> 'a malloc_state_scheme) option" where
  "malloc_large nb idx s =
     (if \<not> in_smallbin_range nb then large_scan nb (bin_at s idx) (ck_bk s (bin_at s idx)) s
      else Some (Inr (), s))"

text \<open>Skip the words of the bit map that are 0; no word is left when the result is \<open>None\<close>.\<close>

partial_function (option) skip_blocks ::
  "u32 \<Rightarrow> 'a malloc_state_scheme \<Rightarrow> (u32 \<times> u32) option option" where
  "skip_blocks block s =
     (let block = block + 1 in
      if block \<ge> BINMAPSIZE then Some None
      else
        do { w \<leftarrow> read_binmap s block;
             if w = 0 then skip_blocks block s else Some (Some (block, w)) })"

partial_function (option) advance_bin :: "u32 \<Rightarrow> u64 \<Rightarrow> u32 \<Rightarrow> (u64 \<times> u32) option" where
  "advance_bin mp bin bt =
     (if bt AND mp = 0 then advance_bin mp (next_bin bin) (push_bit 1 bt) else Some (bin, bt))"

definition take_from_bin :: "u64 \<Rightarrow> u64 \<Rightarrow> u64 \<Rightarrow> 'a malloc_state_scheme \<Rightarrow> u64 \<times> 'a malloc_state_scheme" where
  "take_from_bin nb bin victim s =
     (let sz = chunksize s victim;
          remainder_size = sz - nb;
          bck = ck_bk s victim;
          s = set_bk bin bck s;
          s = set_fd bck bin s
      in
        if remainder_size < MINSIZE then
          (chunk2mem victim, set_inuse_bit_at_offset victim sz s)
        else
          let remainder = chunk_at_offset victim nb;
              s = link_remainder remainder s;
              s = (if in_smallbin_range nb then s\<lparr>last_remainder := remainder\<rparr> else s)
          in (chunk2mem victim, split_heads victim nb remainder remainder_size s))"

partial_function (option) bin_scan ::
  "u64 \<Rightarrow> u32 \<Rightarrow> u32 \<Rightarrow> u64 \<Rightarrow> u32 \<Rightarrow> 'a malloc_state_scheme \<Rightarrow> ((u64 + unit) \<times> 'a malloc_state_scheme) option" where
  "bin_scan nb block mp bin bt s =
     do { at \<leftarrow> (if bt > mp \<or> bt = 0 then
                 do { r \<leftarrow> skip_blocks block s;
                      Some (case r of None \<Rightarrow> None
                            | Some (block, mp) \<Rightarrow>
                                Some (block, mp, bin_at s (push_bit BINMAPSHIFT block), 1)) }
               else Some (Some (block, mp, bin, bt)));
          case at of
            None \<Rightarrow> Some (Inr (), s)
          | Some (block, mp, bin, bt) \<Rightarrow>
              do { (bin, bt) \<leftarrow> advance_bin mp bin bt;
                   let victim = ck_bk s bin in
                   if victim = bin then
                     let mp = mp AND NOT bt in
                     do { s \<leftarrow> write_binmap block mp s;
                          bin_scan nb block mp (next_bin bin) (push_bit 1 bt) s }
                   else let (m, s) = take_from_bin nb bin victim s in Some (Inl m, s) } }"

definition malloc_bins :: "u64 \<Rightarrow> u32 \<Rightarrow> 'a malloc_state_scheme \<Rightarrow> ((u64 + unit) \<times> 'a malloc_state_scheme) option" where
  "malloc_bins nb idx s =
     (let idx = idx + 1;
          bin = bin_at s idx;
          block = idx2block idx
      in do { mp \<leftarrow> read_binmap s block; bin_scan nb block mp bin (idx2bit idx) s })"

subsection \<open>The top chunk\<close>

definition split_top :: "u64 \<Rightarrow> u64 \<Rightarrow> 'a malloc_state_scheme \<Rightarrow> u64 \<times> 'a malloc_state_scheme" where
  "split_top nb sz s =
     (let victim = top_chunk s;
          remainder_size = sz - nb;
          remainder = chunk_at_offset victim nb;
          s = s\<lparr>top_chunk := remainder\<rparr>;
          s = set_head victim (nb OR PREV_INUSE) s;
          s = set_head remainder (remainder_size OR PREV_INUSE) s
      in (chunk2mem victim, s))"

subsection \<open>Memory from the system\<close>

definition pagemask :: "'a malloc_state_scheme \<Rightarrow> u64" where
  "pagemask s = ucast (pagesize s - 1)"

definition page_up :: "'a malloc_state_scheme \<Rightarrow> u64 \<Rightarrow> u64" where
  "page_up s x = (x + pagemask s) AND NOT (pagemask s)"

definition MMAP_AS_MORECORE_SIZE :: u64 where "MMAP_AS_MORECORE_SIZE = 1024 * 1024"

text \<open>A request above the threshold gets a mapping of its own.\<close>

definition mmap_stats :: "u64 \<Rightarrow> 'a malloc_state_scheme \<Rightarrow> 'a malloc_state_scheme" where
  "mmap_stats sz s =
     (let s = s\<lparr>n_mmaps := n_mmaps s + 1\<rparr>;
          s = (if max_n_mmaps s <s n_mmaps s then s\<lparr>max_n_mmaps := n_mmaps s\<rparr> else s);
          s = s\<lparr>mmapped_mem := mmapped_mem s + sz\<rparr>;
          total = mmapped_mem s;
          s = (if total > max_mmapped_mem s then s\<lparr>max_mmapped_mem := total\<rparr> else s);
          total = total + sbrked_mem s
      in if total > max_total_mem s then s\<lparr>max_total_mem := total\<rparr> else s)"

definition mmap_chunk :: "u64 \<Rightarrow> u64 \<Rightarrow> 'a malloc_state_scheme \<Rightarrow> u64 \<times> 'a malloc_state_scheme" where
  "mmap_chunk mm sz s =
     (let front_misalign = chunk2mem mm AND MALLOC_ALIGN_MASK in
      if front_misalign > 0 then
        let correction = MALLOC_ALIGNMENT - front_misalign;
            p = mm + correction;
            s = set_prev_size p correction s
        in (p, set_head p ((sz - correction) OR IS_MMAPPED) s)
      else (mm, set_head mm (sz OR IS_MMAPPED) (set_prev_size mm 0 s)))"

definition sys_mmap :: "u64 \<Rightarrow> 'a malloc_state_scheme \<Rightarrow> ((u64 + unit) \<times> 'a malloc_state_scheme) option" where
  "sys_mmap nb s =
     (if nb \<ge> mmap_threshold s \<and> n_mmaps s <s n_mmaps_max s then
        let sz = page_up s (nb + SIZE_SZ + MALLOC_ALIGN_MASK) in
        if sz > nb then
          do { (mm, s) \<leftarrow> MMAP sz s;
               if mm \<noteq> MORECORE_FAILURE then
                 let (p, s) = mmap_chunk mm sz s in Some (Inl (chunk2mem p), mmap_stats sz s)
               else Some (Inr (), s) }
        else Some (Inr (), s)
      else Some (Inr (), s))"

text \<open>
  The request for more core: the address the new space starts at, its end when it came from
  \<open>mmap\<close> (else the failure value), and its size.
\<close>

definition sys_morecore :: "u64 \<Rightarrow> u64 \<Rightarrow> 'a malloc_state_scheme \<Rightarrow> ((u64 \<times> u64 \<times> u64) \<times> 'a malloc_state_scheme) option" where
  "sys_morecore nb old_size s =
     (let sz = nb + top_pad s + MINSIZE;
          sz = (if contiguous s then sz - old_size else sz);
          sz = page_up s sz
      in
        do { (brk, s) \<leftarrow> (if 0 <s sz then MORECORE sz s else Some (MORECORE_FAILURE, s));
             if brk = MORECORE_FAILURE then
               let sz = (if contiguous s then page_up s (sz + old_size) else sz);
                   sz = (if sz < MMAP_AS_MORECORE_SIZE then MMAP_AS_MORECORE_SIZE else sz)
               in
                 if sz > nb then
                   do { (brk, s) \<leftarrow> MMAP sz s;
                        if brk \<noteq> MORECORE_FAILURE then
                          Some ((brk, brk + sz, sz), set_noncontiguous s)
                        else Some ((brk, MORECORE_FAILURE, sz), s) }
                 else Some ((brk, MORECORE_FAILURE, sz), s)
             else Some ((brk, MORECORE_FAILURE, sz), s) })"

text \<open>The new space does not extend the old top: align it and find its end.\<close>

definition sys_contiguous ::
  "u64 \<Rightarrow> u64 \<Rightarrow> u64 \<Rightarrow> u64 \<Rightarrow> 'a malloc_state_scheme \<Rightarrow> ((u64 \<times> u64 \<times> u64) \<times> 'a malloc_state_scheme) option" where
  "sys_contiguous brk sz old_size old_end s =
     (let s = (if old_size \<noteq> 0 then s\<lparr>sbrked_mem := sbrked_mem s + (brk - old_end)\<rparr> else s);
          front_misalign = chunk2mem brk AND MALLOC_ALIGN_MASK;
          correction = (if front_misalign > 0 then MALLOC_ALIGNMENT - front_misalign else 0);
          aligned_brk = brk + correction;
          correction = correction + old_size;
          end_misalign = brk + sz + correction;
          correction = correction + (page_up s end_misalign - end_misalign)
      in
        do { (snd_brk, s) \<leftarrow> MORECORE correction s;
             if snd_brk = MORECORE_FAILURE then
               do { (snd_brk, s) \<leftarrow> MORECORE 0 s; Some ((aligned_brk, snd_brk, 0), s) }
             else if snd_brk < brk then
               Some ((aligned_brk, brk + sz, 0), set_noncontiguous s)
             else Some ((aligned_brk, snd_brk, correction), s) })"

definition sys_noncontiguous ::
  "u64 \<Rightarrow> u64 \<Rightarrow> u64 \<Rightarrow> 'a malloc_state_scheme \<Rightarrow> ((u64 \<times> u64 \<times> u64) \<times> 'a malloc_state_scheme) option" where
  "sys_noncontiguous brk sz snd_brk s =
     (if snd_brk = MORECORE_FAILURE then
        do { (snd_brk, s) \<leftarrow> MORECORE 0 s;
             Some ((brk, snd_brk, 0), s\<lparr>sbrked_mem := sbrked_mem s + (snd_brk - brk - sz)\<rparr>) }
      else Some ((brk, snd_brk, 0), s))"

text \<open>Two fenceposts at the end of the old top, whose rest is freed without trimming.\<close>

definition sys_fenceposts :: "u64 \<Rightarrow> u64 \<Rightarrow> 'a malloc_state_scheme \<Rightarrow> 'a malloc_state_scheme option" where
  "sys_fenceposts old_top old_size s =
     (if old_size \<noteq> 0 then
        let old_size = (old_size - 3 * SIZE_SZ) AND NOT MALLOC_ALIGN_MASK;
            s = set_head old_top (old_size OR PREV_INUSE) s;
            s = set_head (chunk_at_offset old_top old_size) (SIZE_SZ OR PREV_INUSE) s;
            s = set_head (chunk_at_offset old_top (old_size + SIZE_SZ)) (SIZE_SZ OR PREV_INUSE) s
        in
          if old_size \<ge> MINSIZE then
            let tt = trim_threshold s in
            do { s \<leftarrow> fREe (chunk2mem old_top) (s\<lparr>trim_threshold := - 1\<rparr>);
                 Some (s\<lparr>trim_threshold := tt\<rparr>) }
          else Some s
      else Some s)"

definition sys_adjust_top ::
  "u64 \<Rightarrow> u64 \<Rightarrow> u64 \<times> u64 \<times> u64 \<Rightarrow> 'a malloc_state_scheme \<Rightarrow> 'a malloc_state_scheme option" where
  "sys_adjust_top old_top old_size ends s =
     (let (aligned_brk, snd_brk, correction) = ends in
      if snd_brk \<noteq> MORECORE_FAILURE then
        let s = s\<lparr>top_chunk := aligned_brk\<rparr>;
            s = set_head (top_chunk s) ((snd_brk - aligned_brk + correction) OR PREV_INUSE) s;
            s = s\<lparr>sbrked_mem := sbrked_mem s + correction\<rparr>
        in sys_fenceposts old_top old_size s
      else Some s)"

definition sbrk_stats :: "'a malloc_state_scheme \<Rightarrow> 'a malloc_state_scheme" where
  "sbrk_stats s =
     (let total = sbrked_mem s;
          s = (if total > max_sbrked_mem s then s\<lparr>max_sbrked_mem := total\<rparr> else s);
          total = total + mmapped_mem s
      in if total > max_total_mem s then s\<lparr>max_total_mem := total\<rparr> else s)"

text \<open>What is done with new space: extend the old top, or start a new one.\<close>

definition sys_extend ::
  "u64 \<Rightarrow> u64 \<Rightarrow> u64 \<Rightarrow> u64 \<Rightarrow> u64 \<Rightarrow> 'a malloc_state_scheme \<Rightarrow> 'a malloc_state_scheme option" where
  "sys_extend old_top old_size brk snd_brk sz s =
     (let old_end = chunk_at_offset old_top old_size in
      if brk = old_end \<and> snd_brk = MORECORE_FAILURE then
        Some (set_head old_top ((sz + old_size) OR PREV_INUSE) s)
      else
        let s = (if contiguous s \<and> old_size \<noteq> 0 \<and> brk < old_end then set_noncontiguous s else s)
        in do { (ends, s) \<leftarrow>
                  (if contiguous s then sys_contiguous brk sz old_size old_end s
                   else sys_noncontiguous brk sz snd_brk s);
                sys_adjust_top old_top old_size ends s })"

definition sys_core :: "u64 \<Rightarrow> 'a malloc_state_scheme \<Rightarrow> (u64 \<times> 'a malloc_state_scheme) option" where
  "sys_core nb s =
     (let old_top = top_chunk s; old_size = chunksize s old_top in
      do { ((brk, snd_brk, sz), s) \<leftarrow> sys_morecore nb old_size s;
           if brk \<noteq> MORECORE_FAILURE then
             do { s \<leftarrow> sys_extend old_top old_size brk snd_brk sz
                        (s\<lparr>sbrked_mem := sbrked_mem s + sz\<rparr>);
                  let s = sbrk_stats s; sz = chunksize s (top_chunk s) in
                  if sz \<ge> nb + MINSIZE then Some (split_top nb sz s) else Some (0, s) }
           else Some (0, s) })"

text \<open>\<open>Inr\<close>: the request size of the tail call of \<open>mALLOc\<close> from scratch.\<close>

definition sYSMALLOc :: "u64 \<Rightarrow> 'a malloc_state_scheme \<Rightarrow> ((u64 + u64) \<times> 'a malloc_state_scheme) option" where
  "sYSMALLOc nb s =
     (if have_fastchunks s then
        do { s \<leftarrow> malloc_consolidate s; Some (Inr (nb - MALLOC_ALIGN_MASK), s) }
      else
        do { (r, s) \<leftarrow> sys_mmap nb s;
             case r of
               Inl p \<Rightarrow> Some (Inl p, s)
             | Inr _ \<Rightarrow> do { (p, s) \<leftarrow> sys_core nb s; Some (Inl p, s) } })"

definition use_top :: "u64 \<Rightarrow> 'a malloc_state_scheme \<Rightarrow> ((u64 + u64) \<times> 'a malloc_state_scheme) option" where
  "use_top nb s =
     (let sz = chunksize s (top_chunk s) in
      if sz \<ge> nb + MINSIZE then let (m, s) = split_top nb sz s in Some (Inl m, s)
      else sYSMALLOc nb s)"

subsection \<open>malloc\<close>

text \<open>The search through the bins, for a state that has seen a \<open>free\<close>.\<close>

definition malloc_search :: "u64 \<Rightarrow> 'a malloc_state_scheme \<Rightarrow> ((u64 + unit) \<times> 'a malloc_state_scheme) option" where
  "malloc_search nb s =
     do { (r, s) \<leftarrow> malloc_fast nb s;
          case r of
            Inl m \<Rightarrow> Some (Inl m, s)
          | Inr _ \<Rightarrow>
              do { (r, s) \<leftarrow> malloc_small nb s;
                   case r of
                     Inl m \<Rightarrow> Some (Inl m, s)
                   | Inr idx \<Rightarrow>
                       do { (r, s) \<leftarrow> malloc_unsorted nb s;
                            case r of
                              Inl m \<Rightarrow> Some (Inl m, s)
                            | Inr _ \<Rightarrow>
                                do { (r, s) \<leftarrow> malloc_large nb idx s;
                                     case r of
                                       Inl m \<Rightarrow> Some (Inl m, s)
                                     | Inr _ \<Rightarrow> malloc_bins nb idx s }}}}"

text \<open>One pass of \<open>mALLOc\<close>.\<close>

definition malloc_once :: "u64 \<Rightarrow> 'a malloc_state_scheme \<Rightarrow> ((u64 + u64) \<times> 'a malloc_state_scheme) option" where
  "malloc_once bytes s =
     (case checked_request2size bytes of
        None \<Rightarrow> Some (Inl 0, s)
      | Some nb \<Rightarrow>
          if \<not> have_anychunks s then
            do { s \<leftarrow> (if max_fast s = 0 then malloc_consolidate s else Some s); use_top nb s }
          else
            do { (r, s) \<leftarrow> malloc_search nb s;
                 case r of Inl m \<Rightarrow> Some (Inl m, s) | Inr _ \<Rightarrow> use_top nb s })"

partial_function (option) mALLOc :: "u64 \<Rightarrow> 'a malloc_state_scheme \<Rightarrow> (u64 \<times> 'a malloc_state_scheme) option" where
  "mALLOc bytes s =
     do { (r, s) \<leftarrow> malloc_once bytes s;
          case r of Inl m \<Rightarrow> Some (m, s) | Inr bytes \<Rightarrow> mALLOc bytes s }"

end
