(* ===== verification/Dl_Api.thy ===== *)
theory Dl_Api
  imports Dl_Malloc
begin

text \<open>
  \<open>lib/dlmalloc/malloc.c\<close>, part 4: the rest of its interface (\<open>realloc\<close>, \<open>memalign\<close>,
  \<open>calloc\<close>, the independent allocators, the page allocators, trimming, sizes, statistics and
  options) and the operators \<open>new\<close> and \<open>delete\<close> of \<open>mm/heap.cpp\<close> on top of it.
\<close>

unbundle bit_operations_syntax

section \<open>Definitions\<close>

subsection \<open>Copying and clearing\<close>

text \<open>
  \<open>memcpy\<close> and \<open>memset\<close> on word aligned memory: whole words, then the low bytes of the
  last word when the length is no multiple of 8.
\<close>

definition merge_low :: "nat \<Rightarrow> u64 \<Rightarrow> u64 \<Rightarrow> u64" where
  "merge_low r new old = (new AND mask (8 * r)) OR (old AND NOT (mask (8 * r)))"

fun copy_words :: "u64 \<Rightarrow> u64 \<Rightarrow> nat \<Rightarrow> 'a machine_scheme \<Rightarrow> 'a machine_scheme" where
  "copy_words d src 0 s = s"
| "copy_words d src (Suc k) s = copy_words (d + 8) (src + 8) k (wr d (mem s src) s)"

fun zero_words :: "u64 \<Rightarrow> nat \<Rightarrow> 'a machine_scheme \<Rightarrow> 'a machine_scheme" where
  "zero_words d 0 s = s"
| "zero_words d (Suc k) s = zero_words (d + 8) k (wr d 0 s)"

definition MALLOC_COPY :: "u64 \<Rightarrow> u64 \<Rightarrow> u64 \<Rightarrow> 'a machine_scheme \<Rightarrow> 'a machine_scheme" where
  "MALLOC_COPY d src n s =
     (let k = n div 8; r = unat (n mod 8);
          s = copy_words d src (unat k) s
      in if r = 0 then s
         else wr (d + 8 * k) (merge_low r (mem s (src + 8 * k)) (mem s (d + 8 * k))) s)"

definition MALLOC_ZERO :: "u64 \<Rightarrow> u64 \<Rightarrow> 'a machine_scheme \<Rightarrow> 'a machine_scheme" where
  "MALLOC_ZERO d n s =
     (let k = n div 8; r = unat (n mod 8);
          s = zero_words d (unat k) s
      in if r = 0 then s else wr (d + 8 * k) (merge_low r 0 (mem s (d + 8 * k))) s)"

subsection \<open>realloc\<close>

text \<open>Free what is left at the end of the old or extended chunk.\<close>

definition realloc_split :: "u64 \<Rightarrow> u64 \<Rightarrow> u64 \<Rightarrow> 'a malloc_state_scheme \<Rightarrow> (u64 \<times> 'a malloc_state_scheme) option" where
  "realloc_split newp newsize nb s =
     (let remainder_size = newsize - nb in
      if remainder_size < MINSIZE then
        let s = set_head_size newp newsize s;
            s = set_inuse_bit_at_offset newp newsize s
        in Some (chunk2mem newp, s)
      else
        let remainder = chunk_at_offset newp nb;
            s = set_head_size newp nb s;
            s = set_head remainder (remainder_size OR PREV_INUSE) s;
            s = set_inuse_bit_at_offset remainder remainder_size s
        in do { s \<leftarrow> fREe (chunk2mem remainder) s; Some (chunk2mem newp, s) })"

text \<open>The unrolled copy.\<close>

definition realloc_copy :: "u64 \<Rightarrow> u64 \<Rightarrow> u64 \<Rightarrow> 'a machine_scheme \<Rightarrow> 'a machine_scheme" where
  "realloc_copy d src copysize s =
     (let ncopies = (ucast (copysize div 8) :: u32) in
      if ncopies > 9 then MALLOC_COPY d src copysize s
      else
        let s = copy_words d src 3 s in
        if ncopies > 4 then
          let s = copy_words (d + 24) (src + 24) 2 s in
          if ncopies > 6 then
            let s = copy_words (d + 40) (src + 40) 2 s in
            if ncopies > 8 then copy_words (d + 56) (src + 56) 2 s else s
          else s
        else s)"

text \<open>Allocate, copy, free.\<close>

definition realloc_move ::
  "u64 \<Rightarrow> u64 \<Rightarrow> u64 \<Rightarrow> u64 \<Rightarrow> 'a malloc_state_scheme \<Rightarrow> (u64 \<times> 'a malloc_state_scheme) option" where
  "realloc_move oldmem oldsize nextp nb s =
     do { (newmem, s) \<leftarrow> mALLOc (nb - MALLOC_ALIGN_MASK) s;
          if newmem = 0 then Some (0, s)
          else
            let newp = mem2chunk newmem; newsize = chunksize s newp in
            if newp = nextp then realloc_split (mem2chunk oldmem) (newsize + oldsize) nb s
            else
              do { s \<leftarrow> fREe oldmem (realloc_copy newmem oldmem (oldsize - SIZE_SZ) s);
                   Some (chunk2mem newp, s) } }"

definition realloc_heap :: "u64 \<Rightarrow> u64 \<Rightarrow> 'a malloc_state_scheme \<Rightarrow> (u64 \<times> 'a malloc_state_scheme) option" where
  "realloc_heap oldmem nb s =
     (let oldp = mem2chunk oldmem; oldsize = chunksize s oldp in
      if oldsize \<ge> nb then realloc_split oldp oldsize nb s
      else
        let nextp = chunk_at_offset oldp oldsize; newsize = oldsize + chunksize s nextp in
        if nextp = top_chunk s \<and> newsize \<ge> nb + MINSIZE then
          let s = set_head_size oldp nb s;
              s = s\<lparr>top_chunk := chunk_at_offset oldp nb\<rparr>;
              s = set_head (top_chunk s) ((newsize - nb) OR PREV_INUSE) s
          in Some (chunk2mem oldp, s)
        else if nextp \<noteq> top_chunk s \<and> \<not> inuse s nextp \<and> newsize \<ge> nb then
          realloc_split oldp newsize nb (unlink nextp s)
        else realloc_move oldmem oldsize nextp nb s)"

definition realloc_mmapped :: "u64 \<Rightarrow> u64 \<Rightarrow> 'a malloc_state_scheme \<Rightarrow> (u64 \<times> 'a malloc_state_scheme) option" where
  "realloc_mmapped oldmem nb s =
     (let oldsize = chunksize s (mem2chunk oldmem) in
      if oldsize \<ge> nb + SIZE_SZ then Some (oldmem, s)
      else
        do { (newmem, s) \<leftarrow> mALLOc (nb - MALLOC_ALIGN_MASK) s;
             if newmem \<noteq> 0 then
               do { s \<leftarrow> fREe oldmem (MALLOC_COPY newmem oldmem (oldsize - 2 * SIZE_SZ) s);
                    Some (newmem, s) }
             else Some (newmem, s) })"

definition rEALLOc :: "u64 \<Rightarrow> u64 \<Rightarrow> 'a malloc_state_scheme \<Rightarrow> (u64 \<times> 'a malloc_state_scheme) option" where
  "rEALLOc oldmem bytes s =
     (if oldmem = 0 then mALLOc bytes s
      else
        case checked_request2size bytes of
          None \<Rightarrow> Some (0, s)
        | Some nb \<Rightarrow>
            if \<not> chunk_is_mmapped s (mem2chunk oldmem) then realloc_heap oldmem nb s
            else realloc_mmapped oldmem nb s)"

subsection \<open>memalign\<close>

text \<open>The loop that rounds an alignment up to a power of two.\<close>

partial_function (option) alignment_loop :: "u64 \<Rightarrow> u64 \<Rightarrow> u64 option" where
  "alignment_loop alignment a =
     (if a < alignment then alignment_loop alignment (push_bit 1 a) else Some a)"

definition memalign_alignment :: "u64 \<Rightarrow> u64 option" where
  "memalign_alignment alignment =
     (let alignment = (if alignment < MINSIZE then MINSIZE else alignment) in
      if alignment AND (alignment - 1) \<noteq> 0 then alignment_loop alignment (MALLOC_ALIGNMENT * 2)
      else Some alignment)"

text \<open>Give back the spare room at the end.\<close>

definition memalign_tail :: "u64 \<Rightarrow> u64 \<Rightarrow> 'a malloc_state_scheme \<Rightarrow> (u64 \<times> 'a malloc_state_scheme) option" where
  "memalign_tail p nb s =
     (if \<not> chunk_is_mmapped s p then
        let sz = chunksize s p in
        if sz > nb + MINSIZE then
          let remainder_size = sz - nb;
              remainder = chunk_at_offset p nb;
              s = set_head remainder (remainder_size OR PREV_INUSE) s;
              s = set_head_size p nb s
          in do { s \<leftarrow> fREe (chunk2mem remainder) s; Some (chunk2mem p, s) }
        else Some (chunk2mem p, s)
      else Some (chunk2mem p, s))"

text \<open>The aligned spot in the chunk \<open>p\<close>.\<close>

definition memalign_spot :: "u64 \<Rightarrow> u64 \<Rightarrow> u64 \<Rightarrow> u64" where
  "memalign_spot m alignment p =
     (let brk = mem2chunk ((m + alignment - 1) AND - alignment) in
      if brk - p < MINSIZE then brk + alignment else brk)"

definition memalign_lead ::
  "u64 \<Rightarrow> u64 \<Rightarrow> u64 \<Rightarrow> u64 \<Rightarrow> 'a malloc_state_scheme \<Rightarrow> (u64 \<times> 'a malloc_state_scheme) option" where
  "memalign_lead m alignment p nb s =
     (let newp = memalign_spot m alignment p;
          leadsize = newp - p;
          newsize = chunksize s p - leadsize
      in
        if chunk_is_mmapped s p then
          let s = set_prev_size newp (ck_prev_size s p + leadsize) s;
              s = set_head newp (newsize OR IS_MMAPPED) s
          in Some (chunk2mem newp, s)
        else
          let s = set_head newp (newsize OR PREV_INUSE) s;
              s = set_inuse_bit_at_offset newp newsize s;
              s = set_head_size p leadsize s
          in do { s \<leftarrow> fREe (chunk2mem p) s; memalign_tail newp nb s })"

definition mEMALIGn :: "u64 \<Rightarrow> u64 \<Rightarrow> 'a malloc_state_scheme \<Rightarrow> (u64 \<times> 'a malloc_state_scheme) option" where
  "mEMALIGn alignment bytes s =
     (if alignment \<le> MALLOC_ALIGNMENT then mALLOc bytes s
      else
        do { alignment \<leftarrow> memalign_alignment alignment;
             case checked_request2size bytes of
               None \<Rightarrow> Some (0, s)
             | Some nb \<Rightarrow>
                 do { (m, s) \<leftarrow> mALLOc (nb + alignment + MINSIZE) s;
                      if m = 0 then Some (0, s)
                      else
                        let p = mem2chunk m in
                        if m mod alignment \<noteq> 0 then memalign_lead m alignment p nb s
                        else memalign_tail p nb s } })"

subsection \<open>calloc and cfree\<close>

definition calloc_clear :: "u64 \<Rightarrow> u64 \<Rightarrow> 'a machine_scheme \<Rightarrow> 'a machine_scheme" where
  "calloc_clear d clearsize s =
     (let nclears = clearsize div 8 in
      if nclears > 9 then MALLOC_ZERO d clearsize s
      else
        let s = zero_words d 3 s in
        if nclears > 4 then
          let s = zero_words (d + 24) 2 s in
          if nclears > 6 then
            let s = zero_words (d + 40) 2 s in
            if nclears > 8 then zero_words (d + 56) 2 s else s
          else s
        else s)"

definition cALLOc :: "u64 \<Rightarrow> u64 \<Rightarrow> 'a malloc_state_scheme \<Rightarrow> (u64 \<times> 'a malloc_state_scheme) option" where
  "cALLOc n_elements elem_size s =
     do { (m, s) \<leftarrow> mALLOc (n_elements * elem_size) s;
          if m \<noteq> 0 \<and> \<not> chunk_is_mmapped s (mem2chunk m) then
            Some (m, calloc_clear m (chunksize s (mem2chunk m) - SIZE_SZ) s)
          else Some (m, s) }"

definition cFREe :: "u64 \<Rightarrow> 'a malloc_state_scheme \<Rightarrow> 'a malloc_state_scheme option" where
  "cFREe m s = fREe m s"

subsection \<open>Independent allocation\<close>

text \<open>
  The argument \<open>sizes\<close> is the array as it is at the call; reading past its end is \<open>None\<close>.
  \<open>k\<close> is the number of elements still to do.
\<close>

fun ialloc_total :: "u64 list \<Rightarrow> nat \<Rightarrow> u64 \<Rightarrow> u64 option" where
  "ialloc_total sizes 0 acc = Some acc"
| "ialloc_total [] (Suc k) acc = None"
| "ialloc_total (x # xs) (Suc k) acc = ialloc_total xs k (acc + request2size x)"

fun ialloc_split ::
  "u64 \<Rightarrow> u64 \<Rightarrow> u64 list \<Rightarrow> u64 \<Rightarrow> u64 \<Rightarrow> nat \<Rightarrow> 'a malloc_state_scheme \<Rightarrow> 'a malloc_state_scheme option" where
  "ialloc_split element_size marray sizes p remainder_size 0 s = None"
| "ialloc_split element_size marray sizes p remainder_size (Suc 0) s =
     Some (set_head p (remainder_size OR PREV_INUSE) (wr marray (chunk2mem p) s))"
| "ialloc_split element_size marray sizes p remainder_size (Suc (Suc k)) s =
     (let s = wr marray (chunk2mem p) s in
      do { sz \<leftarrow> (if element_size \<noteq> 0 then Some element_size
                 else case sizes of [] \<Rightarrow> None | x # _ \<Rightarrow> Some (request2size x));
           ialloc_split element_size (marray + 8) (tl sizes) (chunk_at_offset p sz)
             (remainder_size - sz) (Suc k) (set_head p (sz OR PREV_INUSE) s) })"

definition ialloc_contents :: "u64 \<Rightarrow> u64 list \<Rightarrow> u32 \<Rightarrow> (u64 \<times> u64) option" where
  "ialloc_contents n_elements sizes opts =
     (if opts AND 1 \<noteq> 0 then
        case sizes of [] \<Rightarrow> None
        | x # _ \<Rightarrow> Some (request2size x, n_elements * request2size x)
      else do { total \<leftarrow> ialloc_total sizes (unat n_elements) 0; Some (0, total) })"

definition iALLOc ::
  "u64 \<Rightarrow> u64 list \<Rightarrow> u32 \<Rightarrow> u64 \<Rightarrow> 'a malloc_state_scheme \<Rightarrow> (u64 \<times> 'a malloc_state_scheme) option" where
  "iALLOc n_elements sizes opts chunks s =
     do { s \<leftarrow> (if max_fast s = 0 then malloc_consolidate s else Some s);
          if chunks \<noteq> 0 \<and> n_elements = 0 then Some (chunks, s)
          else if n_elements = 0 then mALLOc 0 s
          else
            let array_size = (if chunks \<noteq> 0 then 0 else request2size (n_elements * 8)) in
            do { (element_size, contents_size) \<leftarrow> ialloc_contents n_elements sizes opts;
                 let mmx = n_mmaps_max s in
                 do { (m, s) \<leftarrow> mALLOc (contents_size + array_size - MALLOC_ALIGN_MASK)
                                 (s\<lparr>n_mmaps_max := 0\<rparr>);
                      let s = s\<lparr>n_mmaps_max := mmx\<rparr> in
                      if m = 0 then Some (0, s)
                      else
                        let p = mem2chunk m;
                            remainder_size = chunksize s p;
                            s = (if opts AND 2 \<noteq> 0 then
                                   MALLOC_ZERO m (remainder_size - SIZE_SZ - array_size) s
                                 else s);
                            array_chunk = chunk_at_offset p contents_size;
                            marray = (if chunks \<noteq> 0 then chunks else chunk2mem array_chunk);
                            s = (if chunks \<noteq> 0 then s
                                 else set_head array_chunk
                                   ((remainder_size - contents_size) OR PREV_INUSE) s);
                            remainder_size =
                              (if chunks \<noteq> 0 then remainder_size else contents_size)
                        in do { s \<leftarrow> ialloc_split element_size marray sizes p remainder_size
                                      (unat n_elements) s;
                                Some (marray, s) } } } }"

definition iCALLOc :: "u64 \<Rightarrow> u64 \<Rightarrow> u64 \<Rightarrow> 'a malloc_state_scheme \<Rightarrow> (u64 \<times> 'a malloc_state_scheme) option" where
  "iCALLOc n_elements elem_size chunks s = iALLOc n_elements [elem_size] 3 chunks s"

definition iCOMALLOc :: "u64 \<Rightarrow> u64 list \<Rightarrow> u64 \<Rightarrow> 'a malloc_state_scheme \<Rightarrow> (u64 \<times> 'a malloc_state_scheme) option" where
  "iCOMALLOc n_elements sizes chunks s = iALLOc n_elements sizes 0 chunks s"

subsection \<open>Page allocation, trimming and sizes\<close>

definition vALLOc :: "u64 \<Rightarrow> 'a malloc_state_scheme \<Rightarrow> (u64 \<times> 'a malloc_state_scheme) option" where
  "vALLOc bytes s =
     do { s \<leftarrow> (if max_fast s = 0 then malloc_consolidate s else Some s);
          mEMALIGn (ucast (pagesize s)) bytes s }"

definition pVALLOc :: "u64 \<Rightarrow> 'a malloc_state_scheme \<Rightarrow> (u64 \<times> 'a malloc_state_scheme) option" where
  "pVALLOc bytes s =
     do { s \<leftarrow> (if max_fast s = 0 then malloc_consolidate s else Some s);
          let pagesz = ucast (pagesize s) in
          mEMALIGn pagesz ((bytes + pagesz - 1) AND NOT (pagesz - 1)) s }"

definition mTRIm :: "u64 \<Rightarrow> 'a malloc_state_scheme \<Rightarrow> (u32 \<times> 'a malloc_state_scheme) option" where
  "mTRIm pad s = do { s \<leftarrow> malloc_consolidate s; sYSTRIm pad s }"

definition mUSABLe :: "u64 \<Rightarrow> 'a machine_scheme \<Rightarrow> u64" where
  "mUSABLe m s =
     (if m \<noteq> 0 then
        let p = mem2chunk m in
        if chunk_is_mmapped s p then chunksize s p - 2 * SIZE_SZ
        else if inuse s p then chunksize s p - SIZE_SZ
        else 0
      else 0)"

subsection \<open>Statistics and options\<close>

record mallinfo =
  arena :: u32
  ordblks :: u32
  smblks :: u32
  hblks :: u32
  hblkhd :: u32
  usmblks :: u32
  fsmblks :: u32
  uordblks :: u32
  fordblks :: u32
  keepcost :: u32

text \<open>Count the chunks of a fast bin or of a bin and add up their sizes.\<close>

partial_function (option) count_fast :: "u64 \<Rightarrow> u32 \<Rightarrow> u64 \<Rightarrow> 'a malloc_state_scheme \<Rightarrow> (u32 \<times> u64) option" where
  "count_fast p n avail s =
     (if p \<noteq> 0 then count_fast (ck_fd s p) (n + 1) (avail + chunksize s p) s else Some (n, avail))"

partial_function (option) count_bin ::
  "u64 \<Rightarrow> u64 \<Rightarrow> u32 \<Rightarrow> u64 \<Rightarrow> 'a malloc_state_scheme \<Rightarrow> (u32 \<times> u64) option" where
  "count_bin b p n avail s =
     (if p \<noteq> b then count_bin b (ck_bk s p) (n + 1) (avail + chunksize s p) s else Some (n, avail))"

fun count_fasts :: "u32 \<Rightarrow> nat \<Rightarrow> u32 \<Rightarrow> u64 \<Rightarrow> 'a malloc_state_scheme \<Rightarrow> (u32 \<times> u64) option" where
  "count_fasts i 0 n avail s = Some (n, avail)"
| "count_fasts i (Suc k) n avail s =
     do { p \<leftarrow> read_fastbin s i;
          (n, avail) \<leftarrow> count_fast p n avail s;
          count_fasts (i + 1) k n avail s }"

fun count_bins :: "u32 \<Rightarrow> nat \<Rightarrow> u32 \<Rightarrow> u64 \<Rightarrow> 'a malloc_state_scheme \<Rightarrow> (u32 \<times> u64) option" where
  "count_bins i 0 n avail s = Some (n, avail)"
| "count_bins i (Suc k) n avail s =
     (let b = bin_at s i in
      do { (n, avail) \<leftarrow> count_bin b (ck_bk s b) n avail s; count_bins (i + 1) k n avail s })"

definition mALLINFo :: "'a malloc_state_scheme \<Rightarrow> (mallinfo \<times> 'a malloc_state_scheme) option" where
  "mALLINFo s =
     do { s \<leftarrow> (if top_chunk s = 0 then malloc_consolidate s else Some s);
          let avail = chunksize s (top_chunk s) in
          do { (nfastblocks, fastavail) \<leftarrow> count_fasts 0 (unat NFASTBINS) 0 0 s;
               (nblocks, avail) \<leftarrow> count_bins 1 (unat NBINS - 1) 1 (avail + fastavail) s;
               Some (\<lparr>arena = ucast (sbrked_mem s), ordblks = nblocks, smblks = nfastblocks,
                      hblks = n_mmaps s, hblkhd = ucast (mmapped_mem s),
                      usmblks = ucast (max_total_mem s), fsmblks = ucast fastavail,
                      uordblks = ucast (sbrked_mem s - avail), fordblks = ucast avail,
                      keepcost = ucast (chunksize s (top_chunk s))\<rparr>, s) } }"

definition mSTATs :: "'a malloc_state_scheme \<Rightarrow> 'a malloc_state_scheme" where
  "mSTATs s = s"

definition M_MXFAST :: u32 where "M_MXFAST = 1"
definition M_TRIM_THRESHOLD :: u32 where "M_TRIM_THRESHOLD = - 1"
definition M_TOP_PAD :: u32 where "M_TOP_PAD = - 2"
definition M_MMAP_THRESHOLD :: u32 where "M_MMAP_THRESHOLD = - 3"
definition M_MMAP_MAX :: u32 where "M_MMAP_MAX = - 4"

definition mALLOPt :: "u32 \<Rightarrow> u32 \<Rightarrow> 'a malloc_state_scheme \<Rightarrow> (u32 \<times> 'a malloc_state_scheme) option" where
  "mALLOPt param_number v s =
     do { s \<leftarrow> malloc_consolidate s;
          Some
            (if param_number = M_MXFAST then
               if 0 \<le>s v \<and> v \<le>s ucast MAX_FAST_SIZE then (1, set_max_fast (scast v) s) else (0, s)
             else if param_number = M_TRIM_THRESHOLD then (1, s\<lparr>trim_threshold := scast v\<rparr>)
             else if param_number = M_TOP_PAD then (1, s\<lparr>top_pad := scast v\<rparr>)
             else if param_number = M_MMAP_THRESHOLD then (1, s\<lparr>mmap_threshold := scast v\<rparr>)
             else if param_number = M_MMAP_MAX then (1, s\<lparr>n_mmaps_max := v\<rparr>)
             else (0, s)) }"

subsection \<open>new and delete\<close>

definition operator_new :: "u64 \<Rightarrow> 'a malloc_state_scheme \<Rightarrow> (u64 \<times> 'a malloc_state_scheme) option" where
  "operator_new sz s = mALLOc sz s"

definition operator_delete :: "u64 \<Rightarrow> 'a malloc_state_scheme \<Rightarrow> 'a malloc_state_scheme option" where
  "operator_delete ptr s = (if ptr \<noteq> 0 then fREe ptr s else Some s)"

end
