(* ===== verification/Lib_Memory.thy ===== *)
theory Lib_Memory
  imports Dl_Api "HOL-Library.Sublist" "HOL-Library.List_Lexorder"
begin

text \<open>
  \<open>lib/memory.cpp\<close>: the C library's memory and string functions, on a memory of bytes. Loops
  over a \<open>size_t\<close> index are functions on the index; the loops of the string functions, which
  look for a zero byte that need not exist, are partial functions, so that not returning is
  \<open>None\<close>. The last section relates the bytes to the words the allocators and page tables
  are modelled on.
\<close>

unbundle bit_operations_syntax

section \<open>Definitions\<close>

type_synonym bmem = "u64 \<Rightarrow> u8"

subsection \<open>Memory functions\<close>

lemma step_below: "i < n \<Longrightarrow> unat (i + 1 :: u64) = unat i + 1"
  using unsigned_less [where ?'a = nat, of n] by (subst unat_add_nowrap) (auto simp: word_less_nat_alt)

function memset_loop :: "u64 \<Rightarrow> u8 \<Rightarrow> u64 \<Rightarrow> u64 \<Rightarrow> bmem \<Rightarrow> bmem" where
  "memset_loop ptr ch count i m =
     (if i < count then memset_loop ptr ch count (i + 1) (m(ptr + i := ch)) else m)"
  by pat_completeness auto
termination
  by (relation "measure (\<lambda>(_, _, count, i, _). unat count - unat i)")
    (auto simp: step_below word_less_nat_alt)

definition memset :: "u64 \<Rightarrow> u32 \<Rightarrow> u64 \<Rightarrow> bmem \<Rightarrow> u64 \<times> bmem" where
  "memset dest ch count m =
     (if dest = 0 \<or> count = 0 then (dest, m)
      else (dest, memset_loop dest (ucast ch) count 0 m))"

function memcpy_loop :: "u64 \<Rightarrow> u64 \<Rightarrow> u64 \<Rightarrow> u64 \<Rightarrow> bmem \<Rightarrow> bmem" where
  "memcpy_loop d s n i m =
     (if i < n then memcpy_loop d s n (i + 1) (m(d + i := m (s + i))) else m)"
  by pat_completeness auto
termination
  by (relation "measure (\<lambda>(_, _, n, i, _). unat n - unat i)")
    (auto simp: step_below word_less_nat_alt)

definition memcpy :: "u64 \<Rightarrow> u64 \<Rightarrow> u64 \<Rightarrow> bmem \<Rightarrow> u64 \<times> bmem" where
  "memcpy dest src n m = (dest, memcpy_loop dest src n 0 m)"

text \<open>The difference of two \<open>unsigned char\<close> values is an \<open>int\<close>.\<close>

function memcmp_loop :: "u64 \<Rightarrow> u64 \<Rightarrow> u64 \<Rightarrow> u64 \<Rightarrow> bmem \<Rightarrow> int" where
  "memcmp_loop p1 p2 n i m =
     (if i < n then
        if m (p1 + i) \<noteq> m (p2 + i) then uint (m (p1 + i)) - uint (m (p2 + i))
        else memcmp_loop p1 p2 n (i + 1) m
      else 0)"
  by pat_completeness auto
termination
  by (relation "measure (\<lambda>(_, _, n, i, _). unat n - unat i)")
    (auto simp: step_below word_less_nat_alt)

definition memcmp :: "u64 \<Rightarrow> u64 \<Rightarrow> u64 \<Rightarrow> bmem \<Rightarrow> int" where
  "memcmp s1 s2 n m = memcmp_loop s1 s2 n 0 m"

lemma step_above: "0 < (i :: u64) \<Longrightarrow> unat (i - 1) = unat i - 1"
  by (simp add: unat_sub word_le_nat_alt word_less_nat_alt)

function memmove_loop :: "u64 \<Rightarrow> u64 \<Rightarrow> u64 \<Rightarrow> bmem \<Rightarrow> bmem" where
  "memmove_loop d s i m =
     (if i > 0 then memmove_loop d s (i - 1) (m(d + (i - 1) := m (s + (i - 1)))) else m)"
  by pat_completeness auto
termination
  by (relation "measure (\<lambda>(_, _, i, _). unat i)") (auto simp: step_above word_less_nat_alt)

definition memmove :: "u64 \<Rightarrow> u64 \<Rightarrow> u64 \<Rightarrow> bmem \<Rightarrow> u64 \<times> bmem" where
  "memmove dest src n m =
     (if dest < src then memcpy dest src n m
      else if dest > src then (dest, memmove_loop dest src n m)
      else (dest, m))"

subsection \<open>String functions\<close>

partial_function (option) strlen_loop :: "u64 \<Rightarrow> u64 \<Rightarrow> bmem \<Rightarrow> u64 option" where
  "strlen_loop s len m = (if m (s + len) \<noteq> 0 then strlen_loop s (len + 1) m else Some len)"

definition strlen :: "u64 \<Rightarrow> bmem \<Rightarrow> u64 option" where
  "strlen s m = strlen_loop s 0 m"

partial_function (option) strcmp :: "u64 \<Rightarrow> u64 \<Rightarrow> bmem \<Rightarrow> int option" where
  "strcmp s1 s2 m =
     (if m s1 \<noteq> 0 \<and> m s1 = m s2 then strcmp (s1 + 1) (s2 + 1) m
      else Some (uint (m s1) - uint (m s2)))"

text \<open>The inner loop of \<open>strstr\<close>: where the two pointers stop.\<close>

partial_function (option) strstr_match :: "u64 \<Rightarrow> u64 \<Rightarrow> bmem \<Rightarrow> (u64 \<times> u64) option" where
  "strstr_match h_ptr n_ptr m =
     (if m h_ptr \<noteq> 0 \<and> m n_ptr \<noteq> 0 \<and> m h_ptr = m n_ptr
      then strstr_match (h_ptr + 1) (n_ptr + 1) m
      else Some (h_ptr, n_ptr))"

partial_function (option) strstr_loop :: "u64 \<Rightarrow> u64 \<Rightarrow> bmem \<Rightarrow> u64 option" where
  "strstr_loop h needle m =
     (if m h \<noteq> 0 then
        do { (_, n_ptr) \<leftarrow> strstr_match h needle m;
             if m n_ptr = 0 then Some h else strstr_loop (h + 1) needle m }
      else Some 0)"

definition strstr :: "u64 \<Rightarrow> u64 \<Rightarrow> bmem \<Rightarrow> u64 option" where
  "strstr haystack needle m = (if m needle = 0 then Some haystack else strstr_loop haystack needle m)"

declare memset_loop.simps [simp del] memcpy_loop.simps [simp del] memcmp_loop.simps [simp del]
  memmove_loop.simps [simp del]

section \<open>Memory\<close>

lemma next_le: "i < n \<Longrightarrow> i + 1 \<le> (x :: u64) \<longleftrightarrow> i < x"
  by (auto simp: step_below word_less_nat_alt word_le_nat_alt)

lemma memset_loop_eq: "memset_loop p c n i m = (\<lambda>a. if i \<le> a - p \<and> a - p < n then c else m a)"
proof (induction p c n i m rule: memset_loop.induct)
  case (1 p c n i m)
  show ?case
  proof (cases "i < n")
    case True
    have "i < a - p" if "i \<le> a - p" "a \<noteq> p + i" for a using that by (auto simp: order_less_le)
    then show ?thesis
      by (subst memset_loop.simps) (use True in \<open>auto simp: 1 [OF True] next_le intro!: ext\<close>)
  next
    case False
    then show ?thesis by (subst memset_loop.simps) (auto simp: fun_eq_iff)
  qed
qed

text \<open>A copy from low to high addresses, as long as no byte is overwritten before it is read.\<close>

lemma memcpy_loop_eq:
  assumes "\<And>j k. \<lbrakk>i \<le> j; j < k; k < n\<rbrakk> \<Longrightarrow> s + k \<noteq> d + j"
  shows "memcpy_loop d s n i m = (\<lambda>a. if i \<le> a - d \<and> a - d < n then m (s + (a - d)) else m a)"
  using assms
proof (induction d s n i m rule: memcpy_loop.induct)
  case (1 d s n i m)
  show ?case
  proof (cases "i < n")
    case True
    have IH: "memcpy_loop d s n (i + 1) (m(d + i := m (s + i))) =
        (\<lambda>a. if i + 1 \<le> a - d \<and> a - d < n then (m(d + i := m (s + i))) (s + (a - d)) else (m(d + i := m (s + i))) a)"
    proof (rule 1(1) [OF True])
      fix j k assume h: "i + 1 \<le> j" "j < k" "k < n"
      show "s + k \<noteq> d + j" by (rule 1(2) [OF _ h(2,3)]) (use h(1) True in \<open>simp add: next_le\<close>)
    qed
    have lt: "i < a - d" if "i \<le> a - d" "a \<noteq> d + i" for a using that by (auto simp: order_less_le)
    have keep: "s + (a - d) \<noteq> d + i" if "i < a - d" "a - d < n" for a by (rule 1(2)) (use that in auto)
    show ?thesis
      by (subst memcpy_loop.simps) (use True IH lt keep in \<open>auto simp: next_le fun_eq_iff\<close>)
  next
    case False
    then show ?thesis by (subst memcpy_loop.simps) (auto simp: fun_eq_iff)
  qed
qed

lemma memmove_loop_eq:
  assumes "\<And>j k. \<lbrakk>k < j; j < i\<rbrakk> \<Longrightarrow> s + k \<noteq> d + j"
  shows "memmove_loop d s i m = (\<lambda>a. if a - d < i then m (s + (a - d)) else m a)"
  using assms
proof (induction d s i m rule: memmove_loop.induct)
  case (1 d s i m)
  show ?case
  proof (cases "i > 0")
    case True
    have dec: "x < i - 1 \<longleftrightarrow> x < i \<and> x \<noteq> i - 1" for x
      using True by (auto simp: word_less_nat_alt step_above word_unat_eq_iff)
    have IH: "memmove_loop d s (i - 1) (m(d + (i - 1) := m (s + (i - 1)))) =
        (\<lambda>a. if a - d < i - 1 then (m(d + (i - 1) := m (s + (i - 1)))) (s + (a - d))
             else (m(d + (i - 1) := m (s + (i - 1)))) a)"
    proof (rule 1(1) [OF True])
      fix j k assume h: "k < j" "j < i - 1"
      show "s + k \<noteq> d + j" by (rule 1(2) [OF h(1)]) (use h(2) dec in blast)
    qed
    have last: "i - 1 < i" using True by (simp add: word_less_nat_alt step_above)
    have keep: "s + (a - d) \<noteq> d + (i - 1)" if "a - d < i - 1" for a by (rule 1(2) [OF that last])
    have at: "a - d = i - 1 \<longleftrightarrow> a = d + (i - 1)" for a by (auto simp: algebra_simps)
    show ?thesis
      by (subst memmove_loop.simps) (use True IH keep dec last at in \<open>auto simp: fun_eq_iff\<close>)
  next
    case False
    then have "i = 0" by (simp add: word_gt_0)
    then show ?thesis by (subst memmove_loop.simps) simp
  qed
qed

lemma memset_eq: "memset dest ch count m = (dest, \<lambda>a. if dest \<noteq> 0 \<and> a - dest < count then ucast ch else m a)"
  by (auto simp: memset_def memset_loop_eq word_gt_0 intro!: ext)

text \<open>Offsets into two ranges, the second of which does not start below the first.\<close>

lemma offset_apart:
  assumes "unat d \<le> unat s" "unat s + unat n \<le> 2 ^ 64" "j < k" "k < (n :: u64)"
  shows "s + k \<noteq> d + j"
proof
  assume e: "s + k = d + j"
  have "unat (s + k) = unat s + unat k" "unat (d + j) = unat d + unat j"
    using assms by (auto simp: word_less_nat_alt intro!: unat_add_nowrap)
  then show False using e assms(1,3) by (simp add: word_less_nat_alt)
qed

lemma offset_ranges:
  assumes "unat s + unat n \<le> 2 ^ 64" "unat d + unat n \<le> 2 ^ 64" "span s n \<inter> span d n = {}" "j < n" "k < (n :: u64)"
  shows "s + k \<noteq> d + j"
proof
  assume e: "s + k = d + j"
  have u: "unat (s + k) = unat s + unat k" "unat (d + j) = unat d + unat j"
    using assms by (auto simp: word_less_nat_alt intro!: unat_add_nowrap)
  have "unat (s + k) \<in> span s n" "unat (d + j) \<in> span d n"
    using u assms(4,5) by (auto simp: span_def word_less_nat_alt)
  then show False using e assms(3) by auto
qed

lemma memcpy_eq:
  assumes "unat s + unat n \<le> 2 ^ 64" "unat d + unat n \<le> 2 ^ 64" "unat d \<le> unat s \<or> span s n \<inter> span d n = {}"
  shows "memcpy d s n m = (d, \<lambda>a. if a - d < n then m (s + (a - d)) else m a)"
proof -
  have "s + k \<noteq> d + j" if "j < k" "k < n" for j k
    using assms offset_apart [OF _ assms(1) that] offset_ranges [OF assms(1,2) _ less_trans [OF that] that(2)] by blast
  then show ?thesis by (simp add: memcpy_def memcpy_loop_eq)
qed

lemma in_span_offset:
  assumes "unat d + unat n \<le> 2 ^ 64" shows "a - d < n \<longleftrightarrow> unat a \<in> span d (n :: u64)"
proof
  assume l: "a - d < n"
  then have "unat (d + (a - d)) = unat d + unat (a - d)"
    using assms by (intro unat_add_nowrap) (simp add: word_less_nat_alt)
  then show "unat a \<in> span d n" using l by (simp add: span_def word_less_nat_alt)
next
  assume "unat a \<in> span d n"
  then show "a - d < n" by (auto simp: span_def word_less_nat_alt unat_sub_le)
qed

text \<open>
  C24: \<open>memmove\<close> on two ranges that do not wrap around the address space, however they overlap:
  every byte of the destination becomes the byte that the source had before the call, and no
  other byte changes.
\<close>

theorem memmove_copies:
  assumes "unat src + unat n \<le> 2 ^ 64" "unat dest + unat n \<le> 2 ^ 64"
  shows "memmove dest src n m = (dest, \<lambda>a. if unat a \<in> span dest n then m (src + (a - dest)) else m a)"
proof -
  consider "dest < src" | "src < dest" | "dest = src" by (rule linorder_cases)
  then show ?thesis
  proof cases
    case 1
    then show ?thesis
      using memcpy_eq [OF assms, of m] assms(2) by (simp add: memmove_def in_span_offset word_less_nat_alt [of dest])
  next
    case 2
    have "src + k \<noteq> dest + j" if "k < j" "j < n" for j k
      using offset_apart [of src dest n k j] 2 assms(2) that by (metis word_less_nat_alt less_imp_le)
    then show ?thesis
      using 2 assms(2) by (simp add: memmove_def memmove_loop_eq in_span_offset order_less_not_sym)
  next
    case 3
    then show ?thesis by (auto simp: memmove_def)
  qed
qed

theorem memmove_copies_witness:
  "snd (memmove 0x1001 0x1000 4 (\<lambda>a. ucast a)) 0x1004 = 3 \<and> snd (memmove 0x1001 0x1000 4 (\<lambda>a. ucast a)) 0x1005 = 5"
  using memmove_copies [of "0x1000" 4 "0x1001" "\<lambda>a. ucast a"] by (simp add: span_def)

lemma memcmp_loop_eq:
  "memcmp_loop p q n i m = 0 \<longleftrightarrow> (\<forall>k. i \<le> k \<longrightarrow> k < n \<longrightarrow> m (p + k) = m (q + k))"
proof (induction p q n i m rule: memcmp_loop.induct)
  case (1 p q n i m)
  show ?case
  proof (cases "i < n \<and> m (p + i) = m (q + i)")
    case True
    then have "memcmp_loop p q n i m = memcmp_loop p q n (i + 1) m" by (subst memcmp_loop.simps) simp
    moreover have "memcmp_loop p q n (i + 1) m = 0 \<longleftrightarrow> (\<forall>k. i < k \<longrightarrow> k < n \<longrightarrow> m (p + k) = m (q + k))"
      using 1 True next_le [of i n] by simp
    ultimately show ?thesis using True by (auto simp: order_le_less)
  next
    case False
    then show ?thesis by (subst memcmp_loop.simps) (auto simp: not_less word_uint_eq_iff)
  qed
qed

lemma memcmp_zero: "memcmp p q n m = 0 \<longleftrightarrow> (\<forall>k<n. m (p + k) = m (q + k))"
  by (simp add: memcmp_def memcmp_loop_eq)

section \<open>Strings\<close>

text \<open>A zero-terminated string in memory.\<close>

fun cstr :: "bmem \<Rightarrow> u64 \<Rightarrow> u8 list \<Rightarrow> bool" where
  "cstr m p [] = (m p = 0)"
| "cstr m p (x # xs) = (x \<noteq> 0 \<and> m p = x \<and> cstr m (p + 1) xs)"

lemma cstr_nth: "cstr m p xs \<Longrightarrow> i < length xs \<Longrightarrow> m (p + of_nat i) = xs ! i \<and> xs ! i \<noteq> 0"
proof (induction xs arbitrary: p i)
  case (Cons x xs)
  then show ?case using Cons.IH [of "p + 1"] by (cases i) (auto simp: algebra_simps)
qed simp

lemma cstr_end: "cstr m p xs \<Longrightarrow> m (p + of_nat (length xs)) = 0"
proof (induction xs arbitrary: p)
  case (Cons x xs)
  then show ?case using Cons.IH [of "p + 1"] by (simp add: algebra_simps)
qed simp

lemma cstr_length:
  assumes "cstr m p xs" shows "length xs < 2 ^ 64"
proof (rule ccontr)
  assume "\<not> length xs < 2 ^ 64"
  then have l: "length xs - 2 ^ 64 < length xs" "length xs = (length xs - 2 ^ 64) + 2 ^ 64" by simp_all
  have "(of_nat (length xs) :: u64) = of_nat (length xs - 2 ^ 64)"
    by (subst l(2)) (simp add: of_nat_add)
  then show False using cstr_nth [OF assms l(1)] cstr_end [OF assms] by simp
qed

lemma strlen_loop_cstr: "cstr m (s + i) xs \<Longrightarrow> strlen_loop s i m = Some (i + of_nat (length xs))"
proof (induction xs arbitrary: i)
  case Nil
  then show ?case by (subst strlen_loop.simps) simp
next
  case (Cons x xs)
  then show ?case using Cons.IH [of "i + 1"] by (subst strlen_loop.simps) (simp add: algebra_simps)
qed

lemma strlen_cstr: "cstr m s xs \<Longrightarrow> strlen s m = Some (of_nat (length xs))"
  using strlen_loop_cstr [of m s 0 xs] by (simp add: strlen_def)

lemma cstr_exists: "m (s + of_nat k) = 0 \<Longrightarrow> \<exists>xs. cstr m s xs"
proof (induction k arbitrary: s)
  case 0
  then have "cstr m s []" by simp
  then show ?case by blast
next
  case (Suc k)
  show ?case
  proof (cases "m s = 0")
    case True
    then have "cstr m s []" by simp
    then show ?thesis by blast
  next
    case False
    obtain xs where "cstr m (s + 1) xs" using Suc.IH [of "s + 1"] Suc.prems by (auto simp: algebra_simps)
    then have "cstr m s (m s # xs)" using False by simp
    then show ?thesis by blast
  qed
qed

lemma strlen_loop_zero: "strlen_loop s len m = Some r \<Longrightarrow> m (s + r) = 0"
  by (rule strlen_loop.raw_induct) (auto split: if_splits)

text \<open>
  \<open>strlen\<close> returns exactly when there is a zero byte to find; then the string from \<open>s\<close>
  up to the first one is what it counts.
\<close>

lemma strlen_returns:
  "(\<exists>n. strlen s m = Some n) = (\<exists>i. m (s + i) = 0) \<and>
   (\<exists>n. strlen s m = Some n) = (\<exists>xs. cstr m s xs \<and> strlen s m = Some (of_nat (length xs)))"
proof (intro conjI iffI; elim exE)
  fix n assume "strlen s m = Some n"
  then have z: "m (s + n) = 0" by (simp add: strlen_def strlen_loop_zero)
  then show "\<exists>i. m (s + i) = 0" ..
  from z have "m (s + of_nat (unat n)) = 0" by simp
  then show "\<exists>xs. cstr m s xs \<and> strlen s m = Some (of_nat (length xs))"
    using cstr_exists strlen_cstr by blast
next
  fix i assume "m (s + i) = 0"
  then have "m (s + of_nat (unat i)) = 0" by simp
  then show "\<exists>n. strlen s m = Some n" using cstr_exists strlen_cstr by blast
qed blast

text \<open>
  On two terminated strings \<open>strcmp\<close> returns; its result is zero exactly when the strings
  are equal and negative exactly when the first comes first in the lexicographic order of bytes.
\<close>

lemma strcmp_cstr:
  "cstr m p xs \<Longrightarrow> cstr m q ys \<Longrightarrow>
     \<exists>r. strcmp p q m = Some r \<and> (r = 0 \<longleftrightarrow> xs = ys) \<and> (r < 0 \<longleftrightarrow> xs < ys)"
proof (induction xs arbitrary: p q ys)
  case Nil
  then show ?case
    by (subst strcmp.simps) (cases ys; auto simp: order_less_le uint_0_iff)
next
  case (Cons x xs)
  show ?case
  proof (cases "\<exists>zs. ys = x # zs")
    case True
    then obtain zs where ys: "ys = x # zs" by blast
    have "strcmp p q m = strcmp (p + 1) (q + 1) m" using Cons.prems ys by (subst strcmp.simps) simp
    then show ?thesis using Cons.IH [of "p + 1" "q + 1" zs] Cons.prems ys by simp
  next
    case False
    then have "m p \<noteq> m q" using Cons.prems by (cases ys) auto
    then have "strcmp p q m = Some (uint x - uint (m q))" using Cons.prems by (subst strcmp.simps) auto
    then show ?thesis using False Cons.prems by (cases ys) (auto simp: word_less_def word_uint_eq_iff)
  qed
qed

text \<open>Two strings in memory: "aba" at 16 and "ba" at 32.\<close>

definition demo_strings :: bmem where
  "demo_strings = (\<lambda>_. 0)(16 := 97, 17 := 98, 18 := 97, 32 := 98, 33 := 97)"

lemma demo_cstrs: "cstr demo_strings 16 [97, 98, 97]" "cstr demo_strings 32 [98, 97]"
  by (simp_all add: demo_strings_def)

subsection \<open>Searching\<close>

lemma strstr_match_cstr:
  "cstr m h xs \<Longrightarrow> cstr m n ys \<Longrightarrow>
     \<exists>a b. strstr_match h n m = Some (a, b) \<and> (m b = 0 \<longleftrightarrow> prefix ys xs)"
proof (induction xs arbitrary: h n ys)
  case Nil
  then show ?case by (subst strstr_match.simps) (cases ys; auto)
next
  case (Cons x xs)
  show ?case
  proof (cases "\<exists>zs. ys = x # zs")
    case True
    then obtain zs where ys: "ys = x # zs" by blast
    have "strstr_match h n m = strstr_match (h + 1) (n + 1) m"
      using Cons.prems ys by (subst strstr_match.simps) simp
    then show ?thesis using Cons.IH [of "h + 1" "n + 1" zs] Cons.prems ys by simp
  next
    case False
    then have "strstr_match h n m = Some (h, n)" using Cons.prems
      by (subst strstr_match.simps) (cases ys; auto)
    then show ?thesis using False Cons.prems by (cases ys) auto
  qed
qed

text \<open>The position of the first occurrence.\<close>

fun first_at :: "u8 list \<Rightarrow> u8 list \<Rightarrow> nat option" where
  "first_at ys [] = (if ys = [] then Some 0 else None)"
| "first_at ys (x # xs) = (if prefix ys (x # xs) then Some 0 else map_option Suc (first_at ys xs))"

lemma first_at_Some:
  "first_at ys xs = Some k \<Longrightarrow> k \<le> length xs \<and> prefix ys (drop k xs) \<and> (\<forall>j<k. \<not> prefix ys (drop j xs))"
  by (induction xs arbitrary: k) (auto split: if_splits simp: less_Suc_eq_0_disj)

lemma first_at_None: "first_at ys xs = None \<longleftrightarrow> \<not> sublist ys xs"
  by (induction xs) (auto simp: sublist_Cons_right)

lemma strstr_loop_cstr:
  "cstr m h xs \<Longrightarrow> cstr m n ys \<Longrightarrow> ys \<noteq> [] \<Longrightarrow>
     strstr_loop h n m = Some (case first_at ys xs of None \<Rightarrow> 0 | Some k \<Rightarrow> h + of_nat k)"
proof (induction xs arbitrary: h)
  case Nil
  then show ?case by (subst strstr_loop.simps) simp
next
  case (Cons x xs)
  obtain a b where ab: "strstr_match h n m = Some (a, b)" "m b = 0 \<longleftrightarrow> prefix ys (x # xs)"
    using strstr_match_cstr [OF Cons.prems(1,2)] by blast
  show ?case
    using Cons.IH [of "h + 1"] Cons.prems ab
    by (subst strstr_loop.simps) (auto split: option.split simp: algebra_simps)
qed

text \<open>
  C25: on two terminated strings \<open>strstr\<close> returns the address of the first occurrence of the
  needle in the haystack, and the null pointer when the needle does not occur.
\<close>

theorem strstr_first:
  assumes "cstr m h xs" "cstr m n ys"
  shows "\<exists>r. strstr h n m = Some r \<and>
    (if sublist ys xs then \<exists>k\<le>length xs. r = h + of_nat k \<and> prefix ys (drop k xs) \<and> (\<forall>j<k. \<not> prefix ys (drop j xs))
     else r = 0)"
proof (cases "ys = []")
  case True
  then show ?thesis using assms by (auto simp: strstr_def intro!: exI [of _ 0])
next
  case False
  then have "m n \<noteq> 0" using assms(2) by (cases ys) auto
  then have r: "strstr h n m = Some (case first_at ys xs of None \<Rightarrow> 0 | Some k \<Rightarrow> h + of_nat k)"
    using strstr_loop_cstr [OF assms False] by (simp add: strstr_def)
  show ?thesis
  proof (cases "first_at ys xs")
    case None
    then show ?thesis using r first_at_None [of ys xs] by simp
  next
    case (Some k)
    then have "sublist ys xs" using first_at_None [of ys xs] by auto
    then show ?thesis using r Some first_at_Some [OF Some] by auto
  qed
qed

theorem strstr_first_witness: "\<exists>r. strstr 16 32 demo_strings = Some r \<and> r \<noteq> 0"
proof -
  have s: "sublist [98, 97 :: u8] [97, 98, 97]" by (simp add: sublist_Cons_right)
  obtain r k where r: "strstr 16 32 demo_strings = Some r" "k \<le> 3" "r = 16 + of_nat k"
    using strstr_first [OF demo_cstrs] s by auto
  have "k = 0 \<or> k = 1 \<or> k = 2 \<or> k = 3" using r(2) by auto
  then show ?thesis using r by auto
qed

section \<open>Bytes and words\<close>

text \<open>The bytes of a memory of aligned words, low byte first.\<close>

definition byte_view :: "qmem \<Rightarrow> bmem" where
  "byte_view m a = ucast (drop_bit (8 * unat (a AND mask 3)) (m (a AND NOT (mask 3))))"

lemma aligned_offset:
  assumes "d AND mask 3 = (0 :: u64)"
  shows "(d + x) AND mask 3 = x AND mask 3" "(d + x) AND NOT (mask 3) = d + (x AND NOT (mask 3))"
proof -
  show 1: "(d + x) AND mask 3 = x AND mask 3" using and_mask_add_zero [OF assms, of x] by (simp add: add.commute)
  show "(d + x) AND NOT (mask 3) = d + (x AND NOT (mask 3))" by (simp add: and_not_mask_minus 1)
qed

lemma byte_view_offset:
  assumes "d AND mask 3 = 0"
  shows "byte_view m (d + x) = ucast (drop_bit (8 * unat (x AND mask 3)) (m (d + (x AND NOT (mask 3)))))"
  by (simp add: byte_view_def aligned_offset [OF assms])

lemma word_of_offset:
  "unat (x :: u64) < 8 * k \<longleftrightarrow> unat (x AND NOT (mask 3)) < 8 * k"
  "unat (x :: u64) = unat (x AND NOT (mask 3)) + unat (x AND mask 3)" "unat (x AND mask 3) < 8"
proof -
  have m: "unat (x AND mask 3) = unat x mod 8" "unat (x AND NOT (mask 3)) = unat x div 8 * 8"
    by (simp_all add: unat_and_mask unat_and_not_mask minus_mod_eq_div_mult)
  show "unat x < 8 * k \<longleftrightarrow> unat (x AND NOT (mask 3)) < 8 * k" by (simp add: m) linarith
  show "unat x = unat (x AND NOT (mask 3)) + unat (x AND mask 3)" "unat (x AND mask 3) < 8" by (simp_all add: m)
qed

lemma zero_page_bytes:
  assumes "virt AND mask 3 = 0" "virt \<noteq> 0"
  shows "byte_view (mem (zero_page virt s)) = snd (memset virt 0 0x1000 (byte_view (mem s)))"
proof
  fix a
  define x where "x = a - virt"
  have a: "a = virt + x" by (simp add: x_def)
  show "byte_view (mem (zero_page virt s)) a = snd (memset virt 0 0x1000 (byte_view (mem s))) a"
    using assms word_of_offset(1) [of x 512]
    by (simp add: a byte_view_offset [OF assms(1)] memset_eq zero_page_def word_less_nat_alt)
qed

lemma copy_words_mem:
  assumes "unat src + 8 * k \<le> 2 ^ 64" "unat d + 8 * k \<le> 2 ^ 64"
    "unat src + 8 * k \<le> unat d \<or> unat d + 8 * k \<le> unat src" "8 dvd unat (a - d)"
  shows "mem (copy_words d src k s) a = (if unat (a - d) < 8 * k then mem s (src + (a - d)) else mem s a)"
  using assms
proof (induction k arbitrary: d src s)
  case 0
  then show ?case by simp
next
  case (Suc k)
  show ?case
  proof (cases "k = 0")
    case True
    have "unat (a - d) < 8 \<longleftrightarrow> a = d" using Suc.prems(4) by (auto elim!: dvdE simp: unat_eq_0)
    then show ?thesis using True by (simp add: wr_def)
  next
    case False
    then have n: "unat (d + 8) = unat d + 8" "unat (src + 8) = unat src + 8"
      using Suc.prems(1,2) by (auto intro!: unat_add_nowrap [THEN trans])
    have l: "unat d + 8 * Suc k \<le> 2 ^ 64" using Suc.prems(2) .
    show ?thesis
    proof (cases "a = d")
      case True
      then have e: "a - (d + 8) = 0xFFFFFFFFFFFFFFF8" by simp
      have big: "\<not> unat (a - (d + 8)) < 8 * k" using l by (simp add: e)
      have "8 dvd unat (a - (d + 8))" by (simp add: e)
      then show ?thesis
        using Suc.IH [of "src + 8" "d + 8" "wr d (mem s src) s"] Suc.prems n big True by (auto simp: wr_def)
    next
      case False
      define x where "x = a - d"
      have ge: "8 \<le> unat x" using False Suc.prems(4) unat_eq_0 [of "a - d"] by (auto simp: x_def elim!: dvdE)
      have e: "a - (d + 8) = x - 8" "unat (x - 8) = unat x - 8" using ge by (auto simp: x_def unat_sub_le)
      have dv: "8 dvd unat (x - 8)" using Suc.prems(4) ge by (simp add: e x_def [symmetric] dvd_minus_self)
      have src: "src + x \<noteq> d" if "unat x < 8 * Suc k"
      proof -
        have "unat (src + x) = unat src + unat x" using that Suc.prems(1) by (intro unat_add_nowrap) simp
        then show ?thesis using Suc.prems(3) that ge by auto
      qed
      have "mem (copy_words (d + 8) (src + 8) k (wr d (mem s src) s)) a =
          (if unat (x - 8) < 8 * k then mem (wr d (mem s src) s) (src + 8 + (x - 8)) else mem (wr d (mem s src) s) a)"
        using Suc.IH [of "src + 8" "d + 8" "wr d (mem s src) s"] Suc.prems n e dv by auto
      then show ?thesis using False e ge src by (auto simp: wr_def x_def [symmetric])
    qed
  qed
qed

lemma zero_words_mem:
  assumes "unat d + 8 * k \<le> 2 ^ 64" "8 dvd unat (a - d)"
  shows "mem (zero_words d k s) a = (if unat (a - d) < 8 * k then 0 else mem s a)"
  using assms
proof (induction k arbitrary: d s)
  case 0
  then show ?case by simp
next
  case (Suc k)
  show ?case
  proof (cases "a = d")
    case True
    then have e: "a - (d + 8) = 0xFFFFFFFFFFFFFFF8" by simp
    have big: "\<not> unat (a - (d + 8)) < 8 * k" using Suc.prems(1) by (simp add: e)
    have "8 dvd unat (a - (d + 8))" by (simp add: e)
    then show ?thesis
    proof (cases "k = 0")
      case False
      then have "unat (d + 8) = unat d + 8" using Suc.prems(1) by (auto intro!: unat_add_nowrap [THEN trans])
      then show ?thesis using Suc.IH [of "d + 8" "wr d 0 s"] Suc.prems big \<open>8 dvd unat (a - (d + 8))\<close> True
        by (simp add: wr_def)
    qed (use True in \<open>simp add: wr_def\<close>)
  next
    case False
    define x where "x = a - d"
    have ge: "8 \<le> unat x" using False Suc.prems(2) unat_eq_0 [of "a - d"] by (auto simp: x_def elim!: dvdE)
    have e: "a - (d + 8) = x - 8" "unat (x - 8) = unat x - 8" using ge by (auto simp: x_def unat_sub_le)
    have dv: "8 dvd unat (x - 8)" using Suc.prems(2) ge by (simp add: e x_def [symmetric] dvd_minus_self)
    show ?thesis
    proof (cases "k = 0")
      case True
      then show ?thesis using False ge by (simp add: wr_def x_def [symmetric])
    next
      case f: False
      then have "unat (d + 8) = unat d + 8" using Suc.prems(1) by (auto intro!: unat_add_nowrap [THEN trans])
      then have "mem (zero_words (d + 8) k (wr d 0 s)) a = (if unat (x - 8) < 8 * k then 0 else mem (wr d 0 s) a)"
        using Suc.IH [of "d + 8" "wr d 0 s"] Suc.prems e dv by auto
      then show ?thesis using False e ge by (auto simp: wr_def x_def [symmetric])
    qed
  qed
qed

lemma merge_low_byte:
  assumes "i < 8" "r < 8"
  shows "(ucast (drop_bit (8 * i) (merge_low r new old)) :: u8) =
    (if i < r then ucast (drop_bit (8 * i) new) else ucast (drop_bit (8 * i) old))"
proof (rule bit_eqI)
  fix b assume b: "possible_bit TYPE(u8) b"
  then have "b < 8" by simp
  then have "8 * i + b < 8 * r \<longleftrightarrow> i < r" "8 * i + b < 64" using assms by linarith+
  then show "bit (ucast (drop_bit (8 * i) (merge_low r new old)) :: u8) b =
    bit (if i < r then ucast (drop_bit (8 * i) new) else ucast (drop_bit (8 * i) old) :: u8) b"
    using b \<open>b < 8\<close> by (auto simp: merge_low_def bit_simps add.commute)
qed

text \<open>Where an offset lies in \<open>n\<close> bytes that are copied by words: whole words, then the last one.\<close>

lemma split_offset:
  fixes n x :: u64
  defines "w \<equiv> x AND NOT (mask 3)" and "i \<equiv> unat (x AND mask 3)"
  shows "x < n \<longleftrightarrow> unat w < 8 * unat (n div 8) \<or> w = 8 * (n div 8) \<and> i < unat (n mod 8)" "i < 8"
    "unat w < 8 * unat (n div 8) \<Longrightarrow> w \<noteq> 8 * (n div 8)" "unat (8 * (n div 8)) = 8 * unat (n div 8)"
proof -
  note x = word_of_offset(2,3) [of x, folded w_def i_def]
  have q: "unat (n div 8) = unat n div 8" "unat (n mod 8) = unat n mod 8"
    by (simp_all add: unat_div_distrib unat_mod_distrib)
  have "unat n < 2 ^ 64" using unsigned_less [where ?'a = nat, of n] by simp
  then show u: "unat (8 * (n div 8)) = 8 * unat (n div 8)"
    by (simp add: unat_word_ariths q)
  define k r where "k = unat n div 8" and "r = unat n mod 8"
  have d: "unat n = 8 * k + r" "r < 8" by (simp_all add: k_def r_def)
  have m: "8 dvd unat w" by (simp add: w_def unat_and_not_mask minus_mod_eq_div_mult)
  have "w = 8 * (n div 8) \<longleftrightarrow> unat w = 8 * (unat n div 8)" using u by (simp add: word_unat_eq_iff q)
  then show "x < n \<longleftrightarrow> unat w < 8 * unat (n div 8) \<or> w = 8 * (n div 8) \<and> i < unat (n mod 8)"
    using x m d u unfolding word_less_nat_alt q by (elim dvdE) (auto simp flip: k_def r_def)
  show "i < 8" by (rule x(2))
  show "unat w < 8 * unat (n div 8) \<Longrightarrow> w \<noteq> 8 * (n div 8)" using u by auto
qed

lemma MALLOC_ZERO_bytes:
  assumes "d AND mask 3 = 0" "d \<noteq> 0" "unat d + unat n \<le> 2 ^ 64"
  shows "byte_view (mem (MALLOC_ZERO d n s)) = snd (memset d 0 n (byte_view (mem s)))"
proof
  fix a
  define x where "x = a - d"
  have a: "a = d + x" by (simp add: x_def)
  note sp = split_offset(1) [of x n] split_offset(2) [of x] split_offset(3) [of x n] split_offset(4) [of n]
  have "8 * unat (n div 8) \<le> unat n" by (simp add: unat_div_distrib)
  then have "mem (zero_words d (unat (n div 8)) s) (d + (x AND NOT (mask 3))) =
      (if unat (x AND NOT (mask 3)) < 8 * unat (n div 8) then 0 else mem s (d + (x AND NOT (mask 3))))"
    using zero_words_mem [of d "unat (n div 8)" "d + (x AND NOT (mask 3))" s] assms(3)
    by (simp add: unat_and_not_mask minus_mod_eq_div_mult)
  then show "byte_view (mem (MALLOC_ZERO d n s)) a = snd (memset d 0 n (byte_view (mem s))) a"
    using sp assms(2) merge_low_byte [of "unat (x AND mask 3)" "unat (n mod 8)" 0]
    by (auto simp: a byte_view_offset [OF assms(1)] memset_eq MALLOC_ZERO_def Let_def wr_def unat_mod_distrib unat_eq_0)
qed

lemma MALLOC_COPY_bytes:
  assumes "d AND mask 3 = 0" "src AND mask 3 = 0" "unat src + unat n \<le> 2 ^ 64" "unat d + unat n \<le> 2 ^ 64"
    "unat src + unat n \<le> unat d \<or> unat d + unat n \<le> unat src"
  shows "byte_view (mem (MALLOC_COPY d src n s)) = snd (memcpy d src n (byte_view (mem s)))"
proof
  fix a
  define x where "x = a - d"
  have a: "a = d + x" by (simp add: x_def)
  note sp = split_offset(1) [of x n] split_offset(2) [of x] split_offset(3) [of x n] split_offset(4) [of n]
  have le: "8 * unat (n div 8) \<le> unat n" by (simp add: unat_div_distrib)
  have cp: "mem (copy_words d src (unat (n div 8)) s) (d + w) =
      (if unat w < 8 * unat (n div 8) then mem s (src + w) else mem s (d + w))" if "8 dvd unat w" for w
    using copy_words_mem [of src "unat (n div 8)" d "d + w" s] assms(3-5) le that by auto
  have same: "mem (copy_words d src (unat (n div 8)) s) (src + 8 * (n div 8)) = mem s (src + 8 * (n div 8))" if "unat (n mod 8) \<noteq> 0"
  proof -
    let ?o = "8 * (n div 8)"
    have o: "unat ?o = 8 * (unat n div 8)" using split_offset(4) [of n] by (simp add: unat_div_distrib)
    have "8 * (unat n div 8) < unat n" if "unat n mod 8 \<noteq> 0" using that by presburger
    then have "unat ?o < unat n" using that by (simp add: o unat_mod_distrib)
    then have so: "unat (src + ?o) = unat src + unat ?o" using assms(3) by (intro unat_add_nowrap) simp
    have "?o AND mask 3 = 0" using o by (simp add: and_mask_zero_iff)
    then have "(src + ?o) AND mask 3 = 0" using aligned_offset(1) [OF assms(2), of ?o] by simp
    then have al: "8 dvd unat (src + ?o - d)"
      using aligned_offset(1) [OF assms(1), of "src + ?o - d"] and_mask_zero_iff [of "src + ?o - d" 3] by simp
    have "\<not> src + ?o - d < ?o"
      using in_span_offset [of d ?o "src + ?o"] assms(4,5) so \<open>unat ?o < unat n\<close> by (auto simp: span_def)
    then have far: "\<not> unat (src + ?o - d) < 8 * unat (n div 8)"
      using split_offset(4) [of n] by (simp add: word_less_nat_alt)
    have "unat src + 8 * unat (n div 8) \<le> 2 ^ 64" "unat d + 8 * unat (n div 8) \<le> 2 ^ 64"
      "unat src + 8 * unat (n div 8) \<le> unat d \<or> unat d + 8 * unat (n div 8) \<le> unat src"
      using assms(3-5) le by linarith+
    from copy_words_mem [OF this al] far show ?thesis by simp
  qed
  have dis: "span src n \<inter> span d n = {}" using assms(5) by (auto simp: span_def)
  show "byte_view (mem (MALLOC_COPY d src n s)) a = snd (memcpy d src n (byte_view (mem s))) a"
    using sp same cp [of "x AND NOT (mask 3)"] cp [of "8 * (n div 8)"]
      merge_low_byte [of "unat (x AND mask 3)" "unat (n mod 8)"]
    by (auto simp: a byte_view_offset [OF assms(1)] byte_view_offset [OF assms(2)] memcpy_eq [OF assms(3,4) disjI2 [OF dis]]
       MALLOC_COPY_def Let_def wr_def unat_mod_distrib unat_eq_0 unat_and_not_mask minus_mod_eq_div_mult)
qed

text \<open>
  C26: the models of zeroed pages, \<open>MALLOC_ZERO\<close> and \<open>MALLOC_COPY\<close> on words do to the bytes
  what the loops of \<open>memset\<close> and \<open>memcpy\<close> do: for addresses on word boundaries, any number of
  bytes, and ranges that do not wrap or overlap.
\<close>

theorem words_are_bytes:
  assumes "d AND mask 3 = 0" "src AND mask 3 = 0" "d \<noteq> 0"
    "unat src + unat n \<le> 2 ^ 64" "unat d + unat n \<le> 2 ^ 64" "unat src + unat n \<le> unat d \<or> unat d + unat n \<le> unat src"
  shows "byte_view (mem (MALLOC_COPY d src n s)) = snd (memcpy d src n (byte_view (mem s))) \<and>
    byte_view (mem (MALLOC_ZERO d n s)) = snd (memset d 0 n (byte_view (mem s))) \<and>
    byte_view (mem (zero_page d s)) = snd (memset d 0 0x1000 (byte_view (mem s)))"
  by (intro conjI MALLOC_COPY_bytes [OF assms(1,2,4-6)] MALLOC_ZERO_bytes [OF assms(1,3,5)] zero_page_bytes [OF assms(1,3)])

theorem words_are_bytes_witness:
  "byte_view (mem (MALLOC_COPY 0x2000 0x1000 13 demo_kernel)) =
     snd (memcpy 0x2000 0x1000 13 (byte_view (mem demo_kernel)))"
  using words_are_bytes [of "0x2000" "0x1000" 13 demo_kernel] by (simp add: mask_eq_exp_minus_1)

end
