(* ===== verification/Madt.thy ===== *)
theory Madt
  imports Lib_Memory Vector
begin

text \<open>
  \<open>kernel/irqs/irqs.cpp\<close>: the walk over the entries of the MADT that fills the tables of local
  APICs, their NMI sources, interrupt source overrides and I/O APICs. The structures of the table
  are declared by the ACPI interpreter, outside the repository: their sizes, the type codes, the
  two bytes every entry starts with and the copy of an entry out of memory are parameters.
\<close>

section \<open>Definitions\<close>

record ('a, 'b, 'c, 'd) acpi_layout =
  sizeof_sdt_hdr :: u64
  sizeof_madt :: u64
  hdr_length :: "bmem \<Rightarrow> u64 \<Rightarrow> u32"
  e_type :: "bmem \<Rightarrow> u64 \<Rightarrow> u8"
  e_length :: "bmem \<Rightarrow> u64 \<Rightarrow> u8"
  TYPE_LAPIC :: u8
  TYPE_LAPIC_NMI :: u8
  TYPE_INTERRUPT_SOURCE_OVERRIDE :: u8
  TYPE_IOAPIC :: u8
  get_lapic :: "bmem \<Rightarrow> u64 \<Rightarrow> 'a"
  get_nmi :: "bmem \<Rightarrow> u64 \<Rightarrow> 'b"
  get_iso :: "bmem \<Rightarrow> u64 \<Rightarrow> 'c"
  get_ioapic :: "bmem \<Rightarrow> u64 \<Rightarrow> 'd"

record ('a, 'b, 'c, 'd) irq_tables =
  lapic_table :: "'a table"
  lapic_nmi_table :: "'b table"
  interrupt_source_override_table :: "'c table"
  ioapic_table :: "'d table"

definition handle_lapic where
  "handle_lapic L m e s = do { t \<leftarrow> push_table (get_lapic L m e) (lapic_table s); Some (s\<lparr>lapic_table := t\<rparr>) }"

definition handle_lapic_nmi where
  "handle_lapic_nmi L m e s = do { t \<leftarrow> push_table (get_nmi L m e) (lapic_nmi_table s); Some (s\<lparr>lapic_nmi_table := t\<rparr>) }"

definition handle_interrupt_source_override where
  "handle_interrupt_source_override L m e s =
     do { t \<leftarrow> push_table (get_iso L m e) (interrupt_source_override_table s);
          Some (s\<lparr>interrupt_source_override_table := t\<rparr>) }"

definition handle_ioapic where
  "handle_ioapic L m e s = do { t \<leftarrow> push_table (get_ioapic L m e) (ioapic_table s); Some (s\<lparr>ioapic_table := t\<rparr>) }"

text \<open>The \<open>switch\<close>; an entry of another type is reported only.\<close>

definition handle_entry where
  "handle_entry L m e s =
     (let t = e_type L m e in
      if t = TYPE_LAPIC L then handle_lapic L m e s
      else if t = TYPE_LAPIC_NMI L then handle_lapic_nmi L m e s
      else if t = TYPE_INTERRUPT_SOURCE_OVERRIDE L then handle_interrupt_source_override L m e s
      else if t = TYPE_IOAPIC L then handle_ioapic L m e s
      else Some s)"

partial_function (option) load_loop ::
  "('a, 'b, 'c, 'd) acpi_layout \<Rightarrow> bmem \<Rightarrow> u64 \<Rightarrow> u64 \<Rightarrow> u64 \<Rightarrow> ('a, 'b, 'c, 'd) irq_tables \<Rightarrow>
     ('a, 'b, 'c, 'd) irq_tables option" where
  "load_loop L m virt_addr table_entries_size rd s =
     (if table_entries_size > rd then
        let e = virt_addr + sizeof_madt L + rd in
        do { s \<leftarrow> handle_entry L m e s;
             load_loop L m virt_addr table_entries_size (rd + ucast (e_length L m e)) s }
      else Some s)"

definition entries_size :: "('a, 'b, 'c, 'd) acpi_layout \<Rightarrow> bmem \<Rightarrow> u64 \<Rightarrow> u64" where
  "entries_size L m hdr = ucast (hdr_length L m hdr) - sizeof_sdt_hdr L - 8"

definition load_entries where
  "load_entries L m hdr virt_addr s = load_loop L m virt_addr (entries_size L m hdr) 0 s"

text \<open>
  \<open>found\<close> is the answer of \<open>uacpi_table_find_by_signature\<close>: an error, or the header and the
  address of the table. The CPU halts on an error or a null address.
\<close>

definition irqs_init where
  "irqs_init L m found s =
     (case found of
        None \<Rightarrow> None
      | Some (hdr, virt_addr) \<Rightarrow> if virt_addr = 0 then None else load_entries L m hdr virt_addr s)"

section \<open>The entries of a table\<close>

text \<open>The addresses of the entries from offset \<open>rd\<close> on, each as long as it says, up to the size.\<close>

fun entry_chain :: "('a, 'b, 'c, 'd) acpi_layout \<Rightarrow> bmem \<Rightarrow> u64 \<Rightarrow> u64 \<Rightarrow> u64 \<Rightarrow> u64 list \<Rightarrow> bool" where
  "entry_chain L m va n rd [] = (n \<le> rd)"
| "entry_chain L m va n rd (e # es) =
     (rd < n \<and> e = va + sizeof_madt L + rd \<and> entry_chain L m va n (rd + ucast (e_length L m e)) es)"

text \<open>What the tables hold after the entries \<open>es\<close>: the entries of each type in their order.\<close>

definition of_type where
  "of_type L m t es = filter (\<lambda>e. e_type L m e = t) es"

definition tables_able :: "nat \<Rightarrow> ('a, 'b, 'c, 'd) irq_tables \<Rightarrow> bool" where
  "tables_able n s \<longleftrightarrow> table_able n (lapic_table s) \<and> table_able n (lapic_nmi_table s) \<and>
     table_able n (interrupt_source_override_table s) \<and> table_able n (ioapic_table s)"

definition codes_distinct :: "('a, 'b, 'c, 'd) acpi_layout \<Rightarrow> bool" where
  "codes_distinct L \<longleftrightarrow> distinct [TYPE_LAPIC L, TYPE_LAPIC_NMI L, TYPE_INTERRUPT_SOURCE_OVERRIDE L, TYPE_IOAPIC L]"

definition loaded where
  "loaded L m es s t \<longleftrightarrow>
     elems (lapic_table t) = elems (lapic_table s) @ map (get_lapic L m) (of_type L m (TYPE_LAPIC L) es) \<and>
     elems (lapic_nmi_table t) = elems (lapic_nmi_table s) @ map (get_nmi L m) (of_type L m (TYPE_LAPIC_NMI L) es) \<and>
     elems (interrupt_source_override_table t) = elems (interrupt_source_override_table s)
       @ map (get_iso L m) (of_type L m (TYPE_INTERRUPT_SOURCE_OVERRIDE L) es) \<and>
     elems (ioapic_table t) = elems (ioapic_table s) @ map (get_ioapic L m) (of_type L m (TYPE_IOAPIC L) es)"

lemma handle_entry_ok:
  assumes a: "tables_able (Suc n) s" and d: "codes_distinct L"
  shows "\<exists>t. handle_entry L m e s = Some t \<and> tables_able n t \<and> loaded L m [e] s t"
proof -
  let ?t = "e_type L m e"
  have k: "table_able n (lapic_table s)" "table_able n (lapic_nmi_table s)"
    "table_able n (interrupt_source_override_table s)" "table_able n (ioapic_table s)"
    using a by (simp_all add: tables_able_def table_able_mono [OF _ le_SucI [OF le_refl]])
  have p: "\<exists>t. push_table x (lapic_table s) = Some t \<and> table_able n t \<and> elems t = elems (lapic_table s) @ [x]"
    "\<exists>t. push_table y (lapic_nmi_table s) = Some t \<and> table_able n t \<and> elems t = elems (lapic_nmi_table s) @ [y]"
    "\<exists>t. push_table z (interrupt_source_override_table s) = Some t \<and> table_able n t \<and>
       elems t = elems (interrupt_source_override_table s) @ [z]"
    "\<exists>t. push_table w (ioapic_table s) = Some t \<and> table_able n t \<and> elems t = elems (ioapic_table s) @ [w]" for x y z w
    using a unfolding tables_able_def by (simp_all only: tab.push_ok simp_thms)
  note defs = handle_entry_def tables_able_def loaded_def of_type_def Let_def
  consider (lapic) "?t = TYPE_LAPIC L" | (nmi) "?t = TYPE_LAPIC_NMI L" | (iso) "?t = TYPE_INTERRUPT_SOURCE_OVERRIDE L"
    | (ioapic) "?t = TYPE_IOAPIC L"
    | (other) "?t \<notin> {TYPE_LAPIC L, TYPE_LAPIC_NMI L, TYPE_INTERRUPT_SOURCE_OVERRIDE L, TYPE_IOAPIC L}" by blast
  then show ?thesis
  proof cases
    case lapic
    then show ?thesis using p(1) [of "get_lapic L m e"] k d
      by (auto simp: defs handle_lapic_def codes_distinct_def)
  next
    case nmi
    then show ?thesis using p(2) [of "get_nmi L m e"] k d
      by (auto simp: defs handle_lapic_nmi_def codes_distinct_def)
  next
    case iso
    then show ?thesis using p(3) [of "get_iso L m e"] k d
      by (auto simp: defs handle_interrupt_source_override_def codes_distinct_def)
  next
    case ioapic
    then show ?thesis using p(4) [of "get_ioapic L m e"] k d
      by (auto simp: defs handle_ioapic_def codes_distinct_def)
  next
    case other
    then show ?thesis using k by (auto simp: defs)
  qed
qed

lemma loaded_Cons: "loaded L m [e] s t \<Longrightarrow> loaded L m es t u \<Longrightarrow> loaded L m (e # es) s u"
  by (auto simp: loaded_def of_type_def)

lemma load_loop_ok:
  assumes "entry_chain L m va n rd es" "tables_able (length es) s" "codes_distinct L"
  shows "\<exists>t. load_loop L m va n rd s = Some t \<and> loaded L m es s t"
  using assms
proof (induction es arbitrary: rd s)
  case Nil
  then show ?case by (subst load_loop.simps) (simp add: loaded_def of_type_def not_less [symmetric])
next
  case (Cons e es)
  obtain t where t: "handle_entry L m e s = Some t" "tables_able (length es) t" "loaded L m [e] s t"
    using handle_entry_ok [of "length es" s L m e] Cons.prems(2,3) by auto
  obtain u where "load_loop L m va n (rd + ucast (e_length L m e)) t = Some u" "loaded L m es t u"
    using Cons.IH [OF _ t(2)] Cons.prems by auto
  then show ?case using Cons.prems(1) t loaded_Cons [OF t(3)]
    by (subst load_loop.simps) (auto simp: Let_def)
qed

lemma chain_exists:
  assumes pos: "\<And>r. r < n \<Longrightarrow> e_length L m (va + sizeof_madt L + r) \<noteq> 0" and n: "unat n \<le> 2 ^ 63"
  shows "\<exists>es. entry_chain L m va n rd es \<and> length es \<le> unat n - unat rd"
proof (induction "unat n - unat rd" arbitrary: rd rule: less_induct)
  case less
  show ?case
  proof (cases "rd < n")
    case False
    then have "entry_chain L m va n rd []" by simp
    then show ?thesis by (intro exI [of _ "[]"]) simp
  next
    case True
    let ?e = "va + sizeof_madt L + rd"
    let ?l = "ucast (e_length L m ?e) :: u64"
    have l: "0 < unat ?l" "unat ?l < 256"
      using pos [OF True] unsigned_less [where ?'a = nat, of "e_length L m ?e"]
      by (simp_all add: unsigned_ucast_eq unsigned_take_bit_eq take_bit_eq_mod unat_gt_0)
    have u: "unat (rd + ?l) = unat rd + unat ?l"
      using l(2) n True by (intro unat_add_nowrap) (simp add: word_less_nat_alt)
    obtain es where es: "entry_chain L m va n (rd + ?l) es" "length es \<le> unat n - unat (rd + ?l)"
      using less.hyps [of "rd + ?l"] u l(1) True diff_less_mono2 [of "unat rd" "unat rd + unat ?l" "unat n"]
      by (auto simp: word_less_nat_alt)
    have "entry_chain L m va n rd (?e # es)" using True es(1) by simp
    moreover have "length (?e # es) \<le> unat n - unat rd" using es(2) u l(1) True by (simp add: word_less_nat_alt)
    ultimately show ?thesis by blast
  qed
qed

lemma tables_able_mono: "tables_able n s \<Longrightarrow> k \<le> n \<Longrightarrow> tables_able k s"
  by (auto simp: tables_able_def elim: table_able_mono)


text \<open>A table of six bytes: two entries of three bytes with type code 1, an I/O APIC.\<close>

definition demo_layout :: "(u8, u8, u8, u8) acpi_layout" where
  "demo_layout = \<lparr>sizeof_sdt_hdr = 36, sizeof_madt = 44, hdr_length = (\<lambda>_ _. 50),
     e_type = (\<lambda>m e. m e), e_length = (\<lambda>m e. m (e + 1)), TYPE_LAPIC = 0, TYPE_LAPIC_NMI = 4,
     TYPE_INTERRUPT_SOURCE_OVERRIDE = 2, TYPE_IOAPIC = 1, get_lapic = (\<lambda>m e. m (e + 2)),
     get_nmi = (\<lambda>m e. m (e + 2)), get_iso = (\<lambda>m e. m (e + 2)), get_ioapic = (\<lambda>m e. m (e + 2))\<rparr>"

definition demo_madt :: bmem where
  "demo_madt = (\<lambda>_. 3)(0x102C := 1, 0x102F := 1, 0x1031 := 9)"

definition demo_table :: "u8 table" where
  "demo_table = (empty_vector, \<lparr>bufs = Map.empty, answers = [16, 32, 48, 64, 80, 96], elem_size = 1\<rparr>)"

definition demo_irqs :: "(u8, u8, u8, u8) irq_tables" where
  "demo_irqs = \<lparr>lapic_table = demo_table, lapic_nmi_table = demo_table,
     interrupt_source_override_table = demo_table, ioapic_table = demo_table\<rparr>"


text \<open>An entry that claims to have length 0 is never left.\<close>

lemma madt_zero_length:
  assumes "rd < n" "e_length L m (va + sizeof_madt L + rd) = 0"
  shows "load_loop L m va n rd s = None"
proof -
  have "load_loop L' m' va' n' rd' s' = Some t \<Longrightarrow> L' = L \<longrightarrow> m' = m \<longrightarrow> va' = va \<longrightarrow> n' = n \<longrightarrow> rd' \<noteq> rd" for L' m' va' n' rd' s' t
    by (rule load_loop.raw_induct [of "\<lambda>L' m' va' n' rd' s' t. L' = L \<longrightarrow> m' = m \<longrightarrow> va' = va \<longrightarrow> n' = n \<longrightarrow> rd' \<noteq> rd"])
      (use assms in \<open>auto simp: Let_def bind_eq_Some_conv split: if_splits; blast\<close>)
  then show ?thesis by (cases "load_loop L m va n rd s") blast+
qed

end
