(* ===== verification/Uacpi.thy ===== *)
theory Uacpi
  imports Ports Dl_Api
begin

text \<open>
  \<open>acpi/glue.cpp\<close> and \<open>acpi/acpi.cpp\<close>: the services the kernel offers to the ACPI interpreter.
  Handles are addresses of objects the glue allocates with \<open>new\<close>, whose answers are an input.
  An output parameter is a flag, whether the pointer is given, and an optional result; the log
  lines of the services that are not implemented are left out.
\<close>

section \<open>Definitions\<close>

text \<open>
  \<open>rsdp_address\<close> is the address in the bootloader's response; \<open>io_maps\<close> and \<open>locks\<close> are the
  objects behind handles: port ranges and spinlocks.
\<close>

record glue = ports +
  memory_slide :: u64
  rsdp_address :: u64
  io_maps :: "u64 \<Rightarrow> IoMap option"
  locks :: "u64 \<Rightarrow> bool option"
  handle_answers :: "u64 list"

definition get_rsdp_physical_pointer :: "'a glue_scheme \<Rightarrow> u64" where
  "get_rsdp_physical_pointer s = rsdp_address s - memory_slide s"

text \<open>The CPU halts when the interpreter cannot be initialised; \<open>ret\<close> is its answer.\<close>

definition init_early_acpi :: "uacpi_status \<Rightarrow> 'a glue_scheme \<Rightarrow> 'a glue_scheme option" where
  "init_early_acpi ret s = (if ret \<noteq> UACPI_STATUS_OK then None else Some s)"

definition uacpi_kernel_get_rsdp :: "bool \<Rightarrow> 'a glue_scheme \<Rightarrow> uacpi_status \<times> u64 option" where
  "uacpi_kernel_get_rsdp out s =
     (UACPI_STATUS_OK, if out then Some (get_rsdp_physical_pointer s) else None)"

definition uacpi_kernel_map :: "u64 \<Rightarrow> u64 \<Rightarrow> 'a glue_scheme \<Rightarrow> u64" where
  "uacpi_kernel_map addr len s = addr + memory_slide s"

definition uacpi_kernel_unmap :: "u64 \<Rightarrow> u64 \<Rightarrow> 'a glue_scheme \<Rightarrow> 'a glue_scheme" where
  "uacpi_kernel_unmap addr len s = s"

subsection \<open>PCI\<close>

definition uacpi_kernel_pci_device_open :: "bool \<Rightarrow> uacpi_status \<times> u64 option" where
  "uacpi_kernel_pci_device_open out = (UACPI_STATUS_UNIMPLEMENTED, if out then Some 0 else None)"

definition uacpi_kernel_pci_read8 :: "u64 \<Rightarrow> u64 \<Rightarrow> bool \<Rightarrow> uacpi_status \<times> u8 option" where
  "uacpi_kernel_pci_read8 dev ofs out = (UACPI_STATUS_UNIMPLEMENTED, if out then Some 0xFF else None)"

definition uacpi_kernel_pci_read16 :: "u64 \<Rightarrow> u64 \<Rightarrow> bool \<Rightarrow> uacpi_status \<times> u16 option" where
  "uacpi_kernel_pci_read16 dev ofs out = (UACPI_STATUS_UNIMPLEMENTED, if out then Some 0xFFFF else None)"

definition uacpi_kernel_pci_read32 :: "u64 \<Rightarrow> u64 \<Rightarrow> bool \<Rightarrow> uacpi_status \<times> u32 option" where
  "uacpi_kernel_pci_read32 dev ofs out = (UACPI_STATUS_UNIMPLEMENTED, if out then Some 0xFFFFFFFF else None)"

definition uacpi_kernel_pci_write8 :: "u64 \<Rightarrow> u64 \<Rightarrow> u8 \<Rightarrow> uacpi_status" where
  "uacpi_kernel_pci_write8 dev ofs v = UACPI_STATUS_UNIMPLEMENTED"

definition uacpi_kernel_pci_write16 :: "u64 \<Rightarrow> u64 \<Rightarrow> u16 \<Rightarrow> uacpi_status" where
  "uacpi_kernel_pci_write16 dev ofs v = UACPI_STATUS_UNIMPLEMENTED"

definition uacpi_kernel_pci_write32 :: "u64 \<Rightarrow> u64 \<Rightarrow> u32 \<Rightarrow> uacpi_status" where
  "uacpi_kernel_pci_write32 dev ofs v = UACPI_STATUS_UNIMPLEMENTED"

subsection \<open>Port ranges\<close>

definition new_handle :: "'a glue_scheme \<Rightarrow> (u64 \<times> 'a glue_scheme) option" where
  "new_handle s =
     (case handle_answers s of
        [] \<Rightarrow> None
      | a # as \<Rightarrow> if a = 0 then None else Some (a, s\<lparr>handle_answers := as\<rparr>))"

definition uacpi_kernel_io_map ::
  "u64 \<Rightarrow> u64 \<Rightarrow> bool \<Rightarrow> 'a glue_scheme \<Rightarrow> ((uacpi_status \<times> u64 option) \<times> 'a glue_scheme) option" where
  "uacpi_kernel_io_map addr len out s =
     (if \<not> out then Some ((UACPI_STATUS_INVALID_ARGUMENT, None), s)
      else do { (a, s) \<leftarrow> new_handle s;
                Some ((UACPI_STATUS_OK, Some a), s\<lparr>io_maps := (io_maps s)(a \<mapsto> io_map_new addr len)\<rparr>) })"

definition uacpi_kernel_io_unmap :: "u64 \<Rightarrow> 'a glue_scheme \<Rightarrow> 'a glue_scheme option" where
  "uacpi_kernel_io_unmap handle s =
     (if handle = 0 then Some s
      else case io_maps s handle of
             None \<Rightarrow> None
           | Some _ \<Rightarrow> Some (s\<lparr>io_maps := (io_maps s)(handle := None)\<rparr>))"

definition uacpi_kernel_io_read8 ::
  "u64 \<Rightarrow> u64 \<Rightarrow> bool \<Rightarrow> 'a glue_scheme \<Rightarrow> ((uacpi_status \<times> u8 option) \<times> 'a glue_scheme) option" where
  "uacpi_kernel_io_read8 handle ofs out s =
     (if handle = 0 \<or> \<not> out then Some ((UACPI_STATUS_INVALID_ARGUMENT, None), s)
      else do { io \<leftarrow> io_maps s handle;
                let (r, s) = read8 io ofs s in
                Some (case r of None \<Rightarrow> ((UACPI_STATUS_INVALID_ARGUMENT, None), s)
                              | Some v \<Rightarrow> ((UACPI_STATUS_OK, Some v), s)) })"

definition uacpi_kernel_io_read16 ::
  "u64 \<Rightarrow> u64 \<Rightarrow> bool \<Rightarrow> 'a glue_scheme \<Rightarrow> ((uacpi_status \<times> u16 option) \<times> 'a glue_scheme) option" where
  "uacpi_kernel_io_read16 handle ofs out s =
     (if handle = 0 \<or> \<not> out then Some ((UACPI_STATUS_INVALID_ARGUMENT, None), s)
      else do { io \<leftarrow> io_maps s handle;
                let (r, s) = read16 io ofs s in
                Some (case r of None \<Rightarrow> ((UACPI_STATUS_INVALID_ARGUMENT, None), s)
                              | Some v \<Rightarrow> ((UACPI_STATUS_OK, Some v), s)) })"

definition uacpi_kernel_io_read32 ::
  "u64 \<Rightarrow> u64 \<Rightarrow> bool \<Rightarrow> 'a glue_scheme \<Rightarrow> ((uacpi_status \<times> u32 option) \<times> 'a glue_scheme) option" where
  "uacpi_kernel_io_read32 handle ofs out s =
     (if handle = 0 \<or> \<not> out then Some ((UACPI_STATUS_INVALID_ARGUMENT, None), s)
      else do { io \<leftarrow> io_maps s handle;
                let (r, s) = read32 io ofs s in
                Some (case r of None \<Rightarrow> ((UACPI_STATUS_INVALID_ARGUMENT, None), s)
                              | Some v \<Rightarrow> ((UACPI_STATUS_OK, Some v), s)) })"

definition uacpi_kernel_io_write8 ::
  "u64 \<Rightarrow> u64 \<Rightarrow> u8 \<Rightarrow> 'a glue_scheme \<Rightarrow> (uacpi_status \<times> 'a glue_scheme) option" where
  "uacpi_kernel_io_write8 handle ofs v s =
     (if handle = 0 then Some (UACPI_STATUS_INVALID_ARGUMENT, s)
      else do { io \<leftarrow> io_maps s handle; Some (write8 io ofs v s) })"

definition uacpi_kernel_io_write16 ::
  "u64 \<Rightarrow> u64 \<Rightarrow> u16 \<Rightarrow> 'a glue_scheme \<Rightarrow> (uacpi_status \<times> 'a glue_scheme) option" where
  "uacpi_kernel_io_write16 handle ofs v s =
     (if handle = 0 then Some (UACPI_STATUS_INVALID_ARGUMENT, s)
      else do { io \<leftarrow> io_maps s handle; Some (write16 io ofs v s) })"

definition uacpi_kernel_io_write32 ::
  "u64 \<Rightarrow> u64 \<Rightarrow> u32 \<Rightarrow> 'a glue_scheme \<Rightarrow> (uacpi_status \<times> 'a glue_scheme) option" where
  "uacpi_kernel_io_write32 handle ofs v s =
     (if handle = 0 then Some (UACPI_STATUS_INVALID_ARGUMENT, s)
      else do { io \<leftarrow> io_maps s handle; Some (write32 io ofs v s) })"

subsection \<open>Memory\<close>

definition uacpi_kernel_alloc :: "u64 \<Rightarrow> 'a malloc_state_scheme \<Rightarrow> (u64 \<times> 'a malloc_state_scheme) option" where
  "uacpi_kernel_alloc sz s = mALLOc sz s"

definition uacpi_kernel_free :: "u64 \<Rightarrow> 'a malloc_state_scheme \<Rightarrow> 'a malloc_state_scheme option" where
  "uacpi_kernel_free ptr s = (if ptr \<noteq> 0 then fREe ptr s else Some s)"

subsection \<open>Time\<close>

definition uacpi_kernel_get_nanoseconds_since_boot :: u64 where
  "uacpi_kernel_get_nanoseconds_since_boot = 0"

definition uacpi_kernel_stall :: "u8 \<Rightarrow> 'a glue_scheme \<Rightarrow> 'a glue_scheme" where
  "uacpi_kernel_stall usec s = s"

definition uacpi_kernel_sleep :: "u64 \<Rightarrow> 'a glue_scheme \<Rightarrow> 'a glue_scheme" where
  "uacpi_kernel_sleep msec s = s"

subsection \<open>Locks\<close>

definition new_lock :: "'a glue_scheme \<Rightarrow> (u64 \<times> 'a glue_scheme) option" where
  "new_lock s = do { (a, s) \<leftarrow> new_handle s; Some (a, s\<lparr>locks := (locks s)(a \<mapsto> False)\<rparr>) }"

definition lock_handle :: "u64 \<Rightarrow> 'a glue_scheme \<Rightarrow> 'a glue_scheme option" where
  "lock_handle h s = do { l \<leftarrow> locks s h; l \<leftarrow> spin_lock l; Some (s\<lparr>locks := (locks s)(h \<mapsto> l)\<rparr>) }"

definition unlock_handle :: "u64 \<Rightarrow> 'a glue_scheme \<Rightarrow> 'a glue_scheme option" where
  "unlock_handle h s = do { l \<leftarrow> locks s h; Some (s\<lparr>locks := (locks s)(h \<mapsto> spin_unlock l)\<rparr>) }"

definition uacpi_kernel_create_mutex :: "'a glue_scheme \<Rightarrow> (u64 \<times> 'a glue_scheme) option" where
  "uacpi_kernel_create_mutex s = new_lock s"

definition uacpi_kernel_free_mutex :: "u64 \<Rightarrow> 'a glue_scheme \<Rightarrow> 'a glue_scheme" where
  "uacpi_kernel_free_mutex handle s = s"

definition uacpi_kernel_acquire_mutex ::
  "u64 \<Rightarrow> u16 \<Rightarrow> 'a glue_scheme \<Rightarrow> (uacpi_status \<times> 'a glue_scheme) option" where
  "uacpi_kernel_acquire_mutex handle timeout s =
     do { s \<leftarrow> lock_handle handle s; Some (UACPI_STATUS_OK, s) }"

definition uacpi_kernel_release_mutex :: "u64 \<Rightarrow> 'a glue_scheme \<Rightarrow> 'a glue_scheme option" where
  "uacpi_kernel_release_mutex handle s = unlock_handle handle s"

definition uacpi_kernel_create_spinlock :: "'a glue_scheme \<Rightarrow> (u64 \<times> 'a glue_scheme) option" where
  "uacpi_kernel_create_spinlock s = new_lock s"

definition uacpi_kernel_free_spinlock :: "u64 \<Rightarrow> 'a glue_scheme \<Rightarrow> 'a glue_scheme" where
  "uacpi_kernel_free_spinlock handle s = s"

definition uacpi_kernel_lock_spinlock :: "u64 \<Rightarrow> 'a glue_scheme \<Rightarrow> (u64 \<times> 'a glue_scheme) option" where
  "uacpi_kernel_lock_spinlock handle s = do { s \<leftarrow> lock_handle handle s; Some (0, s) }"

definition uacpi_kernel_unlock_spinlock :: "u64 \<Rightarrow> u64 \<Rightarrow> 'a glue_scheme \<Rightarrow> 'a glue_scheme option" where
  "uacpi_kernel_unlock_spinlock handle flags s = unlock_handle handle s"

subsection \<open>Events, interrupts, deferred work\<close>

definition uacpi_kernel_create_event :: u64 where
  "uacpi_kernel_create_event = 0"

definition uacpi_kernel_wait_for_event :: "u64 \<Rightarrow> u16 \<Rightarrow> bool" where
  "uacpi_kernel_wait_for_event handle timeout = False"

definition uacpi_kernel_handle_firmware_request :: uacpi_status where
  "uacpi_kernel_handle_firmware_request = UACPI_STATUS_UNIMPLEMENTED"

definition uacpi_kernel_install_interrupt_handler :: "u32 \<Rightarrow> u64 \<Rightarrow> u64 \<Rightarrow> bool \<Rightarrow> uacpi_status \<times> u64 option" where
  "uacpi_kernel_install_interrupt_handler irq handler ctx out =
     (UACPI_STATUS_UNIMPLEMENTED, if out then Some 0 else None)"

definition uacpi_kernel_uninstall_interrupt_handler :: "u64 \<Rightarrow> u64 \<Rightarrow> uacpi_status" where
  "uacpi_kernel_uninstall_interrupt_handler handler irq_handle = UACPI_STATUS_UNIMPLEMENTED"

definition uacpi_kernel_schedule_work :: "u32 \<Rightarrow> u64 \<Rightarrow> u64 \<Rightarrow> uacpi_status" where
  "uacpi_kernel_schedule_work typ handler ctx = UACPI_STATUS_UNIMPLEMENTED"

definition uacpi_kernel_wait_for_work_completion :: uacpi_status where
  "uacpi_kernel_wait_for_work_completion = UACPI_STATUS_UNIMPLEMENTED"

section \<open>Handles\<close>

text \<open>A handle of a port range gives access to that range until it is unmapped.\<close>

lemma io_map_read:
  assumes "uacpi_kernel_io_map addr len True s = Some ((st, Some h), t)"
  shows "st = UACPI_STATUS_OK" "h \<noteq> 0" "io_maps t h = Some (io_map_new addr len)"
    "fst (the (uacpi_kernel_io_read8 h ofs True t)) =
       (if ofs < len then (UACPI_STATUS_OK, Some (fst (inb (ucast (addr + ofs)) t)))
        else (UACPI_STATUS_INVALID_ARGUMENT, None))"
  using assms
  by (auto simp: uacpi_kernel_io_map_def new_handle_def uacpi_kernel_io_read8_def read8_def io_map_new_def not_le
      split: list.splits if_splits option.splits prod.splits)

text \<open>
  A mutex: taking a free one returns, and taking it again before it is released does not, whatever the
  timeout; releasing it makes it free again.
\<close>

lemma mutex_exclusive:
  assumes "locks s h = Some False"
  obtains t where "uacpi_kernel_acquire_mutex h timeout s = Some (UACPI_STATUS_OK, t)"
    "uacpi_kernel_acquire_mutex h timeout' t = None" "uacpi_kernel_release_mutex h t = Some s"
proof -
  have "s\<lparr>locks := (locks s)(h \<mapsto> False)\<rparr> = s" using assms by (simp add: fun_upd_idem)
  then show ?thesis
    using that [of "s\<lparr>locks := (locks s)(h \<mapsto> True)\<rparr>"] assms
    by (simp add: uacpi_kernel_acquire_mutex_def uacpi_kernel_release_mutex_def lock_handle_def unlock_handle_def
        spin_lock_def spin_unlock_def)
qed

end
