(* ===== verification/Boot.thy ===== *)
theory Boot
  imports Heap Gdt_Idt Clock Madt Uacpi
begin

text \<open>
  \<open>kernel/core.cpp\<close>: the order in which \<open>kernel_main\<close> brings the kernel up, and what the memory
  part of it establishes from what the bootloader leaves. The subsystems keep their state in
  records of their own, as in the theories that model them; \<open>kernel_main\<close> runs through them and then halts in a loop, so
  that its result is the state in which the loop is entered, and \<open>None\<close> when it does not get there.
\<close>

section \<open>Definitions\<close>

text \<open>
  Per-CPU area, physical pages, addresses and heap. \<open>ptrs\<close> is the array of memory map entries the bootloader
  reports, \<open>usable\<close> its code for usable memory.
\<close>

definition boot_memory :: "u64 \<Rightarrow> (nat \<Rightarrow> memmap_entry option) \<Rightarrow> 'a kernel_scheme \<Rightarrow> 'a kernel_scheme option" where
  "boot_memory usable ptrs s =
     (let s = setup_bsp_percpu s in
      do { s \<leftarrow> init_pma usable (Some ptrs) s;
           s \<leftarrow> init_kernel_virtual_allocator ptrs s;
           init_heap s })"

text \<open>What the linker, the bootloader and the firmware answer.\<close>

record ('a, 'b, 'c, 'd) platform =
  usable_code :: u64
  memmap :: "nat \<Rightarrow> memmap_entry option"
  segments_addr :: u64
  idt_addr :: u64
  stubs :: "nat \<Rightarrow> u64"
  acpi_answer :: uacpi_status
  tsc_frequency :: "u64 option"
  hpet_table :: "(bool \<times> u64) option"
  fadt_table :: "(u32 \<times> u8) option"
  madt_layout :: "('a, 'b, 'c, 'd) acpi_layout"
  madt_found :: "(u64 \<times> u64) option"
  firmware :: bmem

definition kernel_main ::
  "('a, 'b, 'c, 'd) platform \<Rightarrow> kernel \<Rightarrow> glue \<Rightarrow> clock \<Rightarrow> ('a, 'b, 'c, 'd) irq_tables \<Rightarrow>
     (gdt_state \<times> idt_state \<times> kernel \<times> glue \<times> clock \<times> ('a, 'b, 'c, 'd) irq_tables) option" where
  "kernel_main pl s gl cl irqs =
     (let gdt = init_gdt (segments_addr pl); tbl = init_idt (stubs pl) (idt_addr pl) in
      do { s \<leftarrow> boot_memory (usable_code pl) (memmap pl) s;
           gl \<leftarrow> init_early_acpi (acpi_answer pl) gl;
           cl \<leftarrow> clock_init (tsc_frequency pl) (hpet_table pl) (fadt_table pl) (get_memory_slide s) cl;
           irqs \<leftarrow> irqs_init (madt_layout pl) (firmware pl) (madt_found pl) irqs;
           Some (gdt, tbl, s, gl, cl, irqs) })"

section \<open>Memory after booting\<close>

lemma init_entry_outside:
  assumes "entry_type e = usable" "wf_block (hhdm_offset s + base e, length_of e)"
    "unat x \<notin> span (hhdm_offset s + base e) (length_of e)"
  shows "mem (init_entry usable e s) x = mem s x"
proof -
  let ?a = "hhdm_offset s + base e"
  have "x \<noteq> ?a" "x \<noteq> ?a + 8" using hdr_in_span [OF assms(2)] assms(3) by auto
  then show ?thesis using assms(1) by (simp add: init_entry_def get_memory_slide_def Let_def set_fb_size_def set_fb_next_def)
qed

lemma fla_init_outside:
  assumes "wf_blocks (usable_blocks usable (hhdm_offset s) es)" "unat x \<notin> cover (usable_blocks usable (hhdm_offset s) es)"
  shows "mem (fla_init usable es s) x = mem s x"
  using assms
proof (induction es arbitrary: s)
  case Nil
  then show ?case by (simp add: fla_init_def)
next
  case (Cons e es)
  show ?case
  proof (cases "entry_type e = usable")
    case True
    let ?b = "(hhdm_offset s + base e, length_of e)"
    have u: "usable_blocks usable (hhdm_offset s) (e # es) = usable_blocks usable (hhdm_offset s) es @ [?b]"
      using True by (simp add: usable_blocks_def)
    have w: "wf_blocks (usable_blocks usable (hhdm_offset s) es)" "wf_block ?b"
      using Cons.prems(1) unfolding u by (auto simp: wf_blocks_append wf_blocks_Cons)
    have "mem (init_entry usable e s) x = mem s x"
      by (rule init_entry_outside [OF True w(2)]) (use Cons.prems(2) in \<open>auto simp: u\<close>)
    then show ?thesis using Cons.IH [of "init_entry usable e s"] w(1) Cons.prems(2) by (simp add: fla_init_def u)
  next
    case False
    then show ?thesis using Cons by (simp add: fla_init_def usable_blocks_def)
  qed
qed

lemma fla_init_only_mem: "only_mem s (fla_init usable es s)"
proof (induction es arbitrary: s)
  case (Cons e es)
  have "only_mem s (init_entry usable e s)"
    by (simp add: init_entry_def only_mem_def Let_def set_fb_size_def set_fb_next_def)
  then show ?case using Cons [of "init_entry usable e s"] only_mem_trans by (auto simp: fla_init_def)
qed (simp add: fla_init_def)

lemma only_mem_boot:
  assumes "only_mem s (t :: 'a kernel_scheme)"
  shows "cr3 t = cr3 s" "hhdm_offset t = hhdm_offset s" "kernel_virtual_base t = kernel_virtual_base s"
    "allocator t = allocator s" "heap_top t = heap_top s" "pagemap t = pagemap s"
proof -
  have t: "t = s\<lparr>m_head := m_head t, mem := mem t\<rparr>" using assms by (simp add: only_mem_def)
  show "cr3 t = cr3 s" "hhdm_offset t = hhdm_offset s" "kernel_virtual_base t = kernel_virtual_base s"
    "allocator t = allocator s" "heap_top t = heap_top s" "pagemap t = pagemap s"
    by (subst t, simp add: pagemap_def get_cr3_def get_memory_slide_def)+
qed

lemma percpu_kernel:
  fixes s :: "'a kernel_scheme"
  defines "t \<equiv> setup_bsp_percpu s"
  shows "mem t = mem s" "m_head t = m_head s" "cr3 t = cr3 s" "hhdm_offset t = hhdm_offset s"
    "kernel_virtual_base t = kernel_virtual_base s" "allocator t = allocator s" "heap_top t = heap_top s"
    "pagemap t = pagemap s"
  by (simp_all add: t_def setup_bsp_percpu_def set_gsbase_def wrmsr_def pagemap_def get_cr3_def get_memory_slide_def Let_def)

lemma percpu_more: "kernel.more (setup_bsp_percpu s) = kernel.more s"
  by (simp add: setup_bsp_percpu_def set_gsbase_def wrmsr_def Let_def)

lemma only_mem_more:
  assumes "only_mem s (t :: 'a kernel_scheme)" shows "kernel.more t = kernel.more s"
proof -
  have t: "t = s\<lparr>m_head := m_head t, mem := mem t\<rparr>" using assms by (simp add: only_mem_def)
  show ?thesis by (subst t) simp
qed

text \<open>The address range that is left between the direct map and the kernel image.\<close>

definition free_start :: "u64 \<Rightarrow> memmap_entry list \<Rightarrow> u64" where
  "free_start slide es = align_down (slide + highest_of es 0) PAGE_SIZE"

definition free_end :: "'a machine_scheme \<Rightarrow> u64" where
  "free_end s = align_down (kernel_virtual_base s) PAGE_SIZE"

lemma align_down_page_dvd: "4096 dvd unat (align_down x PAGE_SIZE)"
  using unat_align_down_pow2 [of x 12] by (simp add: PAGE_SIZE_pow2 minus_mod_eq_div_mult)

lemma addresses_ready:
  assumes "allocator s = allocator_init" "unat b + 2 ^ 25 \<le> unat e" "2 ^ 64 - 2 ^ 47 \<le> unat b" "unat e \<le> 2 ^ 64 - 2 ^ 31"
    "4096 dvd unat b" "4096 dvd unat e"
  obtains a where "vma_init b (e - b) (allocator s) = Some a" "vm_free (s\<lparr>allocator := a\<rparr>) {}"
    "\<exists>v a'. alloc_pages 8192 1 a = Some (Some v, a')" "vma_managed a = {unat b ..< unat e}"
proof -
  have d: "unat (e - b) = unat e - unat b" using assms(2) by (simp add: unat_sub_le)
  have dv: "4096 dvd unat (e - b)" unfolding d using assms(5,6) by (rule dvd_diff_nat [OF _ _, rotated]) 
  then have sz: "unat (e - b) div 4096 * 4096 = unat e - unat b" by (simp add: d)
  have pos: "8192 \<le> unat (e - b) div 4096" using assms(2) d by simp
  obtain a where a: "vma_init b (e - b) (allocator s) = Some a" "vma_inv a [0]" "used (ranges a [0]) = {}" "va_base a = b"
    "unat (total_pages a) = unat (e - b) div 4096" "\<not> va_lock a" "ranges a [0] = [(0, (e - b) div PAGE_SIZE, True)]"
    "\<not> pool_empty a"
    using vma_init_inv [of "allocator s" "e - b" b] pos by (auto simp: assms(1) allocator_init_def)
  have top: "unat b + unat (total_pages a) * 4096 = unat e" using a(5) sz assms(2) by simp
  have m: "vma_managed a = {unat b ..< unat e}"
  proof (rule set_eqI)
    fix x
    have "(x - unat b) div 4096 < unat (total_pages a) \<longleftrightarrow> x - unat b < unat (total_pages a) * 4096"
      by (rule div_less_iff_less_mult) simp
    then show "x \<in> vma_managed a \<longleftrightarrow> x \<in> {unat b ..< unat e}"
      using top by (auto simp: vma_managed_def bytes_of_def a(4))
  qed
  have "unat e < 2 ^ 64" using unsigned_less [where ?'a = nat, of e] by simp
  then have "vma_taken a {}"
    unfolding vma_taken_def using a(2-6) assms(5) top by (auto simp: bytes_of_set intro!: exI [of _ "[0]"])
  moreover have "{unat b ..< unat e} \<subseteq> {2 ^ 64 - 2 ^ 47 ..< 2 ^ 64 - 2 ^ 31}" using assms(3,4) by auto
  ultimately have "vm_free (s\<lparr>allocator := a\<rparr>) {}" by (simp add: vm_free_def m)
  moreover have "\<exists>v a'. alloc_pages 8192 1 a = Some (Some v, a')"
    by (rule alloc_pages_succeeds [OF a(2,6) _ a(8)]) (use pos in \<open>simp_all add: a(7) word_le_nat_alt unat_div_page\<close>)
  ultimately show ?thesis using that a(1) m by blast
qed

lemma boot_memory_run:
  fixes s :: "'a kernel_scheme" and es usable
  defines "U \<equiv> usable_blocks usable (hhdm_offset s) es"
  assumes map: "ptrs (length es) = None" "\<And>i. i < length es \<Longrightarrow> ptrs i = Some (es ! i)"
    and fresh: "m_head s = 0" "heap_top s = None" "allocator s = allocator_init"
    and phys: "wf_blocks U" "pt_wf s (pagemap s) (cover U)" "direct_mapped s (cover U)"
    and virt: "2 ^ 64 - 2 ^ 47 \<le> unat (free_start (hhdm_offset s) es)" "unat (free_end s) \<le> 2 ^ 64 - 2 ^ 31"
      "unat (free_start (hhdm_offset s) es) + 2 ^ 25 \<le> unat (free_end s)"
  shows "\<exists>t. boot_memory usable ptrs s = Some t \<and> heap_ok t (cover U) \<and> unat (heap_size t) = 2 ^ 25 \<and>
    cur_top t = heap_base t \<and> vm_free t (byte_span (heap_base t) 8192) \<and> (\<forall>v. translate t (pagemap t) v = translate s (pagemap s) v) \<and>
    byte_span (heap_base t) 8192 \<subseteq> {unat (free_start (hhdm_offset s) es) ..< unat (free_end s)} \<and> blocks_at t U \<and>
    (\<forall>x. unat x \<notin> cover U \<longrightarrow> mem t x = mem s x) \<and> hhdm_offset t = hhdm_offset s \<and> pagemap t = pagemap s \<and>
    kernel.more t = kernel.more s"
proof -
  let ?p = "setup_bsp_percpu s"
  note pk = percpu_kernel [of s]
  have es: "pa_entries ptrs = Some es" by (rule pa_entries_of_list [OF map])
  let ?q = "fla_init usable es ?p"
  have pma: "init_pma usable (Some ptrs) ?p = Some ?q" by (simp add: init_pma_def es)
  note qk = only_mem_boot [OF fla_init_only_mem [of ?p usable es]]
  have blocks: "blocks_at ?q U"
    using fla_init_blocks [of ?p "[]" usable es] fresh(1) phys(1) pk(2,4) by (simp add: blocks_at_def U_def)
  have out: "mem ?q x = mem s x" if "unat x \<notin> cover U" for x
    using fla_init_outside [of usable ?p es x] that phys(1) pk by (simp add: U_def)
  have "pt_wf ?q (pagemap s) (cover U)"
    by (rule walks_unchanged(3) [OF phys(2)]) (use qk pk out in simp_all)
  moreover have "pma_free_at ?q (cover U)" using blocks phys(1) by (auto simp: pma_free_at_def)
  moreover have "direct_mapped ?q (cover U)" using phys(3) qk pk by (simp add: direct_mapped_def)
  ultimately have vm: "vm_ok ?q (pagemap ?q) (cover U)" using qk(6) pk(8) by (simp add: vm_ok_def)
  have tr: "translate ?q (pagemap s) v = translate s (pagemap s) v" for v
    by (rule walks_unchanged(2) [OF phys(2)]) (use qk pk out in simp_all)
  have al: "allocator ?q = allocator_init" using qk(4) pk(6) fresh(3) by simp
  obtain a where a: "vma_init (free_start (hhdm_offset s) es) (free_end s - free_start (hhdm_offset s) es) (allocator ?q) = Some a"
    "vm_free (?q\<lparr>allocator := a\<rparr>) {}" "\<exists>v a'. alloc_pages 8192 1 a = Some (Some v, a')"
    "vma_managed a = {unat (free_start (hhdm_offset s) es) ..< unat (free_end s)}"
    by (rule addresses_ready [OF al virt(3,1,2)]) (auto simp: free_start_def free_end_def align_down_page_dvd)
  let ?r = "?q\<lparr>allocator := a\<rparr>"
  have vma: "init_kernel_virtual_allocator ptrs ?q = Some ?r"
    using a(1) qk(2,3) pk(4,5)
    by (simp add: init_kernel_virtual_allocator_def get_highest_physical_address_def es get_memory_slide_def
        get_kernel_base_address_def free_start_def free_end_def Let_def)
  have vm': "vm_ok ?r (pagemap ?r) (cover U)" using vm by simp
  have top: "heap_top ?r = None" using qk(5) pk(7) fresh(2) by simp
  obtain t where t: "init_heap ?r = Some t" "heap_ok t (cover U)" "unat (heap_size t) = 2 ^ 25" "cur_top t = heap_base t"
    "vm_free t ({} \<union> byte_span (heap_base t) 8192)" "byte_span (heap_base t) 8192 \<subseteq> vma_managed (allocator ?r)"
    using init_heap_run [OF vm' a(2) top] a(3) by auto
  have "\<exists>b v. t = ?r\<lparr>heap_size := 32 * 1024 * 1024, allocator := b, heap_base := v, is_initialized := True\<rparr>"
    using t(1) by (auto simp: init_heap_def allocate_virtual_memory_def Let_def bind_eq_Some_conv check_aligned_def PAGE_SIZE_def
        split: option.splits if_splits)
  then have f: "mem t = mem ?q" "hhdm_offset t = hhdm_offset ?q" "m_head t = m_head ?q" "pagemap t = pagemap ?q"
    "kernel.more t = kernel.more ?q"
    by (auto simp: pagemap_def get_cr3_def get_memory_slide_def)
  moreover have "kernel.more ?q = kernel.more s"
    using fla_init_only_mem [of ?p usable es] percpu_more [of s] by (metis only_mem_more)
  moreover have "blocks_at t U" using blocks f(1-3) by (simp add: blocks_at_def)
  moreover have "translate t (pagemap t) v = translate s (pagemap s) v" for v
    using tr vm_ok_cong(2) [of t ?q] qk(6) pk(8) f by simp
  moreover have "boot_memory usable ptrs s = Some t"
    using pma vma t(1) by (simp add: boot_memory_def Let_def)
  ultimately show ?thesis using t a(4) out qk(2,6) pk(4,8) by (intro exI [of _ t]) auto
qed

section \<open>Properties\<close>


text \<open>A machine with 1 MiB of memory, of which the first two pages hold the root page table.\<close>

definition demo_boot :: kernel where
  "demo_boot = \<lparr>mem = (\<lambda>_. 0), hhdm_offset = 0xFFFF800000000000, kernel_virtual_base = 0xFFFFFFFF80000000,
     cr3 = 0x1000, msrs = (\<lambda>_. 0), percpus = (\<lambda>_. \<lparr>error = MemoryMisaligned\<rparr>), bsp_percpu = 0,
     invlpg_log = [], m_head = 0, allocator = allocator_init, is_initialized = False, heap_base = 0,
     heap_size = 0, heap_top = None\<rparr>"

definition demo_memmap :: "memmap_entry list" where
  "demo_memmap = [\<lparr>base = 0, length_of = 0x2000, entry_type = 1\<rparr>, \<lparr>base = 0x2000, length_of = 0xFE000, entry_type = 0\<rparr>]"

abbreviation demo_ptrs :: "nat \<Rightarrow> memmap_entry option" where
  "demo_ptrs \<equiv> (\<lambda>i. if i < 2 then Some (demo_memmap ! i) else None)"

text \<open>The requirements of booting hold for it and for every state that extends it.\<close>

lemma demo_boot_sane:
  fixes s :: "'a kernel_scheme"
  assumes "kernel.truncate s = demo_boot"
  shows "usable_blocks 0 (hhdm_offset s) demo_memmap = [(0xFFFF800000002000, 0xFE000)]"
    "cover (usable_blocks 0 (hhdm_offset s) demo_memmap) = {0xFFFF800000002000 ..< 0xFFFF800000100000}"
    "wf_blocks (usable_blocks 0 (hhdm_offset s) demo_memmap)"
    "pt_wf s (pagemap s) (cover (usable_blocks 0 (hhdm_offset s) demo_memmap))"
    "direct_mapped s (cover (usable_blocks 0 (hhdm_offset s) demo_memmap))"
    "unat (free_start (hhdm_offset s) demo_memmap) = 0xFFFF800000100000" "unat (free_end s) = 0xFFFFFFFF80000000"
    "m_head s = 0" "heap_top s = None" "allocator s = allocator_init" "pagemap s = 0xFFFF800000001000"
    "table_at s 0xFFFF800000001000 is = Some t \<Longrightarrow> is = [] \<and> t = 0xFFFF800000001000"
proof -
  have f: "mem s = mem demo_boot" "hhdm_offset s = hhdm_offset demo_boot" "kernel_virtual_base s = kernel_virtual_base demo_boot"
    "cr3 s = cr3 demo_boot" "m_head s = m_head demo_boot" "heap_top s = heap_top demo_boot" "allocator s = allocator demo_boot"
    unfolding assms [symmetric] by (simp_all add: kernel.defs)
  show "m_head s = 0" "heap_top s = None" "allocator s = allocator_init" by (simp_all add: f demo_boot_def)
  show u: "usable_blocks 0 (hhdm_offset s) demo_memmap = [(0xFFFF800000002000, 0xFE000)]"
    by (simp add: usable_blocks_def demo_memmap_def demo_boot_def f)
  show r: "pagemap s = 0xFFFF800000001000" by (simp add: pagemap_def get_cr3_def get_memory_slide_def f demo_boot_def)
  show A: "cover (usable_blocks 0 (hhdm_offset s) demo_memmap) = {0xFFFF800000002000 ..< 0xFFFF800000100000}"
    by (simp add: u span_def)
  show top: "is = [] \<and> t = 0xFFFF800000001000" if "table_at s 0xFFFF800000001000 is = Some t" for "is" t
    using that by (cases "is") (simp_all add: f demo_boot_def)
  have g: "good_table (cover (usable_blocks 0 (hhdm_offset s) demo_memmap)) 0xFFFF800000001000"
    by (auto simp: good_table_def fits_def span_def A)
  show "pt_wf s (pagemap s) (cover (usable_blocks 0 (hhdm_offset s) demo_memmap))"
    unfolding r by (rule pt_wfI) (use top g in blast)+
  show "wf_blocks (usable_blocks 0 (hhdm_offset s) demo_memmap)" by (simp add: u wf_blocks_Cons wf_block_def fits_def)
  show "direct_mapped s (cover (usable_blocks 0 (hhdm_offset s) demo_memmap))"
    unfolding direct_mapped_def A by (auto simp: f demo_boot_def)
  show "unat (free_start (hhdm_offset s) demo_memmap) = 0xFFFF800000100000" "unat (free_end s) = 0xFFFFFFFF80000000"
    by (simp_all add: free_start_def free_end_def demo_memmap_def demo_boot_def f align_down_def PAGE_SIZE_def)
qed


end
