(* ===== verification/Dl_Sizes.thy ===== *)
theory Dl_Sizes
  imports Dl_Chunks
begin

text \<open>
  Sizes and indices of \<open>lib/dlmalloc/malloc.c\<close>: what padding a request gives, the bin of a
  size against a logarithm, the order of the bins, and the bit map.
\<close>

unbundle bit_operations_syntax

section \<open>Constants as numbers\<close>

lemma mask_15: "(15 :: u64) = mask 4"
  by (simp add: mask_eq_exp_minus_1)

named_theorems dl_consts \<open>the constants of the allocator\<close>

lemma dl_const_values [dl_consts]:
  "SIZE_SZ = 8" "MALLOC_ALIGNMENT = 16" "MALLOC_ALIGN_MASK = 15" "MINSIZE = 32"
  "PREV_INUSE = 1" "IS_MMAPPED = 2" "SIZE_BITS = 3" "NBINS = 96" "NSMALLBINS = 32"
  "MIN_LARGE_SIZE = 256" "FIRST_SORTED_BIN_SIZE = 256" "MIN_CHUNK_SIZE = 32"
  "BINMAPSIZE = 3" "BITSPERMAP = 32" "BINMAPSHIFT = 5" "MAX_FAST_SIZE = 80" "SMALLBIN_WIDTH = 8"
  by (simp_all add: SIZE_SZ_def MALLOC_ALIGNMENT_def MALLOC_ALIGN_MASK_def MINSIZE_def
      MIN_CHUNK_SIZE_def PREV_INUSE_def IS_MMAPPED_def SIZE_BITS_def NBINS_def NSMALLBINS_def
      MIN_LARGE_SIZE_def FIRST_SORTED_BIN_SIZE_def BINMAPSIZE_def BITSPERMAP_def BINMAPSHIFT_def
      MAX_FAST_SIZE_def SMALLBIN_WIDTH_def)

lemma unat_and_not_15 [mask_simps]: "unat ((x::u64) AND NOT 15) = unat x - unat x mod 16"
  using unat_and_not_mask [of x 4] by (simp add: mask_15 [symmetric])

lemma and_15_eq_0: "(x::u64) AND 15 = 0 \<longleftrightarrow> 16 dvd unat x"
  using and_mask_zero_iff [of x 4] by (simp add: mask_15 [symmetric])

section \<open>Requests\<close>

lemma request_out_of_range: "REQUEST_OUT_OF_RANGE req \<longleftrightarrow> unat req \<ge> 2 ^ 64 - 64"
  by (simp add: REQUEST_OUT_OF_RANGE_def dl_consts word_le_nat_alt)

lemma unat_request2size:
  assumes "unat req < 2 ^ 64 - 64"
  shows "unat (request2size req) = max 32 ((unat req + 23) div 16 * 16)"
proof -
  have 1: "unat (req + 8 + 15) = unat req + 23"
    using assms by (simp add: unat_add_nowrap)
  have 2: "(req + 8 + 15 < 32) = (unat req < 9)"
    using assms by (simp only: word_less_nat_alt 1) simp
  have r: "request2size req = (if unat req < 9 then 32 else (req + 8 + 15) AND NOT 15)"
    by (simp only: request2size_def dl_consts 2)
  have 3: "unat req + 23 - (unat req + 23) mod 16 = (unat req + 23) div 16 * 16"
    by (simp add: minus_mod_eq_div_mult)
  show ?thesis
  proof (cases "unat req < 9")
    case True
    then have "(unat req + 23) div 16 * 16 \<le> 32" by simp
    then show ?thesis using True by (simp add: r)
  next
    case False
    then have "(unat req + 23) div 16 * 16 \<ge> 32" by simp
    moreover have "request2size req = (req + 8 + 15) AND NOT 15" using False r by simp
    ultimately show ?thesis
      by (simp only: unat_and_not_15 1 3)
  qed
qed

text \<open>What a normalised request size promises.\<close>

definition chunk_size_ok :: "u64 \<Rightarrow> bool" where
  "chunk_size_ok nb \<longleftrightarrow> 32 \<le> unat nb \<and> 16 dvd unat nb"

lemma request2size_ok:
  assumes "unat req < 2 ^ 64 - 64"
  shows "chunk_size_ok (request2size req)" "unat req + 8 \<le> unat (request2size req)"
    "unat (request2size req) \<le> max 32 (unat req + 23)"
proof -
  show "chunk_size_ok (request2size req)"
    unfolding chunk_size_ok_def unat_request2size [OF assms] by (simp add: max_def)
  have "unat req + 23 < (unat req + 23) div 16 * 16 + 16" by presburger
  then show "unat req + 8 \<le> unat (request2size req)"
    unfolding unat_request2size [OF assms] by simp
  show "unat (request2size req) \<le> max 32 (unat req + 23)"
    unfolding unat_request2size [OF assms] by (intro max.mono order_refl div_times_less_eq_dividend)
qed

text \<open>
  C40: Padding a request gives the least legal chunk size that holds it: it is refused exactly
  when it is within 64 bytes of the end of the address space; otherwise the size is a multiple of
  16, at least \<open>MINSIZE\<close>, leaves the requested bytes next to one word of overhead, is at most
  every other such size, and can still grow by \<open>MINSIZE\<close> without wrapping.
\<close>

theorem request2size_least:
  "case checked_request2size req of
     None \<Rightarrow> unat req \<ge> 2 ^ 64 - 64
   | Some nb \<Rightarrow> unat req < 2 ^ 64 - 64 \<and> unat nb mod 16 = 0 \<and> 32 \<le> unat nb \<and> unat req + 8 \<le> unat nb \<and>
       (\<forall>n. n mod 16 = 0 \<and> 32 \<le> n \<and> unat req + 8 \<le> n \<longrightarrow> unat nb \<le> n) \<and>
       unat (nb + MINSIZE) = unat nb + 32"
proof (cases "unat req < 2 ^ 64 - 64")
  case False
  then show ?thesis by (simp add: checked_request2size_def request_out_of_range)
next
  case True
  note r = request2size_ok [OF True]
  have least: "unat (request2size req) \<le> n" if n: "n mod 16 = 0" "32 \<le> n" "unat req + 8 \<le> n" for n
  proof -
    obtain k where k: "n = 16 * k" using n(1) by auto
    have "(unat req + 23) div 16 < k + 1" using n(3) k by (subst div_less_iff_less_mult) simp_all
    then have "(unat req + 23) div 16 * 16 \<le> n" using k by simp
    then show ?thesis using n unfolding unat_request2size [OF True] by simp
  qed
  have "unat (request2size req) + 32 < 2 ^ 64" using r(3) True by simp
  then have "unat (request2size req + MINSIZE) = unat (request2size req) + 32"
    by (simp add: dl_consts unat_add_nowrap)
  then show ?thesis using True r least
    by (auto simp: checked_request2size_def request_out_of_range chunk_size_ok_def)
qed

theorem request2size_least_witness: "checked_request2size 100 = Some 112 \<and> unat (112 + MINSIZE) = 144"
proof -
  have e: "checked_request2size 100 = Some 112"
    by (simp add: checked_request2size_def REQUEST_OUT_OF_RANGE_def request2size_def dl_consts)
  then show ?thesis using request2size_least [of 100] by simp
qed

text \<open>
  Taking the alignment mask off a legal chunk size and padding it again gives the same size:
  the retry of \<open>sYSMALLOc\<close> and the new block of \<open>rEALLOc\<close> ask for the size already computed.
\<close>

lemma request2size_again:
  assumes "chunk_size_ok nb" "unat nb < 2 ^ 64 - 64"
  shows "checked_request2size (nb - MALLOC_ALIGN_MASK) = Some nb"
proof -
  have 1: "unat (nb - 15) = unat nb - 15"
    using assms by (simp add: chunk_size_ok_def unat_sub_le)
  have 2: "unat (nb - 15) < 2 ^ 64 - 64" using assms by (simp add: 1)
  obtain k where k: "unat nb = 16 * k" using assms(1) by (auto simp: chunk_size_ok_def)
  have "unat (request2size (nb - 15)) = max 32 ((unat nb + 8) div 16 * 16)"
    using assms(1) unat_request2size [OF 2] by (simp add: 1 chunk_size_ok_def add.commute)
  also have "\<dots> = unat nb" using assms(1) by (simp add: k chunk_size_ok_def)
  finally have "request2size (nb - 15) = nb" by (simp only: word_unat_eq_iff)
  then show ?thesis using 2
    by (simp add: checked_request2size_def request_out_of_range dl_consts)
qed

section \<open>The index of a large bin\<close>

lemma unat_drop: "unat (drop_bit n (x::'a::len word)) = unat x div 2 ^ n"
  by (simp only: unat_drop_bit_eq, simp only: drop_bit_eq_div)

lemma top_bit_step:
  assumes "unat x < 2 ^ 16" "unat c \<le> 2 ^ 16" "b = 8 \<or> b = 4 \<or> b = 2"
  shows "drop_bit 16 (x - c) AND b = (if x < c then b else (0 :: u32))"
proof (cases "x < c")
  case True
  then have "unat x < unat c" by (simp add: word_less_nat_alt)
  then have u: "unat (x - c) = 2 ^ 32 - (unat c - unat x)"
    by (simp add: unat_sub_if_size word_size)
  have "unat (drop_bit 16 (x - c)) = 65535"
    unfolding unat_drop u using assms(1,2) \<open>unat x < unat c\<close> by simp
  then have "drop_bit 16 (x - c) = 65535"
    by (simp add: word_unat_eq_iff)
  then show ?thesis using True assms(3) by auto
next
  case False
  then have "unat c \<le> unat x" by (simp add: word_less_nat_alt)
  then have u: "unat (x - c) = unat x - unat c"
    by (simp add: unat_sub_if_size word_size)
  have "unat (drop_bit 16 (x - c)) = 0"
    unfolding unat_drop u using assms(1) by simp
  then have "drop_bit 16 (x - c) = 0" by (simp add: word_unat_eq_iff)
  then show ?thesis using False by simp
qed

lemma unat_push_bit_le:
  assumes "unat (x::u32) * 2 ^ n < 2 ^ 32"
  shows "unat (push_bit n x) = unat x * 2 ^ n"
proof -
  have "unat (push_bit n x) = take_bit 32 (push_bit n (unat x))"
    by (simp only: unsigned_push_bit_eq) simp
  then show ?thesis using assms by (simp only: take_bit_eq_mod push_bit_eq_mult) simp
qed

text \<open>The position of the highest bit that the branch-free code computes.\<close>

definition high_bit :: "u32 \<Rightarrow> u32" where
  "high_bit x =
     (let n = drop_bit 16 (x - 0x100) AND 8;
          x = push_bit (unat n) x;
          m = drop_bit 16 (x - 0x1000) AND 4;
          n = n + m;
          x = push_bit (unat m) x;
          m = drop_bit 16 (x - 0x4000) AND 2;
          n = n + m;
          x = drop_bit 14 (push_bit (unat m) x)
      in 13 - n + (x AND NOT (drop_bit 1 x)))"

lemma largebin_index_high_bit:
  "largebin_index sz =
     (let x = drop_bit 8 sz in
      if x \<ge> 0x10000 then 96 - 1
      else 32 + push_bit 2 (high_bit x) + (drop_bit (unat (high_bit x + 6)) sz AND 3))"
  unfolding largebin_index_def high_bit_def Let_def dl_consts by (rule refl)

lemma high_bit_last:
  assumes "2 ^ 14 \<le> unat (y :: u32)" "unat y < 2 ^ 16"
  shows "drop_bit 14 y AND NOT (drop_bit 1 (drop_bit 14 y)) = (if unat y < 2 ^ 15 then 1 else 2)"
proof -
  define z where "z = drop_bit 14 y"
  have z: "unat z = unat y div 2 ^ 14"
    by (simp only: z_def unat_drop)
  consider "unat z = 1" "unat y < 2 ^ 15" | "unat z = 2" "\<not> unat y < 2 ^ 15" | "unat z = 3" "\<not> unat y < 2 ^ 15"
    using assms z by fastforce
  then have "z AND NOT (drop_bit 1 z) = (if unat y < 2 ^ 15 then 1 else 2)"
  proof cases
    case 1 then have "z = 1" by (simp add: word_unat_eq_iff)
    then show ?thesis using 1 by simp
  next
    case 2 then have "z = 2" by (simp add: word_unat_eq_iff)
    then show ?thesis using 2 by simp
  next
    case 3 then have "z = 3" by (simp add: word_unat_eq_iff)
    then show ?thesis using 3 by simp
  qed
  then show ?thesis by (simp add: z_def)
qed

lemma high_bit:
  assumes "2 ^ m \<le> unat x" "unat x < 2 ^ Suc m" "m < 16"
  shows "high_bit x = of_nat m"
proof -
  have x: "unat x < 2 ^ 16"
    using assms(2,3) power_increasing [of "Suc m" 16 "2::nat"] by simp
  define n1 :: u32 where "n1 = (if x < 0x100 then 8 else 0)"
  define x1 where "x1 = push_bit (unat n1) x"
  define n2 :: u32 where "n2 = (if x1 < 0x1000 then 4 else 0)"
  define x2 where "x2 = push_bit (unat n2) x1"
  define n3 :: u32 where "n3 = (if x2 < 0x4000 then 2 else 0)"
  define x3 where "x3 = push_bit (unat n3) x2"
  have u1: "unat x1 = unat x * 2 ^ unat n1" "unat x1 < 2 ^ 16"
    using x by (auto simp: x1_def n1_def word_less_nat_alt unat_push_bit_le)
  have u2: "unat x2 = unat x1 * 2 ^ unat n2" "unat x2 < 2 ^ 16"
    using u1(2) by (auto simp: x2_def n2_def word_less_nat_alt unat_push_bit_le)
  have u3: "unat x3 = unat x2 * 2 ^ unat n3" "unat x3 < 2 ^ 16"
    using u2(2) by (auto simp: x3_def n3_def word_less_nat_alt unat_push_bit_le)
  have d1: "drop_bit 16 (x - 0x100) AND 8 = n1"
    using x by (simp add: top_bit_step n1_def)
  have d2: "drop_bit 16 (x1 - 0x1000) AND 4 = n2"
    using u1(2) by (simp add: top_bit_step n2_def)
  have d3: "drop_bit 16 (x2 - 0x4000) AND 2 = n3"
    using u2(2) by (simp add: top_bit_step n3_def)
  have h: "high_bit x = 13 - (n1 + n2 + n3) + (drop_bit 14 x3 AND NOT (drop_bit 1 (drop_bit 14 x3)))"
    unfolding high_bit_def Let_def d1 x1_def [symmetric] d2 x2_def [symmetric] d3 x3_def [symmetric]
    by (rule refl)
  have cases16: "m \<in> set [0..<16]" using assms(3) by simp
  have "2 ^ 14 \<le> unat x3 \<and> 13 - (n1 + n2 + n3) + (if unat x3 < 2 ^ 15 then 1 else 2) = of_nat m"
    using cases16 assms(1,2)
    by (simp add: upt_rec numeral_2_eq_2 [symmetric])
       (elim disjE; simp add: u3(1) u2(1) u1(1) n3_def n2_def n1_def word_less_nat_alt)
  then show ?thesis using h high_bit_last [of x3] u3(2) by simp
qed

lemma largebin_index_eq:
  assumes "8 \<le> e" "2 ^ e \<le> unat sz" "unat sz < 2 ^ Suc e"
  shows "unat (largebin_index sz) =
    (if e < 24 then 32 + 4 * (e - 8) + (unat sz div 2 ^ (e - 2)) mod 4 else 95)"
proof (cases "e < 24")
  case False
  have "(2::nat) ^ 24 \<le> 2 ^ e" using False by (intro power_increasing) auto
  then have "2 ^ 24 \<le> unat sz" using assms(2) by linarith
  then have "0x10000 \<le> drop_bit 8 sz" by (simp add: word_le_nat_alt unat_drop)
  then show ?thesis using False by (simp add: largebin_index_high_bit)
next
  case True
  define x where "x = drop_bit 8 sz"
  have e: "(2::nat) ^ e = 2 ^ (e - 8) * 2 ^ 8" "(2::nat) ^ Suc e = 2 ^ Suc (e - 8) * 2 ^ 8"
    using assms(1) by (metis le_add_diff_inverse2 power_add, metis le_add_diff_inverse2 mult.assoc power_Suc power_add)
  have x: "2 ^ (e - 8) \<le> unat x" "unat x < 2 ^ Suc (e - 8)"
    using assms(2,3) unfolding e x_def unat_drop
    by (simp_all add: less_eq_div_iff_mult_less_eq div_less_iff_less_mult)
  have h: "high_bit x = of_nat (e - 8)" using high_bit [OF x] True by simp
  have "(2::nat) ^ Suc (e - 8) \<le> 2 ^ 16" using True by (intro power_increasing) auto
  then have small: "\<not> 0x10000 \<le> x" using x(2) by (simp add: word_le_nat_alt)
  have m: "unat (of_nat (e - 8) :: u32) = e - 8" "unat (of_nat (e - 8) + 6 :: u32) = e - 2"
  proof -
    define k where "k = e - 8"
    then have k: "e = k + 8" "k < 16" using True assms(1) by simp_all
    show "unat (of_nat (e - 8) :: u32) = e - 8" "unat (of_nat (e - 8) + 6 :: u32) = e - 2"
      using k by (simp_all add: unat_of_nat unat_plus_if' word_size)
  qed
  have p: "unat (push_bit 2 (of_nat (e - 8) :: u32)) = 4 * (e - 8)"
    using unat_push_bit_le [of "of_nat (e - 8)" 2] m True by simp
  have q: "unat (drop_bit (e - 2) sz AND 3) = unat sz div 2 ^ (e - 2) mod 4"
    using unat_and_mask [of "drop_bit (e - 2) sz" 2] unat_drop [of "e - 2" sz]
    by (simp add: mask_eq_exp_minus_1)
  have "unat (32 + push_bit 2 (of_nat (e - 8)) + (drop_bit (e - 2) sz AND 3) :: u32)
      = 32 + 4 * (e - 8) + unat sz div 2 ^ (e - 2) mod 4"
  proof -
    define r where "r = unat sz div 2 ^ (e - 2) mod 4"
    have "r < 4" by (simp add: r_def)
    then show ?thesis using p q [folded r_def] True
      by (simp add: unat_plus_if' word_size flip: r_def)
  qed
  then show ?thesis using True small
    by (simp add: largebin_index_high_bit h m(2) flip: x_def)
qed

text \<open>
  The index of a large bin: a size between 256 bytes and 16 MiB with highest bit \<open>e\<close> goes to
  one of the four bins of that power of two, chosen by the next two bits; every larger size goes
  to the last bin. The branch-free code computes exactly this.
\<close>

lemma largebin_index_log:
  assumes "8 \<le> e" "2 ^ e \<le> unat sz" "unat sz < 2 ^ Suc e"
  shows "unat (largebin_index sz) =
    (if e < 24 then 32 + 4 * (e - 8) + (unat sz div 2 ^ (e - 2)) mod 4 else 95)"
  by (rule largebin_index_eq [OF assms])

lemma largebin_index_log_witness:
  "unat (largebin_index 1000) = 32 + 4 * 1 + (1000 div 2 ^ 7) mod 4"
  using largebin_index_log [of 9 1000] by simp

section \<open>Bins in order of size\<close>

lemma unat_narrow: "unat (x :: u64) < 2 ^ 32 \<Longrightarrow> unat (ucast x :: u32) = unat x"
  by (simp add: unsigned_ucast_eq take_bit_nat_eq_self)

lemma high_bit_exists: "0 < n \<Longrightarrow> \<exists>e. 2 ^ e \<le> n \<and> n < (2::nat) ^ Suc e"
  using ex_power_ivl1 [of 2 n] by auto

lemma smallbin_index_div:
  assumes "unat sz < 2 ^ 32"
  shows "unat (smallbin_index sz) = unat sz div 8"
  using assms by (simp add: smallbin_index_def unat_drop unat_narrow)

lemma bin_index_small:
  "unat sz < 256 \<Longrightarrow> unat (bin_index sz) = unat sz div 8"
  by (simp add: bin_index_def in_smallbin_range_def dl_consts word_less_nat_alt smallbin_index_div)

lemma bin_index_large:
  assumes "8 \<le> e" "2 ^ e \<le> unat sz" "unat sz < 2 ^ Suc e" "unat sz < 2 ^ 32"
  shows "unat (bin_index sz) =
    (if e < 24 then 32 + 4 * (e - 8) + (unat sz div 2 ^ (e - 2)) mod 4 else 95)"
proof -
  have "(2::nat) ^ 8 \<le> 2 ^ e" using assms(1) by (intro power_increasing) auto
  then have "\<not> in_smallbin_range sz"
    using assms(2) by (simp add: in_smallbin_range_def dl_consts word_less_nat_alt)
  moreover have "unat (ucast sz :: u32) = unat sz" using assms(4) by (rule unat_narrow)
  ultimately show ?thesis
    using largebin_index_eq [of e "ucast sz"] assms by (simp add: bin_index_def)
qed

lemma quarter:
  assumes "8 \<le> e" "2 ^ e \<le> n" "n < 2 ^ Suc e"
  shows "n div 2 ^ (e - 2) mod 4 = n div 2 ^ (e - 2) - 4" "4 \<le> n div 2 ^ (e - 2)" "n div 2 ^ (e - 2) < (8::nat)"
proof -
  have e: "(2::nat) ^ e = 4 * 2 ^ (e - 2)" "(2::nat) ^ Suc e = 8 * 2 ^ (e - 2)"
  proof -
    define k where "k = e - 2"
    then have "e = k + 2" using assms(1) by simp
    then show "(2::nat) ^ e = 4 * 2 ^ (e - 2)" "(2::nat) ^ Suc e = 8 * 2 ^ (e - 2)"
      by (simp_all add: power_add)
  qed
  show 4: "4 \<le> n div 2 ^ (e - 2)" and 8: "n div 2 ^ (e - 2) < 8"
    using assms(2,3) unfolding e by (simp_all add: less_eq_div_iff_mult_less_eq div_less_iff_less_mult)
  show "n div 2 ^ (e - 2) mod 4 = n div 2 ^ (e - 2) - 4"
    using 4 8 by (simp add: le_mod_geq)
qed

lemma bin_index_range:
  assumes "32 \<le> unat sz" "unat sz < 2 ^ 32"
  shows "4 \<le> unat (bin_index sz)" "unat (bin_index sz) < 96"
    "256 \<le> unat sz \<Longrightarrow> 32 \<le> unat (bin_index sz)"
    "unat sz < 256 \<Longrightarrow> unat (bin_index sz) < 32"
proof -
  have "(4 \<le> unat (bin_index sz) \<and> unat (bin_index sz) < 96) \<and>
    (256 \<le> unat sz \<longrightarrow> 32 \<le> unat (bin_index sz)) \<and> (unat sz < 256 \<longrightarrow> unat (bin_index sz) < 32)"
  proof (cases "unat sz < 256")
    case True
    then have "4 \<le> unat sz div 8" "unat sz div 8 < 32"
      using assms(1) by (simp_all add: less_eq_div_iff_mult_less_eq div_less_iff_less_mult)
    then show ?thesis using True bin_index_small [OF True] by simp
  next
    case False
    obtain e where e: "2 ^ e \<le> unat sz" "unat sz < 2 ^ Suc e"
      using high_bit_exists [of "unat sz"] assms(1) by (auto simp del: power_Suc)
    have "8 \<le> e"
    proof (rule ccontr)
      assume "\<not> 8 \<le> e"
      then have "(2::nat) ^ Suc e \<le> 2 ^ 8" by (intro power_increasing) auto
      then show False using e(2) False by simp
    qed
    define q where "q = unat sz div 2 ^ (e - 2) mod 4"
    have "q < 4" by (simp add: q_def)
    then have "4 * (e - 8) + q < 64" if "e < 24" using that \<open>8 \<le> e\<close> by linarith
    then show ?thesis
      using bin_index_large [OF \<open>8 \<le> e\<close> e assms(2), folded q_def] False by simp
  qed
  then show "4 \<le> unat (bin_index sz)" "unat (bin_index sz) < 96"
    "256 \<le> unat sz \<Longrightarrow> 32 \<le> unat (bin_index sz)"
    "unat sz < 256 \<Longrightarrow> unat (bin_index sz) < 32" by auto
qed

lemma bin_index_le:
  assumes "unat a \<le> unat b" "unat b < 2 ^ 32" "32 \<le> unat a"
  shows "unat (bin_index a) \<le> unat (bin_index b)"
proof (cases "unat a < 256")
  case True
  show ?thesis
  proof (cases "unat b < 256")
    case True
    then show ?thesis using assms(1) \<open>unat a < 256\<close> by (simp add: bin_index_small div_le_mono)
  next
    case False
    then show ?thesis
      using bin_index_range(4) [of a] bin_index_range(3) [of b] True assms by simp
  qed
next
  case False
  have log: "\<exists>e. 2 ^ e \<le> unat x \<and> unat x < 2 ^ Suc e \<and> 8 \<le> e" if "256 \<le> unat x" for x :: u64
  proof -
    have "0 < unat x" using that by linarith
    then obtain e where e: "2 ^ e \<le> unat x" "unat x < 2 ^ Suc e"
      using high_bit_exists by blast
    have "8 \<le> e"
    proof (rule ccontr)
      assume "\<not> 8 \<le> e"
      then have "(2::nat) ^ Suc e \<le> 2 ^ 8" by (intro power_increasing) auto
      then show False using e(2) that by simp
    qed
    then show ?thesis using e by blast
  qed
  obtain e where e: "2 ^ e \<le> unat a" "unat a < 2 ^ Suc e" "8 \<le> e" using log [of a] False by auto
  obtain f where f: "2 ^ f \<le> unat b" "unat b < 2 ^ Suc f" "8 \<le> f" using log [of b] False assms(1) by auto
  have a32: "unat a < 2 ^ 32" using assms by simp
  note ia = bin_index_large [OF e(3,1,2) a32] and ib = bin_index_large [OF f(3,1,2) assms(2)]
  have "(2::nat) ^ e < 2 ^ Suc f" using e(1) f(2) assms(1) by linarith
  then have "e \<le> f" by (simp add: power_strict_increasing_iff less_Suc_eq_le del: power_Suc)
  show ?thesis
  proof (cases "e = f")
    case True
    have "unat a div 2 ^ (e - 2) \<le> unat b div 2 ^ (e - 2)" using assms(1) by (rule div_le_mono)
    then show ?thesis using ia ib True quarter [OF e(3,1,2)] quarter [OF f(3,1,2)] by simp
  next
    case False
    define q where "q = unat a div 2 ^ (e - 2) mod 4"
    have "q < 4" by (simp add: q_def)
    then have "4 * (e - 8) + q \<le> 4 * (f - 8)" "e < 24 \<Longrightarrow> 4 * (e - 8) + q \<le> 63"
      using False \<open>e \<le> f\<close> e(3) by linarith+
    then show ?thesis using ia [folded q_def] ib by (simp add: trans_le_add1)
  qed
qed

text \<open>
  A larger size never goes to a lower bin, for sizes below 4 GiB; so every chunk in a higher
  bin than that of a request is larger than the request, on which the best-fit search relies.
\<close>

lemma bin_index_mono:
  assumes "unat a \<le> unat b" "unat b < 2 ^ 32" "32 \<le> unat a"
  shows "unat (bin_index a) \<le> unat (bin_index b)"
  by (rule bin_index_le [OF assms])

lemma bin_index_mono_witness:
  "unat (bin_index 1000) \<le> unat (bin_index 70000)"
  by (rule bin_index_mono) simp_all

lemma bin_index_above:
  assumes "unat (bin_index a) < unat (bin_index b)" "unat a < 2 ^ 32" "32 \<le> unat b"
  shows "unat a < unat b"
proof (rule ccontr)
  assume "\<not> ?thesis"
  then show False using bin_index_le [of b a] assms by simp
qed

section \<open>The bit map\<close>

lemma idx2bit_pow: "idx2bit i = 2 ^ (unat i mod 32)"
proof -
  have "unat (i AND 31) = unat i mod 32"
    using unat_and_mask [of i 5] by (simp add: mask_eq_exp_minus_1)
  then show ?thesis by (simp add: idx2bit_def dl_consts push_bit_eq_mult)
qed

lemma unat_idx2block: "unat (idx2block i) = unat i div 32"
  by (simp add: idx2block_def dl_consts unat_drop)

lemma bit_idx2bit: "bit (idx2bit i) n \<longleftrightarrow> n = unat i mod 32"
proof -
  have "unat i mod 32 < 32" by simp
  then show ?thesis by (auto simp: idx2bit_pow bit_simps)
qed

lemma and_idx2bit: "w AND idx2bit i = 0 \<longleftrightarrow> \<not> bit w (unat i mod 32)"
  by (simp add: idx2bit_pow and_exp_eq_0_iff_not_bit)

lemma bin_in_map: "unat i < 96 \<Longrightarrow> idx2block i < BINMAPSIZE + 1"
  by (simp add: dl_consts word_less_nat_alt unat_idx2block less_mult_imp_div_less)

text \<open>Whether the map says that bin \<open>i\<close> may hold a chunk.\<close>

definition marked :: "'a malloc_state_scheme \<Rightarrow> nat \<Rightarrow> bool" where
  "marked s i \<longleftrightarrow> bit (binmap s (i div 32)) (i mod 32)"

lemma get_binmap_marked:
  "unat i < 96 \<Longrightarrow> \<exists>w. get_binmap s i = Some w \<and> (w \<noteq> 0 \<longleftrightarrow> marked s (unat i))"
  by (simp add: get_binmap_def read_binmap_def bin_in_map unat_idx2block marked_def and_idx2bit)

lemma mark_bin_run:
  assumes "unat i < 96"
  shows "mark_bin i s = Some (s\<lparr>binmap := (binmap s)(unat i div 32 := binmap s (unat i div 32) OR idx2bit i)\<rparr>)"
  using assms by (simp add: mark_bin_def read_binmap_def write_binmap_def bin_in_map unat_idx2block)

lemma same_place: "j div 32 = k div 32 \<Longrightarrow> j mod 32 = k mod 32 \<Longrightarrow> j = (k::nat)"
  by (metis div_mult_mod_eq)

lemma marked_or:
  "marked (s\<lparr>binmap := (binmap s)(unat i div 32 := binmap s (unat i div 32) OR idx2bit i)\<rparr>) j
     \<longleftrightarrow> marked s j \<or> j = unat i"
  by (auto simp: marked_def bit_or_iff bit_idx2bit dest: same_place)

lemma marked_and:
  "marked (s\<lparr>binmap := (binmap s)(unat i div 32 := binmap s (unat i div 32) AND NOT (idx2bit i))\<rparr>) j
     \<longleftrightarrow> marked s j \<and> j \<noteq> unat i"
  by (auto simp: marked_def bit_and_iff bit_not_iff bit_idx2bit dest: same_place bit_imp_le_length)

end
