(* ===== verification/Dl_Ring.thy ===== *)
theory Dl_Ring
  imports Dl_Free
begin

text \<open>
  The linked structures of the allocator: the circular doubly linked list of a bin, whose head is
  the bin itself, and the singly linked list of a fast bin. Each is related to the list of its
  chunks; \<open>unlink\<close> and the stores that insert a chunk are shown to be removal and insertion.
\<close>

unbundle bit_operations_syntax

section \<open>Segments of a ring\<close>

text \<open>The links from \<open>a\<close> through the chunks \<open>xs\<close> to \<open>b\<close>, in both directions.\<close>

fun links :: "qmem \<Rightarrow> u64 \<Rightarrow> u64 list \<Rightarrow> u64 \<Rightarrow> bool" where
  "links m a [] b \<longleftrightarrow> m (a + 16) = b \<and> m (b + 24) = a"
| "links m a (x # xs) b \<longleftrightarrow> m (a + 16) = x \<and> m (x + 24) = a \<and> links m x xs b"

text \<open>The words a link may occupy: \<open>fd\<close> and \<open>bk\<close> of a list of nodes.\<close>

definition link_words :: "u64 set \<Rightarrow> u64 set" where
  "link_words A = (\<lambda>p. p + 16) ` A \<union> (\<lambda>p. p + 24) ` A"

lemma link_words_mono: "A \<subseteq> B \<Longrightarrow> link_words A \<subseteq> link_words B"
  by (auto simp: link_words_def)

lemma link_words_in [intro]: "p \<in> A \<Longrightarrow> p + 16 \<in> link_words A" "p \<in> A \<Longrightarrow> p + 24 \<in> link_words A"
  by (auto simp: link_words_def)

definition ring :: "qmem \<Rightarrow> u64 \<Rightarrow> u64 list \<Rightarrow> bool" where
  "ring m b xs \<longleftrightarrow> links m b xs b \<and> distinct (b # xs)"

lemma links_append: "links m a (xs @ x # ys) b \<longleftrightarrow> links m a xs x \<and> links m x ys b"
  by (induction xs arbitrary: a) auto

lemma links_frame:
  assumes "links m a xs b" "\<And>p. p \<in> insert a (set xs) \<Longrightarrow> m' (p + 16) = m (p + 16)"
    "\<And>p. p \<in> insert b (set xs) \<Longrightarrow> m' (p + 24) = m (p + 24)"
  shows "links m' a xs b"
  using assms by (induction xs arbitrary: a) auto

lemma ring_frame:
  assumes "ring m b xs" "\<And>a. a \<in> link_words (insert b (set xs)) \<Longrightarrow> m' a = m a"
  shows "ring m' b xs"
  using assms by (auto simp: ring_def link_words_def intro!: links_frame [of m])

lemma links_first: "links m a xs b \<Longrightarrow> m (a + 16) = (case xs of [] \<Rightarrow> b | x # _ \<Rightarrow> x)"
  by (cases xs) auto

lemma links_last: "links m a xs b \<Longrightarrow> m (b + 24) = (if xs = [] then a else last xs)"
  by (induction xs arbitrary: a) auto

lemma ring_first: "ring m b xs \<Longrightarrow> m (b + 16) = (case xs of [] \<Rightarrow> b | x # _ \<Rightarrow> x)"
  by (simp add: ring_def links_first)

lemma ring_last: "ring m b xs \<Longrightarrow> m (b + 24) = (if xs = [] then b else last xs)"
  by (simp add: ring_def links_last)

lemma ring_empty_iff: "ring m b xs \<Longrightarrow> m (b + 24) = b \<longleftrightarrow> xs = []"
  by (auto simp: ring_last ring_def)

section \<open>Removing and inserting a node\<close>

text \<open>A rewriting of the first link of a segment, and of its last one.\<close>

lemma links_set_last:
  assumes "links m a xs x" "m' (last (a # xs) + 16) = b" "m' (b + 24) = last (a # xs)"
    "\<And>p. p \<in> insert a (set xs) \<Longrightarrow> p \<noteq> last (a # xs) \<Longrightarrow> m' (p + 16) = m (p + 16)"
    "\<And>p. p \<in> set xs \<Longrightarrow> m' (p + 24) = m (p + 24)" "distinct (a # xs)"
  shows "links m' a xs b"
  using assms
proof (induction xs arbitrary: a)
  case (Cons y ys)
  have "a \<noteq> last (y # ys)" using Cons.prems(6) by (metis distinct.simps(2) last_in_set list.distinct(1))
  then have "m' (a + 16) = y" using Cons.prems(1,4) by auto
  moreover have "m' (y + 24) = a" using Cons.prems(1,5) by auto
  moreover have "links m' y ys b"
    using Cons.prems by (intro Cons.IH) auto
  ultimately show ?case by simp
qed auto

lemma links_join:
  assumes "links m a (xs @ x # ys) b"
    and "m' (last (a # xs) + 16) = hd (ys @ [b])" "m' (hd (ys @ [b]) + 24) = last (a # xs)"
    and "\<And>p. p \<in> insert a (set xs \<union> set ys) \<Longrightarrow> p \<noteq> last (a # xs) \<Longrightarrow> m' (p + 16) = m (p + 16)"
    and "\<And>p. p \<in> insert b (set xs \<union> set ys) \<Longrightarrow> p \<noteq> hd (ys @ [b]) \<Longrightarrow> m' (p + 24) = m (p + 24)"
    and "distinct (a # xs @ x # ys)" "b = a \<or> b \<notin> set (a # xs @ x # ys)"
  shows "links m' a (xs @ ys) b"
proof -
  have 1: "links m a xs x" and 2: "links m x ys b" using assms(1) by (auto simp: links_append)
  have "b \<notin> set xs" using assms(6,7) by auto
  show ?thesis
  proof (cases ys)
    case Nil
    have "links m' a xs b"
    proof (rule links_set_last [OF 1])
      show "m' (p + 24) = m (p + 24)" if "p \<in> set xs" for p
        using that assms(5)[of p] \<open>b \<notin> set xs\<close> Nil by auto
    qed (use assms Nil in auto)
    then show ?thesis using Nil by simp
  next
    case (Cons y zs)
    have "links m' a xs y"
    proof (rule links_set_last [OF 1])
      show "m' (p + 24) = m (p + 24)" if "p \<in> set xs" for p
        using that assms(5)[of p] assms(6) Cons by auto
    qed (use assms Cons in auto)
    moreover have "links m' y zs b"
    proof (rule links_frame)
      show "links m y zs b" using 2 Cons by simp
      show "m' (p + 16) = m (p + 16)" if "p \<in> insert y (set zs)" for p
      proof -
        have "last (a # xs) \<in> set (a # xs)" by (rule last_in_set) simp
        moreover have "p \<notin> set (a # xs)" using that assms(6) Cons by auto
        ultimately have "p \<noteq> last (a # xs)" by auto
        then show ?thesis using assms(4)[of p] that Cons by auto
      qed
      show "m' (p + 24) = m (p + 24)" if "p \<in> insert b (set zs)" for p
        using assms(5)[of p] that Cons assms(6,7) by auto
    qed
    ultimately show ?thesis using Cons by (simp add: links_append)
  qed
qed

text \<open>The words the stores of \<open>unlink\<close> go to, when the node is in the middle of a list.\<close>

lemma links_neighbours:
  assumes "links m a (xs @ x # ys) b"
  shows "m (x + 24) = last (a # xs)" "m (x + 16) = hd (ys @ [b])"
  using links_last [of m a xs x] links_first [of m x ys b] assms
  by (auto simp: links_append split: list.splits)

lemma links_insert:
  assumes "links m a (xs @ ys) b"
    and "m' (x + 24) = last (a # xs)" "m' (x + 16) = hd (ys @ [b])"
    and "m' (last (a # xs) + 16) = x" "m' (hd (ys @ [b]) + 24) = x"
    and "\<And>p. p \<in> insert a (set xs \<union> set ys) \<Longrightarrow> p \<noteq> last (a # xs) \<Longrightarrow> m' (p + 16) = m (p + 16)"
    and "\<And>p. p \<in> insert b (set xs \<union> set ys) \<Longrightarrow> p \<noteq> hd (ys @ [b]) \<Longrightarrow> m' (p + 24) = m (p + 24)"
    and "distinct (a # xs @ ys)" "b = a \<or> b \<notin> set (a # xs @ ys)"
  shows "links m' a (xs @ x # ys) b"
proof (cases ys)
  case Nil
  have "b \<notin> set xs" using assms(8,9) by auto
  have "links m' a xs x"
  proof (rule links_set_last)
    show "links m a xs b" using assms(1) Nil by simp
    show "m' (p + 24) = m (p + 24)" if "p \<in> set xs" for p
      using that assms(7)[of p] \<open>b \<notin> set xs\<close> Nil by auto
  qed (use assms Nil in auto)
  then show ?thesis using assms(3,5) Nil by (simp add: links_append)
next
  case (Cons y zs)
  then have 1: "links m a xs y" and 2: "links m y zs b" using assms(1) by (auto simp: links_append)
  have "links m' a xs x"
  proof (rule links_set_last [OF 1])
    show "m' (p + 24) = m (p + 24)" if "p \<in> set xs" for p
      using that assms(7)[of p] assms(8) Cons by auto
  qed (use assms Cons in auto)
  moreover have "links m' y zs b"
  proof (rule links_frame [OF 2])
    show "m' (p + 16) = m (p + 16)" if "p \<in> insert y (set zs)" for p
    proof -
      have "last (a # xs) \<in> set (a # xs)" by (rule last_in_set) simp
      moreover have "p \<notin> set (a # xs)" using that assms(8) Cons by auto
      ultimately have "p \<noteq> last (a # xs)" by auto
      then show ?thesis using assms(6)[of p] that Cons by auto
    qed
    show "m' (p + 24) = m (p + 24)" if "p \<in> insert b (set zs)" for p
      using assms(7)[of p] that Cons assms(8,9) by auto
  qed
  ultimately show ?thesis using assms(3,5) Cons by (simp add: links_append)
qed

text \<open>Nodes whose link words never coincide: \<open>fd\<close> of one is not \<open>bk\<close> of another.\<close>

definition apart :: "u64 set \<Rightarrow> bool" where
  "apart A \<longleftrightarrow> (\<forall>p\<in>A. \<forall>q\<in>A. p + 16 \<noteq> q + 24)"

lemma apartD: "apart A \<Longrightarrow> p \<in> A \<Longrightarrow> q \<in> A \<Longrightarrow> p + 16 \<noteq> q + 24"
  by (auto simp: apart_def)

lemma apart_mono: "apart B \<Longrightarrow> A \<subseteq> B \<Longrightarrow> apart A"
  by (auto simp: apart_def)

lemma link_words_disjoint:
  assumes "apart (A \<union> B)" "A \<inter> B = {}"
  shows "link_words A \<inter> link_words B = {}"
proof -
  have "x \<notin> link_words B" if x: "x \<in> link_words A" for x
  proof
    assume "x \<in> link_words B"
    then obtain p q where "p \<in> A" "q \<in> B" "x = p + 16 \<or> x = p + 24" "x = q + 16 \<or> x = q + 24"
      using x by (auto simp: link_words_def)
    then show False
      using apartD [OF assms(1), of p q] apartD [OF assms(1), of q p] assms(2) by auto
  qed
  then show ?thesis by auto
qed

lemma last_hd_in:
  "last (b # xs) \<in> insert b (set xs)" "hd (ys @ [b]) \<in> insert b (set ys)"
  by (auto simp: hd_append)

lemma mem_wr [simp]: "mem (wr a v s) = (mem s)(a := v)"
  by (simp add: wr_def)

lemma ring_unlink:
  assumes "ring (mem s) b (xs @ x # ys)" "apart (insert b (set (xs @ x # ys)))"
  shows "ring (mem (unlink x s)) b (xs @ ys)"
    and "a \<notin> link_words (insert b (set (xs @ ys))) \<Longrightarrow> mem (unlink x s) a = mem s a"
proof -
  define u where "u = last (b # xs)"
  define v where "v = hd (ys @ [b])"
  have l: "links (mem s) b (xs @ x # ys) b" and d: "distinct (b # xs @ x # ys)"
    using assms(1) by (auto simp: ring_def)
  have bk: "mem s (x + 24) = u" and fd: "mem s (x + 16) = v"
    using links_neighbours [OF l] by (simp_all add: u_def v_def)
  have m: "mem (unlink x s) = (mem s)(v + 24 := u, u + 16 := v)"
    by (simp add: unlink_def ck_fd_def ck_bk_def set_bk_def set_fd_def bk fd Let_def)
  have uv: "u \<in> insert b (set xs)" "v \<in> insert b (set ys)"
    using last_hd_in(1) [of b xs] last_hd_in(2) [of ys b] by (simp_all add: u_def v_def)
  have ne: "p + 16 \<noteq> q + 24" if "p \<in> insert b (set xs \<union> set ys)" "q \<in> insert b (set xs \<union> set ys)" for p q
    using apartD [OF assms(2), of p q] that by auto
  have ne': "u + 16 \<noteq> q + 24" "p + 16 \<noteq> v + 24"
    if "p \<in> insert b (set xs \<union> set ys)" "q \<in> insert b (set xs \<union> set ys)" for p q
    using ne [of u q] ne [of p v] that uv by auto
  have "links (mem (unlink x s)) b (xs @ ys) b"
  proof (rule links_join [OF l])
    show "mem (unlink x s) (last (b # xs) + 16) = hd (ys @ [b])"
      by (simp only: m flip: u_def v_def) simp
    have "v + 24 \<noteq> u + 16" using ne'(1)[of u v] uv by auto
    then show "mem (unlink x s) (hd (ys @ [b]) + 24) = last (b # xs)"
      by (simp only: m flip: u_def v_def) simp
    show "mem (unlink x s) (p + 16) = mem s (p + 16)"
      if "p \<in> insert b (set xs \<union> set ys)" "p \<noteq> last (b # xs)" for p
      using that ne' [of p v] uv by (auto simp: m simp del: last.simps simp flip: u_def)
    show "mem (unlink x s) (p + 24) = mem s (p + 24)"
      if "p \<in> insert b (set xs \<union> set ys)" "p \<noteq> hd (ys @ [b])" for p
      using that ne' [of u p] uv by (auto simp: m simp flip: v_def)
  qed (use d in auto)
  then show "ring (mem (unlink x s)) b (xs @ ys)" using d by (auto simp: ring_def)
  show "mem (unlink x s) a = mem s a" if "a \<notin> link_words (insert b (set (xs @ ys)))"
    using that uv by (auto simp: m link_words_def)
qed

text \<open>
  Four stores that link \<open>x\<close> between two neighbours, in whatever order the code makes them.
\<close>

lemma ring_insert:
  assumes "ring m b (xs @ ys)" "apart (insert x (insert b (set (xs @ ys))))"
    and "x \<notin> set (b # xs @ ys)"
    and "m' (x + 24) = last (b # xs)" "m' (x + 16) = hd (ys @ [b])"
    and "m' (last (b # xs) + 16) = x" "m' (hd (ys @ [b]) + 24) = x"
    and "\<And>a. a \<notin> {x + 16, x + 24, last (b # xs) + 16, hd (ys @ [b]) + 24} \<Longrightarrow>
          a \<in> link_words (insert b (set (xs @ ys))) \<Longrightarrow> m' a = m a"
  shows "ring m' b (xs @ x # ys)"
proof -
  define u where "u = last (b # xs)"
  define v where "v = hd (ys @ [b])"
  have l: "links m b (xs @ ys) b" and d: "distinct (b # xs @ ys)"
    using assms(1) by (auto simp: ring_def)
  have uv: "u \<in> insert b (set xs)" "v \<in> insert b (set ys)"
    using last_hd_in(1) [of b xs] last_hd_in(2) [of ys b] by (simp_all add: u_def v_def)
  have ne: "p + 16 \<noteq> q + 24"
    if "p \<in> insert x (insert b (set xs \<union> set ys))" "q \<in> insert x (insert b (set xs \<union> set ys))" for p q
    using apartD [OF assms(2), of p q] that by auto
  have "links m' b (xs @ x # ys) b"
  proof (rule links_insert [OF l assms(4-7)])
    show "m' (p + 16) = m (p + 16)"
      if "p \<in> insert b (set xs \<union> set ys)" "p \<noteq> last (b # xs)" for p
    proof (rule assms(8))
      show "p + 16 \<notin> {x + 16, x + 24, last (b # xs) + 16, hd (ys @ [b]) + 24}"
        using that assms(3) ne [of p x] ne [of p v] uv by (auto simp del: last.simps simp flip: u_def v_def)
    qed (use that in auto)
    show "m' (p + 24) = m (p + 24)"
      if "p \<in> insert b (set xs \<union> set ys)" "p \<noteq> hd (ys @ [b])" for p
    proof (rule assms(8))
      show "p + 24 \<notin> {x + 16, x + 24, last (b # xs) + 16, hd (ys @ [b]) + 24}"
        using that assms(3) ne [of x p] ne [of u p] uv by (auto simp del: last.simps simp flip: u_def v_def)
    qed (use that in auto)
  qed (use d in auto)
  then show ?thesis using d assms(3) by (auto simp: ring_def)
qed

section \<open>Fast lists\<close>

fun fast_list :: "qmem \<Rightarrow> u64 \<Rightarrow> u64 list \<Rightarrow> bool" where
  "fast_list m h [] \<longleftrightarrow> h = 0"
| "fast_list m h (x # xs) \<longleftrightarrow> h = x \<and> x \<noteq> 0 \<and> fast_list m (m (x + 16)) xs"

lemma fast_list_frame:
  "fast_list m h xs \<Longrightarrow> (\<And>p. p \<in> set xs \<Longrightarrow> m' (p + 16) = m (p + 16)) \<Longrightarrow> fast_list m' h xs"
  by (induction xs arbitrary: h) auto

lemma fast_list_head: "fast_list m h xs \<Longrightarrow> h = 0 \<longleftrightarrow> xs = []"
  by (cases xs) auto

end
