(* ===== verification/Dl_Layout.thy ===== *)
theory Dl_Layout
  imports Dl_Sizes Dl_Ring
begin

text \<open>
  The layout of the heap: a map from the addresses of the chunks to their sizes and what they are
  used for. The chunks tile the space from the first chunk to the top chunk. Joining two
  neighbours, splitting a chunk, and moving the border to the top chunk keep a layout.
\<close>

unbundle bit_operations_syntax

section \<open>Chunk maps\<close>

datatype kind = Used | Fast | Free

type_synonym chunks = "u64 \<Rightarrow> (u64 \<times> kind) option"

definition chunk_ok :: "u64 \<Rightarrow> u64 \<Rightarrow> chunks \<Rightarrow> u64 \<Rightarrow> u64 \<Rightarrow> bool" where
  "chunk_ok lo tp C p sz \<longleftrightarrow>
     16 dvd unat p \<and> chunk_size_ok sz \<and> unat lo \<le> unat p \<and> unat p + unat sz \<le> unat tp \<and>
     (p + sz = tp \<or> p + sz \<in> dom C)"

definition layout :: "u64 \<Rightarrow> u64 \<Rightarrow> chunks \<Rightarrow> bool" where
  "layout lo tp C \<longleftrightarrow>
     finite (dom C) \<and> 16 dvd unat lo \<and> 16 dvd unat tp \<and> unat lo \<le> unat tp \<and>
     (lo = tp \<or> lo \<in> dom C) \<and>
     (\<forall>p sz k. C p = Some (sz, k) \<longrightarrow> chunk_ok lo tp C p sz) \<and>
     (\<forall>p sz k q. C p = Some (sz, k) \<longrightarrow> q \<in> dom C \<longrightarrow> unat p < unat q \<longrightarrow> unat p + unat sz \<le> unat q) \<and>
     (\<forall>q. q \<in> insert tp (dom C) \<longrightarrow> q \<noteq> lo \<longrightarrow> (\<exists>p sz k. C p = Some (sz, k) \<and> p + sz = q))"

text \<open>The words a chunk owns: its size field, its data, and the word after it that holds its footer.\<close>

definition own :: "u64 \<Rightarrow> u64 \<Rightarrow> u64 set" where
  "own p sz = {a. unat p + 8 \<le> unat a \<and> unat a < unat p + unat sz + 8}"

definition data_words :: "u64 \<Rightarrow> u64 \<Rightarrow> u64 set" where
  "data_words p sz = {a. unat p + 16 \<le> unat a \<and> unat a < unat p + unat sz + 8}"

lemma data_own: "data_words p sz \<subseteq> own p sz"
  by (auto simp: own_def data_words_def)

lemma layout_chunk:
  assumes L: "layout lo tp C"
  shows "C p = Some (sz, k) \<Longrightarrow> chunk_ok lo tp C p sz"
  using L by (auto simp: layout_def)

lemma layout_order:
  assumes L: "layout lo tp C"
  shows "C p = Some (sz, k) \<Longrightarrow> q \<in> dom C \<Longrightarrow> unat p < unat q \<Longrightarrow> unat p + unat sz \<le> unat q"
  using L unfolding layout_def by blast

lemma layout_size:
  assumes L: "layout lo tp C" and asm: "C p = Some (sz, k)"
  shows "32 \<le> unat sz" "16 dvd unat sz" "16 dvd unat p" "unat (p + sz) = unat p + unat sz"
    "unat p + unat sz \<le> unat tp" "unat lo \<le> unat p"
proof -
  have c: "chunk_ok lo tp C p sz" using layout_chunk [OF L] asm .
  show "32 \<le> unat sz" "16 dvd unat sz" "16 dvd unat p" "unat p + unat sz \<le> unat tp" "unat lo \<le> unat p"
    using c by (auto simp: chunk_ok_def chunk_size_ok_def)
  have "unat tp < 2 ^ 64" using unsigned_less [where ?'a = nat, of tp] by simp
  then have "unat p + unat sz < 2 ^ 64" using c by (simp add: chunk_ok_def)
  then show "unat (p + sz) = unat p + unat sz" by (rule unat_add_nowrap)
qed

lemma layout_next:
  assumes L: "layout lo tp C"
  shows "C p = Some (sz, k) \<Longrightarrow> p + sz = tp \<or> p + sz \<in> dom C"
  using layout_chunk [OF L] by (auto simp: chunk_ok_def)

lemma layout_prev:
  assumes L: "layout lo tp C"
  shows "q \<in> insert tp (dom C) \<Longrightarrow> q \<noteq> lo \<Longrightarrow> \<exists>p sz k. C p = Some (sz, k) \<and> p + sz = q"
  using L unfolding layout_def by blast

lemma layout_disjoint:
  assumes L: "layout lo tp C" and asm: "C p = Some (sz, k)" "C q = Some (sz', k')" "p \<noteq> q"
  shows "unat p + unat sz \<le> unat q \<or> unat q + unat sz' \<le> unat p"
proof -
  have "unat p < unat q \<or> unat q < unat p"
    using asm(3) by (metis linorder_neqE_nat word_unat_eq_iff)
  then show ?thesis using layout_order [OF L asm(1)] layout_order [OF L asm(2)] asm by auto
qed

lemma own_disjoint:
  assumes L: "layout lo tp C" and asm: "C p = Some (sz, k)" "C q = Some (sz', k')" "p \<noteq> q"
  shows "own p sz \<inter> own q sz' = {}"
  using layout_disjoint [OF L asm] by (auto simp: own_def)

lemma prev_unique:
  assumes L: "layout lo tp C" and asm: "C p = Some (sz, k)" "C q = Some (sz', k')" "p + sz = q + sz'"
  shows "p = q"
proof (rule ccontr)
  assume "p \<noteq> q"
  then have "unat p + unat sz \<le> unat q \<or> unat q + unat sz' \<le> unat p"
    using layout_disjoint [OF L] asm by blast
  moreover have "unat p + unat sz = unat q + unat sz'"
    using layout_size(4) [OF L asm(1)] layout_size(4) [OF L asm(2)] asm(3) by simp
  ultimately show False using layout_size(1) [OF L asm(1)] layout_size(1) [OF L asm(2)] by simp
qed

lemma next_not_self:
  assumes L: "layout lo tp C" and asm: "C p = Some (sz, k)" shows "p + sz \<noteq> p" "p \<noteq> tp" "unat p < unat tp"
  using layout_size [OF L asm] by (auto simp: word_unat_eq_iff)

lemma tp_not_chunk:
  assumes L: "layout lo tp C"
  shows "tp \<notin> dom C"
  using next_not_self(2) [OF L] by auto

lemma lo_first:
  assumes L: "layout lo tp C"
  shows "C p = Some (sz, k) \<Longrightarrow> p + sz \<noteq> lo"
  using layout_size [OF L, of p sz k] by (auto simp: word_unat_eq_iff)


lemma layout_fin: "layout lo tp C \<Longrightarrow> finite (dom C)"
  by (simp add: layout_def)

lemma layout_lo: "layout lo tp C \<Longrightarrow> 16 dvd unat lo" "layout lo tp C \<Longrightarrow> 16 dvd unat tp"
  "layout lo tp C \<Longrightarrow> unat lo \<le> unat tp" "layout lo tp C \<Longrightarrow> lo = tp \<or> lo \<in> dom C"
  by (simp_all add: layout_def)

section \<open>Operations\<close>

lemma layout_retag:
  assumes "layout lo tp C" "C p = Some (sz, k)"
  shows "layout lo tp (C(p \<mapsto> (sz, k')))"
proof -
  have d: "dom (C(p \<mapsto> (sz, k'))) = dom C" using assms(2) by auto
  have v: "(C(p \<mapsto> (sz, k'))) q = Some (z, j) \<Longrightarrow> \<exists>j'. C q = Some (z, j')" for q z j
    using assms(2) by (auto split: if_splits)
  have w: "C q = Some (z, j) \<Longrightarrow> \<exists>j'. (C(p \<mapsto> (sz, k'))) q = Some (z, j')" for q z j
    using assms(2) by (auto split: if_splits)
  show ?thesis
    unfolding layout_def d
  proof (intro conjI allI impI)
    fix q z j assume "(C(p \<mapsto> (sz, k'))) q = Some (z, j)"
    then obtain j' where "C q = Some (z, j')" using v by blast
    then show "chunk_ok lo tp (C(p \<mapsto> (sz, k'))) q z"
      using layout_chunk [OF assms(1)] unfolding chunk_ok_def d by blast
  next
    fix q z j r
    assume "(C(p \<mapsto> (sz, k'))) q = Some (z, j)" "r \<in> dom C" "unat q < unat r"
    then show "unat q + unat z \<le> unat r" using layout_order [OF assms(1)] v by blast
  next
    fix q assume "q \<in> insert tp (dom C)" "q \<noteq> lo"
    then obtain r z j where "C r = Some (z, j)" "r + z = q" using layout_prev [OF assms(1)] by blast
    then show "\<exists>r z j. (C(p \<mapsto> (sz, k'))) r = Some (z, j) \<and> r + z = q" using w by blast
  qed (use assms(1) in \<open>auto simp: layout_def\<close>)
qed

lemma chunk_size_ok_add:
  "chunk_size_ok a \<Longrightarrow> chunk_size_ok b \<Longrightarrow> unat a + unat b < 2 ^ 64 \<Longrightarrow> chunk_size_ok (a + b)"
  by (simp add: chunk_size_ok_def unat_add_nowrap)

text \<open>A chunk absorbs the next one.\<close>

lemma layout_join:
  assumes L: "layout lo tp C" and p: "C p = Some (a, k)" and q: "C (p + a) = Some (b, k')"
  shows "layout lo tp ((C(p + a := None))(p \<mapsto> (a + b, k'')))"
    "unat (a + b) = unat a + unat b"
proof -
  let ?C = "(C(p + a := None))(p \<mapsto> (a + b, k''))"
  note sp = layout_size [OF L p] and sq = layout_size [OF L q]
  have bound: "unat tp < 2 ^ 64" using unsigned_less [where ?'a = nat, of tp] by simp
  show ab: "unat (a + b) = unat a + unat b"
    by (rule unat_add_nowrap) (use sp sq bound in linarith)
  have sum: "p + (a + b) = p + a + b" by simp
  have ne: "p + a \<noteq> p" using next_not_self(1) [OF L p] .
  have d: "dom ?C = dom C - {p + a}" using p ne by auto
  have end_in: "p + a + b = tp \<or> p + a + b \<in> dom C - {p + a}"
    using layout_next [OF L q] next_not_self(1) [OF L q] by auto
  have nxt: "r + z \<noteq> p + a" if "C r = Some (z, j)" "r \<noteq> p" for r z j
    using prev_unique [OF L p that(1)] that(2) by auto
  show "layout lo tp ?C"
    unfolding layout_def d
  proof (intro conjI allI impI)
    show "finite (dom C - {p + a})" using layout_fin [OF L] by simp
    show "lo = tp \<or> lo \<in> dom C - {p + a}" using layout_lo(4) [OF L] lo_first [OF L p] by auto
  next
    fix r z j assume r: "?C r = Some (z, j)"
    show "chunk_ok lo tp ?C r z"
    proof (cases "r = p")
      case True
      then have z: "z = a + b" using r by simp
      show ?thesis unfolding chunk_ok_def d
        using True z ab sp sq end_in by (auto simp: chunk_size_ok_def sum)
    next
      case False
      then have r': "C r = Some (z, j)" and "r \<noteq> p + a" using r by (auto split: if_splits)
      then have "r + z = tp \<or> r + z \<in> dom C - {p + a}"
        using layout_next [OF L r'] nxt [OF r' False] by auto
      then show ?thesis using layout_chunk [OF L r'] unfolding chunk_ok_def d by auto
    qed
  next
    fix r z j t assume r: "?C r = Some (z, j)" and t: "t \<in> dom C - {p + a}" "unat r < unat t"
    show "unat r + unat z \<le> unat t"
    proof (cases "r = p")
      case True
      then have z: "z = a + b" using r by simp
      have "unat p + unat a \<le> unat t" using layout_order [OF L p] t True by blast
      moreover have "t \<noteq> p + a" using t by blast
      ultimately have "unat (p + a) < unat t" using sp(4) by (metis le_neq_implies_less word_unat_eq_iff)
      then have "unat (p + a) + unat b \<le> unat t" using layout_order [OF L q] t by blast
      then show ?thesis using True z ab sp(4) by simp
    next
      case False
      then have "C r = Some (z, j)" using r by (auto split: if_splits)
      then show ?thesis using layout_order [OF L] t by blast
    qed
  next
    fix t assume t: "t \<in> insert tp (dom C - {p + a})" "t \<noteq> lo"
    then obtain r z j where r: "C r = Some (z, j)" "r + z = t" using layout_prev [OF L] by blast
    show "\<exists>r z j. ?C r = Some (z, j) \<and> r + z = t"
    proof (cases "r = p + a")
      case True
      then have "?C p = Some (a + b, k'') \<and> p + (a + b) = t" using r q by (auto simp: add.assoc)
      then show ?thesis by blast
    next
      case False
      have "r \<noteq> p" using t r p tp_not_chunk [OF L] q by auto
      then have "?C r = Some (z, j) \<and> r + z = t" using False r by simp
      then show ?thesis by blast
    qed
  qed (use L in \<open>auto simp: layout_def\<close>)
qed

text \<open>A chunk is split in two.\<close>

lemma layout_split:
  assumes L: "layout lo tp C" and p: "C p = Some (sz, k)"
    and a: "chunk_size_ok a" and b: "chunk_size_ok (sz - a)" and le: "unat a \<le> unat sz"
  shows "layout lo tp (C(p \<mapsto> (a, k1), p + a \<mapsto> (sz - a, k2)))"
    "p + a \<notin> dom C" "p + a \<noteq> p" "unat (sz - a) = unat sz - unat a" "unat (p + a) = unat p + unat a"
proof -
  let ?C = "C(p \<mapsto> (a, k1), p + a \<mapsto> (sz - a, k2))"
  note sp = layout_size [OF L p]
  have bound: "unat tp < 2 ^ 64" using unsigned_less [where ?'a = nat, of tp] by simp
  show ub: "unat (sz - a) = unat sz - unat a" using le by (rule unat_sub_le)
  show ua: "unat (p + a) = unat p + unat a" by (rule unat_add_nowrap) (use sp le bound in linarith)
  have a32: "32 \<le> unat a" "32 \<le> unat sz - unat a" using a b ub by (auto simp: chunk_size_ok_def)
  show new: "p + a \<notin> dom C"
  proof
    assume "p + a \<in> dom C"
    moreover have "unat p < unat (p + a)" using ua a32 by simp
    ultimately have "unat p + unat sz \<le> unat (p + a)" using layout_order [OF L p] by blast
    then show False using ua a32 le by simp
  qed
  show ne: "p + a \<noteq> p" using ua a32 by (auto simp: word_unat_eq_iff)
  have eq: "p + a + (sz - a) = p + sz" by simp
  have d: "dom ?C = insert (p + a) (dom C)" using p by auto
  have nx: "p + sz = tp \<or> p + sz \<in> dom C" using layout_next [OF L p] .
  have pa_tp: "p + a \<noteq> tp" using ua a32 sp by (auto simp: word_unat_eq_iff)
  show "layout lo tp ?C"
    unfolding layout_def d
  proof (intro conjI allI impI)
    fix r z j assume r: "?C r = Some (z, j)"
    consider "r = p + a" "z = sz - a" | "r = p" "z = a" | "r \<noteq> p" "r \<noteq> p + a" "C r = Some (z, j)"
      using r ne by (auto split: if_splits)
    then show "chunk_ok lo tp ?C r z"
    proof cases
      case 1
      then show ?thesis unfolding chunk_ok_def d
        using b sp ua ub nx a le eq by (auto simp: chunk_size_ok_def)
    next
      case 2
      then show ?thesis unfolding chunk_ok_def d using a sp le by (auto simp: chunk_size_ok_def)
    next
      case 3
      then show ?thesis using layout_chunk [OF L 3(3)] unfolding chunk_ok_def d by auto
    qed
  next
    fix r z j t assume r: "?C r = Some (z, j)" and t: "t \<in> insert (p + a) (dom C)" "unat r < unat t"
    have from_p: "unat p + unat sz \<le> unat t" if "t \<noteq> p + a" "unat p < unat t"
      using layout_order [OF L p] t(1) that by blast
    have ht: "unat t = unat p + unat a \<or> (t \<in> dom C \<and> t \<noteq> p + a)" using t(1) ua new by auto
    consider "r = p + a" "z = sz - a" | "r = p" "z = a" | "r \<noteq> p" "r \<noteq> p + a" "C r = Some (z, j)"
      using r ne by (auto split: if_splits)
    then show "unat r + unat z \<le> unat t"
    proof cases
      case 1
      then have "t \<noteq> p + a" using t(2) by auto
      then show ?thesis using 1 from_p t(2) ua ub le by simp
    next
      case 2
      then show ?thesis using ht from_p t(2) ua le by fastforce
    next
      case 3
      show ?thesis
      proof (cases "t = p + a")
        case True
        have "unat p + unat sz \<le> unat r \<or> unat r + unat z \<le> unat p"
          using layout_disjoint [OF L p 3(3)] 3(1) by auto
        then show ?thesis using True t(2) ua le by auto
      next
        case False
        then show ?thesis using layout_order [OF L 3(3)] t by blast
      qed
    qed
  next
    fix t assume t: "t \<in> insert tp (insert (p + a) (dom C))" "t \<noteq> lo"
    show "\<exists>r z j. ?C r = Some (z, j) \<and> r + z = t"
    proof (cases "t = p + a")
      case True
      then have "?C p = Some (a, k1) \<and> p + a = t" using ne by simp
      then show ?thesis by blast
    next
      case False
      then obtain r z j where r: "C r = Some (z, j)" "r + z = t" using layout_prev [OF L] t by blast
      show ?thesis
      proof (cases "r = p")
        case True
        then have "?C (p + a) = Some (sz - a, k2) \<and> p + a + (sz - a) = t" using r p by auto
        then show ?thesis by blast
      next
        case False
        then have "?C r = Some (z, j) \<and> r + z = t" using r new by auto
        then show ?thesis by blast
      qed
    qed
  qed (use L in \<open>auto simp: layout_def\<close>)
qed

text \<open>The front of the top chunk becomes a chunk.\<close>

lemma layout_grow:
  assumes L: "layout lo tp C" and a: "chunk_size_ok a" and w: "unat tp + unat a < 2 ^ 64"
  shows "layout lo (tp + a) (C(tp \<mapsto> (a, k)))" "unat (tp + a) = unat tp + unat a"
proof -
  let ?C = "C(tp \<mapsto> (a, k))"
  show ua: "unat (tp + a) = unat tp + unat a" using w by (rule unat_add_nowrap)
  have new: "tp \<notin> dom C" using tp_not_chunk [OF L] .
  have d: "dom ?C = insert tp (dom C)" by simp
  show "layout lo (tp + a) ?C"
    unfolding layout_def d
  proof (intro conjI allI impI)
    show "16 dvd unat (tp + a)" using a layout_lo(2) [OF L] by (simp add: ua chunk_size_ok_def)
    show "unat lo \<le> unat (tp + a)" using layout_lo(3) [OF L] ua by simp
    show "lo = tp + a \<or> lo \<in> insert tp (dom C)" using layout_lo(4) [OF L] by auto
  next
    fix r z j assume r: "?C r = Some (z, j)"
    show "chunk_ok lo (tp + a) ?C r z"
    proof (cases "r = tp")
      case True
      then show ?thesis unfolding chunk_ok_def d
        using r a ua layout_lo [OF L] by auto
    next
      case False
      then have "C r = Some (z, j)" using r by simp
      then show ?thesis using layout_chunk [OF L] ua unfolding chunk_ok_def d by fastforce
    qed
  next
    fix r z j t assume r: "?C r = Some (z, j)" and t: "t \<in> insert tp (dom C)" "unat r < unat t"
    have "r \<noteq> tp"
    proof
      assume "r = tp"
      then obtain z' j' where "C t = Some (z', j')" using t by auto
      then show False using next_not_self(3) [OF L] t(2) \<open>r = tp\<close> by fastforce
    qed
    then have "C r = Some (z, j)" using r by simp
    then show "unat r + unat z \<le> unat t"
      using layout_order [OF L] layout_size(5) [OF L] t by blast
  next
    fix t assume t: "t \<in> insert (tp + a) (insert tp (dom C))" "t \<noteq> lo"
    show "\<exists>r z j. ?C r = Some (z, j) \<and> r + z = t"
    proof (cases "t \<in> insert tp (dom C)")
      case True
      then obtain r z j where r: "C r = Some (z, j)" "r + z = t" using layout_prev [OF L] t by blast
      then have "?C r = Some (z, j) \<and> r + z = t" using new by auto
      then show ?thesis by blast
    next
      case False
      then have "?C tp = Some (a, k) \<and> tp + a = t" using t by auto
      then show ?thesis by blast
    qed
  qed (use L in \<open>auto simp: layout_def\<close>)
qed

text \<open>The last chunk becomes part of the top chunk.\<close>

lemma layout_shrink:
  assumes L: "layout lo tp C" and p: "C p = Some (sz, k)" and e: "p + sz = tp"
  shows "layout lo p (C(p := None))"
proof -
  let ?C = "C(p := None)"
  note sp = layout_size [OF L p]
  have utp: "unat tp = unat p + unat sz" using sp(4) e by simp
  have d: "dom ?C = dom C - {p}" by simp
  have below: "unat r + unat z \<le> unat p" if "C r = Some (z, j)" "r \<noteq> p" for r z j
  proof -
    have "unat r < unat p \<or> unat p < unat r" using that(2) by (metis linorder_neqE_nat word_unat_eq_iff)
    then show ?thesis
    proof
      assume "unat r < unat p"
      then show ?thesis using layout_order [OF L that(1)] p by blast
    next
      assume "unat p < unat r"
      then have "unat tp \<le> unat r" using layout_order [OF L p] that(1) utp by fastforce
      then show ?thesis using next_not_self(3) [OF L that(1)] by simp
    qed
  qed
  show ?thesis
    unfolding layout_def d
  proof (intro conjI allI impI)
    show "finite (dom C - {p})" using layout_fin [OF L] by simp
    show "lo = p \<or> lo \<in> dom C - {p}" using layout_lo(4) [OF L] next_not_self [OF L p] sp(6) utp by auto
  next
    fix r z j assume r: "?C r = Some (z, j)"
    then have r': "C r = Some (z, j)" "r \<noteq> p" by (auto split: if_splits)
    have "r + z = p \<or> r + z \<in> dom C - {p}"
    proof -
      have "r + z \<noteq> tp" using prev_unique [OF L r'(1) p] r'(2) e by auto
      then show ?thesis using layout_next [OF L r'(1)] by auto
    qed
    then show "chunk_ok lo p ?C r z"
      using layout_chunk [OF L r'(1)] below [OF r'] unfolding chunk_ok_def d by auto
  next
    fix r z j t assume r: "?C r = Some (z, j)" and t: "t \<in> dom C - {p}" "unat r < unat t"
    then have "C r = Some (z, j)" by (auto split: if_splits)
    then show "unat r + unat z \<le> unat t" using layout_order [OF L] t by blast
  next
    fix t assume t: "t \<in> insert p (dom C - {p})" "t \<noteq> lo"
    then have "t \<in> dom C" using p by auto
    then obtain r z j where r: "C r = Some (z, j)" "r + z = t" using layout_prev [OF L] t by blast
    have "r \<noteq> p" using r p e t tp_not_chunk [OF L] \<open>t \<in> dom C\<close> by auto
    then have "?C r = Some (z, j) \<and> r + z = t" using r by simp
    then show "\<exists>r z j. ?C r = Some (z, j) \<and> r + z = t" by blast
  qed (use L sp in \<open>auto simp: layout_def\<close>)
qed

section \<open>Where the words are\<close>

definition bin_addr :: "u64 \<Rightarrow> nat \<Rightarrow> u64" where
  "bin_addr av i = av + of_nat (16 * i) - 16"

text \<open>
  A heap of less than 4 GiB between its first chunk and the end of the top chunk, and the array of
  bins elsewhere.
\<close>

definition arena :: "u64 \<Rightarrow> u64 \<Rightarrow> u64 \<Rightarrow> chunks \<Rightarrow> u64 \<Rightarrow> bool" where
  "arena lo tp ts C av \<longleftrightarrow>
     layout lo tp C \<and> chunk_size_ok ts \<and> 16 \<le> unat lo \<and> unat tp + unat ts + 16 < 2 ^ 64 \<and>
     unat tp + unat ts < unat lo + 2 ^ 32 \<and> 8 dvd unat av \<and> unat av + 1536 < 2 ^ 64 \<and>
     (unat av + 1536 \<le> unat lo \<or> unat tp + unat ts + 16 \<le> unat av)"

lemma arena_layout: "arena lo tp ts C av \<Longrightarrow> layout lo tp C"
  by (simp add: arena_def)

lemma arena_retag:
  "arena lo tp ts C av \<Longrightarrow> layout lo tp C' \<Longrightarrow> arena lo tp ts C' av"
  by (simp add: arena_def)

lemma arena_bounds:
  assumes A: "arena lo tp ts C av"
  shows "unat tp + unat ts + 16 < 2 ^ 64" "32 \<le> unat ts" "16 dvd unat tp" "16 \<le> unat lo"
  "8 dvd unat av" "unat av + 1536 < 2 ^ 64" "unat lo \<le> unat tp"
  "unat av + 1536 \<le> unat lo \<or> unat tp + unat ts + 16 \<le> unat av"
  using A layout_lo [OF arena_layout [OF A]] by (auto simp: arena_def chunk_size_ok_def)

lemma node_bounds:
  assumes A: "arena lo tp ts C av" and asm: "p \<in> insert tp (dom C)"
  shows "unat lo \<le> unat p" "unat p \<le> unat tp" "16 dvd unat p" "p \<noteq> 0"
    "unat (p + 8) = unat p + 8" "unat (p + 16) = unat p + 16" "unat (p + 24) = unat p + 24"
proof -
  have "unat lo \<le> unat p \<and> unat p \<le> unat tp \<and> 16 dvd unat p"
  proof (cases "p = tp")
    case True
    then show ?thesis using arena_bounds [OF A] by simp
  next
    case False
    then obtain sz k where "C p = Some (sz, k)" using asm by auto
    from layout_size [OF arena_layout [OF A] this] show ?thesis by simp
  qed
  then show 1: "unat lo \<le> unat p" and 2: "unat p \<le> unat tp" and "16 dvd unat p" by auto
  show "p \<noteq> 0" using 1 arena_bounds(4) [OF A] by auto
  show "unat (p + 8) = unat p + 8" "unat (p + 16) = unat p + 16" "unat (p + 24) = unat p + 24"
    using 2 arena_bounds(1,2) [OF A] by (simp_all add: unat_add_nowrap)
qed

lemma chunk_bounds:
  assumes A: "arena lo tp ts C av" and asm: "C p = Some (sz, k)"
  shows "unat lo \<le> unat p" "unat p + unat sz \<le> unat tp" "32 \<le> unat sz" "unat sz < 2 ^ 32"
    "unat (p + sz) = unat p + unat sz" "16 dvd unat sz"
  using layout_size [OF arena_layout [OF A] asm] A by (auto simp: arena_def)

lemma head_link:
  assumes A: "arena lo tp ts C av" and asm: "p \<in> insert tp (dom C)" "q \<in> dom C"
  shows "p + 8 \<noteq> q + 16" "p + 8 \<noteq> q + 24"
proof -
  obtain sz k where q: "C q = Some (sz, k)" using asm(2) by auto
  have "q \<in> insert tp (dom C)" using asm(2) by simp
  note nq = node_bounds [OF A this] and np = node_bounds [OF A asm(1)]
  show "p + 8 \<noteq> q + 16"
  proof
    assume "p + 8 = q + 16"
    from arg_cong [OF this, of unat] have "unat p + 8 = unat q + 16" unfolding np(5) nq(6) .
    then show False using np(3) nq(3) by presburger
  qed
  show "p + 8 \<noteq> q + 24"
  proof
    assume "p + 8 = q + 24"
    from arg_cong [OF this, of unat] have e: "unat p = unat q + 16"
      unfolding np(5) nq(7) by linarith
    have "unat q + unat sz \<le> unat p"
      using asm(1) layout_order [OF arena_layout [OF A] q, of p] chunk_bounds(2) [OF A q] e by auto
    then show False using e chunk_bounds(3) [OF A q] by simp
  qed
qed

lemma head_foot:
  assumes A: "arena lo tp ts C av" and asm: "p \<in> insert tp (dom C)" "C q = Some (sz, k)"
  shows "p + 8 \<noteq> q + sz"
proof
  assume "p + 8 = q + sz"
  from arg_cong [OF this, of unat] have "unat p + 8 = unat q + unat sz"
    unfolding node_bounds(5) [OF A asm(1)] chunk_bounds(5) [OF A asm(2)] .
  moreover have "q \<in> insert tp (dom C)" using asm(2) by auto
  ultimately show False
    using node_bounds(3) [OF A asm(1)] node_bounds(3) [OF A, of q] chunk_bounds(6) [OF A asm(2)] by presburger
qed

lemma link_foot:
  assumes A: "arena lo tp ts C av" and asm: "p \<in> dom C" "C q = Some (sz, k)"
  shows "p + 16 \<noteq> q + sz" "p + 24 \<noteq> q + sz"
proof -
  obtain z j where p: "C p = Some (z, j)" using asm(1) by auto
  have n: "p \<in> insert tp (dom C)" using asm(1) by simp
  have "unat p + 16 \<noteq> unat q + unat sz \<and> unat p + 24 \<noteq> unat q + unat sz"
  proof (cases "p = q")
    case True
    then show ?thesis using chunk_bounds(3) [OF A asm(2)] by simp
  next
    case False
    then show ?thesis
      using layout_disjoint [OF arena_layout [OF A] p asm(2)] chunk_bounds(3) [OF A p] chunk_bounds(3) [OF A asm(2)]
      by auto
  qed
  then have "unat (p + 16) \<noteq> unat (q + sz)" "unat (p + 24) \<noteq> unat (q + sz)"
    unfolding node_bounds(6,7) [OF A n] chunk_bounds(5) [OF A asm(2)] by blast+
  then show "p + 16 \<noteq> q + sz" "p + 24 \<noteq> q + sz" by auto
qed

lemma link_link:
  assumes A: "arena lo tp ts C av" and asm: "p \<in> dom C" "q \<in> dom C"
  shows "p + 16 \<noteq> q + 24"
proof
  assume e: "p + 16 = q + 24"
  have "p \<in> insert tp (dom C)" "q \<in> insert tp (dom C)" using asm by auto
  note np = node_bounds [OF A this(1)] and nq = node_bounds [OF A this(2)]
  from arg_cong [OF e, of unat] have "unat p + 16 = unat q + 24" unfolding np(6) nq(7) .
  then show False using np(3) nq(3) by presburger
qed

lemma foot_foot:
  assumes A: "arena lo tp ts C av"
  shows "C p = Some (sz, k) \<Longrightarrow> C q = Some (sz', k') \<Longrightarrow> p + sz = q + sz' \<Longrightarrow> p = q"
  using prev_unique [OF arena_layout [OF A]] .

lemma unat_bin_addr:
  assumes A: "arena lo tp ts C av" and asm: "1 \<le> i" "i < 96"
  shows "unat (bin_addr av i) = unat av + 16 * i - 16" "unat (bin_addr av i + 16) = unat av + 16 * i"
    "unat (bin_addr av i + 24) = unat av + 16 * i + 8"
proof -
  have i: "unat (of_nat (16 * i) :: u64) = 16 * i"
    using asm by (simp add: unat_of_nat take_bit_nat_eq_self del: of_nat_mult)
  have 1: "unat (av + of_nat (16 * i)) = unat av + 16 * i"
    using asm arena_bounds(6) [OF A] i by (simp add: unat_add_nowrap del: of_nat_mult)
  have 2: "unat (av + of_nat (16 * i) + 8) = unat av + 16 * i + 8"
    using asm arena_bounds(6) [OF A] 1 by (simp add: unat_add_nowrap del: of_nat_mult)
  show "unat (bin_addr av i) = unat av + 16 * i - 16"
    using 1 asm(1) by (simp add: bin_addr_def unat_sub_le del: of_nat_mult)
  have "bin_addr av i + 16 = av + of_nat (16 * i)" by (simp add: bin_addr_def)
  then show "unat (bin_addr av i + 16) = unat av + 16 * i" using 1 by (simp only:)
  have "bin_addr av i + 24 = av + of_nat (16 * i) + 8" by (simp add: bin_addr_def)
  then show "unat (bin_addr av i + 24) = unat av + 16 * i + 8" using 2 by (simp only:)
qed

lemma bin_not_arena:
  assumes A: "arena lo tp ts C av" and asm: "1 \<le> i" "i < 96" "unat lo \<le> unat a" "unat a < unat tp + unat ts + 16"
  shows "bin_addr av i + 16 \<noteq> a" "bin_addr av i + 24 \<noteq> a"
proof -
  have "unat (bin_addr av i + 16) \<noteq> unat a \<and> unat (bin_addr av i + 24) \<noteq> unat a"
    unfolding unat_bin_addr(2,3) [OF A asm(1,2)] using asm arena_bounds(8) [OF A] by linarith
  then show "bin_addr av i + 16 \<noteq> a" "bin_addr av i + 24 \<noteq> a" by auto
qed

lemma bin_not_node:
  assumes A: "arena lo tp ts C av" and asm: "1 \<le> i" "i < 96"
  shows "bin_addr av i \<notin> insert tp (dom C)"
proof
  assume n: "bin_addr av i \<in> insert tp (dom C)"
  show False
    using node_bounds(1,2) [OF A n] unat_bin_addr [OF A asm] asm arena_bounds(2,8) [OF A] by auto
qed

lemma bin_not_words:
  assumes A: "arena lo tp ts C av" and asm: "1 \<le> i" "i < 96" "p \<in> insert tp (dom C)"
  shows "bin_addr av i + 16 \<noteq> p + 8" "bin_addr av i + 24 \<noteq> p + 8"
    "bin_addr av i + 16 \<noteq> p + 16" "bin_addr av i + 24 \<noteq> p + 16"
    "bin_addr av i + 16 \<noteq> p + 24" "bin_addr av i + 24 \<noteq> p + 24"
proof -
  note n = node_bounds [OF A asm(3)] and b = bin_not_arena [OF A asm(1,2)]
  have *: "unat lo \<le> unat p + d" "unat p + d < unat tp + unat ts + 16" if "d \<le> 24" for d
    using that n(1,2) arena_bounds(2) [OF A] by linarith+
  have a: "unat lo \<le> unat (p + 8)" "unat (p + 8) < unat tp + unat ts + 16"
    unfolding n(5) by (rule * [of 8], simp)+
  have b': "unat lo \<le> unat (p + 16)" "unat (p + 16) < unat tp + unat ts + 16"
    unfolding n(6) by (rule * [of 16], simp)+
  have c: "unat lo \<le> unat (p + 24)" "unat (p + 24) < unat tp + unat ts + 16"
    unfolding n(7) by (rule * [of 24], simp)+
  show "bin_addr av i + 16 \<noteq> p + 8" "bin_addr av i + 24 \<noteq> p + 8" using b [OF a] by - assumption+
  show "bin_addr av i + 16 \<noteq> p + 16" "bin_addr av i + 24 \<noteq> p + 16" using b [OF b'] by - assumption+
  show "bin_addr av i + 16 \<noteq> p + 24" "bin_addr av i + 24 \<noteq> p + 24" using b [OF c] by - assumption+
qed

lemma bin_not_foot:
  assumes A: "arena lo tp ts C av" and asm: "1 \<le> i" "i < 96" "C p = Some (sz, k)"
  shows "bin_addr av i + 16 \<noteq> p + sz" "bin_addr av i + 24 \<noteq> p + sz"
  using bin_not_arena [OF A asm(1,2), of "p + sz"] chunk_bounds [OF A asm(3)] by auto

lemma bin_bin:
  assumes A: "arena lo tp ts C av" and asm: "1 \<le> i" "i < 96" "1 \<le> j" "j < 96"
  shows "bin_addr av i + 16 \<noteq> bin_addr av j + 24" "bin_addr av i = bin_addr av j \<Longrightarrow> i = j"
proof -
  show "bin_addr av i + 16 \<noteq> bin_addr av j + 24"
  proof
    assume "bin_addr av i + 16 = bin_addr av j + 24"
    from arg_cong [OF this, of unat] have "unat av + 16 * i = unat av + 16 * j + 8"
      unfolding unat_bin_addr(2) [OF A asm(1,2)] unat_bin_addr(3) [OF A asm(3,4)] .
    then show False by presburger
  qed
  show "i = j" if "bin_addr av i = bin_addr av j"
  proof -
    from arg_cong [OF that, of "\<lambda>a. unat (a + 16)"] have "unat av + 16 * i = unat av + 16 * j"
      unfolding unat_bin_addr(2) [OF A asm(1,2)] unat_bin_addr(2) [OF A asm(3,4)] .
    then show ?thesis by linarith
  qed
qed


end
