(* ===== verification/Dl_Inv.thy ===== *)
theory Dl_Inv
  imports Dl_Layout
begin

text \<open>
  The invariant of the heap of \<open>lib/dlmalloc/malloc.c\<close>: the boundary tags agree with the layout,
  no two free chunks are neighbours, and every free chunk is in exactly one bin, a bin it belongs
  to by its size unless it is still in the unsorted list. A set of chunks can be exempted
  while an operation works on them.
\<close>

unbundle bit_operations_syntax

section \<open>Boundary tags\<close>

definition free_before :: "chunks \<Rightarrow> u64 \<Rightarrow> bool" where
  "free_before C q \<longleftrightarrow> (\<exists>p sz. C p = Some (sz, Free) \<and> p + sz = q)"

definition flag :: "chunks \<Rightarrow> u64 \<Rightarrow> u64" where
  "flag C q = (if free_before C q then 0 else 1)"

definition tagged :: "qmem \<Rightarrow> u64 \<Rightarrow> u64 \<Rightarrow> chunks \<Rightarrow> u64 set \<Rightarrow> bool" where
  "tagged m tp ts C X \<longleftrightarrow>
     (\<forall>p sz k. C p = Some (sz, k) \<longrightarrow> p \<notin> X \<longrightarrow> m (p + 8) = sz OR flag C p) \<and>
     m (tp + 8) = ts OR 1 \<and>
     (\<forall>p sz. C p = Some (sz, Free) \<longrightarrow> p \<notin> X \<longrightarrow> m (p + sz) = sz) \<and>
     (\<forall>p sz. C p = Some (sz, Free) \<longrightarrow> \<not> free_before C p \<and> p + sz \<noteq> tp)"

lemma tagged_head: "tagged m tp ts C X \<Longrightarrow> C p = Some (sz, k) \<Longrightarrow> p \<notin> X \<Longrightarrow> m (p + 8) = sz OR flag C p"
  by (simp add: tagged_def)

lemma tagged_top: "tagged m tp ts C X \<Longrightarrow> m (tp + 8) = ts OR 1"
  by (simp add: tagged_def)

lemma tagged_foot: "tagged m tp ts C X \<Longrightarrow> C p = Some (sz, Free) \<Longrightarrow> p \<notin> X \<Longrightarrow> m (p + sz) = sz"
  by (simp add: tagged_def)

lemma tagged_apart:
  "tagged m tp ts C X \<Longrightarrow> C p = Some (sz, Free) \<Longrightarrow> \<not> free_before C p \<and> p + sz \<noteq> tp"
  by (simp add: tagged_def)

subsection \<open>Reading a size field\<close>

lemma low_bits:
  assumes "16 dvd unat (x :: u64)"
  shows "\<not> bit x 0" "\<not> bit x 1" "\<not> bit x 2" "\<not> bit x 3"
proof -
  have "x AND mask 4 = 0" using assms by (simp add: and_mask_zero_iff)
  then have "\<not> bit (x AND mask 4) k" for k by simp
  then have n: "\<not> bit x k" if "k < 4" for k
    using that unfolding bit_and_iff bit_mask_iff by (metis bit_imp_possible_bit)
  from n [of 0] n [of 1] n [of 2] n [of 3]
  show "\<not> bit x 0" "\<not> bit x 1" "\<not> bit x 2" "\<not> bit x 3" by simp_all
qed

lemma small_bits:
  "bit (1::u64) n \<longleftrightarrow> n = 0" "bit (2::u64) n \<longleftrightarrow> n = 1" "bit (3::u64) n \<longleftrightarrow> n < 2"
proof -
  have 3: "(3::u64) = mask 2" by (simp add: mask_eq_exp_minus_1)
  show "bit (3::u64) n \<longleftrightarrow> n < 2" unfolding 3 bit_mask_iff by (auto simp: possible_bit_word)
  show "bit (1::u64) n \<longleftrightarrow> n = 0" "bit (2::u64) n \<longleftrightarrow> n = 1"
    by (auto simp: bit_1_iff bit_2_iff possible_bit_word)
qed

lemma tag_bits:
  assumes "16 dvd unat (x :: u64)"
  shows "(x OR 1) AND NOT 3 = x" "x AND NOT 3 = x" "(x OR 1) AND NOT 1 = x" "x AND NOT 1 = x"
    "(x OR 1) AND 1 = 1" "x AND 1 = 0" "(x OR 1) AND 2 = 0" "x AND 2 = 0"
    "x OR 1 = x + 1" "(x OR 2) AND NOT 3 = x" "(x OR 2) AND 2 = 2"
proof -
  have k: "bit x n \<Longrightarrow> 2 \<le> n" for n
    using low_bits(1,2) [OF assms] by (cases n; cases "n - 1") auto
  have l: "\<not> bit x 0" "\<not> bit x 1" "\<not> bit x (Suc 0)" using low_bits(1,2) [OF assms] by simp_all
  have k': "bit x n \<Longrightarrow> 0 < n" for n using k [of n] by simp
  note r = bit_and_iff bit_or_iff bit_not_iff small_bits
  show "(x OR 1) AND NOT 3 = x" by (rule bit_word_eqI, unfold r, insert l, auto simp: not_less dest: k intro: k')
  show "x AND NOT 3 = x" by (rule bit_word_eqI, unfold r, insert l, auto simp: not_less dest: k intro: k')
  show "(x OR 2) AND NOT 3 = x" by (rule bit_word_eqI, unfold r, insert l, auto simp: not_less dest: k intro: k')
  show "(x OR 1) AND NOT 1 = x"
  proof (rule bit_word_eqI)
    fix n show "bit ((x OR 1) AND NOT 1) n = bit x n"
      unfolding r using l(1) by (cases "n = 0") (auto dest: bit_imp_le_length)
  qed
  show "x AND NOT 1 = x"
  proof (rule bit_word_eqI)
    fix n show "bit (x AND NOT 1) n = bit x n"
      unfolding r using l(1) by (cases "n = 0") (auto dest: bit_imp_le_length)
  qed
  show "(x OR 1) AND 1 = 1" by (rule bit_word_eqI, unfold r, insert l, auto simp: not_less dest: k intro: k')
  show "(x OR 1) AND 2 = 0" by (rule bit_word_eqI, unfold r, insert l, auto simp: not_less dest: k intro: k')
  show "x AND 2 = 0" by (rule bit_word_eqI, unfold r, insert l, auto simp: not_less dest: k intro: k')
  show "(x OR 2) AND 2 = 2" by (rule bit_word_eqI, unfold r, insert l, auto simp: not_less dest: k intro: k')
  show "x AND 1 = 0"
  proof (rule bit_word_eqI)
    fix n show "bit (x AND 1) n = bit (0 :: u64) n" unfolding r using l(1) by (cases "n = 0") auto
  qed
  show "x OR 1 = x + 1"
    by (rule disjunctive_add_eq_or [symmetric]) fact
qed

lemma flag_cases: "flag C p = 0 \<or> flag C p = 1"
  by (simp add: flag_def)

lemma tag_read:
  assumes "16 dvd unat sz"
  shows "(sz OR flag C p) AND NOT 3 = sz" "(sz OR flag C p) AND NOT 1 = sz"
    "(sz OR flag C p) AND 1 = flag C p" "(sz OR flag C p) AND 2 = 0" "(sz OR flag C p) OR 1 = sz OR 1"
  using flag_cases [of C p] tag_bits [OF assms] by (auto simp: or.assoc)

section \<open>Bins\<close>

definition csize :: "chunks \<Rightarrow> u64 \<Rightarrow> nat" where
  "csize C x = (case C x of Some (sz, _) \<Rightarrow> unat sz | None \<Rightarrow> 0)"

definition binned :: "qmem \<Rightarrow> u64 \<Rightarrow> (nat \<Rightarrow> bool) \<Rightarrow> chunks \<Rightarrow> (nat \<Rightarrow> u64 list) \<Rightarrow> u64 set \<Rightarrow> bool" where
  "binned m av mk C B X \<longleftrightarrow>
     (\<forall>i. 1 \<le> i \<longrightarrow> i < 96 \<longrightarrow> ring m (bin_addr av i) (B i)) \<and>
     (\<forall>i x. 1 \<le> i \<longrightarrow> i < 96 \<longrightarrow> x \<in> set (B i) \<longrightarrow>
        (\<exists>sz. C x = Some (sz, Free) \<and> x \<notin> X \<and> (i = 1 \<or> i = unat (bin_index sz)))) \<and>
     (\<forall>x sz. C x = Some (sz, Free) \<longrightarrow> x \<notin> X \<longrightarrow> (\<exists>i. 1 \<le> i \<and> i < 96 \<and> x \<in> set (B i))) \<and>
     (\<forall>i j. 1 \<le> i \<longrightarrow> i < 96 \<longrightarrow> 1 \<le> j \<longrightarrow> j < 96 \<longrightarrow> i \<noteq> j \<longrightarrow> set (B i) \<inter> set (B j) = {}) \<and>
     (\<forall>i. 32 \<le> i \<longrightarrow> i < 96 \<longrightarrow> sorted_wrt (\<lambda>x y. csize C y \<le> csize C x) (B i)) \<and>
     (\<forall>i. 2 \<le> i \<longrightarrow> i < 96 \<longrightarrow> B i \<noteq> [] \<longrightarrow> mk i)"

lemma binned_ring: "binned m av mk C B X \<Longrightarrow> 1 \<le> i \<Longrightarrow> i < 96 \<Longrightarrow> ring m (bin_addr av i) (B i)"
  by (simp add: binned_def)

lemma binned_member:
  "binned m av mk C B X \<Longrightarrow> 1 \<le> i \<Longrightarrow> i < 96 \<Longrightarrow> x \<in> set (B i) \<Longrightarrow>
     \<exists>sz. C x = Some (sz, Free) \<and> x \<notin> X \<and> (i = 1 \<or> i = unat (bin_index sz))"
  by (simp add: binned_def)

lemma binned_find:
  "binned m av mk C B X \<Longrightarrow> C x = Some (sz, Free) \<Longrightarrow> x \<notin> X \<Longrightarrow> \<exists>i. 1 \<le> i \<and> i < 96 \<and> x \<in> set (B i)"
  by (simp add: binned_def)

lemma binned_disjoint:
  "binned m av mk C B X \<Longrightarrow> 1 \<le> i \<Longrightarrow> i < 96 \<Longrightarrow> 1 \<le> j \<Longrightarrow> j < 96 \<Longrightarrow> i \<noteq> j \<Longrightarrow>
     x \<in> set (B i) \<Longrightarrow> x \<notin> set (B j)"
  by (simp add: binned_def) blast

lemma binned_sorted:
  "binned m av mk C B X \<Longrightarrow> 32 \<le> i \<Longrightarrow> i < 96 \<Longrightarrow> sorted_wrt (\<lambda>x y. csize C y \<le> csize C x) (B i)"
  by (simp add: binned_def)

lemma binned_mark: "binned m av mk C B X \<Longrightarrow> 2 \<le> i \<Longrightarrow> i < 96 \<Longrightarrow> B i \<noteq> [] \<Longrightarrow> mk i"
  by (simp add: binned_def)

text \<open>The words that hold the links of the bins and of their chunks.\<close>

definition bin_nodes :: "u64 \<Rightarrow> (nat \<Rightarrow> u64 list) \<Rightarrow> u64 set" where
  "bin_nodes av B = (\<Union>i\<in>{1..<96}. insert (bin_addr av i) (set (B i)))"

lemma binned_frame:
  assumes "binned m av mk C B X" "\<And>a. a \<in> link_words (bin_nodes av B) \<Longrightarrow> m' a = m a"
  shows "binned m' av mk C B X"
proof -
  have "ring m' (bin_addr av i) (B i)" if "1 \<le> i" "i < 96" for i
  proof (rule ring_frame [OF binned_ring [OF assms(1) that]])
    fix a assume "a \<in> link_words (insert (bin_addr av i) (set (B i)))"
    moreover have "insert (bin_addr av i) (set (B i)) \<subseteq> bin_nodes av B"
      using that by (auto simp: bin_nodes_def)
    ultimately show "m' a = m a" using assms(2) link_words_mono by blast
  qed
  then show ?thesis using assms(1) by (simp add: binned_def)
qed

text \<open>A chunk map with the same free chunks, outside \<open>X\<close>.\<close>

lemma binned_cong:
  assumes "binned m av mk C B X"
    "\<And>x sz. C x = Some (sz, Free) \<and> x \<notin> X \<longleftrightarrow> C' x = Some (sz, Free) \<and> x \<notin> X'"
  shows "binned m av mk C' B X'"
proof -
  have size: "csize C' x = csize C x" if h: "1 \<le> i" "i < 96" "x \<in> set (B i)" for i x
  proof -
    obtain sz where "C x = Some (sz, Free)" "x \<notin> X"
      using binned_member [OF assms(1) h] by blast
    moreover from this have "C' x = Some (sz, Free)" using assms(2) by blast
    ultimately show ?thesis by (simp add: csize_def)
  qed
  show ?thesis unfolding binned_def
  proof (intro conjI allI impI)
    show "\<exists>sz. C' x = Some (sz, Free) \<and> x \<notin> X' \<and> (i = 1 \<or> i = unat (bin_index sz))"
      if "1 \<le> i" "i < 96" "x \<in> set (B i)" for i x
      using binned_member [OF assms(1), of i x] that assms(2) by blast
    show "\<exists>i. 1 \<le> i \<and> i < 96 \<and> x \<in> set (B i)" if "C' x = Some (sz, Free)" "x \<notin> X'" for x sz
      using binned_find [OF assms(1), of x sz] assms(2) that by blast
    show "sorted_wrt (\<lambda>x y. csize C' y \<le> csize C' x) (B i)" if i: "32 \<le> i" "i < 96" for i
    proof (rule sorted_wrt_mono_rel [OF _ binned_sorted [OF assms(1) i]])
      fix x y assume "x \<in> set (B i)" "y \<in> set (B i)" "csize C y \<le> csize C x"
      then show "csize C' y \<le> csize C' x" using size [of i] i by simp
    qed
  qed (use assms(1) in \<open>simp_all add: binned_def\<close>)
qed

section \<open>What an operation may write\<close>

definition live :: "chunks \<Rightarrow> chunks" where
  "live C = (\<lambda>q. case C q of Some (z, k) \<Rightarrow> if k = Free then None else Some (z, k) | None \<Rightarrow> None)"

lemma live_some: "live C q = Some (z, k) \<longleftrightarrow> C q = Some (z, k) \<and> k \<noteq> Free"
  by (auto simp: live_def split: option.splits)

lemma live_none: "live C q = None \<longleftrightarrow> C q = None \<or> (\<exists>z. C q = Some (z, Free))"
  by (auto simp: live_def split: option.splits)

lemma live_eqI:
  assumes "\<And>q z k. k \<noteq> Free \<Longrightarrow> N q = Some (z, k) \<longleftrightarrow> C q = Some (z, k)" "\<And>q z. N q \<noteq> Some (z, Free)"
  shows "live C = N"
proof
  fix q
  show "live C q = N q"
  proof (cases "N q")
    case None
    have "live C q \<noteq> Some (z, k)" for z k
      using assms(1) [of k q z] None by (auto simp: live_some)
    then show ?thesis using None by (metis not_None_eq surj_pair)
  next
    case (Some x)
    obtain z k where "x = (z, k)" by (cases x)
    then have "k \<noteq> Free" using assms(2) Some by blast
    then have "live C q = Some (z, k)"
      using assms(1) Some \<open>x = (z, k)\<close> by (simp add: live_some)
    then show ?thesis using Some \<open>x = (z, k)\<close> by simp
  qed
qed

text \<open>
  The words that no live chunk has lent to its owner: the bins, and in the heap everything outside
  the data of the live chunks.
\<close>

definition touch :: "u64 \<Rightarrow> nat \<Rightarrow> u64 \<Rightarrow> chunks \<Rightarrow> u64 set" where
  "touch lo e av N =
     {a. unat av + 16 \<le> unat a \<and> unat a < unat av + 1536} \<union>
     {a. unat lo + 8 \<le> unat a \<and> unat a < e + 8 \<and> (\<forall>q z k. N q = Some (z, k) \<longrightarrow> a \<notin> data_words q z)}"

lemma touch_head:
  assumes A: "arena lo tp ts C av" and asm: "p \<in> insert tp (dom C)" "\<And>q z k. N q = Some (z, k) \<Longrightarrow> C q = Some (z, k)"
  shows "p + 8 \<in> touch lo (unat tp + unat ts) av N"
proof -
  note n = node_bounds [OF A asm(1)]
  have "p + 8 \<notin> data_words q z" if "C q = Some (z, k)" for q z k
  proof
    assume "p + 8 \<in> data_words q z"
    then have d: "unat q + 8 \<le> unat p" "unat p < unat q + unat z" by (auto simp: data_words_def n(5))
    then have "p \<noteq> tp" using chunk_bounds(2) [OF A that] by auto
    then have "p \<in> dom C" using asm(1) by simp
    then have "unat q + unat z \<le> unat p"
      using layout_order [OF arena_layout [OF A] that, of p] d by simp
    then show False using d by simp
  qed
  then show ?thesis using n arena_bounds(2) [OF A] asm(2) by (auto simp: touch_def)
qed

lemma touch_own:
  assumes A: "arena lo tp ts C av" and asm: "C p = Some (sz, k)" "N p = None" "\<And>q z k. N q = Some (z, k) \<Longrightarrow> C q = Some (z, k)"
    "a \<in> own p sz"
  shows "a \<in> touch lo (unat tp + unat ts) av N"
proof -
  have "a \<notin> data_words q z" if "N q = Some (z, j)" for q z j
  proof -
    have "q \<noteq> p" using that asm(2) by auto
    then show ?thesis
      using own_disjoint [OF arena_layout [OF A] asm(3) [OF that] asm(1)] data_own [of q z] asm(4)
      by blast
  qed
  then show ?thesis
    using asm(4) chunk_bounds(1,2) [OF A asm(1)] by (auto simp: touch_def own_def)
qed

lemma own_words:
  assumes A: "arena lo tp ts C av" and asm: "C p = Some (sz, k)"
  shows "p + 8 \<in> own p sz" "p + 16 \<in> own p sz" "p + 24 \<in> own p sz" "p + sz \<in> own p sz"
proof -
  have "p \<in> insert tp (dom C)" using asm by auto
  note n = node_bounds [OF A this] and c = chunk_bounds [OF A asm]
  show "p + 8 \<in> own p sz" "p + 16 \<in> own p sz" "p + 24 \<in> own p sz" "p + sz \<in> own p sz"
    using n(5-7) c(3,5) by (auto simp: own_def)
qed

lemma touch_bin:
  assumes A: "arena lo tp ts C av"
  shows "1 \<le> i \<Longrightarrow> i < 96 \<Longrightarrow> bin_addr av i + 16 \<in> touch lo e av N"
  "1 \<le> i \<Longrightarrow> i < 96 \<Longrightarrow> bin_addr av i + 24 \<in> touch lo e av N"
  using unat_bin_addr(2,3) [OF A, of i] by (auto simp: touch_def)

lemma touch_top:
  assumes A: "arena lo tp ts C av" and asm: "\<And>q z k. N q = Some (z, k) \<Longrightarrow> C q = Some (z, k)" "unat tp + 8 \<le> unat a" "unat a < unat tp + unat ts + 8"
  shows "a \<in> touch lo (unat tp + unat ts) av N"
proof -
  have "a \<notin> data_words q z" if "N q = Some (z, k)" for q z k
    using chunk_bounds(2) [OF A asm(1) [OF that]] asm(2) by (auto simp: data_words_def)
  then show ?thesis using asm(2,3) arena_bounds(7) [OF A] by (auto simp: touch_def)
qed


end
