(* ===== verification/Dl_Bins.thy ===== *)
theory Dl_Bins
  imports Dl_Inv
begin

text \<open>
  Taking a chunk out of a bin and putting one in, on the level of the heap invariant: the stores
  to the links keep the boundary tags, and the bins stay the free chunks sorted by size.
\<close>

unbundle bit_operations_syntax

section \<open>Links do not meet tags\<close>

definition all_nodes :: "u64 \<Rightarrow> chunks \<Rightarrow> u64 set" where
  "all_nodes av C = bin_addr av ` {1..<96} \<union> dom C"

lemma link_words_cases:
  assumes "a \<in> link_words (all_nodes av C)"
  obtains i where "1 \<le> i" "i < 96" "a = bin_addr av i + 16 \<or> a = bin_addr av i + 24"
  | p where "p \<in> dom C" "a = p + 16 \<or> a = p + 24"
  using assms by (auto simp: link_words_def all_nodes_def)

lemma links_not_head:
  assumes A: "arena lo tp ts C av" and asm: "p \<in> insert tp (dom C)"
  shows "p + 8 \<notin> link_words (all_nodes av C)"
proof
  assume "p + 8 \<in> link_words (all_nodes av C)"
  then show False
  proof (cases rule: link_words_cases)
    case (1 i)
    then show False using bin_not_words(1,2) [OF A 1(1,2) asm] by metis
  next
    case (2 q)
    then show False using head_link [OF A asm 2(1)] by metis
  qed
qed

lemma links_not_foot:
  assumes A: "arena lo tp ts C av" and asm: "C p = Some (sz, k)"
  shows "p + sz \<notin> link_words (all_nodes av C)"
proof
  assume "p + sz \<in> link_words (all_nodes av C)"
  then show False
  proof (cases rule: link_words_cases)
    case (1 i)
    then show False using bin_not_foot [OF A 1(1,2) asm] by metis
  next
    case (2 q)
    then show False using link_foot [OF A 2(1) asm] by metis
  qed
qed

lemma all_nodes_apart:
  assumes A: "arena lo tp ts C av"
  shows "apart (all_nodes av C)"
  unfolding apart_def
proof (intro ballI)
  fix p q assume pq: "p \<in> all_nodes av C" "q \<in> all_nodes av C"
  have "r \<in> dom C \<or> (\<exists>i. 1 \<le> i \<and> i < 96 \<and> r = bin_addr av i)" if "r \<in> all_nodes av C" for r
    using that by (auto simp: all_nodes_def)
  from this [OF pq(1)] this [OF pq(2)] consider i j where "1 \<le> i" "i < 96" "p = bin_addr av i" "1 \<le> j" "j < 96" "q = bin_addr av j"
    | i where "1 \<le> i" "i < 96" "p = bin_addr av i" "q \<in> dom C"
    | j where "p \<in> dom C" "1 \<le> j" "j < 96" "q = bin_addr av j"
    | "p \<in> dom C" "q \<in> dom C"
    by blast
  then show "p + 16 \<noteq> q + 24"
  proof cases
    case 1 then show ?thesis using bin_bin(1) [OF A] by blast
  next
    case 2 then show ?thesis using bin_not_words(5) [OF A, of i q] by blast
  next
    case 3 then show ?thesis using bin_not_words(4) [OF A, of j p] by (metis insertI2)
  next
    case 4 then show ?thesis using link_link [OF A] by blast
  qed
qed

lemma tagged_links:
  assumes A: "arena lo tp ts C av" and asm: "tagged m tp ts C X" "\<And>a. a \<notin> link_words (all_nodes av C) \<Longrightarrow> m' a = m a"
  shows "tagged m' tp ts C X"
proof -
  have h: "m' (p + 8) = m (p + 8)" if "p \<in> insert tp (dom C)" for p
    using asm(2) links_not_head [OF A that] by blast
  have f: "m' (p + sz) = m (p + sz)" if "C p = Some (sz, k)" for p sz k
    using asm(2) links_not_foot [OF A that] by blast
  show ?thesis using asm(1) h f unfolding tagged_def by (auto simp: domI)
qed


lemma bin_nodes_all:
  assumes "binned m av mk C B Y"
  shows "bin_nodes av B \<subseteq> all_nodes av C"
  using binned_member [OF assms] by (fastforce simp: bin_nodes_def all_nodes_def)

lemma bin_nodes_in: "1 \<le> i \<Longrightarrow> i < 96 \<Longrightarrow> insert (bin_addr av i) (set (B i)) \<subseteq> bin_nodes av B"
  by (auto simp: bin_nodes_def)

lemma rings_disjoint:
  assumes "arena lo tp ts C av" "binned m av mk C B Y"
    and "1 \<le> i" "i < 96" "1 \<le> j" "j < 96" "i \<noteq> j"
  shows "insert (bin_addr av i) (set (B i)) \<inter> insert (bin_addr av j) (set (B j)) = {}"
proof -
  have "set (B k) \<subseteq> dom C" if "1 \<le> k" "k < 96" for k
    using binned_member [OF assms(2) that] by auto
  then have "bin_addr av i \<notin> set (B j)" "bin_addr av j \<notin> set (B i)"
    using bin_not_node [OF assms(1)] assms(3-6) by auto
  then show ?thesis
    using binned_disjoint [OF assms(2,3-7)] bin_bin(2) [OF assms(1,3-6)] assms(7) by auto
qed

lemma other_ring_frame:
  assumes A: "arena lo tp ts C av" and b: "binned m av mk C B Y"
    and i: "1 \<le> i" "i < 96" and j: "1 \<le> j" "j < 96" "j \<noteq> i"
    and f: "\<And>a. a \<in> link_words (bin_nodes av B) \<Longrightarrow> a \<notin> link_words (insert (bin_addr av i) (set (B i))) \<Longrightarrow> m' a = m a"
  shows "ring m' (bin_addr av j) (B j)"
proof (rule ring_frame [OF binned_ring [OF b j(1,2)]])
  fix a assume a: "a \<in> link_words (insert (bin_addr av j) (set (B j)))"
  have "insert (bin_addr av i) (set (B i)) \<union> insert (bin_addr av j) (set (B j)) \<subseteq> all_nodes av C"
    using bin_nodes_in [OF i, of av B] bin_nodes_in [OF j(1,2), of av B] bin_nodes_all [OF b] by blast
  then have "apart (insert (bin_addr av i) (set (B i)) \<union> insert (bin_addr av j) (set (B j)))"
    using all_nodes_apart [OF A] apart_mono by blast
  from link_words_disjoint [OF this rings_disjoint [OF A b i j(1,2) j(3) [symmetric]]] a
  have "a \<notin> link_words (insert (bin_addr av i) (set (B i)))" by blast
  moreover have "a \<in> link_words (bin_nodes av B)"
    using a bin_nodes_in [OF j(1,2), of av B] link_words_mono by blast
  ultimately show "m' a = m a" using f by blast
qed

lemma links_touch:
  assumes A: "arena lo tp ts C av" and b: "binned m av mk C B Y"
    and N: "\<And>q z k. N q = Some (z, k) \<Longrightarrow> C q = Some (z, k) \<and> k \<noteq> Free"
  shows "link_words (bin_nodes av B) \<subseteq> touch lo (unat tp + unat ts) av N"
proof
  fix a assume "a \<in> link_words (bin_nodes av B)"
  then obtain x where xn: "x \<in> bin_nodes av B" and xa: "a = x + 16 \<or> a = x + 24"
    unfolding link_words_def by blast
  from xn obtain j where j: "1 \<le> j" "j < 96" and xj: "x = bin_addr av j \<or> x \<in> set (B j)"
    by (auto simp: bin_nodes_def)
  note x = xj xa
  show "a \<in> touch lo (unat tp + unat ts) av N"
  proof (cases "x = bin_addr av j")
    case True
    then show ?thesis using touch_bin [OF A j] x(2) by blast
  next
    case False
    then obtain z where z: "C x = Some (z, Free)" using binned_member [OF b j] x(1) by blast
    have "N x \<noteq> Some y" for y using N [of x "fst y" "snd y"] z by auto
    then have "N x = None" by (meson not_None_eq)
    then show ?thesis
      using touch_own [OF A z _ conjunct1 [OF N]] own_words(2,3) [OF A z] x(2) by blast
  qed
qed

section \<open>Removing a chunk\<close>

text \<open>Any change of memory that takes \<open>x\<close> out of ring \<open>i\<close> and leaves the other links.\<close>

lemma binned_remove:
  assumes A: "arena lo tp ts C av" and b: "binned m av mk C B Y"
    and i: "1 \<le> i" "i < 96" "B i = xs @ x # ys"
    and r: "ring m' (bin_addr av i) (xs @ ys)"
    and f: "\<And>a. a \<in> link_words (bin_nodes av B) \<Longrightarrow> a \<notin> link_words (insert (bin_addr av i) (set (B i))) \<Longrightarrow> m' a = m a"
  shows "binned m' av mk C (B(i := xs @ ys)) (insert x Y)"
proof -
  let ?B = "B(i := xs @ ys)"
  have d: "x \<notin> set (xs @ ys)" using binned_ring [OF b i(1,2)] i(3) by (auto simp: ring_def)
  have sub: "set (?B j) \<subseteq> set (B j)" for j using i(3) by auto
  have xB: "x \<notin> set (?B j)" if "1 \<le> j" "j < 96" for j
    using d binned_disjoint [OF b i(1,2) that, of x] i(3) by auto
  show ?thesis unfolding binned_def
  proof (intro conjI allI impI)
    fix j :: nat assume j: "1 \<le> j" "j < 96"
    show "ring m' (bin_addr av j) (?B j)"
      using r other_ring_frame [OF A b i(1,2) j _ f] by (cases "j = i") auto
    show "\<exists>sz. C y = Some (sz, Free) \<and> y \<notin> insert x Y \<and> (j = 1 \<or> j = unat (bin_index sz))"
      if "y \<in> set (?B j)" for y
      using binned_member [OF b j] sub [of j] xB [OF j] that by blast
    show "set (?B j) \<inter> set (?B k) = {}" if "1 \<le> k" "k < 96" "j \<noteq> k" for k
      using binned_disjoint [OF b j that] sub [of j] sub [of k] by blast
  next
    fix y sz assume y: "C y = Some (sz, Free)" "y \<notin> insert x Y"
    then obtain j where "1 \<le> j" "j < 96" "y \<in> set (B j)" using binned_find [OF b, of y sz] by blast
    then show "\<exists>j. 1 \<le> j \<and> j < 96 \<and> y \<in> set (?B j)" using y i(3) by (intro exI [of _ j]) auto
  next
    fix j :: nat assume j: "32 \<le> j" "j < 96"
    show "sorted_wrt (\<lambda>x y. csize C y \<le> csize C x) (?B j)"
      using binned_sorted [OF b j] i(3) by (cases "j = i") (auto simp: sorted_wrt_append)
  next
    fix j :: nat assume j: "2 \<le> j" "j < 96" "?B j \<noteq> []"
    then have "B j \<noteq> []" using i(3) by (auto split: if_splits)
    then show "mk j" using binned_mark [OF b j(1,2)] by blast
  qed
qed

lemma bin_split:
  assumes "binned m av mk C B Y" "C x = Some (sz, Free)" "x \<notin> Y"
  obtains i xs ys where "1 \<le> i" "i < 96" "B i = xs @ x # ys"
  using binned_find [OF assms] by (metis split_list)

lemma binned_unlink:
  assumes A: "arena lo tp ts C av" and b: "binned (mem s) av mk C B Y"
    and i: "1 \<le> i" "i < 96" "B i = xs @ x # ys"
  shows "binned (mem (unlink x s)) av mk C (B(i := xs @ ys)) (insert x Y)"
    "a \<notin> link_words (bin_nodes av (B(i := xs @ ys))) \<Longrightarrow> mem (unlink x s) a = mem s a"
proof -
  let ?b = "bin_addr av i"
  have sub: "insert ?b (set (B i)) \<subseteq> all_nodes av C"
    using bin_nodes_in [OF i(1,2), of av B] bin_nodes_all [OF b] by blast
  have ap: "apart (insert ?b (set (xs @ x # ys)))"
    using all_nodes_apart [OF A] sub apart_mono unfolding i(3) by blast
  have r: "ring (mem s) ?b (xs @ x # ys)" using binned_ring [OF b i(1,2)] i(3) by simp
  note u = ring_unlink [OF r ap]
  have small: "link_words (insert ?b (set (xs @ ys))) \<subseteq> link_words (insert ?b (set (B i)))"
    by (rule link_words_mono) (auto simp: i(3))
  show "binned (mem (unlink x s)) av mk C (B(i := xs @ ys)) (insert x Y)"
    using binned_remove [OF A b i u(1)] u(2) small by blast
  show "mem (unlink x s) a = mem s a" if "a \<notin> link_words (bin_nodes av (B(i := xs @ ys)))"
  proof -
    have "insert ?b (set (xs @ ys)) \<subseteq> bin_nodes av (B(i := xs @ ys))"
      using bin_nodes_in [OF i(1,2), of av "B(i := xs @ ys)"] by simp
    then show ?thesis using u(2) that link_words_mono by blast
  qed
qed

section \<open>Inserting a chunk\<close>

lemma binned_insert:
  assumes A: "arena lo tp ts C av" and b: "binned m av mk C B Y"
    and i: "1 \<le> i" "i < 96" "B i = xs @ ys"
    and x: "C x = Some (sz, Free)" "x \<in> Y" "i = 1 \<or> i = unat (bin_index sz)"
    and srt: "32 \<le> i \<Longrightarrow> (\<forall>y\<in>set xs. unat sz \<le> csize C y) \<and> (\<forall>y\<in>set ys. csize C y \<le> unat sz)"
    and mk: "\<And>j. mk j \<Longrightarrow> mk' j" "2 \<le> i \<Longrightarrow> mk' i"
    and st: "m' (x + 24) = last (bin_addr av i # xs)" "m' (x + 16) = hd (ys @ [bin_addr av i])"
      "m' (last (bin_addr av i # xs) + 16) = x" "m' (hd (ys @ [bin_addr av i]) + 24) = x"
    and f: "\<And>a. a \<notin> {x + 16, x + 24, last (bin_addr av i # xs) + 16, hd (ys @ [bin_addr av i]) + 24} \<Longrightarrow>
        a \<in> link_words (bin_nodes av B) \<Longrightarrow> m' a = m a"
  shows "binned m' av mk' C (B(i := xs @ x # ys)) (Y - {x})"
proof -
  let ?b = "bin_addr av i" and ?B = "B(i := xs @ x # ys)"
  have xB: "x \<notin> set (B j)" if "1 \<le> j" "j < 96" for j
    using binned_member [OF b that, of x] x(2) by blast
  have all: "bin_nodes av B \<subseteq> all_nodes av C" using bin_nodes_all [OF b] .
  have xin: "x \<in> all_nodes av C" using x(1) by (auto simp: all_nodes_def)
  have sub: "insert ?b (set (B i)) \<subseteq> bin_nodes av B" using bin_nodes_in [OF i(1,2)] .
  have ap: "apart (insert x (insert ?b (set (xs @ ys))))"
  proof (rule apart_mono [OF all_nodes_apart [OF A]])
    show "insert x (insert ?b (set (xs @ ys))) \<subseteq> all_nodes av C"
      using subset_trans [OF sub all] xin i(3) by simp
  qed
  have r: "ring m ?b (xs @ ys)" using binned_ring [OF b i(1,2)] i(3) by simp
  have xb: "x \<noteq> ?b" using bin_not_node [OF A i(1,2)] x(1) by auto
  have "ring m' ?b (xs @ x # ys)"
  proof (rule ring_insert [OF r ap _ st])
    show "x \<notin> set (?b # xs @ ys)" using xB [OF i(1,2)] xb i(3) by auto
    show "m' a = m a"
      if "a \<notin> {x + 16, x + 24, last (?b # xs) + 16, hd (ys @ [?b]) + 24}"
        "a \<in> link_words (insert ?b (set (xs @ ys)))" for a
    proof (rule f [OF that(1)])
      show "a \<in> link_words (bin_nodes av B)" using that(2) link_words_mono [OF sub] i(3) by auto
    qed
  qed
  moreover have "ring m' (bin_addr av j) (B j)" if j: "1 \<le> j" "j < 96" "j \<noteq> i" for j
  proof (rule other_ring_frame [OF A b i(1,2) j])
    fix a assume a: "a \<in> link_words (bin_nodes av B)" "a \<notin> link_words (insert ?b (set (B i)))"
    have "last (?b # xs) \<in> insert ?b (set (B i))" "hd (ys @ [?b]) \<in> insert ?b (set (B i))"
      using last_hd_in(1) [of ?b xs] last_hd_in(2) [of ys ?b] i(3) by auto
    then have ne: "a \<noteq> last (?b # xs) + 16" "a \<noteq> hd (ys @ [?b]) + 24" using a(2) by auto
    have nx: "x \<notin> bin_nodes av B"
    proof
      assume "x \<in> bin_nodes av B"
      then obtain k where k: "1 \<le> k" "k < 96" "x = bin_addr av k \<or> x \<in> set (B k)"
        by (auto simp: bin_nodes_def)
      have "x \<in> dom C" using x(1) by blast
      then show False using k xB [OF k(1,2)] bin_not_node [OF A k(1,2)] by auto
    qed
    have "apart ({x} \<union> bin_nodes av B)"
      by (rule apart_mono [OF all_nodes_apart [OF A]]) (use all xin in simp)
    from link_words_disjoint [OF this] nx a(1) have "a \<notin> link_words {x}" by blast
    then have "a \<noteq> x + 16" "a \<noteq> x + 24" by (auto simp: link_words_def)
    then show "m' a = m a" using f ne a(1) by blast
  qed
  ultimately have rings: "ring m' (bin_addr av j) (?B j)" if "1 \<le> j" "j < 96" for j
    using that by (cases "j = i") auto
  show ?thesis unfolding binned_def
  proof (intro conjI allI impI)
    fix j :: nat assume j: "1 \<le> j" "j < 96"
    show "ring m' (bin_addr av j) (?B j)" using rings [OF j] .
    show "\<exists>sz. C y = Some (sz, Free) \<and> y \<notin> Y - {x} \<and> (j = 1 \<or> j = unat (bin_index sz))"
      if "y \<in> set (?B j)" for y
      using binned_member [OF b j, of y] that x i(3) by (cases "j = i") auto
    show "set (?B j) \<inter> set (?B k) = {}" if "1 \<le> k" "k < 96" "j \<noteq> k" for k
      using binned_disjoint [OF b j that] xB [OF j] xB [OF that(1,2)] i(3) that(3) by auto
  next
    fix y z assume y: "C y = Some (z, Free)" "y \<notin> Y - {x}"
    show "\<exists>j. 1 \<le> j \<and> j < 96 \<and> y \<in> set (?B j)"
    proof (cases "y = x")
      case True
      then show ?thesis using i by (intro exI [of _ i]) auto
    next
      case False
      then obtain j where "1 \<le> j" "j < 96" "y \<in> set (B j)" using binned_find [OF b y(1)] y(2) by blast
      then show ?thesis using i(3) by (intro exI [of _ j]) auto
    qed
  next
    fix j :: nat assume j: "32 \<le> j" "j < 96"
    show "sorted_wrt (\<lambda>x y. csize C y \<le> csize C x) (?B j)"
    proof (cases "j = i")
      case True
      have "sorted_wrt (\<lambda>x y. csize C y \<le> csize C x) (xs @ ys)"
        using binned_sorted [OF b j] True i(3) by simp
      then show ?thesis using True srt j x(1) by (auto simp: sorted_wrt_append csize_def)
    next
      case False
      then show ?thesis using binned_sorted [OF b j] by simp
    qed
  next
    fix j :: nat assume j: "2 \<le> j" "j < 96" "?B j \<noteq> []"
    then show "mk' j" using binned_mark [OF b j(1,2)] mk by (cases "j = i") auto
  qed
qed

end
