(* ===== verification/Dl_Merge.thy ===== *)
theory Dl_Merge
  imports Dl_Bins
begin

text \<open>
  Consolidation keeps the heap invariant: the steps that \<open>fREe\<close> and \<open>malloc_consolidate\<close> share,
  each with the chunk that is being worked on exempted.
\<close>

unbundle bit_operations_syntax

section \<open>The invariant on states\<close>

text \<open>
  \<open>X\<close> are the chunks whose tags are being rewritten, \<open>Y\<close> the free chunks that are in no bin.
\<close>

definition heap_core ::
  "'a malloc_state_scheme \<Rightarrow> u64 \<Rightarrow> u64 \<Rightarrow> chunks \<Rightarrow> (nat \<Rightarrow> u64 list) \<Rightarrow> u64 set \<Rightarrow> u64 set \<Rightarrow> bool" where
  "heap_core s lo ts C B X Y \<longleftrightarrow>
     arena lo (top_chunk s) ts C (av_bins s) \<and>
     tagged (mem s) (top_chunk s) ts C X \<and>
     binned (mem s) (av_bins s) (marked s) C B Y"

definition heap_end :: "'a malloc_state_scheme \<Rightarrow> u64 \<Rightarrow> nat" where
  "heap_end s ts = unat (top_chunk s) + unat ts"

text \<open>A change of memory alone, within a set of words.\<close>

definition writes :: "u64 set \<Rightarrow> 'a malloc_state_scheme \<Rightarrow> 'a malloc_state_scheme \<Rightarrow> bool" where
  "writes W s s' \<longleftrightarrow> s' = s\<lparr>mem := mem s'\<rparr> \<and> (\<forall>a. a \<notin> W \<longrightarrow> mem s' a = mem s a)"

lemma writes_refl [simp]: "writes W s s"
  by (simp add: writes_def)

lemma writesE:
  assumes "writes W s t"
  obtains m where "t = s\<lparr>mem := m\<rparr>" "\<And>a. a \<notin> W \<Longrightarrow> m a = mem s a"
  using assms unfolding writes_def by blast

lemma writes_trans:
  assumes "writes W s t" "writes W t u" shows "writes W s u"
proof -
  obtain m where m: "t = s\<lparr>mem := m\<rparr>" "\<And>a. a \<notin> W \<Longrightarrow> m a = mem s a" using assms(1) by (rule writesE) (rule that)
  obtain n where "u = t\<lparr>mem := n\<rparr>" "\<And>a. a \<notin> W \<Longrightarrow> n a = mem t a" using assms(2) by (rule writesE) (rule that)
  then show ?thesis using m by (simp add: writes_def)
qed

lemma writes_mem: "writes W s t \<Longrightarrow> a \<notin> W \<Longrightarrow> mem t a = mem s a"
  by (simp add: writes_def)

lemma writes_wr: "a \<in> W \<Longrightarrow> writes W s (wr a v s)"
  by (simp add: writes_def wr_def)

lemma writes_mono: "writes W s t \<Longrightarrow> W \<subseteq> W' \<Longrightarrow> writes W' s t"
  by (auto simp: writes_def)

lemma marked_cong: "binmap s = binmap t \<Longrightarrow> marked s = marked t"
  by (simp add: marked_def fun_eq_iff)

lemma writes_fields:
  assumes "writes W s t"
  shows "top_chunk t = top_chunk s" "av_bins t = av_bins s" "marked t = marked s"
    "fastbins t = fastbins s" "max_fast t = max_fast s" "last_remainder t = last_remainder s"
proof -
  obtain m where m: "t = s\<lparr>mem := m\<rparr>" using assms by (rule writesE)
  show "top_chunk t = top_chunk s" "av_bins t = av_bins s" "marked t = marked s"
    "fastbins t = fastbins s" "max_fast t = max_fast s" "last_remainder t = last_remainder s"
    by (simp_all add: m marked_def fun_eq_iff)
qed

lemma wr_fields [simp]:
  "top_chunk (wr a v s) = top_chunk s" "av_bins (wr a v s) = av_bins s" "binmap (wr a v s) = binmap s"
  "fastbins (wr a v s) = fastbins s" "max_fast (wr a v s) = max_fast s"
  "last_remainder (wr a v s) = last_remainder s"
  by (simp_all add: wr_def)

lemmas store_defs = set_fd_def set_bk_def set_head_def set_foot_def set_prev_size_def

lemma unlink_wr: "\<exists>a b v w. unlink x s = wr a v (wr b w s)"
  by (auto simp: unlink_def Let_def store_defs)

lemma unlink_fields [simp]:
  "top_chunk (unlink x s) = top_chunk s" "av_bins (unlink x s) = av_bins s" "binmap (unlink x s) = binmap s"
  using unlink_wr [of x s] by auto

lemma marked_fields [simp]: "marked (wr a v s) = marked s" "marked (unlink x s) = marked s"
  by (rule marked_cong, simp)+

lemma unlink_only_mem: "unlink x s = s\<lparr>mem := mem (unlink x s)\<rparr>"
  using unlink_wr [of x s] by (auto simp: wr_def)

lemma core_arena:
  assumes H: "heap_core s lo ts C B X Y"
  shows "arena lo (top_chunk s) ts C (av_bins s)"
  using H by (simp add: heap_core_def)

lemma core_tagged:
  assumes H: "heap_core s lo ts C B X Y"
  shows "tagged (mem s) (top_chunk s) ts C X"
  using H by (simp add: heap_core_def)

lemma core_binned:
  assumes H: "heap_core s lo ts C B X Y"
  shows "binned (mem s) (av_bins s) (marked s) C B Y"
  using H by (simp add: heap_core_def)

lemmas core_layout = arena_layout [OF core_arena]

lemma read_tag:
  assumes H: "heap_core s lo ts C B X Y" and asm: "C p = Some (sz, k)" "p \<notin> X"
  shows "chunksize s p = sz" "ck_size s p = sz OR flag C p" "prev_inuse s p \<longleftrightarrow> \<not> free_before C p"
    "\<not> chunk_is_mmapped s p"
  using asm tagged_head [OF core_tagged [OF H], of p sz k] tag_read [of sz C p] chunk_bounds(6) [OF core_arena [OF H], of p sz k]
  by (auto simp only: chunksize_def ck_size_def prev_inuse_def chunk_is_mmapped_def dl_consts)
     (auto simp: flag_def)

lemmas read_chunksize = read_tag(1) and read_size_field = read_tag(2) and read_prev_inuse = read_tag(3)
  and read_mmapped = read_tag(4)

lemma read_top:
  assumes H: "heap_core s lo ts C B X Y"
  shows "chunksize s (top_chunk s) = ts"
proof -
  have "16 dvd unat ts" using core_arena [OF H] by (simp add: arena_def chunk_size_ok_def)
  from tag_bits(1) [OF this] show ?thesis
    unfolding chunksize_def ck_size_def tagged_top [OF core_tagged [OF H]] dl_consts by simp
qed

text \<open>The in-use bit in the header behind a chunk.\<close>

lemma read_inuse:
  assumes H: "heap_core s lo ts C B X Y" and p: "C p = Some (sz, k)" and n: "p + sz \<notin> X"
  shows "inuse_bit_at_offset s p sz \<longleftrightarrow> k \<noteq> Free"
proof (cases "p + sz = top_chunk s")
  case True
  have "16 dvd unat ts" using core_arena [OF H] by (simp add: arena_def chunk_size_ok_def)
  from tag_bits(5) [OF this] have "inuse_bit_at_offset s p sz"
    unfolding inuse_bit_at_offset_def ck_size_def True tagged_top [OF core_tagged [OF H]] dl_consts by simp
  moreover have "k \<noteq> Free" using tagged_apart [OF core_tagged [OF H]] p True by blast
  ultimately show ?thesis by simp
next
  case False
  then obtain z j where z: "C (p + sz) = Some (z, j)" using layout_next [OF core_layout [OF H] p] by auto
  have fb: "free_before C (p + sz) \<longleftrightarrow> k = Free"
    using p prev_unique [OF core_layout [OF H] p] unfolding free_before_def by (metis option.inject prod.inject)
  have "16 dvd unat z" using chunk_bounds(6) [OF core_arena [OF H] z] .
  from tag_read(3) [OF this] have "ck_size s (p + sz) AND 1 = flag C (p + sz)"
    using tagged_head [OF core_tagged [OF H] z n] by (simp add: ck_size_def)
  then show ?thesis
    by (simp add: inuse_bit_at_offset_def dl_consts flag_def fb)
qed


section \<open>Consolidate backward\<close>

lemma live_upd [simp]:
  "live (C(q := None)) = (live C)(q := None)"
  "live (C(q \<mapsto> (z, Free))) = (live C)(q := None)"
  "k \<noteq> Free \<Longrightarrow> live (C(q \<mapsto> (z, k))) = (live C)(q \<mapsto> (z, k))"
  by (rule ext, simp add: live_def)+

lemma upd_none: "f q = None \<Longrightarrow> f(q := None) = f"
  by (rule ext) simp

lemma free_before_cong:
  assumes "\<And>x z. C' x = Some (z, Free) \<longleftrightarrow> C x = Some (z, Free)"
  shows "free_before C' q = free_before C q"
  by (simp add: free_before_def assms)

lemma free_before_add:
  assumes "C p = Some (z, k)" "k \<noteq> Free"
  shows "free_before (C(p \<mapsto> (sz, Free))) r \<longleftrightarrow> free_before C r \<or> r = p + sz"
proof -
  have pt: "(C(p \<mapsto> (sz, Free))) x = Some (y, Free) \<longleftrightarrow> C x = Some (y, Free) \<or> (x = p \<and> y = sz)" for x y
    using assms by auto
  show ?thesis unfolding free_before_def pt by blast
qed

lemma free_before_retag:
  assumes "k \<noteq> Free" "k' \<noteq> Free" "C p = Some (sz, k)"
  shows "free_before (C(p \<mapsto> (sz, k'))) q = free_before C q"
  by (rule free_before_cong) (use assms in auto)

lemma merge_backward_core:
  assumes H: "heap_core s lo ts C B {} {}" and p: "C p = Some (sz, k)" "k \<noteq> Free"
  obtains p' sz' t C' B' where "merge_backward p sz s = (p', sz', t)"
    "heap_core t lo ts C' B' {p'} {}" "C' p' = Some (sz', Used)" "\<not> free_before C' p'"
    "p' + sz' = p + sz" "(live C')(p' := None) = (live C)(p := None)"
    "writes (touch lo (heap_end s ts) (av_bins s) ((live C)(p := None))) s t"
    "mem t (p' + sz' + 8) = mem s (p + sz + 8)"
proof -
  let ?tp = "top_chunk s" and ?av = "av_bins s"
  note A = core_arena [OF H] and T = core_tagged [OF H] and Bn = core_binned [OF H] and L = core_layout [OF H]
  show ?thesis
  proof (cases "free_before C p")
    case False
    then have r: "merge_backward p sz s = (p, sz, s)"
      using read_prev_inuse [OF H p(1)] by (simp add: merge_backward_def)
    let ?C = "C(p \<mapsto> (sz, Used))"
    have fb: "free_before ?C q = free_before C q" for q
      using free_before_retag [of k Used C p sz q] p by simp
    have "arena lo ?tp ts ?C ?av" using arena_retag [OF A layout_retag [OF L p(1)]] .
    moreover have "tagged (mem s) ?tp ts ?C {p}"
      using T unfolding tagged_def flag_def fb by (auto split: if_splits)
    moreover have "binned (mem s) ?av (marked s) ?C B {}"
      by (rule binned_cong [OF Bn]) (use p in auto)
    ultimately have "heap_core s lo ts ?C B {p} {}" by (simp add: heap_core_def)
    moreover have "(live ?C)(p := None) = (live C)(p := None)" by simp
    ultimately show ?thesis using that [OF r] False fb by simp
  next
    case True
    then obtain q zq where q: "C q = Some (zq, Free)" "q + zq = p" by (auto simp: free_before_def)
    have qp: "q \<noteq> p" using next_not_self(1) [OF L q(1)] q(2) by auto
    have foot: "mem s p = zq" using tagged_foot [OF T q(1)] q(2) by simp
    have "p - zq = q" using q(2) by auto
    then have r: "merge_backward p sz s = (q, sz + zq, unlink q s)"
      using read_prev_inuse [OF H p(1)] True foot
      by (simp add: merge_backward_def ck_prev_size_def Let_def chunk_at_offset_def)
    obtain i xs ys where i: "1 \<le> i" "i < 96" "B i = xs @ q # ys"
      using bin_split [OF Bn q(1)] by blast
    let ?B = "B(i := xs @ ys)" and ?C = "(C(p := None))(q \<mapsto> (sz + zq, Used))"
    note U = binned_unlink [OF A Bn i]
    have jn: "layout lo ?tp ?C"
      using layout_join(1) [OF L q(1), of sz k Used] p(1) q(2) by (simp add: add.commute)
    have nb: "bin_nodes ?av ?B \<subseteq> all_nodes ?av C" using bin_nodes_all [OF U(1)] .
    have ch: "mem (unlink q s) a = mem s a" if "a \<notin> link_words (all_nodes ?av C)" for a
      using U(2) that link_words_mono [OF nb] by blast
    have fb: "free_before ?C r \<longleftrightarrow> free_before C r \<and> r \<noteq> p" for r
    proof -
      have pt: "?C x = Some (z, Free) \<longleftrightarrow> C x = Some (z, Free) \<and> x \<noteq> q" for x z
        using p qp by (cases "x = q"; cases "x = p") auto
      have "C x = Some (z, Free) \<Longrightarrow> x + z = p \<longleftrightarrow> x = q" for x z
        using prev_unique [OF L q(1), of x z Free] q by auto
      then show ?thesis unfolding free_before_def pt by blast
    qed
    have "arena lo ?tp ts ?C ?av" using arena_retag [OF A jn] .
    moreover have "tagged (mem (unlink q s)) ?tp ts ?C {q}"
    proof -
      have "tagged (mem (unlink q s)) ?tp ts C {}" using tagged_links [OF A T ch] .
      then show ?thesis using p(1) unfolding tagged_def flag_def fb by (auto split: if_splits)
    qed
    moreover have "binned (mem (unlink q s)) ?av (marked s) ?C ?B {}"
      by (rule binned_cong [OF U(1)]) (use p qp in auto)
    ultimately have hc: "heap_core (unlink q s) lo ts ?C ?B {q} {}"
      by (simp add: heap_core_def)
    have nfb: "\<not> free_before ?C q" using fb tagged_apart [OF T q(1)] by blast
    have eqn: "q + (sz + zq) = p + sz" by (subst q(2) [symmetric]) (simp add: ac_simps)
    have lv: "(live ?C)(q := None) = (live C)(p := None)"
    proof -
      have "((live C)(p := None)) q = None" using q(1) live_none [of C q] by simp
      from upd_none [of "(live C)(p := None)" q, OF this] show ?thesis by simp
    qed
    have wt: "writes (touch lo (heap_end s ts) ?av ((live C)(p := None))) s (unlink q s)"
    proof -
      have "link_words (bin_nodes ?av ?B) \<subseteq> touch lo (heap_end s ts) ?av ((live C)(p := None))"
        unfolding heap_end_def
        by (rule links_touch [OF A U(1)]) (auto simp: live_some split: if_splits)
      then have "mem (unlink q s) a = mem s a"
        if "a \<notin> touch lo (heap_end s ts) ?av ((live C)(p := None))" for a
        using U(2) that by blast
      then show ?thesis unfolding writes_def using unlink_only_mem by blast
    qed
    have "mem (unlink q s) (p + sz + 8) = mem s (p + sz + 8)"
    proof (rule ch, rule links_not_head [OF A])
      show "p + sz \<in> insert ?tp (dom C)" using layout_next [OF L p(1)] by blast
    qed
    then have mm: "mem (unlink q s) (q + (sz + zq) + 8) = mem s (p + sz + 8)" by (simp only: eqn)
    show ?thesis by (rule that [OF r hc _ nfb eqn lv wt mm]) simp
  qed
qed

section \<open>Consolidate forward\<close>

lemma touch_header:
  assumes H: "heap_core s lo ts C B X Y" and "p \<in> insert (top_chunk s) (dom C)"
    and "\<And>q z k. N q = Some (z, k) \<Longrightarrow> C q = Some (z, k)"
  shows "p + 8 \<in> touch lo (heap_end s ts) (av_bins s) N"
  using touch_head [OF core_arena [OF H] assms(2,3)] by (simp add: heap_end_def)

lemma other_header:
  "heap_core s lo ts C B X Y \<Longrightarrow> p \<in> insert (top_chunk s) (dom C) \<Longrightarrow> p + 8 \<notin> link_words (all_nodes (av_bins s) C)"
  using links_not_head [OF core_arena] .

lemma merge_forward_core:
  assumes H: "heap_core s lo ts C B {p} {}" and p: "C p = Some (sz, Used)"
    and fb: "\<not> free_before C p" and n: "p + sz \<noteq> top_chunk s"
  obtains sz' t C' B' where
    "merge_forward (p + sz) (chunksize s (p + sz)) sz s = (sz', t)"
    "heap_core t lo ts C' B' {p} {p}" "C' p = Some (sz', Free)"
    "(live C')(p := None) = (live C)(p := None)"
    "writes (touch lo (heap_end s ts) (av_bins s) ((live C)(p := None))) s t"
proof -
  let ?tp = "top_chunk s" and ?av = "av_bins s" and ?n = "p + sz"
  let ?W = "touch lo (heap_end s ts) ?av ((live C)(p := None))"
  note A = core_arena [OF H] and T = core_tagged [OF H] and Bn = core_binned [OF H] and L = core_layout [OF H]
  obtain zn kn where nn: "C ?n = Some (zn, kn)" using layout_next [OF L p] n by auto
  have np: "?n \<noteq> p" using next_not_self(1) [OF L p] .
  have zn: "chunksize s ?n = zn" using read_chunksize [OF H nn] np by simp
  have nnp: "?n + zn \<noteq> p"
  proof
    assume e: "?n + zn = p"
    have "unat p < unat (?n + zn)"
      using layout_size(1,4) [OF L p] layout_size(1,4) [OF L nn] by simp
    then show False unfolding e by simp
  qed
  have ib: "inuse_bit_at_offset s ?n zn \<longleftrightarrow> kn \<noteq> Free" using read_inuse [OF H nn] nnp by simp
  define s1 where "s1 = set_head ?n zn s"
  have s1: "s1 = wr (?n + 8) zn s" by (simp add: s1_def set_head_def)
  have run: "merge_forward ?n (chunksize s ?n) sz s =
      (if kn = Free then (sz + zn, unlink ?n s1) else (sz, s1))"
    by (simp add: merge_forward_def zn ib Let_def flip: s1_def)
  have hn: "?n + 8 \<notin> link_words (all_nodes ?av C)" using other_header [OF H, of ?n] nn by auto
  have B1: "binned (mem s1) ?av (marked s) C B {}"
    by (rule binned_frame [OF Bn]) (use hn link_words_mono [OF bin_nodes_all [OF Bn]] in \<open>auto simp: s1\<close>)
  have W1: "writes ?W s s1"
    unfolding s1 by (rule writes_wr, rule touch_header [OF H])
      (use nn in \<open>auto simp: live_some split: if_splits\<close>)
  have m1: "mem s1 (r + 8) = mem s (r + 8)" if "r \<noteq> ?n" for r using that by (simp add: s1)
  have m1f: "mem s1 (r + z) = mem s (r + z)" if "C r = Some (z, j)" for r z j
  proof -
    have "?n \<in> insert ?tp (dom C)" using nn by auto
    then show ?thesis using head_foot [OF A _ that, of ?n] by (auto simp: s1)
  qed
  have nz: "zn OR 0 = zn" by simp
  have Lr: "layout lo ?tp (C(p \<mapsto> (sz, k')))" for k' using layout_retag [OF L p] .
  show ?thesis
  proof (cases "kn = Free")
    case False
    let ?C = "C(p \<mapsto> (sz, Free))"
    have f: "free_before ?C r \<longleftrightarrow> free_before C r \<or> r = ?n" for r
      using free_before_add [of C p sz Used sz r] p by simp
    have "tagged (mem s1) ?tp ts ?C {p}"
      unfolding tagged_def
    proof (intro conjI allI impI)
      fix r z j assume r: "?C r = Some (z, j)" "r \<notin> {p}"
      then have r': "C r = Some (z, j)" by (auto split: if_splits)
      show "mem s1 (r + 8) = z OR flag ?C r"
      proof (cases "r = ?n")
        case True
        then show ?thesis using r' nn by (simp add: flag_def f s1)
      next
        case rn: False
        then show ?thesis using tagged_head [OF T r'] r(2) m1 [OF rn] by (simp add: flag_def f)
      qed
    next
      show "mem s1 (?tp + 8) = ts OR 1" using tagged_top [OF T] m1 [of ?tp] n by simp
    next
      fix r z assume r: "?C r = Some (z, Free)" "r \<notin> {p}"
      then have r': "C r = Some (z, Free)" by (auto split: if_splits)
      then show "mem s1 (r + z) = z" using m1f [OF r'] tagged_foot [OF T r'] r(2) by simp
    next
      fix r z assume r: "?C r = Some (z, Free)"
      show "\<not> free_before ?C r" unfolding f
        using r fb np False nn tagged_apart [OF T, of r z] by (cases "r = p") auto
      show "r + z \<noteq> ?tp" using r n tagged_apart [OF T] by (cases "r = p") auto
    qed
    moreover have "binned (mem s1) ?av (marked s) ?C B {p}"
      by (rule binned_cong [OF B1]) (use p in auto)
    moreover have "arena lo ?tp ts ?C ?av" using arena_retag [OF A Lr] .
    ultimately have "heap_core s1 lo ts ?C B {p} {p}"
      unfolding heap_core_def s1 by simp
    then show ?thesis using that [of sz s1 ?C B] run False W1 by simp
  next
    case True
    let ?C = "(C(?n := None))(p \<mapsto> (sz + zn, Free))"
    have nf: "C ?n = Some (zn, Free)" using nn True by simp
    obtain i xs ys where i: "1 \<le> i" "i < 96" "B i = xs @ ?n # ys"
      using bin_split [OF Bn nf] by auto
    let ?B = "B(i := xs @ ys)"
    note U = binned_unlink [OF A B1 i]
    have nb: "bin_nodes ?av ?B \<subseteq> all_nodes ?av C" using bin_nodes_all [OF U(1)] .
    have ch: "mem (unlink ?n s1) a = mem s1 a" if "a \<notin> link_words (all_nodes ?av C)" for a
      using U(2) that link_words_mono [OF nb] by blast
    have jn: "layout lo ?tp ?C" using layout_join(1) [OF L p, of zn kn Free] nn by simp
    have pt: "?C r = Some (z, Free) \<longleftrightarrow> (C r = Some (z, Free) \<and> r \<noteq> ?n) \<or> (r = p \<and> z = sz + zn)" for r z
      using p np by auto
    have e: "p + (sz + zn) = ?n + zn" by simp
    have f: "free_before ?C r \<longleftrightarrow> free_before C r" for r
      unfolding free_before_def pt using nf e by (metis option.inject prod.inject)
    have "tagged (mem (unlink ?n s1)) ?tp ts ?C {p}"
      unfolding tagged_def
    proof (intro conjI allI impI)
      fix r z j assume r: "?C r = Some (z, j)" "r \<notin> {p}"
      then have r': "C r = Some (z, j)" "r \<noteq> ?n" by (auto split: if_splits)
      have "mem (unlink ?n s1) (r + 8) = mem s1 (r + 8)"
        using ch other_header [OF H, of r] r' by auto
      then show "mem (unlink ?n s1) (r + 8) = z OR flag ?C r"
        using tagged_head [OF T r'(1)] r(2) m1 [OF r'(2)] by (simp add: flag_def f)
    next
      show "mem (unlink ?n s1) (?tp + 8) = ts OR 1"
        using ch other_header [OF H, of ?tp] tagged_top [OF T] m1 [of ?tp] n by simp
    next
      fix r z assume r: "?C r = Some (z, Free)" "r \<notin> {p}"
      then have r': "C r = Some (z, Free)" by (auto split: if_splits)
      have "mem (unlink ?n s1) (r + z) = mem s1 (r + z)"
        using ch links_not_foot [OF A r'] by auto
      then show "mem (unlink ?n s1) (r + z) = z" using m1f [OF r'] tagged_foot [OF T r'] r(2) by simp
    next
      fix r z assume r: "?C r = Some (z, Free)"
      show "\<not> free_before ?C r" unfolding f
        using r fb tagged_apart [OF T, of r z] by (cases "r = p") (auto split: if_splits)
      show "r + z \<noteq> ?tp"
        using r e tagged_apart [OF T, of r z] tagged_apart [OF T nf]
        by (cases "r = p") (auto simp: add.assoc split: if_splits)
    qed
    moreover have "binned (mem (unlink ?n s1)) ?av (marked s) ?C ?B {p}"
      by (rule binned_cong [OF U(1)]) (use p np in auto)
    moreover have "arena lo ?tp ts ?C ?av" using arena_retag [OF A jn] .
    ultimately have "heap_core (unlink ?n s1) lo ts ?C ?B {p} {p}"
      unfolding heap_core_def s1 by simp
    moreover have "(live ?C)(p := None) = (live C)(p := None)"
    proof -
      have "((live C)(p := None)) ?n = None" using nf live_none [of C ?n] by simp
      from upd_none [of "(live C)(p := None)" ?n, OF this] show ?thesis by (simp add: fun_upd_twist [OF np])
    qed
    moreover have "writes ?W s1 (unlink ?n s1)"
    proof -
      have "link_words (bin_nodes ?av ?B) \<subseteq> ?W"
        unfolding heap_end_def
        by (rule links_touch [OF A U(1)]) (auto simp: live_some split: if_splits)
      then have "mem (unlink ?n s1) a = mem s1 a" if "a \<notin> ?W" for a
        using U(2) that by blast
      then show ?thesis unfolding writes_def using unlink_only_mem by blast
    qed
    ultimately show ?thesis
      using that [of "sz + zn" "unlink ?n s1" ?C ?B] run True writes_trans [OF W1] by simp
  qed
qed

section \<open>Into the unsorted list\<close>

lemma bin_at_addr: "i < 96 \<Longrightarrow> bin_at s (word_of_nat i) = bin_addr (av_bins s) i"
proof -
  assume i: "i < 96"
  have "unat (push_bit 1 (word_of_nat i :: u32)) = 2 * i"
    using unat_push_bit_le [of "word_of_nat i" 1] i by (simp add: unat_of_nat take_bit_nat_eq_self)
  then have "ucast (push_bit 1 (word_of_nat i :: u32)) = (word_of_nat (2 * i) :: u64)"
    using i by (simp only: word_unat_eq_iff unsigned_ucast_eq)
      (simp add: unat_of_nat take_bit_nat_eq_self del: of_nat_mult)
  then show ?thesis by (simp add: bin_at_def bin_addr_def dl_consts)
qed

lemma unsorted_addr: "unsorted_chunks s = bin_addr (av_bins s) 1"
  using bin_at_addr [of 1 s] by (simp add: unsorted_chunks_def)

text \<open>The memory after the six stores, whatever their order.\<close>

definition placed :: "u64 \<Rightarrow> u64 \<Rightarrow> u64 \<Rightarrow> qmem \<Rightarrow> qmem" where
  "placed u p sz m =
     m(p + 24 := u, p + 16 := m (u + 16), u + 16 := p, m (u + 16) + 24 := p,
       p + 8 := sz OR 1, p + sz := sz)"

lemma placed_core:
  assumes H: "heap_core s lo ts C B {p} {p}" and p: "C p = Some (sz, Free)"
  defines "u \<equiv> bin_addr (av_bins s) 1"
  shows "heap_core (s\<lparr>mem := placed u p sz (mem s)\<rparr>) lo ts C (B(1 := p # B 1)) {} {}"
    and "writes (touch lo (heap_end s ts) (av_bins s) (live C)) s (s\<lparr>mem := placed u p sz (mem s)\<rparr>)"
    and "distinct [p + 24, p + 16, u + 16, mem s (u + 16) + 24, p + 8, p + sz]"
proof -
  let ?tp = "top_chunk s" and ?av = "av_bins s" and ?B = "B(1 := p # B 1)"
  let ?m = "placed u p sz (mem s)" and ?s = "s\<lparr>mem := placed u p sz (mem s)\<rparr>"
  define f where "f = mem s (u + 16)"
  note A = core_arena [OF H] and T = core_tagged [OF H] and Bn = core_binned [OF H]
  have one: "(1::nat) \<le> 1" "1 < (96::nat)" by simp_all
  have f: "f = hd (B 1 @ [u])"
    using ring_first [OF binned_ring [OF Bn one]] unfolding f_def u_def by (cases "B 1") auto
  have pd: "p \<in> dom C" using p by auto
  have un: "u \<in> all_nodes ?av C" unfolding u_def all_nodes_def by auto
  have pn: "p \<in> all_nodes ?av C" using pd by (simp add: all_nodes_def)
  have fB: "f \<in> bin_nodes ?av B"
    using last_hd_in(2) [of "B 1" u] bin_nodes_in [OF one, of ?av B] unfolding f u_def by blast
  have fn: "f \<in> all_nodes ?av C" using fB bin_nodes_all [OF Bn] by blast
  have pB: "p \<notin> bin_nodes ?av B"
  proof
    assume "p \<in> bin_nodes ?av B"
    then obtain j where j: "1 \<le> j" "j < 96" "p = bin_addr ?av j \<or> p \<in> set (B j)"
      by (auto simp: bin_nodes_def)
    then show False using binned_member [OF Bn j(1,2), of p] bin_not_node [OF A j(1,2)] pd by auto
  qed
  have uB: "u \<in> bin_nodes ?av B" using bin_nodes_in [OF one, of ?av B] unfolding u_def by blast
  have ne: "p \<noteq> u" "p \<noteq> f" using pB uB fB by auto
  have ap: "a + 16 \<noteq> b + 24" if "a \<in> {p, u, f}" "b \<in> {p, u, f}" for a b
    using apartD [OF all_nodes_apart [OF A], of a b] that un pn fn by auto
  have hl: "q + 8 \<noteq> a + 16" "q + 8 \<noteq> a + 24" if "a \<in> all_nodes ?av C" "q \<in> insert ?tp (dom C)" for a q
    using links_not_head [OF A that(2)] link_words_in [OF that(1)] by metis+
  have fl: "q + z \<noteq> a + 16" "q + z \<noteq> a + 24" if "a \<in> all_nodes ?av C" "C q = Some (z, k)" for a q z k
    using links_not_foot [OF A that(2)] link_words_in [OF that(1)] by metis+
  have hf: "q + 8 \<noteq> r + z" if "q \<in> insert ?tp (dom C)" "C r = Some (z, k)" for q r z k
    using head_foot [OF A that] .
  show dist: "distinct [p + 24, p + 16, u + 16, mem s (u + 16) + 24, p + 8, p + sz]"
    using ne ap [of p p] ap [of u p] ap [of p f] ap [of u f] hl [OF pn] hl [OF un] hl [OF fn]
      fl [OF pn p] fl [OF un p] fl [OF fn p] hf [OF _ p] pd
    unfolding f_def [symmetric] by (simp add: eq_commute) (metis insertI2)
  have m: "?m (p + 24) = u" "?m (p + 16) = f" "?m (u + 16) = p" "?m (f + 24) = p" "?m (p + 8) = sz OR 1"
    "?m (p + sz) = sz"
    using dist unfolding placed_def f_def by auto
  have mo: "?m a = mem s a" if "a \<notin> {p + 24, p + 16, u + 16, f + 24, p + 8, p + sz}" for a
    using that unfolding placed_def f_def by auto
  have mh: "?m (q + 8) = mem s (q + 8)" if "q \<in> insert ?tp (dom C)" "q \<noteq> p" for q
    by (rule mo) (use hl [OF pn that(1)] hl [OF un that(1)] hl [OF fn that(1)] hf [OF that(1) p] that in auto)
  have mf: "?m (q + z) = mem s (q + z)" if "C q = Some (z, k)" "q \<noteq> p" for q z k
    by (rule mo) (use fl [OF pn that(1)] fl [OF un that(1)] fl [OF fn that(1)] hf [OF _ that(1), of p] pd
        foot_foot [OF A that(1) p] that in auto)
  have "tagged ?m ?tp ts C {}"
    unfolding tagged_def
  proof (intro conjI allI impI)
    fix q z k assume q: "C q = Some (z, k)"
    show "?m (q + 8) = z OR flag C q"
    proof (cases "q = p")
      case True
      have "flag C p = 1" using tagged_apart [OF T p] by (simp add: flag_def)
      then show ?thesis using True q p m(5) by simp
    next
      case False
      then show ?thesis using mh [of q] tagged_head [OF T q] q by auto
    qed
  next
    have "?tp \<noteq> p" using tp_not_chunk [OF arena_layout [OF A]] pd by auto
    then show "?m (?tp + 8) = ts OR 1"
      using mh [of ?tp] tagged_top [OF T] by simp
  next
    fix q z assume q: "C q = Some (z, Free)"
    show "?m (q + z) = z" using mf [OF q] m(6) q p tagged_foot [OF T q] by (cases "q = p") auto
  qed (use tagged_apart [OF T] in auto)
  moreover have "binned ?m ?av (marked s) C ?B ({p} - {p})"
  proof -
    have l1: "last (bin_addr ?av 1 # []) = u" by (simp add: u_def)
    have "binned ?m ?av (marked s) C (B(1 := [] @ p # B 1)) ({p} - {p})"
    proof (rule binned_insert [OF A Bn one _ p])
      show "?m (p + 24) = last (bin_addr ?av 1 # [])" using m(1) l1 by simp
      show "?m (p + 16) = hd (B 1 @ [bin_addr ?av 1])" using m(2) f by (simp add: u_def)
      show "?m (last (bin_addr ?av 1 # []) + 16) = p" using m(3) l1 by simp
      show "?m (hd (B 1 @ [bin_addr ?av 1]) + 24) = p" using m(4) f by (simp add: u_def)
      fix a
      assume a: "a \<notin> {p + 16, p + 24, last (bin_addr ?av 1 # []) + 16, hd (B 1 @ [bin_addr ?av 1]) + 24}"
        "a \<in> link_words (bin_nodes ?av B)"
      have "a \<in> link_words (all_nodes ?av C)" using a(2) link_words_mono [OF bin_nodes_all [OF Bn]] by blast
      then have "a \<noteq> p + 8" "a \<noteq> p + sz"
        using links_not_head [OF A, of p] links_not_foot [OF A p] pd by auto
      then show "?m a = mem s a" by (intro mo) (use a(1) l1 f in \<open>auto simp: u_def\<close>)
    qed simp_all
    then show ?thesis by simp
  qed
  ultimately show "heap_core ?s lo ts C ?B {} {}"
    using A by (simp add: heap_core_def marked_def [abs_def])
  show "writes (touch lo (heap_end s ts) ?av (live C)) s ?s"
  proof -
    have N: "\<And>q z k. live C q = Some (z, k) \<Longrightarrow> C q = Some (z, k)" by (simp add: live_some)
    have "live C p = None" using p live_none [of C p] by simp
    note t = touch_own [where N = "live C", OF A p this N] own_words [OF A p]
    have l: "link_words (bin_nodes ?av B) \<subseteq> touch lo (heap_end s ts) ?av (live C)"
      unfolding heap_end_def by (rule links_touch [OF A Bn]) (auto simp: live_some)
    have "{p + 24, p + 16, u + 16, f + 24, p + 8, p + sz} \<subseteq> touch lo (heap_end s ts) ?av (live C)"
      using t l link_words_in [OF uB] link_words_in [OF fB] unfolding heap_end_def by blast
    then have "?m a = mem s a" if "a \<notin> touch lo (heap_end s ts) ?av (live C)" for a
      using that by (intro mo) blast
    then show ?thesis by (simp add: writes_def)
  qed
qed

lemma place_unsorted_mem:
  assumes "distinct [p + 24, p + 16, u + 16, mem s (u + 16) + 24, p + 8, p + sz]" "u = unsorted_chunks s"
  shows "place_unsorted p sz s = s\<lparr>mem := placed u p sz (mem s)\<rparr>"
    "place_unsorted' p sz s = s\<lparr>mem := placed u p sz (mem s)\<rparr>"
proof -
  have u: "unsorted_chunks (s\<lparr>mem := m\<rparr>) = u" for m
    using assms(2) by (simp add: unsorted_chunks_def bin_at_def)
  show "place_unsorted p sz s = s\<lparr>mem := placed u p sz (mem s)\<rparr>"
    by (simp add: place_unsorted_def store_defs ck_fd_def Let_def placed_def wr_def dl_consts
        flip: assms(2))
  have "(mem s)(u + 16 := p, mem s (u + 16) + 24 := p, p + 8 := sz OR 1, p + 24 := u,
      p + 16 := mem s (u + 16), p + sz := sz) = placed u p sz (mem s)"
    unfolding placed_def using assms(1) by (intro ext) auto
  then show "place_unsorted' p sz s = s\<lparr>mem := placed u p sz (mem s)\<rparr>"
    by (simp add: place_unsorted'_def store_defs ck_fd_def Let_def wr_def dl_consts flip: assms(2))
qed

lemma place_unsorted_core:
  assumes H: "heap_core s lo ts C B {p} {p}" and p: "C p = Some (sz, Free)"
    and t: "t = place_unsorted p sz s \<or> t = place_unsorted' p sz s"
  shows "heap_core t lo ts C (B(1 := p # B 1)) {} {}"
    "writes (touch lo (heap_end s ts) (av_bins s) (live C)) s t"
proof -
  note P = placed_core [OF H p]
  have "t = s\<lparr>mem := placed (bin_addr (av_bins s) 1) p sz (mem s)\<rparr>"
    using t place_unsorted_mem [OF P(3)] by (auto simp: unsorted_addr)
  then show "heap_core t lo ts C (B(1 := p # B 1)) {} {}"
    "writes (touch lo (heap_end s ts) (av_bins s) (live C)) s t" using P(1,2) by simp_all
qed

section \<open>Into the top chunk\<close>

lemma merge_top_core:
  assumes H: "heap_core s lo ts C B {p} {}" and p: "C p = Some (sz, Used)"
    and fb: "\<not> free_before C p" and n: "p + sz = top_chunk s"
  defines "t \<equiv> merge_top p (sz + ts) s"
  shows "heap_core t lo (sz + ts) (C(p := None)) B {} {}"
    "heap_end t (sz + ts) = heap_end s ts" "t = s\<lparr>mem := mem t, top_chunk := p\<rparr>"
    "a \<notin> touch lo (heap_end s ts) (av_bins s) ((live C)(p := None)) \<Longrightarrow> mem t a = mem s a"
proof -
  let ?tp = "top_chunk s" and ?av = "av_bins s" and ?C = "C(p := None)"
  note A = core_arena [OF H] and T = core_tagged [OF H] and Bn = core_binned [OF H] and L = core_layout [OF H]
  have m: "mem t = (mem s)(p + 8 := (sz + ts) OR 1)"
    by (simp add: t_def merge_top_def set_head_def dl_consts)
  show eq: "t = s\<lparr>mem := mem t, top_chunk := p\<rparr>"
    by (simp add: t_def merge_top_def set_head_def wr_def)
  have tf: "top_chunk t = p" "av_bins t = ?av" "marked t = marked s"
    by (simp_all add: t_def merge_top_def set_head_def marked_def [abs_def])
  have utp: "unat ?tp = unat p + unat sz" using layout_size(4) [OF L p] n by simp
  have us: "unat (sz + ts) = unat sz + unat ts"
    using arena_bounds(1) [OF A] utp by (intro unat_add_nowrap) simp
  show he: "heap_end t (sz + ts) = heap_end s ts" by (simp add: heap_end_def tf us utp)
  have pt: "?C x = Some (z, Free) \<longleftrightarrow> C x = Some (z, Free)" for x z using p by auto
  have f: "free_before ?C r = free_before C r" for r by (rule free_before_cong) (rule pt)
  have A': "arena lo p (sz + ts) ?C ?av"
    using A layout_shrink [OF L p n] utp us chunk_size_ok_add [of sz ts]
      layout_chunk [OF L p]
    unfolding arena_def chunk_ok_def by (auto simp: utp)
  have pin: "p \<in> insert ?tp (dom C)" using p by auto
  have "tagged (mem t) p (sz + ts) ?C {}"
    unfolding tagged_def
  proof (intro conjI allI impI)
    fix r z j assume "?C r = Some (z, j)"
    then have r: "C r = Some (z, j)" "r \<noteq> p" by (auto split: if_splits)
    then show "mem t (r + 8) = z OR flag ?C r"
      using tagged_head [OF T r(1)] by (simp add: m flag_def f)
  next
    fix r z assume "?C r = Some (z, Free)"
    then have r: "C r = Some (z, Free)" by (simp only: pt)
    then have "r \<noteq> p" using p by auto
    then show "mem t (r + z) = z"
      using tagged_foot [OF T r] head_foot [OF A pin r] by (simp add: m)
    show "\<not> free_before ?C r" using tagged_apart [OF T r] by (simp add: f)
    show "r + z \<noteq> p" using fb r by (auto simp: free_before_def)
  qed (simp add: m)
  moreover have "binned (mem t) ?av (marked s) ?C B {}"
  proof (rule binned_cong [where C = C and X = "{}"])
    show "binned (mem t) ?av (marked s) C B {}"
    proof (rule binned_frame [OF Bn])
      fix a assume "a \<in> link_words (bin_nodes ?av B)"
      then have "a \<noteq> p + 8"
        using other_header [OF H pin] link_words_mono [OF bin_nodes_all [OF Bn]] by auto
      then show "mem t a = mem s a" by (simp add: m)
    qed
  qed (use p in auto)
  ultimately show "heap_core t lo (sz + ts) ?C B {} {}"
    using A' by (simp add: heap_core_def tf)
  show "mem t a = mem s a" if "a \<notin> touch lo (heap_end s ts) ?av ((live C)(p := None))"
  proof -
    have "p + 8 \<in> touch lo (heap_end s ts) ?av ((live C)(p := None))"
      by (rule touch_header [OF H pin]) (auto simp: live_some split: if_splits)
    then show ?thesis using that by (auto simp: m)
  qed
qed

end
