(* ===== verification/Dl_Free_Ok.thy ===== *)
theory Dl_Free_Ok
  imports Dl_Merge
begin

text \<open>
  \<open>fREe\<close> and \<open>malloc_consolidate\<close> keep the heap invariant: the chunk given back is no longer
  live, every other live chunk and its data stay as they are.
\<close>

unbundle bit_operations_syntax

section \<open>One chunk\<close>

text \<open>The heap with exactly the chunk \<open>p\<close> taken out of the live ones; only free memory is written.\<close>

definition gone :: "'a malloc_state_scheme \<Rightarrow> u64 \<Rightarrow> u64 \<Rightarrow> chunks \<Rightarrow> u64 \<Rightarrow> 'a malloc_state_scheme \<Rightarrow> bool" where
  "gone s lo ts C p t \<longleftrightarrow>
     (\<exists>ts' C' B'. heap_core t lo ts' C' B' {} {} \<and> live C' = (live C)(p := None) \<and>
        heap_end t ts' = heap_end s ts) \<and>
     t = s\<lparr>mem := mem t, top_chunk := top_chunk t\<rparr> \<and> unat (top_chunk t) \<le> unat (top_chunk s) \<and>
     (\<forall>a. a \<notin> touch lo (heap_end s ts) (av_bins s) ((live C)(p := None)) \<longrightarrow> mem t a = mem s a)"

lemma heap_core_cong:
  assumes "heap_core s lo ts C B X Y" "mem t = mem s" "top_chunk t = top_chunk s" "av_bins t = av_bins s"
    "binmap t = binmap s"
  shows "heap_core t lo ts C B X Y"
  using assms marked_cong [OF assms(5)] by (simp add: heap_core_def)

lemma live_free: "C p = Some (z, Free) \<Longrightarrow> (live C)(p := None) = live C"
  by (rule upd_none) (simp add: live_none)

text \<open>The common part of \<open>fREe\<close> and \<open>malloc_consolidate\<close>, with either order of the last stores.\<close>

definition coalesce ::
  "(u64 \<Rightarrow> u64 \<Rightarrow> 'a malloc_state_scheme \<Rightarrow> 'a malloc_state_scheme) \<Rightarrow> u64 \<Rightarrow> u64 \<Rightarrow>
     'a malloc_state_scheme \<Rightarrow> u64 \<times> 'a malloc_state_scheme" where
  "coalesce place p sz s =
     (let nextchunk = chunk_at_offset p sz;
          nextsize = chunksize s nextchunk;
          (p, sz, s) = merge_backward p sz s
      in
        if nextchunk \<noteq> top_chunk s then
          let (sz, s) = merge_forward nextchunk nextsize sz s in (sz, place p sz s)
        else (sz + nextsize, merge_top p (sz + nextsize) s))"

lemma coalesce_core:
  assumes H: "heap_core s lo ts C B {} {}" and p: "C p = Some (sz, k)" "k \<noteq> Free"
    and place: "place = place_unsorted \<or> place = place_unsorted'"
  shows "gone s lo ts C p (snd (coalesce place p sz s))"
proof -
  let ?N = "(live C)(p := None)" and ?av = "av_bins s"
  obtain p1 sz1 t1 C1 B1 where r1: "merge_backward p sz s = (p1, sz1, t1)"
    and h1: "heap_core t1 lo ts C1 B1 {p1} {}" and c1: "C1 p1 = Some (sz1, Used)"
    and f1: "\<not> free_before C1 p1" and e1: "p1 + sz1 = p + sz"
    and l1: "(live C1)(p1 := None) = ?N"
    and w1: "writes (touch lo (heap_end s ts) ?av ?N) s t1"
    and m1: "mem t1 (p1 + sz1 + 8) = mem s (p + sz + 8)"
    by (rule merge_backward_core [OF H p])
  have he1: "heap_end t1 ts = heap_end s ts" "av_bins t1 = ?av" "top_chunk t1 = top_chunk s"
    using writes_fields [OF w1] by (simp_all add: heap_end_def)
  have nx: "chunksize s (p + sz) = chunksize t1 (p1 + sz1)"
    using m1 by (simp add: chunksize_def ck_size_def)
  show ?thesis
  proof (cases "p + sz = top_chunk s")
    case False
    then have n: "p1 + sz1 \<noteq> top_chunk t1" using e1 he1 by simp
    obtain sz2 t2 C2 B2 where r2: "merge_forward (p1 + sz1) (chunksize t1 (p1 + sz1)) sz1 t1 = (sz2, t2)"
      and h2: "heap_core t2 lo ts C2 B2 {p1} {p1}" and c2: "C2 p1 = Some (sz2, Free)"
      and l2: "(live C2)(p1 := None) = (live C1)(p1 := None)"
      and w2: "writes (touch lo (heap_end t1 ts) (av_bins t1) ((live C1)(p1 := None))) t1 t2"
      by (rule merge_forward_core [OF h1 c1 f1 n])
    let ?t = "place p1 sz2 t2"
    have run: "snd (coalesce place p sz s) = ?t"
      using False r1 r2 e1 he1 nx by (simp add: coalesce_def chunk_at_offset_def)
    have pl: "?t = place_unsorted p1 sz2 t2 \<or> ?t = place_unsorted' p1 sz2 t2" using place by auto
    note P = place_unsorted_core [OF h2 c2 pl]
    have l2': "live C2 = ?N" using l1 l2 live_free [of C2 p1, OF c2] by simp
    have he2: "heap_end t2 ts = heap_end s ts" "av_bins t2 = ?av"
      using writes_fields [OF w2] he1 by (simp_all add: heap_end_def)
    have w: "writes (touch lo (heap_end s ts) ?av ?N) s ?t"
      using writes_trans [OF w1 writes_trans [of _ t1 t2 ?t]] w2 P(2) by (simp add: he1 he2 l1 l2')
    have tf: "top_chunk ?t = top_chunk s" using writes_fields [OF w] by simp
    obtain m where m: "?t = s\<lparr>mem := m\<rparr>" using w by (rule writesE)
    show ?thesis
      unfolding gone_def run
    proof (intro conjI allI impI)
      show "\<exists>ts' C' B'. heap_core ?t lo ts' C' B' {} {} \<and> live C' = ?N \<and> heap_end ?t ts' = heap_end s ts"
        using P(1) l2' tf by (intro exI [of _ ts] exI conjI) (assumption | simp add: heap_end_def)+
      show "?t = s\<lparr>mem := mem ?t, top_chunk := top_chunk ?t\<rparr>" by (simp add: m)
      show "unat (top_chunk ?t) \<le> unat (top_chunk s)" by (simp add: tf)
      show "mem ?t a = mem s a" if "a \<notin> touch lo (heap_end s ts) ?av ?N" for a
        using writes_mem [OF w that] .
    qed
  next
    case True
    then have n: "p1 + sz1 = top_chunk t1" using e1 he1 by simp
    let ?t = "merge_top p1 (sz1 + ts) t1"
    have "chunksize s (p + sz) = ts" using True read_top [OF H] by simp
    then have run: "snd (coalesce place p sz s) = ?t"
      using True r1 e1 he1 by (simp add: coalesce_def chunk_at_offset_def)
    note P = merge_top_core [OF h1 c1 f1 n]
    have l: "live (C1(p1 := None)) = ?N" using l1 by simp
    obtain m where m: "t1 = s\<lparr>mem := m\<rparr>" using w1 by (rule writesE)
    show ?thesis
      unfolding gone_def run
    proof (intro conjI allI impI)
      show "\<exists>ts' C' B'. heap_core ?t lo ts' C' B' {} {} \<and> live C' = ?N \<and> heap_end ?t ts' = heap_end s ts"
        using P(1,2) l he1 by metis
      show "?t = s\<lparr>mem := mem ?t, top_chunk := top_chunk ?t\<rparr>"
        by (subst P(3)) (simp add: m merge_top_def set_head_def)
      have "top_chunk ?t = p1" by (simp add: merge_top_def set_head_def)
      then show "unat (top_chunk ?t) \<le> unat (top_chunk s)"
        using node_bounds(2) [OF core_arena [OF h1], of p1] c1 he1(3) by auto
      show "mem ?t a = mem s a" if "a \<notin> touch lo (heap_end s ts) ?av ?N" for a
        using P(4) [of a] that writes_mem [OF w1] by (simp add: he1 l1)
    qed
  qed
qed

lemma consolidate_chunk_coalesce:
  assumes H: "heap_core s lo ts C B {} {}" and p: "C p = Some (sz, k)"
  shows "consolidate_chunk p s = snd (coalesce place_unsorted' p sz s)"
proof -
  have "ck_size s p AND NOT PREV_INUSE = sz"
    using read_size_field [OF H p] tag_read(2) [of sz C p] chunk_bounds(6) [OF core_arena [OF H] p]
    by (simp only: dl_consts) simp
  then show ?thesis
    by (simp add: consolidate_chunk_def coalesce_def Let_def split: prod.splits)
qed

lemma free_normal_coalesce:
  "free_normal p sz s = coalesce place_unsorted p sz (set_anychunks s)"
  by (simp add: free_normal_def coalesce_def Let_def split: prod.splits)

end
