(* ===== verification/Dl_Fast.thy ===== *)
theory Dl_Fast
  imports Dl_Free_Ok
begin

text \<open>
  The fast bins: the flag bits in \<open>max_fast\<close>, the singly linked lists, and the loops of
  \<open>malloc_consolidate\<close>, which empties them.
\<close>

unbundle bit_operations_syntax

section \<open>The word \<open>max_fast\<close>\<close>

lemma small_bits32:
  "bit (1::u32) n \<longleftrightarrow> n = 0" "bit (2::u32) n \<longleftrightarrow> n = 1" "bit (3::u32) n \<longleftrightarrow> n < 2"
proof -
  have 3: "(3::u32) = mask 2" by (simp add: mask_eq_exp_minus_1)
  show "bit (3::u32) n \<longleftrightarrow> n < 2" unfolding 3 bit_mask_iff by (auto simp: possible_bit_word)
  show "bit (1::u32) n \<longleftrightarrow> n = 0" "bit (2::u32) n \<longleftrightarrow> n = 1"
    by (auto simp: bit_1_iff bit_2_iff possible_bit_word)
qed

lemma ucast_flags:
  "(ucast (1::u32) :: u64) = 1" "(ucast (2::u32) :: u64) = 2" "(ucast ((2::u32) OR 1) :: u64) = 3"
  by simp_all

lemma bit_word_flags:
  "have_anychunks s \<longleftrightarrow> bit (max_fast s) 0" "have_fastchunks s \<longleftrightarrow> bit (max_fast s) 1"
proof -
  have "max_fast s AND 2 ^ k \<noteq> 0 \<longleftrightarrow> bit (max_fast s) k" for k
    by (simp add: and_exp_eq_0_iff_not_bit)
  from this [of 0] this [of 1]
  show "have_anychunks s \<longleftrightarrow> bit (max_fast s) 0" "have_fastchunks s \<longleftrightarrow> bit (max_fast s) 1"
    by (simp_all add: have_anychunks_def have_fastchunks_def ANYCHUNKS_BIT_def FASTCHUNKS_BIT_def)
qed

lemma bit_complement:
  "bit (ucast (NOT (x :: u32)) :: u64) n \<longleftrightarrow> n < 32 \<and> \<not> bit x n"
  by (auto simp: bit_unsigned_iff bit_not_iff possible_bit_word)

lemma bit_set_fast:
  "bit (max_fast (set_fastchunks s)) n \<longleftrightarrow> bit (max_fast s) n \<or> n < 2"
  "bit (max_fast (set_anychunks s)) n \<longleftrightarrow> bit (max_fast s) n \<or> n = 0"
  "bit (max_fast (clear_fastchunks s)) n \<longleftrightarrow> bit (max_fast s) n \<and> n < 32 \<and> n \<noteq> 1"
proof -
  show "bit (max_fast (set_fastchunks s)) n \<longleftrightarrow> bit (max_fast s) n \<or> n < 2"
  proof -
    have "max_fast (set_fastchunks s) = max_fast s OR 3"
      by (simp add: set_fastchunks_def FASTCHUNKS_BIT_def ANYCHUNKS_BIT_def)
    then show ?thesis by (simp only: bit_or_iff small_bits)
  qed
  show "bit (max_fast (set_anychunks s)) n \<longleftrightarrow> bit (max_fast s) n \<or> n = 0"
  proof -
    have "max_fast (set_anychunks s) = max_fast s OR 1"
      by (simp add: set_anychunks_def ANYCHUNKS_BIT_def)
    then show ?thesis by (simp only: bit_or_iff small_bits)
  qed
  show "bit (max_fast (clear_fastchunks s)) n \<longleftrightarrow> bit (max_fast s) n \<and> n < 32 \<and> n \<noteq> 1"
  proof -
    have "max_fast (clear_fastchunks s) = max_fast s AND ucast (NOT (2::u32))"
      by (simp add: clear_fastchunks_def FASTCHUNKS_BIT_def)
    then show ?thesis by (simp only: bit_and_iff bit_complement small_bits32)
  qed
qed

text \<open>The limit itself, without the flags.\<close>

definition fast_limit :: "'a malloc_state_scheme \<Rightarrow> nat" where
  "fast_limit s = unat (max_fast s AND NOT (mask 2))"

definition limit_ok :: "'a malloc_state_scheme \<Rightarrow> bool" where
  "limit_ok s \<longleftrightarrow> 32 \<le> fast_limit s \<and> fast_limit s \<le> 96 \<and> 16 dvd fast_limit s"

lemma fast_limit_bits: "bit (max_fast s AND NOT (mask 2)) n \<longleftrightarrow> bit (max_fast s) n \<and> 2 \<le> n"
  by (auto simp: bit_and_iff bit_not_iff bit_mask_iff possible_bit_word dest: bit_imp_le_length)

lemma unat_max_fast: "unat (max_fast s) = fast_limit s + unat (max_fast s) mod 4"
  unfolding fast_limit_def unat_and_not_mask by simp

lemma fits_fast:
  assumes "limit_ok s" "16 dvd unat nb"
  shows "nb \<le> max_fast s \<longleftrightarrow> unat nb \<le> fast_limit s"
proof -
  obtain a where a: "fast_limit s = 16 * a" using assms(1) by (auto simp: limit_ok_def)
  obtain b where b: "unat nb = 16 * b" using assms(2) by auto
  define r where "r = unat (max_fast s) mod 4"
  have r: "r < 4" "unat (max_fast s) = 16 * a + r"
    using unat_max_fast [of s] a by (simp_all add: r_def)
  show ?thesis unfolding word_le_nat_alt a b r(2) using r(1) by presburger
qed

lemma fast_limit_set [simp]:
  "fast_limit (set_fastchunks s) = fast_limit s" "fast_limit (set_anychunks s) = fast_limit s"
proof -
  have "max_fast (set_fastchunks s) AND NOT (mask 2) = max_fast s AND NOT (mask 2)"
    "max_fast (set_anychunks s) AND NOT (mask 2) = max_fast s AND NOT (mask 2)"
    by (rule bit_word_eqI, unfold fast_limit_bits bit_set_fast, auto)+
  then show "fast_limit (set_fastchunks s) = fast_limit s" "fast_limit (set_anychunks s) = fast_limit s"
    by (simp_all add: fast_limit_def)
qed

lemma fast_limit_clear:
  assumes "limit_ok s"
  shows "fast_limit (clear_fastchunks s) = fast_limit s"
proof -
  define w where "w = max_fast s AND NOT (mask 2)"
  have "unat w < 2 ^ 32" using assms by (simp add: limit_ok_def fast_limit_def w_def)
  then have "unat (take_bit 32 w) = unat w"
    unfolding unsigned_take_bit_eq by (rule take_bit_nat_eq_self)
  then have "take_bit 32 w = w" by (simp only: word_unat_eq_iff)
  then have "n < 32" if "bit w n" for n using that bit_take_bit_iff [of 32 w n] by simp
  then have "n < 32" if "bit (max_fast s) n" "2 \<le> n" for n
    using that unfolding w_def fast_limit_bits by blast
  then have "max_fast (clear_fastchunks s) AND NOT (mask 2) = max_fast s AND NOT (mask 2)"
    by (intro bit_word_eqI) (unfold fast_limit_bits bit_set_fast, auto)
  then show ?thesis by (simp add: fast_limit_def)
qed

lemma limit_ok_set [simp]:
  "limit_ok (set_fastchunks s) = limit_ok s" "limit_ok (set_anychunks s) = limit_ok s"
  by (simp_all add: limit_ok_def)

section \<open>Fast lists\<close>

definition fast_index :: "u64 \<Rightarrow> nat" where
  "fast_index sz = unat sz div 8 - 2"

lemma unat_fastbin_index:
  assumes "16 \<le> unat sz" "unat sz < 2 ^ 32"
  shows "unat (fastbin_index sz) = fast_index sz"
proof -
  have "unat (drop_bit 3 (ucast sz :: u32)) = unat sz div 8"
    using assms(2) by (simp add: unat_drop unat_narrow)
  moreover have "2 \<le> unat sz div 8" using assms(1) by linarith
  ultimately show ?thesis
    by (simp add: fastbin_index_def fast_index_def unat_sub_if_size word_size)
qed

lemma NFASTBINS_value: "NFASTBINS = 11"
  by (simp add: NFASTBINS_def fastbin_index_def request2size_def dl_consts)

lemma fast_index_small: "unat sz \<le> 96 \<Longrightarrow> fast_index sz < 11"
  unfolding fast_index_def by linarith

definition fast_ok :: "qmem \<Rightarrow> (nat \<Rightarrow> u64) \<Rightarrow> chunks \<Rightarrow> (nat \<Rightarrow> u64 list) \<Rightarrow> bool" where
  "fast_ok m h C F \<longleftrightarrow>
     (\<forall>i<11. fast_list m (h i) (F i) \<and> distinct (F i)) \<and>
     (\<forall>i<11. \<forall>x\<in>set (F i). \<exists>sz. C x = Some (sz, Fast) \<and> fast_index sz = i) \<and>
     (\<forall>x sz. C x = Some (sz, Fast) \<longrightarrow> fast_index sz < 11 \<and> x \<in> set (F (fast_index sz)))"

lemma fast_okD:
  assumes "fast_ok m h C F"
  shows "i < 11 \<Longrightarrow> fast_list m (h i) (F i)" "i < 11 \<Longrightarrow> distinct (F i)"
    "i < 11 \<Longrightarrow> x \<in> set (F i) \<Longrightarrow> \<exists>sz. C x = Some (sz, Fast) \<and> fast_index sz = i"
    "C x = Some (sz, Fast) \<Longrightarrow> fast_index sz < 11 \<and> x \<in> set (F (fast_index sz))"
  using assms by (auto simp: fast_ok_def)

definition in_use :: "chunks \<Rightarrow> chunks" where
  "in_use C = (\<lambda>q. case C q of Some (z, k) \<Rightarrow> if k = Used then Some (z, k) else None | None \<Rightarrow> None)"

lemma in_use_some: "in_use C q = Some (z, k) \<longleftrightarrow> C q = Some (z, k) \<and> k = Used"
  by (auto simp: in_use_def split: option.splits)

lemma in_use_of_live: "in_use C q = Some (z, k) \<longleftrightarrow> live C q = Some (z, k) \<and> k = Used"
  by (auto simp: in_use_some live_some)

lemma map_eqI: "(\<And>q z k. f q = Some (z, k) \<longleftrightarrow> g q = Some (z, k)) \<Longrightarrow> f = (g :: chunks)"
  by (rule ext) (metis not_None_eq surj_pair)

lemma in_use_live:
  assumes "live C' = (live C)(p := None)" shows "in_use C' = (in_use C)(p := None)"
  by (rule map_eqI) (auto simp: in_use_of_live assms split: if_splits)

lemma touch_anti: "(\<And>q z k. N' q = Some (z, k) \<Longrightarrow> N q = Some (z, k)) \<Longrightarrow> touch lo e av N \<subseteq> touch lo e av N'"
  by (fastforce simp: touch_def)

text \<open>The link of a fast chunk is part of its data, so other operations leave it alone.\<close>

lemma fast_link_kept:
  assumes A: "arena lo tp ts C av" and x: "C x = Some (z, k)" and N: "N x = Some (z, k)"
  shows "x + 16 \<notin> touch lo (unat tp + unat ts) av N"
proof -
  have xi: "x \<in> insert tp (dom C)" using x by auto
  note n = node_bounds [OF A xi] and c = chunk_bounds [OF A x]
  have "x + 16 \<in> data_words x z" using n(6) c(3) by (auto simp: data_words_def)
  moreover have "\<not> (unat av + 16 \<le> unat (x + 16) \<and> unat (x + 16) < unat av + 1536)"
    using n c arena_bounds(2,8) [OF A] by auto
  ultimately show ?thesis using N by (auto simp: touch_def)
qed

section \<open>Emptying a fast bin\<close>

text \<open>A step that only frees chunks, seen from the chunks that stay in use.\<close>

definition quiet :: "'a malloc_state_scheme \<Rightarrow> u64 \<Rightarrow> nat \<Rightarrow> chunks \<Rightarrow> 'a malloc_state_scheme \<Rightarrow> bool" where
  "quiet s lo e N t \<longleftrightarrow>
     t = s\<lparr>mem := mem t, top_chunk := top_chunk t, fastbins := fastbins t, max_fast := max_fast t\<rparr> \<and>
     unat (top_chunk t) \<le> unat (top_chunk s) \<and>
     (\<forall>a. a \<notin> touch lo e (av_bins s) N \<longrightarrow> mem t a = mem s a)"

lemma quiet_refl [simp]: "quiet s lo e N s"
  by (simp add: quiet_def)

lemma quietE:
  assumes "quiet s lo e N t"
  obtains m tc fb mf where "t = s\<lparr>mem := m, top_chunk := tc, fastbins := fb, max_fast := mf\<rparr>"
    "\<forall>a. a \<notin> touch lo e (av_bins s) N \<longrightarrow> m a = mem s a"
  using assms unfolding quiet_def by blast

lemma quiet_trans:
  assumes "quiet s lo e N t" "quiet t lo e N u" shows "quiet s lo e N u"
proof -
  obtain m tc fb mf where 1: "t = s\<lparr>mem := m, top_chunk := tc, fastbins := fb, max_fast := mf\<rparr>"
    "\<forall>a. a \<notin> touch lo e (av_bins s) N \<longrightarrow> m a = mem s a" using assms(1) by (rule quietE)
  obtain m' tc' fb' mf' where 2: "u = t\<lparr>mem := m', top_chunk := tc', fastbins := fb', max_fast := mf'\<rparr>"
    "\<forall>a. a \<notin> touch lo e (av_bins t) N \<longrightarrow> m' a = mem t a" using assms(2) by (rule quietE)
  have "unat (top_chunk u) \<le> unat (top_chunk s)" using assms by (simp add: quiet_def)
  then show ?thesis unfolding quiet_def using 2 by (simp add: 1)
qed

lemma quiet_mono:
  assumes "quiet s lo e N t" "touch lo e (av_bins s) N \<subseteq> touch lo e (av_bins s) N'"
  shows "quiet s lo e N' t"
  using assms by (auto simp: quiet_def)

lemma goneE:
  assumes "gone s lo ts C p t"
  obtains ts' C' B' m tc where "heap_core t lo ts' C' B' {} {}" "live C' = (live C)(p := None)"
    "heap_end t ts' = heap_end s ts" "t = s\<lparr>mem := m, top_chunk := tc\<rparr>"
    "\<And>a. a \<notin> touch lo (heap_end s ts) (av_bins s) ((live C)(p := None)) \<Longrightarrow> m a = mem s a"
  using assms unfolding gone_def by blast

lemma consolidate_step:
  assumes H: "heap_core s lo ts C B {} {}" and fo: "fast_ok (mem s) h C F" and i: "i < 11" "F i = p # xs"
  obtains t ts' C' B' where "consolidate_chunk p s = t" "heap_core t lo ts' C' B' {} {}"
    "heap_end t ts' = heap_end s ts" "in_use C' = in_use C"
    "fast_ok (mem t) (h(i := mem s (p + 16))) C' (F(i := xs))"
    "quiet s lo (heap_end s ts) (in_use C) t" "fastbins t = fastbins s" "max_fast t = max_fast s"
proof -
  let ?N = "(live C)(p := None)" and ?t = "consolidate_chunk p s"
  obtain sz where p: "C p = Some (sz, Fast)" "fast_index sz = i"
    using fast_okD(3) [OF fo i(1), of p] i(2) by auto
  have g: "gone s lo ts C p ?t"
    using coalesce_core [OF H p(1)] consolidate_chunk_coalesce [OF H p(1)] by simp
  obtain ts' C' B' m tc where h': "heap_core ?t lo ts' C' B' {} {}" and lv: "live C' = ?N"
    and he: "heap_end ?t ts' = heap_end s ts" and t: "?t = s\<lparr>mem := m, top_chunk := tc\<rparr>"
    and fr: "\<And>a. a \<notin> touch lo (heap_end s ts) (av_bins s) ?N \<Longrightarrow> m a = mem s a"
    using g by (rule goneE) (rule that)
  have u: "in_use C' = in_use C"
  proof -
    have "in_use C p = None" using p by (simp add: in_use_def)
    then show ?thesis using in_use_live [OF lv] upd_none [of "in_use C" p] by simp
  qed
  have fast: "C' x = Some (z, Fast) \<longleftrightarrow> C x = Some (z, Fast) \<and> x \<noteq> p" for x z
    using live_some [of C' x z Fast] live_some [of C x z Fast] lv by (auto split: if_splits)
  have link: "m (x + 16) = mem s (x + 16)" if "C x = Some (z, Fast)" "x \<noteq> p" for x z
    using fr fast_link_kept [OF core_arena [OF H] that(1), of ?N] that
    by (simp add: live_some heap_end_def)
  have di: "p \<notin> set xs" "distinct xs" using fast_okD(2) [OF fo i(1)] i(2) by auto
  have "fast_ok (mem ?t) (h(i := mem s (p + 16))) C' (F(i := xs))"
    unfolding fast_ok_def
  proof (intro conjI allI impI ballI)
    fix j :: nat assume j: "j < 11"
    have pj: "p \<notin> set ((F(i := xs)) j)"
      using fast_okD(3) [OF fo j, of p] p di by (cases "j = i") auto
    show "distinct ((F(i := xs)) j)" using fast_okD(2) [OF fo j] di by simp
    show "fast_list (mem ?t) ((h(i := mem s (p + 16))) j) ((F(i := xs)) j)"
    proof (rule fast_list_frame [of "mem s"])
      show "fast_list (mem s) ((h(i := mem s (p + 16))) j) ((F(i := xs)) j)"
        using fast_okD(1) [OF fo j] i(2) by (cases "j = i") auto
      fix x assume x: "x \<in> set ((F(i := xs)) j)"
      then have "x \<in> set (F j)" using i(2) by (cases "j = i") auto
      then obtain z where "C x = Some (z, Fast)" using fast_okD(3) [OF fo j] by blast
      moreover have "x \<noteq> p" using x pj by auto
      ultimately show "mem ?t (x + 16) = mem s (x + 16)" using link by (simp add: t)
    qed
    show "\<exists>z. C' x = Some (z, Fast) \<and> fast_index z = j" if "x \<in> set ((F(i := xs)) j)" for x
    proof -
      have "x \<in> set (F j)" "x \<noteq> p" using that pj i(2) by (cases "j = i"; auto)+
      then show ?thesis using fast_okD(3) [OF fo j, of x] fast by auto
    qed
  next
    fix x z assume "C' x = Some (z, Fast)"
    then have x: "C x = Some (z, Fast)" "x \<noteq> p" using fast by auto
    show "fast_index z < 11" using fast_okD(4) [OF fo x(1)] by blast
    show "x \<in> set ((F(i := xs)) (fast_index z))" using fast_okD(4) [OF fo x(1)] x(2) i(2) by auto
  qed
  moreover have "quiet s lo (heap_end s ts) (in_use C) ?t"
  proof -
    have "touch lo (heap_end s ts) (av_bins s) ?N \<subseteq> touch lo (heap_end s ts) (av_bins s) (in_use C)"
      by (rule touch_anti) (use p in \<open>auto simp: in_use_some live_some\<close>)
    moreover have "unat (top_chunk ?t) \<le> unat (top_chunk s)" using g by (simp add: gone_def)
    ultimately show ?thesis using fr by (auto simp: quiet_def t)
  qed
  ultimately show ?thesis using that [OF refl h' he u] by (simp add: t)
qed

lemma consolidate_list_ok:
  assumes "heap_core s lo ts C B {} {}" "fast_ok (mem s) h C F" "i < 11" "F i = p # xs"
  shows "\<exists>t ts' C' B'. consolidate_list p s = Some t \<and> heap_core t lo ts' C' B' {} {} \<and>
    heap_end t ts' = heap_end s ts \<and> in_use C' = in_use C \<and> fast_ok (mem t) (h(i := 0)) C' (F(i := [])) \<and>
    quiet s lo (heap_end s ts) (in_use C) t \<and> fastbins t = fastbins s \<and> max_fast t = max_fast s"
  using assms
proof (induction xs arbitrary: p s ts C B h F)
  case Nil
  obtain t ts' C' B' where c: "consolidate_chunk p s = t" "heap_core t lo ts' C' B' {} {}"
    "heap_end t ts' = heap_end s ts" "in_use C' = in_use C"
    "fast_ok (mem t) (h(i := mem s (p + 16))) C' (F(i := []))"
    "quiet s lo (heap_end s ts) (in_use C) t" "fastbins t = fastbins s" "max_fast t = max_fast s"
    by (rule consolidate_step [OF Nil])
  have "mem s (p + 16) = 0" using fast_okD(1) [OF Nil(2,3)] Nil(4) by simp
  then show ?case using c by (subst consolidate_list.simps) (auto simp: ck_fd_def Let_def)
next
  case (Cons y ys)
  obtain t ts' C' B' where c: "consolidate_chunk p s = t" "heap_core t lo ts' C' B' {} {}"
    "heap_end t ts' = heap_end s ts" "in_use C' = in_use C"
    "fast_ok (mem t) (h(i := mem s (p + 16))) C' (F(i := y # ys))"
    "quiet s lo (heap_end s ts) (in_use C) t" "fastbins t = fastbins s" "max_fast t = max_fast s"
    by (rule consolidate_step [OF Cons.prems])
  have n: "mem s (p + 16) = y" "y \<noteq> 0" using fast_okD(1) [OF Cons.prems(2,3)] Cons.prems(4) by auto
  obtain u ts2 C2 B2 where d: "consolidate_list y t = Some u" "heap_core u lo ts2 C2 B2 {} {}"
    "heap_end u ts2 = heap_end t ts'" "in_use C2 = in_use C'"
    "fast_ok (mem u) ((h(i := mem s (p + 16)))(i := 0)) C2 ((F(i := y # ys))(i := []))"
    "quiet t lo (heap_end t ts') (in_use C') u" "fastbins u = fastbins t" "max_fast u = max_fast t"
    using Cons.IH [OF c(2) c(5) Cons.prems(3), of y] unfolding fun_upd_same by blast
  have "consolidate_list p s = Some u"
    using c(1) d(1) n by (subst consolidate_list.simps) (simp add: ck_fd_def Let_def)
  moreover have "quiet s lo (heap_end s ts) (in_use C) u"
    using quiet_trans [OF c(6)] d(6) c(3,4) by simp
  ultimately show ?case using c d
    by (intro exI [of _ u] exI [of _ ts2] exI [of _ C2] exI [of _ B2]) (simp del: fun_upd_apply)
qed

text \<open>What \<open>malloc_consolidate\<close> and its loops promise.\<close>

definition emptied ::
  "'a malloc_state_scheme \<Rightarrow> u64 \<Rightarrow> u64 \<Rightarrow> chunks \<Rightarrow> (nat \<Rightarrow> u64 list) \<Rightarrow> 'a malloc_state_scheme option \<Rightarrow> bool" where
  "emptied s lo ts C F r \<longleftrightarrow>
     (\<exists>t ts' C' B'. r = Some t \<and> heap_core t lo ts' C' B' {} {} \<and> heap_end t ts' = heap_end s ts \<and>
        in_use C' = in_use C \<and> fast_ok (mem t) (fastbins t) C' F \<and>
        quiet s lo (heap_end s ts) (in_use C) t \<and> max_fast t = max_fast s)"

lemma emptiedE:
  assumes "emptied s lo ts C F r"
  obtains t ts' C' B' where "r = Some t" "heap_core t lo ts' C' B' {} {}" "heap_end t ts' = heap_end s ts"
    "in_use C' = in_use C" "fast_ok (mem t) (fastbins t) C' F" "quiet s lo (heap_end s ts) (in_use C) t"
    "max_fast t = max_fast s"
  using assms unfolding emptied_def by blast

lemma emptied_trans:
  assumes "heap_end t ts' = heap_end s ts" "in_use C' = in_use C"
    "quiet s lo (heap_end s ts) (in_use C) t" "max_fast t = max_fast s" "emptied t lo ts' C' F r"
  shows "emptied s lo ts C F r"
proof -
  obtain u ts2 C2 B2 where "r = Some u" "heap_core u lo ts2 C2 B2 {} {}" "heap_end u ts2 = heap_end t ts'"
    "in_use C2 = in_use C'" "fast_ok (mem u) (fastbins u) C2 F" "quiet t lo (heap_end t ts') (in_use C') u"
    "max_fast u = max_fast t"
    using assms(5) by (rule emptiedE) (rule that)
  then show ?thesis unfolding emptied_def
    using assms(1,2,4) quiet_trans [OF assms(3)] by (metis (no_types, lifting))
qed

lemma consolidate_bin_ok:
  assumes H: "heap_core s lo ts C B {} {}" and fo: "fast_ok (mem s) (fastbins s) C F" and i: "unat i < 11"
  shows "emptied s lo ts C (F(unat i := [])) (consolidate_bin i s)"
proof -
  let ?i = "unat i" and ?p = "fastbins s (unat i)"
  have rd: "read_fastbin s i = Some ?p" and wf: "write_fastbin i 0 s = Some (s\<lparr>fastbins := (fastbins s)(?i := 0)\<rparr>)"
    using i by (simp_all add: read_fastbin_def write_fastbin_def NFASTBINS_value word_less_nat_alt)
  show ?thesis
  proof (cases "F ?i")
    case Nil
    then have "?p = 0" using fast_okD(1) [OF fo i] by simp
    then have "consolidate_bin i s = Some s" by (simp add: consolidate_bin_def rd)
    moreover have "F(?i := []) = F" using Nil by auto
    ultimately show ?thesis unfolding emptied_def using H fo by (simp add: exI) blast
  next
    case (Cons p xs)
    then have p: "?p = p" "p \<noteq> 0" using fast_okD(1) [OF fo i] by auto
    define s1 where "s1 = s\<lparr>fastbins := (fastbins s)(?i := 0)\<rparr>"
    have run: "consolidate_bin i s = consolidate_list p s1"
      using p by (simp add: consolidate_bin_def rd wf s1_def)
    have h1: "heap_core s1 lo ts C B {} {}" by (rule heap_core_cong [OF H]) (simp_all add: s1_def)
    have f1: "fast_ok (mem s1) (fastbins s) C F" using fo by (simp add: s1_def)
    obtain t ts' C' B' where c: "consolidate_list p s1 = Some t" "heap_core t lo ts' C' B' {} {}"
      "heap_end t ts' = heap_end s1 ts" "in_use C' = in_use C" "fast_ok (mem t) ((fastbins s)(?i := 0)) C' (F(?i := []))"
      "quiet s1 lo (heap_end s1 ts) (in_use C) t" "fastbins t = fastbins s1" "max_fast t = max_fast s1"
      using consolidate_list_ok [OF h1 f1 i Cons] by blast
    have q: "quiet s lo (heap_end s ts) (in_use C) s1" by (simp add: quiet_def s1_def)
    have e: "heap_end s1 ts = heap_end s ts" "max_fast s1 = max_fast s" "fastbins s1 = (fastbins s)(?i := 0)"
      by (simp_all add: heap_end_def s1_def)
    show ?thesis unfolding emptied_def run
      using c quiet_trans [OF q, of t] unfolding e by metis
  qed
qed

lemma consolidate_bins_ok:
  assumes "heap_core s lo ts C B {} {}" "fast_ok (mem s) (fastbins s) C F"
    "unat i \<le> unat n" "unat n < 11"
  shows "emptied s lo ts C (\<lambda>j. if unat i \<le> j \<and> j \<le> unat n then [] else F j) (consolidate_bins i n s)"
  using assms
proof (induction "unat n - unat i" arbitrary: i s ts C B F)
  case 0
  then have e: "i = n" by (simp add: word_unat_eq_iff)
  have F: "(\<lambda>j. if unat i \<le> j \<and> j \<le> unat n then [] else F j) = F(unat n := [])"
    using e by (auto simp: fun_eq_iff)
  have "consolidate_bins i n s = consolidate_bin n s"
    by (subst consolidate_bins.simps) (simp add: e)
  then show ?case unfolding F using consolidate_bin_ok [OF 0(2,3,5)] by simp
next
  case (Suc k)
  have i: "unat i < 11" "i \<noteq> n" using Suc.hyps(2) Suc.prems(3,4) by auto
  have i1: "unat (i + 1) = unat i + 1" using i by (simp add: unat_plus_if' word_size)
  obtain t ts' C' B' where c: "consolidate_bin i s = Some t" "heap_core t lo ts' C' B' {} {}"
    "heap_end t ts' = heap_end s ts" "in_use C' = in_use C" "fast_ok (mem t) (fastbins t) C' (F(unat i := []))"
    "quiet s lo (heap_end s ts) (in_use C) t" "max_fast t = max_fast s"
    using consolidate_bin_ok [OF Suc.prems(1,2) i(1)] by (rule emptiedE) (rule that)
  have run: "consolidate_bins i n s = consolidate_bins (i + 1) n t"
    by (subst consolidate_bins.simps) (simp add: c(1) i(2))
  have F: "(\<lambda>j. if unat (i + 1) \<le> j \<and> j \<le> unat n then [] else (F(unat i := [])) j)
      = (\<lambda>j. if unat i \<le> j \<and> j \<le> unat n then [] else F j)"
    using Suc.hyps(2) by (auto simp: fun_eq_iff i1)
  have "emptied t lo ts' C' (\<lambda>j. if unat (i + 1) \<le> j \<and> j \<le> unat n then [] else (F(unat i := [])) j)
      (consolidate_bins (i + 1) n t)"
    by (rule Suc.hyps(1) [OF _ c(2,5)]) (use Suc.hyps(2) Suc.prems(4) i1 in auto)
  then show ?case unfolding F run by (rule emptied_trans [OF c(3,4,6,7)])
qed

section \<open>The whole invariant\<close>

definition heap_inv ::
  "'a malloc_state_scheme \<Rightarrow> u64 \<Rightarrow> u64 \<Rightarrow> chunks \<Rightarrow> (nat \<Rightarrow> u64 list) \<Rightarrow> (nat \<Rightarrow> u64 list) \<Rightarrow> bool" where
  "heap_inv s lo ts C B F \<longleftrightarrow>
     heap_core s lo ts C B {} {} \<and> fast_ok (mem s) (fastbins s) C F \<and> limit_ok s \<and>
     binmap s 3 = 0 \<and> (have_fastchunks s \<longrightarrow> have_anychunks s) \<and>
     (\<forall>x sz. C x = Some (sz, Fast) \<longrightarrow> unat sz \<le> fast_limit s \<and> have_fastchunks s) \<and>
     (\<forall>x sz k. C x = Some (sz, k) \<longrightarrow> k \<noteq> Used \<longrightarrow> have_anychunks s)"

lemma heap_invD:
  assumes "heap_inv s lo ts C B F"
  shows "heap_core s lo ts C B {} {}" "fast_ok (mem s) (fastbins s) C F" "limit_ok s"
    "C x = Some (sz, Fast) \<Longrightarrow> unat sz \<le> fast_limit s \<and> have_fastchunks s"
    "C x = Some (sz, k) \<Longrightarrow> k \<noteq> Used \<Longrightarrow> have_anychunks s" "binmap s 3 = 0"
    "have_fastchunks s \<Longrightarrow> have_anychunks s"
  using assms by (auto simp: heap_inv_def)

lemma max_fast_nonzero: "limit_ok s \<Longrightarrow> max_fast s \<noteq> 0"
  by (auto simp: limit_ok_def fast_limit_def)

lemma clear_fast_flags:
  "have_anychunks (clear_fastchunks s) = have_anychunks s" "\<not> have_fastchunks (clear_fastchunks s)"
  by (simp_all add: bit_word_flags bit_set_fast)

text \<open>The state the caller sees after \<open>malloc_consolidate\<close>: no fast chunks, everything else kept.\<close>

lemma malloc_consolidate_ok:
  assumes I: "heap_inv s lo ts C B F" and any: "have_anychunks s"
  obtains t ts' C' B' where "malloc_consolidate s = Some t" "heap_inv t lo ts' C' B' (\<lambda>_. [])"
    "heap_end t ts' = heap_end s ts" "in_use C' = in_use C" "quiet s lo (heap_end s ts) (in_use C) t"
    "\<not> have_fastchunks t" "fast_limit t = fast_limit s" "have_anychunks t"
proof -
  note H = heap_invD(1) [OF I] and fo = heap_invD(2) [OF I] and lim = heap_invD(3) [OF I]
  define s1 where "s1 = clear_fastchunks s"
  define n where "n = fastbin_index (max_fast s1)"
  have run: "malloc_consolidate s = consolidate_bins 0 n s1"
    using max_fast_nonzero [OF lim] by (simp add: malloc_consolidate_def s1_def n_def Let_def)
  have l1: "fast_limit s1 = fast_limit s" using fast_limit_clear [OF lim] by (simp add: s1_def)
  have L: "32 \<le> fast_limit s" "fast_limit s \<le> 96" "16 dvd fast_limit s" using lim by (auto simp: limit_ok_def)
  have n: "unat n = fast_limit s div 8 - 2"
  proof -
    define r where "r = unat (max_fast s1) mod 4"
    have m: "unat (max_fast s1) = fast_limit s + r" "r < 4"
      using unat_max_fast [of s1] l1 by (simp_all add: r_def)
    have "unat n = unat (max_fast s1) div 8 - 2"
      unfolding n_def using L m by (subst unat_fastbin_index) (simp_all add: fast_index_def)
    moreover have "(fast_limit s + r) div 8 = fast_limit s div 8"
    proof -
      obtain a where a: "fast_limit s = 16 * a" using L(3) by (rule dvdE)
      have "(r + 8 * (2 * a)) div 8 = 2 * a" using m(2) by (subst div_mult_self2) simp_all
      moreover have "(8 * (2 * a)) div 8 = 2 * a" by simp
      ultimately show ?thesis unfolding a by (simp add: ac_simps)
    qed
    ultimately show ?thesis by (simp add: m)
  qed
  have n11: "unat n < 11" using n L by linarith
  have h1: "heap_core s1 lo ts C B {} {}"
    by (rule heap_core_cong [OF H]) (simp_all add: s1_def clear_fastchunks_def)
  have f1: "fast_ok (mem s1) (fastbins s1) C F" using fo by (simp add: s1_def clear_fastchunks_def)
  obtain t ts' C' B' where c: "consolidate_bins 0 n s1 = Some t" "heap_core t lo ts' C' B' {} {}"
    "heap_end t ts' = heap_end s1 ts" "in_use C' = in_use C"
    "fast_ok (mem t) (fastbins t) C' (\<lambda>j. if unat (0::u32) \<le> j \<and> j \<le> unat n then [] else F j)"
    "quiet s1 lo (heap_end s1 ts) (in_use C) t" "max_fast t = max_fast s1"
    by (rule emptiedE [OF consolidate_bins_ok [OF h1 f1 _ n11, of 0]]) (simp, rule that)
  have empty: "F j = []" if j: "unat n < j" "j < 11" for j
  proof (rule ccontr)
    assume "F j \<noteq> []"
    then obtain x where "x \<in> set (F j)" by (meson last_in_set)
    then obtain sz where x: "C x = Some (sz, Fast)" "fast_index sz = j" using fast_okD(3) [OF fo j(2)] by blast
    then have "fast_index sz \<le> unat n"
      unfolding n fast_index_def
      using heap_invD(4) [OF I x(1)] by (intro diff_le_mono div_le_mono) simp
    then show False using x(2) j(1) by simp
  qed
  have f2: "fast_ok (mem t) (fastbins t) C' (\<lambda>_. [])"
  proof -
    have e: "(if unat (0::u32) \<le> j \<and> j \<le> unat n then [] else F j) = []" if "j < 11" for j
      using empty [OF _ that] by auto
    have no: "\<not> (C' x = Some (z, Fast))" for x z
    proof
      assume "C' x = Some (z, Fast)"
      from fast_okD(4) [OF c(5) this] e [of "fast_index z"] show False by simp
    qed
    have "fast_list (mem t) (fastbins t j) []" if "j < 11" for j
      using fast_okD(1) [OF c(5) that] unfolding e [OF that] .
    then show ?thesis using no by (simp add: fast_ok_def)
  qed
  have nofast: "C' x \<noteq> Some (z, Fast)" for x z using fast_okD(4) [OF f2, of x z] by auto
  have same: "fast_limit t = fast_limit s" "have_anychunks t" "\<not> have_fastchunks t"
    using c(7) l1 clear_fast_flags [of s] any
    by (simp_all add: fast_limit_def bit_word_flags s1_def)
  have "binmap t = binmap s"
    using c(6) by (rule quietE) (simp add: s1_def clear_fastchunks_def)
  then have "heap_inv t lo ts' C' B' (\<lambda>_. [])"
    unfolding heap_inv_def limit_ok_def same(1) using c(2) f2 nofast same(2) L heap_invD(6) [OF I] by auto
  moreover have "heap_end s1 ts = heap_end s ts" by (simp add: s1_def heap_end_def clear_fastchunks_def)
  moreover have "quiet s lo (heap_end s ts) (in_use C) s1"
    by (simp add: quiet_def s1_def clear_fastchunks_def)
  ultimately show ?thesis
    using that [of t ts' C' B'] c(1,3,4,6) run same quiet_trans [of s lo "heap_end s ts" "in_use C" s1 t]
    by simp
qed

end
