(* ===== verification/Dl_Take.thy ===== *)
theory Dl_Take
  imports Dl_Fast Dl_Malloc
begin

text \<open>
  Taking a free chunk into use: it leaves its bin, and then is used whole or split, its remainder
  becoming the only unsorted chunk.
\<close>

unbundle bit_operations_syntax

section \<open>Out of its bin\<close>

lemma links_touch_live:
  assumes H: "heap_core s lo ts C B X Y"
  shows "link_words (bin_nodes (av_bins s) B) \<subseteq> touch lo (heap_end s ts) (av_bins s) (live C)"
  unfolding heap_end_def by (rule links_touch [OF core_arena [OF H] core_binned [OF H]]) (auto simp: live_some)

lemma unlink_core:
  assumes H: "heap_core s lo ts C B {} {}" and i: "1 \<le> i" "i < 96" "B i = xs @ p # ys"
  shows "heap_core (unlink p s) lo ts C (B(i := xs @ ys)) {} {p}"
    "writes (touch lo (heap_end s ts) (av_bins s) (live C)) s (unlink p s)"
proof -
  let ?B = "B(i := xs @ ys)" and ?t = "unlink p s"
  note A = core_arena [OF H] and Bn = core_binned [OF H]
  note u = binned_unlink [OF A Bn i]
  have tf: "top_chunk ?t = top_chunk s" "av_bins ?t = av_bins s" "marked ?t = marked s" by simp_all
  have sub: "link_words (bin_nodes (av_bins s) ?B) \<subseteq> link_words (all_nodes (av_bins s) C)"
    by (rule link_words_mono [OF bin_nodes_all [OF u(1)]])
  have "tagged (mem ?t) (top_chunk s) ts C {}"
    by (rule tagged_links [OF A core_tagged [OF H]]) (use u(2) sub in blast)
  then show core: "heap_core ?t lo ts C ?B {} {p}" using A u(1) by (simp add: heap_core_def)
  have "heap_end ?t ts = heap_end s ts" by (simp add: heap_end_def)
  then have "link_words (bin_nodes (av_bins s) ?B) \<subseteq> touch lo (heap_end s ts) (av_bins s) (live C)"
    using links_touch_live [OF core] by simp
  then show "writes (touch lo (heap_end s ts) (av_bins s) (live C)) s ?t"
    unfolding writes_def using u(2) unlink_only_mem [of p s] by blast
qed

text \<open>The last chunk of a bin is taken out by two stores.\<close>

lemma unlink_last:
  assumes r: "ring (mem s) b (xs @ [p])" and b: "bck = ck_bk s p"
  shows "ck_bk s b = p" "p \<noteq> b" "set_fd bck b (set_bk b bck s) = unlink p s"
proof -
  show "ck_bk s b = p" using ring_last [OF r] by (simp add: ck_bk_def)
  show "p \<noteq> b" using r by (auto simp: ring_def)
  have "ck_fd s p = b" using r by (simp add: ring_def links_append ck_fd_def)
  then show "set_fd bck b (set_bk b bck s) = unlink p s" using b by (simp add: unlink_def Let_def)
qed

section \<open>Used whole\<close>

lemma free_before_use:
  assumes L: "layout lo tp C" and p: "C p = Some (sz, Free)" and k: "k \<noteq> Free"
  shows "free_before (C(p \<mapsto> (sz, k))) q \<longleftrightarrow> free_before C q \<and> q \<noteq> p + sz"
proof
  assume "free_before (C(p \<mapsto> (sz, k))) q"
  then obtain x z where x: "C x = Some (z, Free)" "x \<noteq> p" "x + z = q"
    using k by (auto simp: free_before_def split: if_splits)
  then show "free_before C q \<and> q \<noteq> p + sz"
    using prev_unique [OF L x(1) p] by (auto simp: free_before_def)
next
  assume "free_before C q \<and> q \<noteq> p + sz"
  then obtain x z where x: "C x = Some (z, Free)" "x + z = q" "q \<noteq> p + sz"
    by (auto simp: free_before_def)
  then have "x \<noteq> p" using p by auto
  then have "(C(p \<mapsto> (sz, k))) x = Some (z, Free)" using x by simp
  then show "free_before (C(p \<mapsto> (sz, k))) q" using x(2) unfolding free_before_def by blast
qed

lemma use_core:
  assumes H: "heap_core s lo ts C B {} {p}" and p: "C p = Some (sz, Free)"
  shows "heap_core (set_inuse_bit_at_offset p sz s) lo ts (C(p \<mapsto> (sz, Used))) B {} {}"
    "writes (touch lo (heap_end s ts) (av_bins s) (live C)) s (set_inuse_bit_at_offset p sz s)"
proof -
  let ?tp = "top_chunk s" and ?av = "av_bins s" and ?C = "C(p \<mapsto> (sz, Used))" and ?n = "p + sz"
  let ?t = "set_inuse_bit_at_offset p sz s"
  note A = core_arena [OF H] and T = core_tagged [OF H] and Bn = core_binned [OF H] and L = core_layout [OF H]
  have nt: "?n \<noteq> ?tp" using tagged_apart [OF T p] by blast
  then have nin: "?n \<in> dom C" using layout_next [OF L p] by auto
  then have nin': "?n \<in> insert ?tp (dom C)" by simp
  have np: "?n \<noteq> p" using next_not_self(1) [OF L p] .
  have fbn: "free_before C ?n" using p by (auto simp: free_before_def)
  define v where "v = mem s (?n + 8) OR 1"
  have t: "?t = wr (?n + 8) v s"
    by (simp add: set_inuse_bit_at_offset_def ck_size_def v_def dl_consts)
  have m: "mem ?t = (mem s)(?n + 8 := v)" unfolding t by simp
  have tf: "top_chunk ?t = ?tp" "av_bins ?t = ?av" "marked ?t = marked s" unfolding t by simp_all
  have fb: "free_before ?C q \<longleftrightarrow> free_before C q \<and> q \<noteq> ?n" for q
    by (rule free_before_use [OF L p]) simp
  have hh: "q + 8 = ?n + 8 \<longleftrightarrow> q = ?n" for q by simp
  have "tagged (mem ?t) ?tp ts ?C {}"
    unfolding tagged_def
  proof (intro conjI allI impI)
    fix q z k assume "?C q = Some (z, k)"
    then obtain k' where q: "C q = Some (z, k')" using p by (auto split: if_splits)
    show "mem ?t (q + 8) = z OR flag ?C q"
    proof (cases "q = ?n")
      case True
      have "mem s (?n + 8) = z" using tagged_head [OF T q] True fbn by (simp add: flag_def)
      then show ?thesis using True by (simp add: m flag_def fb v_def)
    next
      case False
      then show ?thesis using tagged_head [OF T q] by (simp add: m flag_def fb)
    qed
  next
    show "mem ?t (?tp + 8) = ts OR 1" using tagged_top [OF T] nt by (simp add: m)
  next
    fix q z assume "?C q = Some (z, Free)"
    then have q: "C q = Some (z, Free)" by (auto split: if_splits)
    show "mem ?t (q + z) = z" using tagged_foot [OF T q] head_foot [OF A nin' q] by (simp add: m)
    show "\<not> free_before ?C q" "q + z \<noteq> ?tp" using tagged_apart [OF T q] by (simp_all add: fb)
  qed
  moreover have "binned (mem ?t) ?av (marked s) C B {p}"
  proof (rule binned_frame [OF Bn])
    fix a assume "a \<in> link_words (bin_nodes ?av B)"
    then have "a \<noteq> ?n + 8"
      using other_header [OF H nin'] link_words_mono [OF bin_nodes_all [OF Bn]] by auto
    then show "mem ?t a = mem s a" by (simp add: m)
  qed
  then have "binned (mem ?t) ?av (marked s) ?C B {}" by (rule binned_cong) (use p in auto)
  moreover have "arena lo ?tp ts ?C ?av" using arena_retag [OF A layout_retag [OF L p]] .
  ultimately show "heap_core ?t lo ts ?C B {} {}" by (simp add: heap_core_def tf)
  have "?n + 8 \<in> touch lo (heap_end s ts) ?av (live C)"
    by (rule touch_header [OF H nin']) (simp add: live_some)
  then show "writes (touch lo (heap_end s ts) ?av (live C)) s ?t" unfolding t by (rule writes_wr)
qed

section \<open>Split\<close>

lemma free_before_split:
  assumes L: "layout lo tp C" and p: "C p = Some (sz, Free)" and r: "p + nb \<notin> dom C"
    and e: "p + nb + z = p + sz" and k: "k \<noteq> Free"
  shows "free_before (C(p \<mapsto> (nb, k), p + nb \<mapsto> (z, Free))) q = free_before C q"
proof
  assume "free_before (C(p \<mapsto> (nb, k), p + nb \<mapsto> (z, Free))) q"
  then obtain x y where x: "(C(p \<mapsto> (nb, k), p + nb \<mapsto> (z, Free))) x = Some (y, Free)" "x + y = q"
    by (auto simp: free_before_def)
  show "free_before C q"
  proof (cases "x = p + nb")
    case True
    then have "q = p + sz" using x e by simp
    then show ?thesis using p by (auto simp: free_before_def)
  next
    case False
    then show ?thesis using x k by (auto simp: free_before_def split: if_splits)
  qed
next
  assume "free_before C q"
  then obtain x y where x: "C x = Some (y, Free)" "x + y = q" by (auto simp: free_before_def)
  show "free_before (C(p \<mapsto> (nb, k), p + nb \<mapsto> (z, Free))) q"
  proof (cases "x = p")
    case True
    then have "p + nb + z = q" using x p e by simp
    then show ?thesis unfolding free_before_def by (intro exI [of _ "p + nb"] exI [of _ z]) simp
  next
    case False
    moreover have "x \<noteq> p + nb" using x r by auto
    ultimately show ?thesis using x unfolding free_before_def by (intro exI [of _ x] exI [of _ y]) simp
  qed
qed

lemma split_core:
  assumes H: "heap_core s lo ts C B {} {p}" and p: "C p = Some (sz, Free)"
    and nb: "chunk_size_ok nb" and le: "unat nb + 32 \<le> unat sz"
  defines "C' \<equiv> C(p \<mapsto> (nb, Used), p + nb \<mapsto> (sz - nb, Free))"
  shows "heap_core (set_head p (nb OR 1) s) lo ts C' B {p + nb} {p + nb}"
    "C' (p + nb) = Some (sz - nb, Free)" "p + nb \<notin> dom C" "live C' = (live C)(p \<mapsto> (nb, Used))"
    "writes (touch lo (heap_end s ts) (av_bins s) (live C)) s (set_head p (nb OR 1) s)"
proof -
  let ?tp = "top_chunk s" and ?av = "av_bins s" and ?r = "p + nb" and ?t = "set_head p (nb OR 1) s"
  note A = core_arena [OF H] and T = core_tagged [OF H] and Bn = core_binned [OF H] and L = core_layout [OF H]
  have szk: "16 dvd unat sz" using chunk_bounds(6) [OF A p] .
  have us: "unat (sz - nb) = unat sz - unat nb" using le by (intro unat_sub_le) simp
  have rok: "chunk_size_ok (sz - nb)" using nb szk le by (simp add: chunk_size_ok_def us)
  have le': "unat nb \<le> unat sz" using le by simp
  note S = layout_split [OF L p nb rok le']
  show r: "?r \<notin> dom C" by (rule S(2))
  have rp: "?r \<noteq> p" by (rule S(3))
  have L': "layout lo ?tp C'" unfolding C'_def by (rule S(1))
  show c': "C' ?r = Some (sz - nb, Free)" by (simp add: C'_def)
  have pin: "p \<in> insert ?tp (dom C)" using p by auto
  have e: "?r + (sz - nb) = p + sz" by simp
  have fb: "free_before C' q = free_before C q" for q
    unfolding C'_def by (rule free_before_split [OF L p r e]) simp
  have m: "mem ?t = (mem s)(p + 8 := nb OR 1)" by (simp add: set_head_def)
  have tf: "top_chunk ?t = ?tp" "av_bins ?t = ?av" "marked ?t = marked s" by (simp_all add: set_head_def)
  show lv: "live C' = (live C)(p \<mapsto> (nb, Used))"
  proof -
    have "live C ?r = None" using r by (auto simp: live_none)
    then show ?thesis unfolding C'_def using rp by (auto simp: fun_eq_iff)
  qed
  have "tagged (mem ?t) ?tp ts C' {?r}"
    unfolding tagged_def
  proof (intro conjI allI impI)
    fix q z k assume q: "C' q = Some (z, k)" "q \<notin> {?r}"
    show "mem ?t (q + 8) = z OR flag C' q"
    proof (cases "q = p")
      case True
      then have "z = nb" using q rp by (simp add: C'_def)
      moreover have "flag C' p = 1" using tagged_apart [OF T p] by (simp add: flag_def fb)
      ultimately show ?thesis using True by (simp add: m)
    next
      case False
      then have "C q = Some (z, k)" using q by (simp add: C'_def)
      then show ?thesis using tagged_head [OF T, of q z k] False by (simp add: m flag_def fb)
    qed
  next
    have "?tp \<noteq> p" using tp_not_chunk [OF L] p by auto
    then show "mem ?t (?tp + 8) = ts OR 1" using tagged_top [OF T] by (simp add: m)
  next
    fix q z assume q: "C' q = Some (z, Free)" "q \<notin> {?r}"
    then have "C q = Some (z, Free)" by (auto simp: C'_def split: if_splits)
    then show "mem ?t (q + z) = z" using tagged_foot [OF T] head_foot [OF A pin, of q z] by (simp add: m)
  next
    fix q z assume q: "C' q = Some (z, Free)"
    show "\<not> free_before C' q"
    proof (cases "q = ?r")
      case True
      have "\<not> free_before C ?r"
      proof
        assume "free_before C ?r"
        then obtain x y where x: "C x = Some (y, Free)" "x + y = ?r" by (auto simp: free_before_def)
        have "?r = ?tp \<or> ?r \<in> dom C" using layout_next [OF L x(1)] unfolding x(2) .
        then show False using r tp_not_chunk [OF L'] c' by auto
      qed
      then show ?thesis using True by (simp add: fb)
    next
      case False
      then have "C q = Some (z, Free)" using q by (auto simp: C'_def split: if_splits)
      then show ?thesis using tagged_apart [OF T] by (simp add: fb)
    qed
    show "q + z \<noteq> ?tp"
    proof (cases "q = ?r")
      case True
      then have "z = sz - nb" using q c' by simp
      then show ?thesis using True e tagged_apart [OF T p] by simp
    next
      case False
      then have "C q = Some (z, Free)" using q by (auto simp: C'_def split: if_splits)
      then show ?thesis using tagged_apart [OF T] by simp
    qed
  qed
  moreover have "binned (mem ?t) ?av (marked s) C B {p}"
  proof (rule binned_frame [OF Bn])
    fix a assume "a \<in> link_words (bin_nodes ?av B)"
    then have "a \<noteq> p + 8"
      using other_header [OF H pin] link_words_mono [OF bin_nodes_all [OF Bn]] by auto
    then show "mem ?t a = mem s a" by (simp add: m)
  qed
  then have "binned (mem ?t) ?av (marked s) C' B {?r}"
  proof (rule binned_cong)
    fix x y
    have "C ?r = None" using r by auto
    then show "C x = Some (y, Free) \<and> x \<notin> {p} \<longleftrightarrow> C' x = Some (y, Free) \<and> x \<notin> {?r}"
      unfolding C'_def using rp by (cases "x = p"; cases "x = ?r") auto
  qed
  ultimately show "heap_core ?t lo ts C' B {?r} {?r}"
    using arena_retag [OF A L'] by (simp add: heap_core_def tf)
  have "p + 8 \<in> touch lo (heap_end s ts) ?av (live C)"
    by (rule touch_header [OF H pin]) (simp add: live_some)
  then show "writes (touch lo (heap_end s ts) ?av (live C)) s ?t"
    unfolding set_head_def by (rule writes_wr)
qed

lemma swap_stores:
  assumes "distinct [a, b, c, d, f, g]" "e \<notin> {a, b, c, d, g}"
  shows "(m :: qmem)(c := r, d := r, b := u, a := u, e := h, f := i, g := j)
    = m(e := h, a := u, b := u, c := r, d := r, f := i, g := j)"
  using assms by (auto simp: fun_eq_iff)

text \<open>The remainder becomes the only chunk of the unsorted list.\<close>

lemma split_link_core:
  assumes H: "heap_core s lo ts C B {} {p}" and p: "C p = Some (sz, Free)"
    and nb: "chunk_size_ok nb" and le: "unat nb + 32 \<le> unat sz" and B1: "B 1 = []"
  defines "C' \<equiv> C(p \<mapsto> (nb, Used), p + nb \<mapsto> (sz - nb, Free))"
    and "t \<equiv> split_heads p nb (p + nb) (sz - nb) (link_remainder (p + nb) s)"
  shows "heap_core t lo ts C' (B(1 := [p + nb])) {} {}" "live C' = (live C)(p \<mapsto> (nb, Used))"
    "writes (touch lo (heap_end s ts) (av_bins s) (live C)) s t"
proof -
  let ?av = "av_bins s" and ?r = "p + nb" and ?z = "sz - nb" and ?s = "set_head p (nb OR 1) s"
  let ?W = "touch lo (heap_end s ts) ?av (live C)"
  define u where "u = bin_addr ?av 1"
  note S = split_core [OF H p nb le, folded C'_def]
  note A = core_arena [OF H] and A' = core_arena [OF S(1)]
  have sf: "av_bins ?s = ?av" "top_chunk ?s = top_chunk s" "mem ?s = (mem s)(p + 8 := nb OR 1)"
    by (simp_all add: set_head_def)
  note P = placed_core [OF S(1,2), unfolded sf(1), folded u_def]
  have pd: "p \<in> dom C'" "?r \<in> dom C'" using S(2,3) p by (auto simp: C'_def)
  have u1: "unsorted_chunks s = u" by (simp add: unsorted_addr u_def)
  have su: "mem s (u + 16) = u"
    using ring_first [OF binned_ring [OF core_binned [OF H], of 1]] B1 by (simp add: u_def)
  have un: "u \<in> all_nodes ?av C'" "?r \<in> all_nodes ?av C'" using pd by (auto simp: all_nodes_def u_def)
  have ph: "p + 8 \<noteq> x + 16" "p + 8 \<noteq> x + 24" if "x \<in> all_nodes ?av C'" for x
    using links_not_head [OF A' [unfolded sf], of p] link_words_in [OF that] pd by (metis insertI2)+
  have pf: "p + 8 \<noteq> ?r + ?z" using head_foot [OF A' [unfolded sf] _ S(2), of p] pd by blast
  have f: "mem ?s (u + 16) = u" using ph(1) [OF un(1)] su unfolding sf(3) by simp
  note d = P(3) [unfolded f]
  have e: "t = ?s\<lparr>mem := placed u ?r ?z (mem ?s)\<rparr>"
  proof -
    let ?m = "(mem s)(u + 16 := ?r, u + 24 := ?r, ?r + 16 := u, ?r + 24 := u,
        p + 8 := nb OR 1, ?r + 8 := ?z OR 1, ?r + ?z := ?z)"
    have uw: "unsorted_chunks (wr a v x) = unsorted_chunks x" for a v x
      by (simp add: unsorted_chunks_def bin_at_def)
    have "t = s\<lparr>mem := ?m\<rparr>"
      unfolding t_def split_heads_def link_remainder_def Let_def store_defs uw u1
      by (simp add: wr_def dl_consts)
    moreover have "?m = placed u ?r ?z (mem ?s)"
      unfolding placed_def f sf(3)
      using swap_stores [OF d, of "p + 8"] ph [OF un(1)] ph [OF un(2)] pf su by simp
    ultimately show ?thesis by (simp add: set_head_def wr_def)
  qed
  show "heap_core t lo ts C' (B(1 := [?r])) {} {}" using P(1) B1 unfolding e by simp
  show lv: "live C' = (live C)(p \<mapsto> (nb, Used))" by (rule S(4))
  have "touch lo (heap_end s ts) ?av (live C') \<subseteq> ?W"
  proof (rule touch_anti)
    fix q z k assume "live C q = Some (z, k)"
    moreover from this have "q \<noteq> p" using p by (auto simp: live_some)
    ultimately show "live C' q = Some (z, k)" by (simp add: lv)
  qed
  moreover have "heap_end ?s ts = heap_end s ts" by (simp add: heap_end_def set_head_def)
  ultimately have "writes ?W ?s t" using P(2) writes_mono unfolding e by metis
  then show "writes ?W s t" using writes_trans [OF S(5)] by blast
qed

end
