(* ===== verification/Dl_Free_Spec.thy ===== *)
theory Dl_Free_Spec
  imports Dl_Fast
begin

text \<open>
  What \<open>fREe\<close> promises: a chunk in use becomes free or fast, the invariant holds again, and
  nothing that is lent to anybody else is written.
\<close>

unbundle bit_operations_syntax

section \<open>Fast lists under a consolidation\<close>

lemma gone_fast_ok:
  assumes H: "heap_core s lo ts C B X Y" and fo: "fast_ok (mem s) h C F" and p: "C p = Some (sz, Used)"
    and lv: "live C' = (live C)(p := None)"
    and fr: "\<And>a. a \<notin> touch lo (heap_end s ts) (av_bins s) ((live C)(p := None)) \<Longrightarrow> m a = mem s a"
  shows "fast_ok m h C' F"
proof -
  have fast: "C' x = Some (z, Fast) \<longleftrightarrow> C x = Some (z, Fast)" for x z
    using live_some [of C' x z Fast] live_some [of C x z Fast] lv p by (auto split: if_splits)
  have link: "m (x + 16) = mem s (x + 16)" if "C x = Some (z, Fast)" for x z
  proof -
    have "x \<noteq> p" using that p by auto
    then show ?thesis
      using fr fast_link_kept [OF core_arena [OF H] that, of "(live C)(p := None)"] that
      by (simp add: live_some heap_end_def)
  qed
  have "fast_list m (h i) (F i)" if "i < 11" for i
  proof (rule fast_list_frame [OF fast_okD(1) [OF fo that]])
    fix x assume "x \<in> set (F i)"
    then show "m (x + 16) = mem s (x + 16)" using fast_okD(3) [OF fo that] link by blast
  qed
  then show ?thesis using fo unfolding fast_ok_def fast by blast
qed

section \<open>Chunks and user addresses\<close>

lemma mem2chunk_chunk2mem [simp]: "mem2chunk (chunk2mem p) = p" "chunk2mem (mem2chunk m) = m"
  by (simp_all add: mem2chunk_def chunk2mem_def)

lemma chunk2mem_nonzero:
  assumes "heap_core s lo ts C B X Y" "C p = Some (sz, k)" shows "chunk2mem p \<noteq> 0"
proof
  assume "chunk2mem p = 0"
  then have z: "p + 16 = 0" by (simp add: chunk2mem_def dl_consts)
  have "p \<in> insert (top_chunk s) (dom C)" using assms(2) by auto
  from node_bounds(6) [OF core_arena [OF assms(1)] this] show False unfolding z by simp
qed

section \<open>The invariant after a free\<close>

definition freed ::
  "'a malloc_state_scheme \<Rightarrow> u64 \<Rightarrow> u64 \<Rightarrow> chunks \<Rightarrow> u64 \<Rightarrow> 'a malloc_state_scheme \<Rightarrow>
     u64 \<Rightarrow> chunks \<Rightarrow> (nat \<Rightarrow> u64 list) \<Rightarrow> (nat \<Rightarrow> u64 list) \<Rightarrow> bool" where
  "freed s lo ts C p t ts' C' B' F' \<longleftrightarrow>
     heap_inv t lo ts' C' B' F' \<and> heap_end t ts' = heap_end s ts \<and>
     in_use C' = (in_use C)(p := None) \<and> quiet s lo (heap_end s ts) ((in_use C)(p := None)) t"

lemma free_fast_ok:
  assumes I: "heap_inv s lo ts C B F" and p: "C p = Some (sz, Used)" and le: "unat sz \<le> fast_limit s"
  obtains t F' where "free_fast p sz s = Some t" "freed s lo ts C p t ts (C(p \<mapsto> (sz, Fast))) B F'"
proof -
  let ?i = "fast_index sz" and ?av = "av_bins s" and ?C = "C(p \<mapsto> (sz, Fast))"
  note H = heap_invD(1) [OF I] and fo = heap_invD(2) [OF I] and lim = heap_invD(3) [OF I]
  note A = core_arena [OF H] and T = core_tagged [OF H] and Bn = core_binned [OF H] and L = core_layout [OF H]
  have s96: "unat sz \<le> 96" using le lim by (simp add: limit_ok_def)
  have idx: "unat (fastbin_index sz) = ?i"
    using chunk_bounds(3,4) [OF A p] by (intro unat_fastbin_index) simp_all
  have i: "?i < 11" using fast_index_small [OF s96] .
  let ?h = "fastbins s ?i"
  define t where "t = (set_fd p ?h (set_fastchunks s))\<lparr>fastbins := (fastbins s)(?i := p)\<rparr>"
  have run: "free_fast p sz s = Some t"
    using i by (simp add: free_fast_def read_fastbin_def write_fastbin_def NFASTBINS_value idx
        word_less_nat_alt t_def set_fastchunks_def set_fd_def wr_def Let_def)
  have m: "mem t = (mem s)(p + 16 := ?h)" by (simp add: t_def set_fd_def set_fastchunks_def)
  have tf: "top_chunk t = top_chunk s" "av_bins t = ?av" "binmap t = binmap s"
    "fastbins t = (fastbins s)(?i := p)" "max_fast t = max_fast (set_fastchunks s)"
    by (simp_all add: t_def set_fd_def set_fastchunks_def)
  have pd: "p \<in> dom C" using p by auto
  have fb: "free_before ?C r = free_before C r" for r using free_before_retag [of Used Fast C p sz] p by simp
  have pB: "p \<notin> bin_nodes ?av B"
  proof
    assume "p \<in> bin_nodes ?av B"
    then obtain j where j: "1 \<le> j" "j < 96" "p = bin_addr ?av j \<or> p \<in> set (B j)"
      by (auto simp: bin_nodes_def)
    then show False using binned_member [OF Bn j(1,2), of p] bin_not_node [OF A j(1,2)] pd p by auto
  qed
  have pl: "p + 16 \<notin> link_words (bin_nodes ?av B)"
  proof -
    have "apart ({p} \<union> bin_nodes ?av B)"
      by (rule apart_mono [OF all_nodes_apart [OF A]])
         (use pd bin_nodes_all [OF Bn] in \<open>auto simp: all_nodes_def\<close>)
    from link_words_disjoint [OF this] pB show ?thesis by auto
  qed
  have tg: "tagged (mem t) (top_chunk t) ts ?C {}"
    unfolding tagged_def
  proof (intro conjI allI impI)
    fix r z k assume "?C r = Some (z, k)"
    then obtain k' where r: "C r = Some (z, k')" using p by (auto split: if_splits)
    have "r + 8 \<noteq> p + 16" using head_link(1) [OF A _ pd, of r] r by auto
    then show "mem t (r + 8) = z OR flag ?C r"
      using tagged_head [OF T r] by (simp add: m flag_def fb)
  next
    show "mem t (top_chunk t + 8) = ts OR 1"
      using tagged_top [OF T] head_link(1) [OF A _ pd, of "top_chunk s"] by (simp add: m tf)
  next
    fix r z assume "?C r = Some (z, Free)"
    then have r: "C r = Some (z, Free)" by (auto split: if_splits)
    show "mem t (r + z) = z" using tagged_foot [OF T r] link_foot(1) [OF A pd r] by (simp add: m)
    show "\<not> free_before ?C r" "r + z \<noteq> top_chunk t" using tagged_apart [OF T r] by (simp_all add: fb tf)
  qed
  have "binned (mem t) ?av (marked s) C B {}"
    by (rule binned_frame [OF Bn]) (use pl in \<open>auto simp: m\<close>)
  then have bn: "binned (mem t) ?av (marked s) ?C B {}"
    by (rule binned_cong) (use p in auto)
  have core: "heap_core t lo ts ?C B {} {}"
    using arena_retag [OF A layout_retag [OF L p]] tg bn marked_cong [OF tf(3)]
    by (simp add: heap_core_def tf)
  have pF: "p \<notin> set (F j)" if "j < 11" for j using fast_okD(3) [OF fo that, of p] p by auto
  have fok: "fast_ok (mem t) (fastbins t) ?C (F(?i := p # F ?i))"
    unfolding fast_ok_def
  proof (intro conjI allI impI ballI)
    fix j :: nat assume j: "j < 11"
    have keep: "fast_list (mem t) h (F j)" if "fast_list (mem s) h (F j)" for h
      using that
    proof (rule fast_list_frame)
      fix x assume "x \<in> set (F j)"
      then have "x \<noteq> p" using pF [OF j] by auto
      then show "mem t (x + 16) = mem s (x + 16)" by (simp add: m)
    qed
    show "fast_list (mem t) (fastbins t j) ((F(?i := p # F ?i)) j)"
      using keep [OF fast_okD(1) [OF fo j]] node_bounds(4) [OF A, of p] pd
      by (cases "j = ?i") (auto simp: tf m)
    show "distinct ((F(?i := p # F ?i)) j)" 
      using fast_okD(2) [OF fo j] pF [OF j] by (cases "j = ?i") simp_all
    show "\<exists>z. ?C x = Some (z, Fast) \<and> fast_index z = j" if "x \<in> set ((F(?i := p # F ?i)) j)" for x
      using that fast_okD(3) [OF fo j, of x] pF [OF j] by (cases "x = p"; cases "j = ?i") auto
  next
    fix x z assume x: "?C x = Some (z, Fast)"
    show "fast_index z < 11" "x \<in> set ((F(?i := p # F ?i)) (fast_index z))"
      using x i fast_okD(4) [OF fo, of x z] by (cases "x = p"; auto)+
  qed
  have lt: "fast_limit t = fast_limit s"
    using fast_limit_set(1) [of s] by (simp add: fast_limit_def tf)
  have flags: "have_fastchunks t" "have_anychunks t"
    by (simp_all add: bit_word_flags tf bit_set_fast)
  have "heap_inv t lo ts ?C B (F(?i := p # F ?i))"
    unfolding heap_inv_def limit_ok_def lt
    using core fok lim heap_invD(4,6) [OF I] le flags tf(3) by (auto simp: limit_ok_def split: if_splits)
  moreover have "in_use ?C = (in_use C)(p := None)" by (rule map_eqI) (auto simp: in_use_some)
  moreover have "quiet s lo (heap_end s ts) ((in_use C)(p := None)) t"
  proof -
    have "p + 16 \<in> touch lo (unat (top_chunk s) + unat ts) ?av ((in_use C)(p := None))"
      by (rule touch_own [OF A p _ _ own_words(2) [OF A p]]) (auto simp: in_use_some split: if_splits)
    then have "mem t a = mem s a" if "a \<notin> touch lo (heap_end s ts) ?av ((in_use C)(p := None))" for a
      using that by (auto simp: m heap_end_def)
    then show ?thesis by (simp add: quiet_def t_def set_fd_def wr_def set_fastchunks_def)
  qed
  moreover have "heap_end t ts = heap_end s ts" by (simp add: heap_end_def tf)
  ultimately show ?thesis using that [OF run, of "F(?i := p # F ?i)"] by (simp add: freed_def)
qed

text \<open>A chunk that goes through the unsorted list or into top.\<close>

lemma free_normal_ok:
  assumes I: "heap_inv s lo ts C B F" and p: "C p = Some (sz, Used)"
  obtains z t ts' C' B' where "free_normal p sz s = (z, t)" "freed s lo ts C p t ts' C' B' F"
    "fast_limit t = fast_limit s" "have_anychunks t"
    "t = s\<lparr>mem := mem t, top_chunk := top_chunk t, max_fast := max_fast t\<rparr>"
proof -
  let ?s = "set_anychunks s"
  note H = heap_invD(1) [OF I] and fo = heap_invD(2) [OF I] and lim = heap_invD(3) [OF I]
  obtain z t where r: "free_normal p sz s = (z, t)" by fastforce
  have h: "heap_core ?s lo ts C B {} {}"
    by (rule heap_core_cong [OF H]) (simp_all add: set_anychunks_def)
  have "t = snd (coalesce place_unsorted p sz ?s)" using r by (simp add: free_normal_coalesce)
  then have g: "gone ?s lo ts C p t" using coalesce_core [OF h p] by simp
  obtain ts' C' B' where c: "heap_core t lo ts' C' B' {} {}" "live C' = (live C)(p := None)"
    "heap_end t ts' = heap_end s ts" and t: "t = ?s\<lparr>mem := mem t, top_chunk := top_chunk t\<rparr>"
    and fr: "\<And>a. a \<notin> touch lo (heap_end s ts) (av_bins s) ((live C)(p := None)) \<Longrightarrow> mem t a = mem s a"
    using g unfolding gone_def by (auto simp: heap_end_def set_anychunks_def)
  have tf: "max_fast t = max_fast ?s" "fastbins t = fastbins s" "binmap t = binmap s"
    by (subst t, simp add: set_anychunks_def)+
  have fo': "fast_ok (mem t) (fastbins t) C' F"
    unfolding tf(2) by (rule gone_fast_ok [OF H fo p c(2) fr])
  have lt: "fast_limit t = fast_limit s"
    using fast_limit_set(2) [of s] by (simp add: fast_limit_def tf)
  have any: "have_anychunks t" "have_fastchunks t \<longleftrightarrow> have_fastchunks s"
    by (simp_all add: bit_word_flags tf bit_set_fast)
  have fast: "C' x = Some (y, Fast) \<longleftrightarrow> C x = Some (y, Fast)" for x y
    using live_some [of C' x y Fast] live_some [of C x y Fast] c(2) p by (auto split: if_splits)
  have "heap_inv t lo ts' C' B' F"
    unfolding heap_inv_def limit_ok_def lt
    using c(1) fo' lim heap_invD(4,6) [OF I] any tf(3) by (auto simp: limit_ok_def fast)
  moreover have "in_use C' = (in_use C)(p := None)" using c(2) by (rule in_use_live)
  moreover have "quiet s lo (heap_end s ts) ((in_use C)(p := None)) t"
  proof -
    have sub: "touch lo (heap_end s ts) (av_bins s) ((live C)(p := None))
        \<subseteq> touch lo (heap_end s ts) (av_bins s) ((in_use C)(p := None))"
      by (rule touch_anti) (auto simp: in_use_some live_some split: if_splits)
    then have f: "mem t a = mem s a" if "a \<notin> touch lo (heap_end s ts) (av_bins s) ((in_use C)(p := None))" for a
      using fr that by blast
    have "t = s\<lparr>mem := mem t, top_chunk := top_chunk t, fastbins := fastbins s, max_fast := max_fast t\<rparr>"
      by (rule trans [OF t]) (simp add: tf(1) set_anychunks_def)
    moreover have "unat (top_chunk t) \<le> unat (top_chunk s)" using g by (simp add: gone_def set_anychunks_def)
    ultimately show ?thesis unfolding quiet_def tf(2) using f by simp
  qed
  ultimately have "freed s lo ts C p t ts' C' B' F" using c(3) by (simp add: freed_def)
  moreover have "t = s\<lparr>mem := mem t, top_chunk := top_chunk t, max_fast := max_fast t\<rparr>"
    by (rule trans [OF t]) (simp add: tf(1) set_anychunks_def)
  ultimately show ?thesis using that [OF r _ lt any(1)] by blast
qed

section \<open>The whole of free\<close>

lemma freed_trans:
  assumes f: "freed s lo ts C p t ts1 C1 B1 F1"
    and i: "heap_inv u lo ts2 C2 B2 F2" "heap_end u ts2 = heap_end t ts1" "in_use C2 = in_use C1"
    and q: "quiet t lo (heap_end t ts1) (in_use C1) u"
  shows "freed s lo ts C p u ts2 C2 B2 F2"
  using f i q quiet_trans [of s lo "heap_end s ts" "(in_use C)(p := None)" t u]
  by (simp add: freed_def)

lemma quiet_trim: "quiet s lo e N t \<Longrightarrow> trim_threshold t = trim_threshold s \<and> top_pad t = top_pad s"
  by (erule quietE) simp

lemma chunk_above_fast:
  assumes "heap_inv s lo ts C B F" "C p = Some (sz, k)"
  shows "sz \<le> max_fast s \<longleftrightarrow> unat sz \<le> fast_limit s"
  using fits_fast [OF heap_invD(3) [OF assms(1)]]
    chunk_bounds(6) [OF core_arena [OF heap_invD(1) [OF assms(1)]] assms(2)] by simp

text \<open>
  \<open>fREe\<close> up to the trimming of a heap whose top chunk has reached the threshold.
\<close>

definition trims :: "'a malloc_state_scheme \<Rightarrow> 'a malloc_state_scheme option" where
  "trims t = do { (_, u) \<leftarrow> sYSTRIm (top_pad t) t; Some u }"

lemma free_trim_ok:
  assumes f: "freed s lo ts C p t ts1 C1 B1 F1" and any: "have_anychunks t"
  obtains u ts2 C2 B2 F2 where "freed s lo ts C p u ts2 C2 B2 F2"
    "free_trim z t = Some u \<or>
     trim_threshold s \<le> ts2 \<and> FASTBIN_CONSOLIDATION_THRESHOLD \<le> z \<and> free_trim z t = trims u"
proof -
  obtain u ts2 C2 B2 F2 where u: "(if have_fastchunks t then malloc_consolidate t else Some t) = Some u"
    "freed s lo ts C p u ts2 C2 B2 F2"
  proof (cases "have_fastchunks t")
    case True
    have I: "heap_inv t lo ts1 C1 B1 F1" using f by (simp add: freed_def)
    obtain v ts2 C2 B2 where v: "malloc_consolidate t = Some v" "heap_inv v lo ts2 C2 B2 (\<lambda>_. [])"
      "heap_end v ts2 = heap_end t ts1" "in_use C2 = in_use C1" "quiet t lo (heap_end t ts1) (in_use C1) v"
      by (rule malloc_consolidate_ok [OF I any])
    show ?thesis by (rule that [OF _ freed_trans [OF f v(2-5)]]) (simp add: True v(1))
  next
    case False
    then show ?thesis by (intro that [OF _ f]) simp
  qed
  have q: "quiet s lo (heap_end s ts) ((in_use C)(p := None)) u" and I: "heap_inv u lo ts2 C2 B2 F2"
    using u(2) by (simp_all add: freed_def)
  have top: "chunksize u (top_chunk u) = ts2" using read_top [OF heap_invD(1) [OF I]] .
  have "free_trim z t = Some u \<or>
     trim_threshold s \<le> ts2 \<and> FASTBIN_CONSOLIDATION_THRESHOLD \<le> z \<and> free_trim z t = trims u"
    if "FASTBIN_CONSOLIDATION_THRESHOLD \<le> z"
    using that u(1) quiet_trim [OF q] top by (simp add: free_trim_def trims_def)
  moreover have "free_trim z t = Some t" if "\<not> FASTBIN_CONSOLIDATION_THRESHOLD \<le> z"
    using that by (simp add: free_trim_def)
  ultimately show ?thesis using that u(2) f by blast
qed

lemma free_run:
  assumes I: "heap_inv s lo ts C B F" and p: "C p = Some (sz, Used)"
  obtains t ts' C' B' F' where "freed s lo ts C p t ts' C' B' F'"
    "fREe (chunk2mem p) s = Some t \<or> trim_threshold s \<le> ts' \<and> fREe (chunk2mem p) s = trims t"
proof -
  note H = heap_invD(1) [OF I]
  have nz: "chunk2mem p \<noteq> 0" using chunk2mem_nonzero [OF H p] .
  have sz: "chunksize s p = sz" using read_chunksize [OF H p] by simp
  show ?thesis
  proof (cases "sz \<le> max_fast s")
    case True
    then have "unat sz \<le> fast_limit s" using chunk_above_fast [OF I p] by simp
    from free_fast_ok [OF I p this] obtain t F' where t: "free_fast p sz s = Some t"
      "freed s lo ts C p t ts (C(p \<mapsto> (sz, Fast))) B F'" .
    have "fREe (chunk2mem p) s = Some t" using nz sz True t(1) by (simp add: fREe_def)
    then show ?thesis using that [OF t(2)] by blast
  next
    case False
    obtain z t ts1 C1 B1 where t: "free_normal p sz s = (z, t)" "freed s lo ts C p t ts1 C1 B1 F"
      "have_anychunks t"
      by (rule free_normal_ok [OF I p])
    have "\<not> chunk_is_mmapped s p" using read_mmapped [OF H p] by simp
    then have "fREe (chunk2mem p) s = free_trim z t" using nz sz False t(1) by (simp add: fREe_def)
    then show ?thesis using free_trim_ok [OF t(2,3), of z] that by metis
  qed
qed

end
