(* ===== verification/Dl_Alloc.thy ===== *)
theory Dl_Alloc
  imports Dl_Take Dl_Free_Spec
begin

text \<open>
  The steps of \<open>mALLOc\<close> that take a chunk: from a fast list, from a bin whole or split, from the
  top chunk. Each keeps the heap invariant and hands out memory that was not in use.
\<close>

unbundle bit_operations_syntax

section \<open>What a step may change\<close>

definition calm :: "'a malloc_state_scheme \<Rightarrow> u64 \<Rightarrow> nat \<Rightarrow> chunks \<Rightarrow> 'a malloc_state_scheme \<Rightarrow> bool" where
  "calm s lo e N t \<longleftrightarrow>
     t = s\<lparr>mem := mem t, top_chunk := top_chunk t, fastbins := fastbins t, max_fast := max_fast t,
           last_remainder := last_remainder t, binmap := binmap t\<rparr> \<and>
     (\<forall>a. a \<notin> touch lo e (av_bins s) N \<longrightarrow> mem t a = mem s a)"

lemma calm_refl [simp]: "calm s lo e N s"
  by (simp add: calm_def)

lemma calmE:
  assumes "calm s lo e N t"
  obtains m tc fb mf lr bm where
    "t = s\<lparr>mem := m, top_chunk := tc, fastbins := fb, max_fast := mf, last_remainder := lr, binmap := bm\<rparr>"
    "\<And>a. a \<notin> touch lo e (av_bins s) N \<Longrightarrow> m a = mem s a"
  using assms unfolding calm_def by blast

lemma calmI:
  assumes "t = s\<lparr>mem := m, top_chunk := tc, fastbins := fb, max_fast := mf, last_remainder := lr, binmap := bm\<rparr>"
    "\<And>a. a \<notin> touch lo e (av_bins s) N \<Longrightarrow> m a = mem s a"
  shows "calm s lo e N t"
  using assms by (simp add: calm_def)

lemma calm_trans:
  assumes "calm s lo e N t" "calm t lo e N u" shows "calm s lo e N u"
proof -
  obtain m tc fb mf lr bm where t: "t = s\<lparr>mem := m, top_chunk := tc, fastbins := fb, max_fast := mf,
      last_remainder := lr, binmap := bm\<rparr>" "\<And>a. a \<notin> touch lo e (av_bins s) N \<Longrightarrow> m a = mem s a"
    using assms(1) by (rule calmE) (rule that)
  obtain m' tc' fb' mf' lr' bm' where u: "u = t\<lparr>mem := m', top_chunk := tc', fastbins := fb', max_fast := mf',
      last_remainder := lr', binmap := bm'\<rparr>" "\<And>a. a \<notin> touch lo e (av_bins t) N \<Longrightarrow> m' a = mem t a"
    using assms(2) by (rule calmE) (rule that)
  show ?thesis by (rule calmI [where m = m' and tc = tc' and fb = fb' and mf = mf' and lr = lr' and bm = bm']) (use t u in simp_all)
qed

lemma calm_writes:
  assumes "writes (touch lo e (av_bins s) (live C)) s t"
  shows "calm s lo e (in_use C) t"
proof -
  obtain m where m: "t = s\<lparr>mem := m\<rparr>" "\<And>a. a \<notin> touch lo e (av_bins s) (live C) \<Longrightarrow> m a = mem s a"
    using assms by (rule writesE) (rule that)
  have "touch lo e (av_bins s) (live C) \<subseteq> touch lo e (av_bins s) (in_use C)"
    by (rule touch_anti) (auto simp: in_use_of_live)
  then have "m a = mem s a" if "a \<notin> touch lo e (av_bins s) (in_use C)" for a
    using m(2) that by blast
  then show ?thesis using m(1) by (simp add: calm_def)
qed

lemma calm_quiet: "quiet s lo e N t \<Longrightarrow> calm s lo e N t"
  by (erule quietE) (auto simp: calm_def)

lemma calm_mono:
  assumes "calm s lo e N t" "\<And>q z k. N' q = Some (z, k) \<Longrightarrow> N q = Some (z, k)"
  shows "calm s lo e N' t"
  using assms(1) touch_anti [of N' N lo e "av_bins s", OF assms(2)] unfolding calm_def by blast

text \<open>A successful request of \<open>nb\<close> bytes, overhead included, answered by the chunk \<open>p\<close>.\<close>

definition alloced ::
  "'a malloc_state_scheme \<Rightarrow> u64 \<Rightarrow> u64 \<Rightarrow> chunks \<Rightarrow> u64 \<Rightarrow> u64 \<Rightarrow> 'a malloc_state_scheme \<Rightarrow> bool" where
  "alloced s lo ts C nb p t \<longleftrightarrow>
     (\<exists>ts' C' B' F' z. heap_inv t lo ts' C' B' F' \<and> heap_end t ts' = heap_end s ts \<and>
        in_use C p = None \<and> in_use C' = (in_use C)(p \<mapsto> (z, Used)) \<and>
        unat nb \<le> unat z \<and> unat z < unat nb + 32 \<and> calm s lo (heap_end s ts) (in_use C) t)"

text \<open>A step that goes on: nothing in use has changed.\<close>

definition kept ::
  "'a malloc_state_scheme \<Rightarrow> u64 \<Rightarrow> u64 \<Rightarrow> chunks \<Rightarrow> 'a malloc_state_scheme \<Rightarrow> u64 \<Rightarrow> chunks \<Rightarrow>
     (nat \<Rightarrow> u64 list) \<Rightarrow> (nat \<Rightarrow> u64 list) \<Rightarrow> bool" where
  "kept s lo ts C t ts' C' B' F' \<longleftrightarrow>
     heap_inv t lo ts' C' B' F' \<and> heap_end t ts' = heap_end s ts \<and> in_use C' = in_use C \<and>
     (have_fastchunks t \<longrightarrow> have_fastchunks s) \<and> (have_anychunks s \<longrightarrow> have_anychunks t) \<and>
     unat ts \<le> unat ts' \<and> calm s lo (heap_end s ts) (in_use C) t"

lemma kept_refl: "heap_inv s lo ts C B F \<Longrightarrow> kept s lo ts C s ts C B F"
  by (simp add: kept_def)

lemma kept_trans:
  assumes "kept s lo ts C t ts1 C1 B1 F1" "kept t lo ts1 C1 u ts2 C2 B2 F2"
  shows "kept s lo ts C u ts2 C2 B2 F2"
  using assms unfolding kept_def by (auto intro: calm_trans)

lemma kept_alloced:
  assumes "kept s lo ts C t ts1 C1 B1 F1" "alloced t lo ts1 C1 nb p u"
  shows "alloced s lo ts C nb p u"
  using assms unfolding kept_def alloced_def by (metis calm_trans)

section \<open>The invariant after a change of the bins\<close>

lemma fast_ok_frame:
  assumes A: "arena lo (top_chunk s) ts C (av_bins s)" and fo: "fast_ok (mem s) h C F"
    and fast: "\<And>x z. C' x = Some (z, Fast) \<longleftrightarrow> C x = Some (z, Fast)"
    and fr: "\<And>a. a \<notin> touch lo (heap_end s ts) (av_bins s) (live C) \<Longrightarrow> m a = mem s a"
  shows "fast_ok m h C' F"
proof -
  have link: "m (x + 16) = mem s (x + 16)" if "C x = Some (z, Fast)" for x z
    using fr fast_link_kept [OF A that, of "live C"] that by (simp add: live_some heap_end_def)
  have "fast_list m (h i) (F i)" if "i < 11" for i
  proof (rule fast_list_frame [OF fast_okD(1) [OF fo that]])
    fix x assume "x \<in> set (F i)"
    then show "m (x + 16) = mem s (x + 16)" using fast_okD(3) [OF fo that] link by blast
  qed
  then show ?thesis using fo unfolding fast_ok_def fast by blast
qed

lemma heap_inv_step:
  assumes I: "heap_inv s lo ts C B F" and core: "heap_core t lo ts' C' B' {} {}"
    and fr: "\<And>a. a \<notin> touch lo (heap_end s ts) (av_bins s) (live C) \<Longrightarrow> mem t a = mem s a"
    and f: "fastbins t = fastbins s" "max_fast t = max_fast s" "binmap t 3 = 0"
    and fast: "\<And>x z. C' x = Some (z, Fast) \<longleftrightarrow> C x = Some (z, Fast)"
    and any: "\<And>x z k. C' x = Some (z, k) \<Longrightarrow> k \<noteq> Used \<Longrightarrow> have_anychunks s"
  shows "heap_inv t lo ts' C' B' F"
proof -
  have fl: "have_fastchunks t = have_fastchunks s" "have_anychunks t = have_anychunks s"
    "fast_limit t = fast_limit s"
    by (simp_all add: have_fastchunks_def have_anychunks_def fast_limit_def f)
  have fo: "fast_ok (mem t) (fastbins t) C' F"
    unfolding f(1) by (rule fast_ok_frame [OF core_arena [OF heap_invD(1) [OF I]] heap_invD(2) [OF I] fast fr])
  show ?thesis
    unfolding heap_inv_def limit_ok_def fl
    using core fo f(3) heap_invD(3,4,7) [OF I] fast any by (auto simp: limit_ok_def)
qed

lemma last_remainder_inv [simp]: "heap_inv (s\<lparr>last_remainder := r\<rparr>) lo ts C B F = heap_inv s lo ts C B F"
  by (simp add: heap_inv_def heap_core_def marked_def [abs_def] limit_ok_def fast_limit_def
      have_fastchunks_def have_anychunks_def)

lemma last_remainder_end [simp]: "heap_end (s\<lparr>last_remainder := r\<rparr>) ts = heap_end s ts"
  by (simp add: heap_end_def)

lemma alloced_last_remainder:
  assumes "alloced s lo ts C nb p t" shows "alloced s lo ts C nb p (t\<lparr>last_remainder := r\<rparr>)"
proof -
  obtain ts' C' B' F' z where t: "heap_inv t lo ts' C' B' F'" "heap_end t ts' = heap_end s ts" "in_use C p = None"
    "in_use C' = (in_use C)(p \<mapsto> (z, Used))" "unat nb \<le> unat z" "unat z < unat nb + 32"
    "calm s lo (heap_end s ts) (in_use C) t"
    using assms unfolding alloced_def by blast
  have "calm s lo (heap_end s ts) (in_use C) (t\<lparr>last_remainder := r\<rparr>)"
    using t(7) by (rule calmE) (simp add: calm_def)
  then show ?thesis unfolding alloced_def using t(1-6) by (intro exI conjI) (assumption | simp)+
qed

section \<open>Taking a chunk out of a bin\<close>

lemma take_whole:
  assumes I: "heap_inv s lo ts C B F" and i: "1 \<le> i" "i < 96" "B i = xs @ p # ys"
    and p: "C p = Some (sz, Free)" and le: "unat nb \<le> unat sz" "unat sz < unat nb + 32"
  shows "alloced s lo ts C nb p (set_inuse_bit_at_offset p sz (unlink p s))"
proof -
  let ?t = "unlink p s" and ?W = "touch lo (heap_end s ts) (av_bins s) (live C)"
  let ?u = "set_inuse_bit_at_offset p sz ?t"
  note H = heap_invD(1) [OF I]
  note U = unlink_core [OF H i]
  note V = use_core [OF U(1) p]
  have e: "heap_end ?t ts = heap_end s ts" "av_bins ?t = av_bins s" by (simp_all add: heap_end_def)
  have w: "writes ?W s ?u" using writes_trans [OF U(2)] V(2) unfolding e by blast
  obtain m where m: "?u = s\<lparr>mem := m\<rparr>" "\<And>a. a \<notin> ?W \<Longrightarrow> m a = mem s a" using w by (rule writesE) (rule that)
  have "heap_inv ?u lo ts (C(p \<mapsto> (sz, Used))) (B(i := xs @ ys)) F"
    by (rule heap_inv_step [OF I V(1)])
       (use m p heap_invD(5) [OF I] heap_invD(6) [OF I] in \<open>auto split: if_splits\<close>)
  moreover have "heap_end ?u ts = heap_end s ts" by (simp add: heap_end_def m)
  moreover have "in_use C p = None" using p by (simp add: in_use_def)
  moreover have "in_use (C(p \<mapsto> (sz, Used))) = (in_use C)(p \<mapsto> (sz, Used))"
    by (rule map_eqI) (auto simp: in_use_some)
  ultimately show ?thesis unfolding alloced_def using calm_writes [OF w] le by blast
qed

lemma take_split:
  assumes I: "heap_inv s lo ts C B F" and i: "1 \<le> i" "i < 96" "B i = xs @ p # ys"
    and p: "C p = Some (sz, Free)" and nb: "chunk_size_ok nb" and le: "unat nb + 32 \<le> unat sz"
    and one: "i \<noteq> 1 \<Longrightarrow> B 1 = []" "i = 1 \<Longrightarrow> xs @ ys = []"
  shows "alloced s lo ts C nb p (split_heads p nb (p + nb) (sz - nb) (link_remainder (p + nb) (unlink p s)))"
proof -
  let ?t = "unlink p s" and ?W = "touch lo (heap_end s ts) (av_bins s) (live C)"
  let ?C = "C(p \<mapsto> (nb, Used), p + nb \<mapsto> (sz - nb, Free))"
  define u where "u = split_heads p nb (p + nb) (sz - nb) (link_remainder (p + nb) ?t)"
  note H = heap_invD(1) [OF I]
  note U = unlink_core [OF H i]
  have B1: "(B(i := xs @ ys)) 1 = []" using one by (cases "i = 1") auto
  note V = split_link_core [OF U(1) p nb le B1, folded u_def]
  have r: "p + nb \<notin> dom C" using split_core(3) [OF U(1) p nb le] .
  have e: "heap_end ?t ts = heap_end s ts" "av_bins ?t = av_bins s" by (simp_all add: heap_end_def)
  have w: "writes ?W s u" using writes_trans [OF U(2)] V(3) unfolding e by blast
  obtain m where m: "u = s\<lparr>mem := m\<rparr>" "\<And>a. a \<notin> ?W \<Longrightarrow> m a = mem s a" using w by (rule writesE) (rule that)
  have any: "have_anychunks s" using heap_invD(5) [OF I p] by simp
  have rp: "p + nb \<noteq> p" using r p by auto
  have "heap_inv u lo ts ?C (B(i := xs @ ys, 1 := [p + nb])) F"
  proof (rule heap_inv_step [OF I V(1)])
    fix x z
    have "C (p + nb) = None" using r by auto
    then show "?C x = Some (z, Fast) \<longleftrightarrow> C x = Some (z, Fast)"
      using p rp by (cases "x = p + nb"; cases "x = p") auto
  qed (use m any heap_invD(6) [OF I] in auto)
  moreover have "heap_end u ts = heap_end s ts" by (simp add: heap_end_def m)
  moreover have "in_use C p = None" using p by (simp add: in_use_def)
  moreover have "in_use ?C = (in_use C)(p \<mapsto> (nb, Used))"
  proof (rule map_eqI)
    fix q z k
    have "C (p + nb) = None" using r by auto
    then show "in_use ?C q = Some (z, k) \<longleftrightarrow> ((in_use C)(p \<mapsto> (nb, Used))) q = Some (z, k)"
      using rp by (cases "q = p + nb"; cases "q = p") (auto simp: in_use_some)
  qed
  ultimately show ?thesis unfolding alloced_def u_def [symmetric] using calm_writes [OF w]
    by (intro exI [of _ ts] exI [of _ ?C] exI conjI) (assumption | simp)+
qed

end
