(* ===== verification/Dl_Exact.thy ===== *)
theory Dl_Exact
  imports Dl_Alloc
begin

text \<open>
  The steps of \<open>mALLOc\<close> that look for a chunk of exactly the right size, in the fast list and in
  the small bin of the request, and the last one, which cuts the chunk off the top.
\<close>

unbundle bit_operations_syntax

section \<open>Fast lists\<close>

lemma retag_core:
  assumes H: "heap_core s lo ts C B {} {}" and p: "C p = Some (sz, k)" "k \<noteq> Free" and k': "k' \<noteq> Free"
  shows "heap_core s lo ts (C(p \<mapsto> (sz, k'))) B {} {}"
proof -
  let ?C = "C(p \<mapsto> (sz, k'))"
  note T = core_tagged [OF H]
  have fb: "free_before ?C q = free_before C q" for q using free_before_retag [of k k' C p sz] p k' by simp
  have free: "?C x = Some (z, Free) \<longleftrightarrow> C x = Some (z, Free)" for x z using p k' by auto
  have "tagged (mem s) (top_chunk s) ts ?C {}"
    unfolding tagged_def
  proof (intro conjI allI impI)
    fix q z j assume "?C q = Some (z, j)"
    then obtain j' where "C q = Some (z, j')" using p by (auto split: if_splits)
    then show "mem s (q + 8) = z OR flag ?C q" using tagged_head [OF T] by (simp add: flag_def fb)
  qed (use tagged_top [OF T] tagged_foot [OF T] tagged_apart [OF T] free fb in blast)+
  moreover have "binned (mem s) (av_bins s) (marked s) ?C B {}"
    by (rule binned_cong [OF core_binned [OF H]]) (use free in blast)
  ultimately show ?thesis
    using arena_retag [OF core_arena [OF H] layout_retag [OF core_layout [OF H] p(1)]]
    by (simp add: heap_core_def)
qed

lemma fast_index_inj:
  assumes "32 \<le> a" "16 dvd a" "32 \<le> b" "16 dvd b" "a div 8 - 2 = b div 8 - (2::nat)"
  shows "a = b"
proof -
  obtain m n where mn: "a = 16 * m" "b = 16 * n" using assms(2,4) by (auto elim!: dvdE)
  then have "2 * m - 2 = 2 * n - 2" "2 \<le> m" "2 \<le> n" using assms(1,3,5) by auto
  then have "m = n" by simp
  then show ?thesis using mn by simp
qed

lemma fast_ok_take:
  assumes fo: "fast_ok m h C F" and i: "i < 11" "F i = p # xs" and p: "C p = Some (sz, Fast)"
  shows "fast_ok m (h(i := m (p + 16))) (C(p \<mapsto> (sz, Used))) (F(i := xs))"
proof -
  have d: "p \<notin> set xs" "distinct xs" using fast_okD(2) [OF fo i(1)] i(2) by auto
  have ip: "fast_index sz = i" using fast_okD(3) [OF fo i(1), of p] i(2) p by auto
  have pj: "p \<notin> set ((F(i := xs)) j)" if "j < 11" for j
    using fast_okD(3) [OF fo that, of p] p ip d(1) by (cases "j = i") auto
  show ?thesis
    unfolding fast_ok_def
  proof (intro conjI allI impI ballI)
    fix j :: nat assume j: "j < 11"
    show "fast_list m ((h(i := m (p + 16))) j) ((F(i := xs)) j)"
      using fast_okD(1) [OF fo j] i(2) by (cases "j = i") auto
    show "distinct ((F(i := xs)) j)" using fast_okD(2) [OF fo j] d(2) by (cases "j = i") auto
    show "\<exists>z. (C(p \<mapsto> (sz, Used))) x = Some (z, Fast) \<and> fast_index z = j" if "x \<in> set ((F(i := xs)) j)" for x
    proof -
      have "x \<in> set (F j)" "x \<noteq> p" using that pj [OF j] i(2) by (cases "j = i"; auto)+
      then show ?thesis using fast_okD(3) [OF fo j, of x] by auto
    qed
  next
    fix x z assume "(C(p \<mapsto> (sz, Used))) x = Some (z, Fast)"
    then have x: "C x = Some (z, Fast)" "x \<noteq> p" by (auto split: if_splits)
    show "fast_index z < 11" "x \<in> set ((F(i := xs)) (fast_index z))"
      using fast_okD(4) [OF fo x(1)] x(2) i(2) by auto
  qed
qed

lemma malloc_fast_ok:
  assumes I: "heap_inv s lo ts C B F" and nb: "chunk_size_ok nb"
  shows "malloc_fast nb s = Some (Inr (), s) \<or>
    (\<exists>p t. malloc_fast nb s = Some (Inl (chunk2mem p), t) \<and> alloced s lo ts C nb p t)"
proof (cases "nb \<le> max_fast s")
  case False
  then show ?thesis by (simp add: malloc_fast_def)
next
  case True
  note H = heap_invD(1) [OF I] and fo = heap_invD(2) [OF I] and lim = heap_invD(3) [OF I]
  have ok: "32 \<le> unat nb" "16 dvd unat nb" using nb by (auto simp: chunk_size_ok_def)
  have le: "unat nb \<le> fast_limit s" "unat nb \<le> 96"
    using True fits_fast [OF lim ok(2)] lim by (auto simp: limit_ok_def)
  let ?i = "fast_index nb"
  have idx: "unat (fastbin_index nb) = ?i" using ok le by (intro unat_fastbin_index) simp_all
  have i: "?i < 11" using fast_index_small [OF le(2)] .
  let ?v = "fastbins s ?i"
  have run: "malloc_fast nb s = (if ?v \<noteq> 0 then
      Some (Inl (chunk2mem ?v), s\<lparr>fastbins := (fastbins s)(?i := mem s (?v + 16))\<rparr>) else Some (Inr (), s))"
    using True i by (simp add: malloc_fast_def read_fastbin_def write_fastbin_def NFASTBINS_value
        word_less_nat_alt idx ck_fd_def)
  show ?thesis
  proof (cases "F ?i")
    case Nil
    then have "?v = 0" using fast_okD(1) [OF fo i] by simp
    then show ?thesis by (simp add: run)
  next
    case (Cons p xs)
    then have v: "?v = p" "p \<noteq> 0" using fast_okD(1) [OF fo i] by auto
    obtain z where z: "C p = Some (z, Fast)" "fast_index z = ?i" using fast_okD(3) [OF fo i, of p] Cons by auto
    have "unat z = unat nb"
      using fast_index_inj [of "unat z" "unat nb"] z(2) ok chunk_bounds(3,6) [OF core_arena [OF H] z(1)]
      by (simp add: fast_index_def)
    then have zn: "z = nb" by (simp only: word_unat_eq_iff)
    let ?C = "C(p \<mapsto> (nb, Used))" and ?t = "s\<lparr>fastbins := (fastbins s)(?i := mem s (p + 16))\<rparr>"
    have core: "heap_core ?t lo ts ?C B {} {}"
      by (rule heap_core_cong [OF retag_core [OF H z(1) [unfolded zn]]]) simp_all
    have f: "fast_ok (mem ?t) (fastbins ?t) ?C (F(?i := xs))"
      using fast_ok_take [OF fo i Cons z(1) [unfolded zn]] by simp
    have fl: "have_fastchunks ?t = have_fastchunks s" "have_anychunks ?t = have_anychunks s"
      "fast_limit ?t = fast_limit s"
      by (simp_all add: have_fastchunks_def have_anychunks_def fast_limit_def)
    have "heap_inv ?t lo ts ?C B (F(?i := xs))"
      unfolding heap_inv_def limit_ok_def fl
      using core f lim heap_invD(4-7) [OF I] by (auto simp: limit_ok_def split: if_splits)
    moreover have "in_use C p = None" using z(1) by (simp add: in_use_def)
    moreover have "in_use ?C = (in_use C)(p \<mapsto> (nb, Used))" by (rule map_eqI) (auto simp: in_use_some)
    moreover have "heap_end ?t ts = heap_end s ts" by (simp add: heap_end_def)
    moreover have "calm s lo (heap_end s ts) (in_use C) ?t" by (simp add: calm_def)
    ultimately have "alloced s lo ts C nb p ?t" unfolding alloced_def by (intro exI conjI) (assumption | simp)+
    then show ?thesis using v by (auto simp: run)
  qed
qed

section \<open>The small bin\<close>

lemma word_of_unat: "word_of_nat (unat x) = (x :: 'a::len word)"
  by simp

lemma in_smallbin_range_iff: "in_smallbin_range nb \<longleftrightarrow> unat nb < 256"
  by (simp add: in_smallbin_range_def dl_consts word_less_nat_alt)

lemma bin_at_bin_addr: "unat i < 96 \<Longrightarrow> bin_at s i = bin_addr (av_bins s) (unat i)"
  using bin_at_addr [of "unat i" s] by simp

lemma small_exact:
  assumes "32 \<le> unat z" "16 dvd unat z" "unat z < 2 ^ 32" "16 dvd unat nb"
    and "unat nb < 256" "unat (bin_index z) = unat nb div 8"
  shows "z = nb"
proof -
  have "unat z < 256"
    using bin_index_range(3) [OF assms(1,3)] assms(5,6) by linarith
  then have "unat z div 8 = unat nb div 8" using bin_index_small [of z] assms(6) by simp
  moreover obtain m n where "unat z = 16 * m" "unat nb = 16 * n" using assms(2,4) by (auto elim!: dvdE)
  ultimately have "unat z = unat nb" by simp
  then show ?thesis by (simp only: word_unat_eq_iff)
qed

lemma malloc_small_ok:
  assumes I: "heap_inv s lo ts C B F" and nb: "chunk_size_ok nb" and small: "in_smallbin_range nb"
  shows "malloc_small nb s = Some (Inr (smallbin_index nb), s) \<or>
    (\<exists>p t. malloc_small nb s = Some (Inl (chunk2mem p), t) \<and> alloced s lo ts C nb p t)"
proof -
  note H = heap_invD(1) [OF I]
  note A = core_arena [OF H] and Bn = core_binned [OF H]
  have nb256: "unat nb < 256" using small by (simp add: in_smallbin_range_iff)
  have ok: "32 \<le> unat nb" "16 dvd unat nb" using nb by (auto simp: chunk_size_ok_def)
  define i where "i = unat (smallbin_index nb)"
  have i8: "i = unat nb div 8" using smallbin_index_div [of nb] nb256 by (simp add: i_def)
  then have i: "1 \<le> i" "i < 96" "i < 32" "i \<noteq> 1" using ok nb256 by linarith+
  let ?b = "bin_addr (av_bins s) i"
  have b: "bin_at s (smallbin_index nb) = ?b" using bin_at_bin_addr [of "smallbin_index nb" s] i by (simp add: i_def)
  note r = binned_ring [OF Bn i(1,2)]
  show ?thesis
  proof (cases "B i" rule: rev_cases)
    case Nil
    then have "mem s (?b + 24) = ?b" using ring_last [OF r] by simp
    then show ?thesis using small b by (simp add: malloc_small_def ck_bk_def Let_def)
  next
    case (snoc xs p)
    note u = unlink_last [OF r [unfolded snoc] refl]
    obtain z where z: "C p = Some (z, Free)" "i = unat (bin_index z)"
      using binned_member [OF Bn i(1,2), of p] snoc i(4) by auto
    have zn: "z = nb"
      by (rule small_exact [OF chunk_bounds(3,6,4) [OF A z(1)] ok(2) nb256]) (use z(2) i8 in simp)
    let ?n = "p + nb"
    have nin: "?n \<in> insert (top_chunk s) (dom C)"
      using layout_next [OF core_layout [OF H] z(1)] zn by auto
    have sub: "{?b, ck_bk s p} \<subseteq> all_nodes (av_bins s) C"
    proof -
      have "ck_bk s p = last (?b # xs)" 
        using r snoc by (cases xs rule: rev_cases) (auto simp: ring_def ck_bk_def links_append)
      then have "ck_bk s p \<in> insert ?b (set (B i))" using snoc by auto
      then show ?thesis using bin_nodes_in [OF i(1,2), of "av_bins s" B] bin_nodes_all [OF Bn] by blast
    qed
    have ne: "?n + 8 \<noteq> ?b + 24" "?n + 8 \<noteq> ck_bk s p + 16"
      using links_not_head [OF A nin] link_words_in sub by (metis insert_subset)+
    have swap: "set_fd (ck_bk s p) ?b (set_bk ?b (ck_bk s p) (set_inuse_bit_at_offset p nb s))
        = set_inuse_bit_at_offset p nb (unlink p s)"
    proof -
      have "ck_size (unlink p s) ?n = ck_size s ?n"
        using ne unfolding u(3) [symmetric] by (simp add: ck_size_def set_fd_def set_bk_def)
      then show ?thesis
        using ne unfolding u(3) [symmetric]
        by (simp add: set_inuse_bit_at_offset_def set_fd_def set_bk_def wr_def fun_upd_twist)
    qed
    have "malloc_small nb s = Some (Inl (chunk2mem p), set_inuse_bit_at_offset p nb (unlink p s))"
      using small b u(1,2) swap by (simp add: malloc_small_def Let_def)
    moreover have "alloced s lo ts C nb p (set_inuse_bit_at_offset p nb (unlink p s))"
      using take_whole [OF I i(1,2), of xs p "[]"] snoc z(1) zn by simp
    ultimately show ?thesis by blast
  qed
qed

section \<open>The top chunk\<close>

lemma split_top_ok:
  assumes I: "heap_inv s lo ts C B F" and nb: "chunk_size_ok nb" and le: "unat nb + 32 \<le> unat ts"
  shows "\<exists>t. split_top nb ts s = (chunk2mem (top_chunk s), t) \<and> alloced s lo ts C nb (top_chunk s) t"
proof -
  let ?tp = "top_chunk s" and ?r = "top_chunk s + nb" and ?z = "ts - nb" and ?av = "av_bins s"
  let ?C = "C(?tp \<mapsto> (nb, Used))" and ?W = "touch lo (heap_end s ts) (av_bins s) (live C)"
  note H = heap_invD(1) [OF I]
  note A = core_arena [OF H] and T = core_tagged [OF H] and Bn = core_binned [OF H] and L = core_layout [OF H]
  define m where "m = (mem s)(?tp + 8 := nb OR 1, ?r + 8 := ?z OR 1)"
  define t where "t = s\<lparr>mem := m, top_chunk := ?r\<rparr>"
  have run: "split_top nb ts s = (chunk2mem ?tp, t)"
    by (simp add: split_top_def chunk_at_offset_def set_head_def wr_def t_def m_def dl_consts Let_def)
  have uz: "unat ?z = unat ts - unat nb" using le by (intro unat_sub_le) simp
  have ok: "32 \<le> unat nb" "16 dvd unat nb" "16 dvd unat ts"
    using nb A by (auto simp: chunk_size_ok_def arena_def)
  have zok: "chunk_size_ok ?z" using le ok by (simp add: chunk_size_ok_def uz)
  have w: "unat ?tp + unat nb < 2 ^ 64" using le arena_bounds(1) [OF A] by simp
  note G = layout_grow(1) [OF L nb w, of Used] layout_grow(2) [OF L nb w]
  have he: "unat ?r + unat ?z = unat ?tp + unat ts" using le uz G(2) by simp
  have A': "arena lo ?r ?z ?C ?av" using A G(1) zok he by (simp add: arena_def add.assoc)
  have nt: "?tp \<notin> dom C" using tp_not_chunk [OF L] .
  have rt: "?r \<noteq> ?tp" using G(2) ok by (auto simp: word_unat_eq_iff)
  have rd: "?r \<notin> dom ?C" using tp_not_chunk [OF G(1)] .
  have free: "?C x = Some (z, Free) \<longleftrightarrow> C x = Some (z, Free)" for x z using nt by (auto split: if_splits)
  have fb: "free_before ?C q = free_before C q" for q by (rule free_before_cong) (rule free)
  have tg: "tagged m ?r ?z ?C {}"
    unfolding tagged_def
  proof (intro conjI allI impI)
    fix q z k assume q: "?C q = Some (z, k)"
    then have qr: "q \<noteq> ?r" using rd by auto
    show "m (q + 8) = z OR flag ?C q"
    proof (cases "q = ?tp")
      case True
      have "\<not> free_before C ?tp" using tagged_apart [OF T] by (auto simp: free_before_def)
      then have "flag ?C ?tp = 1" by (simp only: flag_def fb if_False)
      moreover have "z = nb" using q True by simp
      ultimately show ?thesis using True rt by (simp add: m_def)
    next
      case False
      then show ?thesis using tagged_head [OF T, of q z k] q qr by (simp add: m_def flag_def fb)
    qed
  next
    fix q z assume "?C q = Some (z, Free)"
    then have q: "C q = Some (z, Free)" by (simp only: free)
    have "?tp + 8 \<noteq> q + z" using head_foot [OF A _ q] by blast
    moreover have "?C q = Some (z, Free)" using q by (simp only: free)
    then have "?r + 8 \<noteq> q + z" using head_foot [OF A', of ?r] by blast
    ultimately show "m (q + z) = z" using tagged_foot [OF T q] by (simp add: m_def)
    show "\<not> free_before ?C q" using tagged_apart [OF T q] by (simp add: fb)
    have "unat q + unat z \<le> unat ?tp" using chunk_bounds(2) [OF A q] .
    then show "q + z \<noteq> ?r" using G(2) ok chunk_bounds(5) [OF A q] by (auto simp: word_unat_eq_iff)
  qed (simp add: m_def)
  have "binned m ?av (marked s) C B {}"
  proof (rule binned_frame [OF Bn])
    fix a assume "a \<in> link_words (bin_nodes ?av B)"
    then have a: "a \<in> link_words (all_nodes ?av C)" using link_words_mono [OF bin_nodes_all [OF Bn]] by blast
    then have "a \<noteq> ?tp + 8" using links_not_head [OF A, of ?tp] by blast
    moreover have "a \<in> link_words (all_nodes ?av ?C)"
      using a link_words_mono [of "all_nodes ?av C" "all_nodes ?av ?C"] by (auto simp: all_nodes_def)
    then have "a \<noteq> ?r + 8" using links_not_head [OF A', of ?r] by blast
    ultimately show "m a = mem s a" by (simp add: m_def)
  qed
  then have bn: "binned m ?av (marked s) ?C B {}" by (rule binned_cong) (use free in blast)
  have tf: "mem t = m" "top_chunk t = ?r" "av_bins t = ?av" "marked t = marked s"
    by (simp_all add: t_def marked_def [abs_def])
  have core: "heap_core t lo ?z ?C B {} {}" using A' tg bn by (simp add: heap_core_def tf)
  have W: "?tp + 8 \<in> ?W" "?r + 8 \<in> ?W"
  proof -
    have N: "\<And>q z k. live C q = Some (z, k) \<Longrightarrow> C q = Some (z, k)" by (simp add: live_some)
    have u: "unat (?tp + 8) = unat ?tp + 8" "unat (?r + 8) = unat ?r + 8"
      using node_bounds(5) [OF A, of ?tp] node_bounds(5) [OF A', of ?r] by simp_all
    show "?tp + 8 \<in> ?W" "?r + 8 \<in> ?W"
      unfolding heap_end_def using touch_top [OF A N] u G(2) le by simp_all
  qed
  have fr: "m a = mem s a" if "a \<notin> ?W" for a using that W by (auto simp: m_def)
  have "heap_inv t lo ?z ?C B F"
  proof (rule heap_inv_step [OF I core])
    show "have_anychunks s" if "?C x = Some (z, k)" "k \<noteq> Used" for x z k
      using that heap_invD(5) [OF I, of x z k] by (auto split: if_splits)
    show "?C x = Some (z, Fast) \<longleftrightarrow> C x = Some (z, Fast)" for x z using nt by (auto split: if_splits)
  qed (use fr heap_invD(6) [OF I] in \<open>auto simp: t_def\<close>)
  moreover have "heap_end t ?z = heap_end s ts" using he by (simp add: heap_end_def tf)
  moreover have "in_use C ?tp = None" using nt by (auto simp: in_use_def split: option.splits)
  moreover have "in_use ?C = (in_use C)(?tp \<mapsto> (nb, Used))" by (rule map_eqI) (auto simp: in_use_some)
  moreover have "calm s lo (heap_end s ts) (in_use C) t"
  proof -
    have "?W \<subseteq> touch lo (heap_end s ts) ?av (in_use C)" by (rule touch_anti) (simp add: in_use_of_live)
    then show ?thesis using fr by (auto simp: calm_def t_def)
  qed
  ultimately have "alloced s lo ts C nb ?tp t" unfolding alloced_def by (intro exI conjI) (assumption | simp)+
  then show ?thesis using run by blast
qed

lemma use_top_ok:
  assumes I: "heap_inv s lo ts C B F" and nb: "chunk_size_ok nb" "unat nb + 32 < 2 ^ 64"
  shows "unat nb + 32 \<le> unat ts \<and>
      (\<exists>p t. use_top nb s = Some (Inl (chunk2mem p), t) \<and> alloced s lo ts C nb p t) \<or>
    unat ts < unat nb + 32 \<and> use_top nb s = sYSMALLOc nb s"
proof -
  have top: "chunksize s (top_chunk s) = ts" using read_top [OF heap_invD(1) [OF I]] .
  have "unat (nb + MINSIZE) = unat nb + 32" using nb(2) by (simp add: dl_consts unat_add_nowrap)
  then have c: "ts \<ge> nb + MINSIZE \<longleftrightarrow> unat nb + 32 \<le> unat ts" by (simp add: word_le_nat_alt)
  show ?thesis
  proof (cases "unat nb + 32 \<le> unat ts")
    case True
    obtain t where t: "split_top nb ts s = (chunk2mem (top_chunk s), t)" "alloced s lo ts C nb (top_chunk s) t"
      using split_top_ok [OF I nb(1) True] by blast
    then have "use_top nb s = Some (Inl (chunk2mem (top_chunk s)), t)"
      using True c top by (simp add: use_top_def Let_def)
    then show ?thesis using t(2) True by blast
  next
    case False
    then show ?thesis using c top by (simp add: use_top_def Let_def)
  qed
qed

end
