(* ===== verification/Dl_Place.thy ===== *)
theory Dl_Place
  imports Dl_Exact
begin

text \<open>
  The unsorted list of \<open>mALLOc\<close>: each of its chunks is used at once, split when it is the last
  remainder, or put into the bin of its size, large bins being kept sorted.
\<close>

unbundle bit_operations_syntax

section \<open>The position in a bin\<close>

lemma links_cut:
  assumes "links m a (xs @ ys) b"
  shows "m (last (a # xs) + 16) = hd (ys @ [b])" "m (hd (ys @ [b]) + 24) = last (a # xs)"
proof -
  show "m (last (a # xs) + 16) = hd (ys @ [b])"
  proof (cases xs rule: rev_cases)
    case Nil
    then show ?thesis using links_first [OF assms] by (cases ys) auto
  next
    case (snoc zs z)
    then show ?thesis using links_neighbours(2) [of m a zs z ys b] assms by simp
  qed
  show "m (hd (ys @ [b]) + 24) = last (a # xs)"
  proof (cases ys)
    case Nil
    then show ?thesis using links_last [OF assms] by auto
  next
    case (Cons z zs)
    then show ?thesis using links_neighbours(1) [of m a xs z zs b] assms by simp
  qed
qed

lemma sorted_position_run:
  assumes "links (mem s) a ys b" "\<exists>y\<in>set ys. \<not> v < ck_size s y"
  shows "sorted_position v (hd (ys @ [b])) s = Some (hd (dropWhile (\<lambda>y. v < ck_size s y) ys))"
  using assms
proof (induction ys arbitrary: a)
  case (Cons y ys)
  show ?case
  proof (cases "v < ck_size s y")
    case True
    have "ck_fd s y = hd (ys @ [b])"
      using links_first [of "mem s" y ys b] Cons.prems(1) by (cases ys) (auto simp: ck_fd_def)
    moreover have "sorted_position v (hd (ys @ [b])) s = Some (hd (dropWhile (\<lambda>y. v < ck_size s y) ys))"
      by (rule Cons.IH [of y]) (use Cons.prems True in auto)
    ultimately show ?thesis using True by (subst sorted_position.simps) simp
  next
    case False
    then show ?thesis by (subst sorted_position.simps) simp
  qed
qed simp

lemma sorted_split:
  assumes "sorted_wrt (\<lambda>x y. f y \<le> (f x :: nat)) xs" "ys = takeWhile (\<lambda>y. v < f y) xs" "zs = dropWhile (\<lambda>y. v < f y) xs"
  shows "\<forall>y\<in>set ys. v \<le> f y" "\<forall>y\<in>set zs. f y \<le> v"
proof -
  show "\<forall>y\<in>set ys. v \<le> f y" using assms(2) by (auto dest: set_takeWhileD)
  show "\<forall>y\<in>set zs. f y \<le> v"
  proof (cases zs)
    case (Cons z zs')
    have "\<not> v < f z" using dropWhile_eq_Cons_conv [of "\<lambda>y. v < f y" xs z zs'] assms(3) Cons by simp
    moreover have "sorted_wrt (\<lambda>x y. f y \<le> f x) zs"
      using assms(1,3) by (metis sorted_wrt_append takeWhile_dropWhile_id)
    ultimately show ?thesis using Cons by auto
  qed simp
qed

lemma le_or_1:
  assumes "16 dvd unat a" "16 dvd unat (b :: u64)"
  shows "a < b OR 1 \<longleftrightarrow> unat a \<le> unat b" "a OR 1 < b OR 1 \<longleftrightarrow> unat a < unat b"
proof -
  have u: "unat (x OR 1) = unat x + 1" if "16 dvd unat x" for x :: u64
  proof -
    have "unat x + 1 < 2 ^ 64" using that unsigned_less [where ?'a = nat, of x] by (auto elim!: dvdE)
    then show ?thesis unfolding tag_bits(9) [OF that] by (subst unat_add_nowrap) simp_all
  qed
  show "a < b OR 1 \<longleftrightarrow> unat a \<le> unat b" "a OR 1 < b OR 1 \<longleftrightarrow> unat a < unat b"
    unfolding word_less_nat_alt u [OF assms(1)] u [OF assms(2)] by auto
qed

text \<open>Where \<open>bin_position\<close> puts a chunk that is in no bin.\<close>

lemma bin_position_ok:
  assumes H: "heap_core s lo ts C B {} {p}" and p: "C p = Some (sz, Free)"
  defines "i \<equiv> unat (bin_index sz)" and "b \<equiv> bin_addr (av_bins s) (unat (bin_index sz))"
  obtains xs ys where "B i = xs @ ys"
    "bin_position sz s = Some (bin_index sz, last (b # xs), hd (ys @ [b]))"
    "32 \<le> i \<Longrightarrow> (\<forall>y\<in>set xs. unat sz \<le> csize C y) \<and> (\<forall>y\<in>set ys. csize C y \<le> unat sz)"
proof -
  note A = core_arena [OF H] and T = core_tagged [OF H] and Bn = core_binned [OF H]
  note cb = chunk_bounds [OF A p]
  note ir = bin_index_range [OF cb(3,4), folded i_def]
  have i: "1 \<le> i" "i < 96" using ir(1,2) by simp_all
  have b: "bin_at s (bin_index sz) = b" using bin_at_bin_addr [of "bin_index sz" s] i by (simp add: i_def b_def)
  have r: "ring (mem s) b (B i)" using binned_ring [OF Bn i] by (simp add: b_def i_def)
  then have l: "links (mem s) b (B i) b" by (simp add: ring_def)
  show ?thesis
  proof (cases "unat sz < 256")
    case True
    have "ck_fd s b = hd (B i @ [b])" using links_cut(1) [of "mem s" b "[]" "B i" b] l by (simp add: ck_fd_def)
    moreover have "bin_index sz = smallbin_index sz" using True by (simp add: bin_index_def in_smallbin_range_iff)
    ultimately have "bin_position sz s = Some (bin_index sz, b, hd (B i @ [b]))"
      using True b by (simp add: bin_position_def in_smallbin_range_iff Let_def)
    then show ?thesis using that [of "[]" "B i"] ir(4) True by simp
  next
    case False
    have bi: "largebin_index (ucast sz) = bin_index sz" using False by (simp add: bin_index_def in_smallbin_range_iff)
    have i32: "32 \<le> i" using ir(3) False by simp
    have srt: "sorted_wrt (\<lambda>x y. csize C y \<le> csize C x) (B i)" using binned_sorted [OF Bn i32 i(2)] .
    have first: "sz \<ge> FIRST_SORTED_BIN_SIZE" using False by (simp add: dl_consts word_le_nat_alt)
    have el: "\<exists>z. csize C y = unat z \<and> ck_size s y = z OR 1 \<and> 16 dvd unat z" if y: "y \<in> set (B i)" for y
    proof -
      obtain z where z: "C y = Some (z, Free)" using binned_member [OF Bn i y] by blast
      have "flag C y = 1" using tagged_apart [OF T z] by (simp add: flag_def)
      then have "ck_size s y = z OR 1" using tagged_head [OF T z] by (simp add: ck_size_def)
      then show ?thesis using z chunk_bounds(6) [OF A z] by (intro exI [of _ z]) (simp add: csize_def)
    qed
    have cmp: "sz < ck_size s y \<longleftrightarrow> unat sz \<le> csize C y" "(sz OR 1) < ck_size s y \<longleftrightarrow> unat sz < csize C y"
      if "y \<in> set (B i)" for y
      using el [OF that] le_or_1 [OF cb(6)] by auto
    let ?fwd = "ck_fd s b" and ?bk = "ck_bk s b"
    have run: "bin_position sz s =
        (if ?fwd \<noteq> b then
           if sz < ck_size s ?bk then Some (bin_index sz, ?bk, b)
           else do { fwd \<leftarrow> sorted_position (sz OR 1) ?fwd s; Some (bin_index sz, ck_bk s fwd, fwd) }
         else Some (bin_index sz, b, ?fwd))"
      using False first b by (simp add: bin_position_def in_smallbin_range_iff bi Let_def dl_consts)
    show ?thesis
    proof (cases "B i")
      case Nil
      then have "?fwd = b" using ring_first [OF r] by (simp add: ck_fd_def)
      then show ?thesis using run that [of "[]" "[]"] Nil by simp
    next
      case (Cons y ys)
      have fwd: "?fwd = y" "y \<noteq> b" using r Cons ring_first [OF r] by (auto simp: ck_fd_def ring_def)
      have bk: "?bk = last (B i)" using ring_last [OF r] Cons by (simp add: ck_bk_def)
      have lst: "last (B i) \<in> set (B i)" using Cons by simp
      show ?thesis
      proof (cases "sz < ck_size s ?bk")
        case True
        have low: "unat sz \<le> csize C (last (B i))" using cmp(1) [OF lst] True bk by simp
        have "unat sz \<le> csize C x" if "x \<in> set (B i)" for x
        proof -
          obtain us vs where uv: "B i = us @ x # vs" using split_list [OF \<open>x \<in> set (B i)\<close>] by blast
          have "csize C (last (B i)) \<le> csize C x"
            using srt unfolding uv by (cases vs rule: rev_cases) (auto simp: sorted_wrt_append)
          then show ?thesis using low by simp
        qed
        moreover have "bin_position sz s = Some (bin_index sz, last (b # B i), hd ([] @ [b]))"
          using run True fwd bk Cons by simp
        ultimately show ?thesis using that [of "B i" "[]"] by simp
      next
        case False
        have stop: "\<exists>y\<in>set (B i). \<not> (sz OR 1) < ck_size s y"
          using cmp [OF lst] False bk lst by (intro bexI [of _ "last (B i)"]) auto
        let ?P = "\<lambda>y. (sz OR 1) < ck_size s y" and ?Q = "\<lambda>y. unat sz < csize C y"
        have PQ: "takeWhile ?P (B i) = takeWhile ?Q (B i)" "dropWhile ?P (B i) = dropWhile ?Q (B i)"
          by (rule takeWhile_cong dropWhile_cong, simp, simp add: cmp(2))+
        define us vs where "us = takeWhile ?Q (B i)" and "vs = dropWhile ?Q (B i)"
        have uv: "B i = us @ vs" by (simp add: us_def vs_def)
        have ne: "vs \<noteq> []"
        proof
          assume "vs = []"
          then have "\<forall>y\<in>set (B i). ?Q y" by (simp add: vs_def dropWhile_eq_Nil_conv)
          then show False using stop cmp(2) by blast
        qed
        have "sorted_position (sz OR 1) y s = Some (hd vs)"
          using sorted_position_run [OF l stop] Cons PQ(2) by (simp add: vs_def)
        moreover have "ck_bk s (hd vs) = last (b # us)"
          using links_cut(2) [of "mem s" b us vs b] l uv ne by (simp add: ck_bk_def)
        ultimately have "bin_position sz s = Some (bin_index sz, last (b # us), hd (vs @ [b]))"
          using run False fwd ne by simp
        then show ?thesis using that [OF uv] sorted_split [OF srt us_def vs_def] by blast
      qed
    qed
  qed
qed

section \<open>Into the bin\<close>

lemma place_in_bin_ok:
  assumes H: "heap_core s lo ts C B {} {p}" and p: "C p = Some (sz, Free)" and b3: "binmap s 3 = 0"
  obtains t B' where "place_in_bin p sz s = Some t" "heap_core t lo ts C B' {} {}" "B' 1 = B 1"
    "t = s\<lparr>mem := mem t, binmap := binmap t\<rparr>" "binmap t 3 = 0"
    "\<And>a. a \<notin> touch lo (heap_end s ts) (av_bins s) (live C) \<Longrightarrow> mem t a = mem s a"
proof -
  let ?av = "av_bins s" and ?W = "touch lo (heap_end s ts) (av_bins s) (live C)"
  note A = core_arena [OF H] and T = core_tagged [OF H] and Bn = core_binned [OF H]
  note cb = chunk_bounds [OF A p]
  define i where "i = unat (bin_index sz)"
  define b where "b = bin_addr ?av i"
  have i4: "4 \<le> i" and i96: "i < 96" using bin_index_range(1,2) [OF cb(3,4)] by (simp_all add: i_def)
  then have i: "1 \<le> i" "i < 96" by simp_all
  obtain xs ys where uv: "B i = xs @ ys"
    and pos: "bin_position sz s = Some (bin_index sz, last (b # xs), hd (ys @ [b]))"
    and srt: "32 \<le> i \<Longrightarrow> (\<forall>y\<in>set xs. unat sz \<le> csize C y) \<and> (\<forall>y\<in>set ys. csize C y \<le> unat sz)"
    using bin_position_ok [OF H p] unfolding i_def b_def by blast
  define bck where "bck = last (b # xs)"
  define fwd where "fwd = hd (ys @ [b])"
  define w where "w = (binmap s)(i div 32 := binmap s (i div 32) OR idx2bit (bin_index sz))"
  define m where "m = (mem s)(p + 24 := bck, p + 16 := fwd, fwd + 24 := p, bck + 16 := p)"
  define t where "t = s\<lparr>mem := m, binmap := w\<rparr>"
  have "mark_bin (bin_index sz) s = Some (s\<lparr>binmap := w\<rparr>)"
    using mark_bin_run [of "bin_index sz" s] i96 by (simp add: i_def w_def)
  then have run: "place_in_bin p sz s = Some t"
    using pos unfolding bck_def [symmetric] fwd_def [symmetric]
    by (simp add: place_in_bin_def set_fd_def set_bk_def wr_def t_def m_def Let_def)
  have pn: "p \<in> all_nodes ?av C" using p by (auto simp: all_nodes_def)
  have nB: "bck \<in> bin_nodes ?av B" "fwd \<in> bin_nodes ?av B"
    using last_hd_in(1) [of b xs] last_hd_in(2) [of ys b] bin_nodes_in [OF i, of ?av B] uv
    unfolding bck_def fwd_def b_def by auto
  have pB: "p \<notin> bin_nodes ?av B"
  proof
    assume "p \<in> bin_nodes ?av B"
    then obtain j where j: "1 \<le> j" "j < 96" "p = bin_addr ?av j \<or> p \<in> set (B j)"
      by (auto simp: bin_nodes_def)
    have "p \<in> dom C" using p by blast
    then show False using j binned_member [OF Bn j(1,2), of p] bin_not_node [OF A j(1,2)] by auto
  qed
  have ne: "bck \<noteq> p" "fwd \<noteq> p" using nB pB by auto
  have ap: "a + 16 \<noteq> c + 24" if "a \<in> {p, bck, fwd}" "c \<in> {p, bck, fwd}" for a c
    using apartD [OF all_nodes_apart [OF A], of a c] that pn nB bin_nodes_all [OF Bn] by blast
  have m: "m (p + 24) = bck" "m (p + 16) = fwd" "m (bck + 16) = p" "m (fwd + 24) = p"
    using ne ap [of p p] ap [of p fwd] ap [of bck fwd] ap [of bck p] by (auto simp: m_def)
  have mo: "m a = mem s a" if "a \<notin> {p + 16, p + 24, bck + 16, fwd + 24}" for a
    using that by (simp add: m_def)
  have mk: "marked t j \<longleftrightarrow> marked s j \<or> j = i" for j
    using marked_or [of s "bin_index sz" j] by (simp add: t_def w_def i_def marked_def)
  have bn: "binned m ?av (marked t) C (B(i := xs @ p # ys)) ({p} - {p})"
  proof (rule binned_insert [OF A Bn i uv p])
    show "i = 1 \<or> i = unat (bin_index sz)" by (simp add: i_def)
  qed (use srt mk m mo in \<open>auto simp: bck_def fwd_def b_def\<close>)
  have links: "{p + 16, p + 24, bck + 16, fwd + 24} \<subseteq> link_words (all_nodes ?av C)"
    using link_words_in pn nB bin_nodes_all [OF Bn] by blast
  have tg: "tagged m (top_chunk s) ts C {}"
    by (rule tagged_links [OF A T]) (use mo links in blast)
  have core: "heap_core t lo ts C (B(i := xs @ p # ys)) {} {}"
    using A tg bn by (simp add: heap_core_def t_def)
  have touched: "m a = mem s a" if "a \<notin> ?W" for a
  proof (rule mo)
    have N: "\<And>q z k. live C q = Some (z, k) \<Longrightarrow> C q = Some (z, k)" by (simp add: live_some)
    have "live C p = None" using p live_none [of C p] by simp
    then have "p + 16 \<in> ?W" "p + 24 \<in> ?W"
      unfolding heap_end_def using touch_own [where N = "live C", OF A p _ N] own_words(2,3) [OF A p] by blast+
    moreover have "bck + 16 \<in> ?W" "fwd + 24 \<in> ?W"
      using links_touch_live [OF H] link_words_in nB by blast+
    ultimately show "a \<notin> {p + 16, p + 24, bck + 16, fwd + 24}" using that by blast
  qed
  have "i div 32 \<noteq> 3" using i96 by linarith
  then have w3: "w 3 = 0" using b3 by (simp add: w_def)
  show ?thesis
    by (rule that [OF run core]) (use i4 touched w3 in \<open>simp_all add: t_def\<close>)
qed

section \<open>The walk over the unsorted list\<close>

lemma split_last_unlink:
  assumes r: "ring (mem s) u [p]" and u: "u = unsorted_chunks s"
  shows "split_last_remainder p nb sz s =
    (split_heads p nb (p + nb) (sz - nb) (link_remainder (p + nb) (unlink p s)))\<lparr>last_remainder := p + nb\<rparr>"
proof -
  have n: "ck_fd s p = u" "ck_bk s p = u" using r by (simp_all add: ring_def ck_fd_def ck_bk_def)
  have uw: "unsorted_chunks (wr a v x) = unsorted_chunks x" for a v x
    by (simp add: unsorted_chunks_def bin_at_def)
  show ?thesis
    using n u by (simp add: split_last_remainder_def split_heads_def link_remainder_def unlink_def Let_def
        store_defs chunk_at_offset_def unsorted_chunks_def bin_at_def wr_def fun_upd_twist)
qed

lemma malloc_unsorted_ok:
  assumes "heap_inv s lo ts C B F" "chunk_size_ok nb"
  shows "(\<exists>p t. malloc_unsorted nb s = Some (Inl (chunk2mem p), t) \<and> alloced s lo ts C nb p t) \<or>
    (\<exists>t B'. malloc_unsorted nb s = Some (Inr (), t) \<and> kept s lo ts C t ts C B' F \<and> B' 1 = [])"
  using assms(1)
proof (induction "length (B 1)" arbitrary: s B)
  case 0
  have r: "ring (mem s) (unsorted_chunks s) (B 1)"
    using binned_ring [OF core_binned [OF heap_invD(1) [OF 0(2)]], of 1] by (simp add: unsorted_addr)
  have "malloc_unsorted nb s = Some (Inr (), s)"
    using ring_last [OF r] 0(1) by (subst malloc_unsorted.simps) (simp add: ck_bk_def Let_def)
  then show ?case using kept_refl [OF 0(2)] 0(1) by auto
next
  case (Suc n)
  let ?u = "unsorted_chunks s"
  note I = Suc.prems and H = heap_invD(1) [OF Suc.prems]
  note A = core_arena [OF H] and Bn = core_binned [OF H]
  have one: "(1::nat) \<le> 1" "1 < (96::nat)" by simp_all
  have r: "ring (mem s) ?u (B 1)" using binned_ring [OF Bn one] by (simp add: unsorted_addr)
  obtain xs p where xp: "B 1 = xs @ [p]" using Suc.hyps(2) by (cases "B 1" rule: rev_cases) auto
  note ul = unlink_last [OF r [unfolded xp] refl]
  have xp': "B 1 = xs @ p # []" using xp by simp
  obtain sz where p: "C p = Some (sz, Free)" using binned_member [OF Bn one, of p] xp by auto
  have szr: "chunksize s p = sz" using read_chunksize [OF H p] by simp
  have nbk: "32 \<le> unat nb" "16 dvd unat nb" using assms(2) by (auto simp: chunk_size_ok_def)
  let ?split = "in_smallbin_range nb \<and> ck_bk s p = ?u \<and> p = last_remainder s \<and> sz > nb + MINSIZE"
  let ?t = "unlink p s"
  have usplit: "unsorted_chunks (set_bk ?u (ck_bk s p) s) = ?u" "unsorted_chunks ?t = ?u"
    by (simp_all add: unsorted_chunks_def bin_at_def set_bk_def)
  have run: "malloc_unsorted nb s =
      (if ?split then Some (Inl (chunk2mem p), split_last_remainder p nb sz s)
       else if sz = nb then Some (Inl (chunk2mem p), set_inuse_bit_at_offset p sz ?t)
       else do { s \<leftarrow> place_in_bin p sz ?t; malloc_unsorted nb s })"
    by (subst malloc_unsorted.simps) (simp only: Let_def ul(1,2) usplit(1) ul(3) szr if_False)
  show ?case
  proof (cases ?split)
    case True
    have "xs = []"
    proof (cases xs rule: rev_cases)
      case (snoc ys y)
      have "ck_bk s p = y" using r xp snoc by (simp add: ring_def links_append ck_bk_def)
      moreover have "y \<noteq> ?u" using r xp snoc by (auto simp: ring_def)
      moreover have "ck_bk s p = ?u" using True by (elim conjE)
      ultimately show ?thesis by simp
    qed simp
    then have r1: "ring (mem s) ?u [p]" using r xp by simp
    have le: "unat nb + 32 \<le> unat sz"
    proof -
      have "unat (nb + MINSIZE) = unat nb + 32"
        using True by (simp add: in_smallbin_range_iff dl_consts unat_add_nowrap)
      then show ?thesis using True by (simp add: word_less_nat_alt)
    qed
    have "alloced s lo ts C nb p (split_heads p nb (p + nb) (sz - nb) (link_remainder (p + nb) ?t))"
      by (rule take_split [OF I one xp' p assms(2) le]) (use \<open>xs = []\<close> in simp_all)
    then have "alloced s lo ts C nb p (split_last_remainder p nb sz s)"
      unfolding split_last_unlink [OF r1 refl] by (rule alloced_last_remainder)
    then show ?thesis using True by (simp add: run) blast
  next
    case False
    show ?thesis
    proof (cases "sz = nb")
      case True
      have "alloced s lo ts C nb p (set_inuse_bit_at_offset p sz ?t)"
        by (rule take_whole [OF I one xp' p]) (use True in simp_all)
      then show ?thesis using False True by (simp add: run) blast
    next
      case ne: False
      note U = unlink_core [OF H one xp']
      have b3: "binmap ?t 3 = 0" using heap_invD(6) [OF I] by simp
      obtain t B' where t: "place_in_bin p sz ?t = Some t" "heap_core t lo ts C B' {} {}"
        "B' 1 = (B(1 := xs @ [])) 1" "t = ?t\<lparr>mem := mem t, binmap := binmap t\<rparr>" "binmap t 3 = 0"
        "\<And>a. a \<notin> touch lo (heap_end ?t ts) (av_bins ?t) (live C) \<Longrightarrow> mem t a = mem ?t a"
        by (rule place_in_bin_ok [OF U(1) p b3]) (rule that)
      have eq: "t = s\<lparr>mem := mem t, binmap := binmap t\<rparr>"
        by (rule trans [OF t(4)]) (subst unlink_only_mem, simp)
      have tf: "fastbins t = fastbins s" "max_fast t = max_fast s" "top_chunk t = top_chunk s" "av_bins t = av_bins s"
        by (subst eq, simp)+
      have fr: "mem t a = mem s a" if "a \<notin> touch lo (heap_end s ts) (av_bins s) (live C)" for a
        using t(6) [of a] writes_mem [OF U(2) that] that by (simp add: heap_end_def)
      have J: "heap_inv t lo ts C B' F"
        by (rule heap_inv_step [OF I t(2) fr tf(1,2) t(5)]) (use heap_invD(5) [OF I] in auto)
      have "calm s lo (heap_end s ts) (in_use C) t"
      proof -
        have "touch lo (heap_end s ts) (av_bins s) (live C) \<subseteq> touch lo (heap_end s ts) (av_bins s) (in_use C)"
          by (rule touch_anti) (simp add: in_use_of_live)
        then have f: "mem t a = mem s a" if "a \<notin> touch lo (heap_end s ts) (av_bins s) (in_use C)" for a
          using fr that by blast
        obtain m w where "t = s\<lparr>mem := m, binmap := w\<rparr>" using eq by blast
        then show ?thesis using f by (simp add: calm_def)
      qed
      then have K: "kept s lo ts C t ts C B' F" using J tf by (simp add: kept_def heap_end_def have_fastchunks_def have_anychunks_def)
      have "n = length (B' 1)" using Suc.hyps(2) xp t(3) by simp
      from Suc.hyps(1) [OF this J] show ?thesis
        using kept_alloced [OF K] kept_trans [OF K] False ne t(1) by (simp add: run) blast
    qed
  qed
qed

end
