(* ===== verification/Dl_Scan.thy ===== *)
theory Dl_Scan
  imports Dl_Place
begin

text \<open>
  The best-fit part of \<open>mALLOc\<close>: the scan of a large request's own bin from its smallest chunk,
  and the scan of the larger bins along the bit map. Both return.
\<close>

unbundle bit_operations_syntax

section \<open>The bin of a large request\<close>

lemma less_MINSIZE:
  assumes "nb \<le> sz" shows "sz - nb < MINSIZE \<longleftrightarrow> unat sz < unat nb + 32"
proof -
  have "unat nb \<le> unat sz" using assms by (simp add: word_le_nat_alt)
  then have "unat (sz - nb) = unat sz - unat nb" by (rule unat_sub_le)
  then show ?thesis using \<open>unat nb \<le> unat sz\<close> by (auto simp: word_less_nat_alt dl_consts)
qed

text \<open>A chunk of a bin that is large enough: used whole or split.\<close>

lemma take_either:
  assumes I: "heap_inv s lo ts C B F" and i: "2 \<le> i" "i < 96" "B i = xs @ p # ys"
    and p: "C p = Some (sz, Free)" and nb: "chunk_size_ok nb" and le: "unat nb \<le> unat sz" and B1: "B 1 = []"
  shows "sz - nb < MINSIZE \<Longrightarrow> alloced s lo ts C nb p (set_inuse_bit_at_offset p sz (unlink p s))"
    "\<not> sz - nb < MINSIZE \<Longrightarrow>
       alloced s lo ts C nb p (split_heads p nb (p + nb) (sz - nb) (link_remainder (p + nb) (unlink p s)))"
proof -
  have le': "nb \<le> sz" using le by (simp add: word_le_nat_alt)
  have i1: "1 \<le> i" using i(1) by simp
  show "sz - nb < MINSIZE \<Longrightarrow> alloced s lo ts C nb p (set_inuse_bit_at_offset p sz (unlink p s))"
    by (rule take_whole [OF I i1 i(2,3) p le]) (simp add: less_MINSIZE [OF le'])
  show "\<not> sz - nb < MINSIZE \<Longrightarrow>
       alloced s lo ts C nb p (split_heads p nb (p + nb) (sz - nb) (link_remainder (p + nb) (unlink p s)))"
    by (rule take_split [OF I i1 i(2,3) p nb]) (use i(1) B1 in \<open>simp_all add: less_MINSIZE [OF le']\<close>)
qed

lemma large_scan_ok:
  assumes I: "heap_inv s lo ts C B F" and i: "2 \<le> i" "i < 96" and nb: "chunk_size_ok nb" and B1: "B 1 = []"
  defines "b \<equiv> bin_addr (av_bins s) i"
  assumes "B i = xs @ ys"
  shows "large_scan nb b (last (b # xs)) s = Some (Inr (), s) \<or>
    (\<exists>p t. large_scan nb b (last (b # xs)) s = Some (Inl (chunk2mem p), t) \<and> alloced s lo ts C nb p t)"
  using assms(7)
proof (induction xs arbitrary: ys rule: rev_induct)
  case Nil
  show ?case by (subst large_scan.simps) simp
next
  case (snoc p xs)
  note H = heap_invD(1) [OF I]
  note A = core_arena [OF H] and Bn = core_binned [OF H]
  have i1: "1 \<le> i" using i(1) by simp
  have r: "ring (mem s) b (xs @ p # ys)" using binned_ring [OF Bn i1 i(2)] snoc.prems by (simp add: b_def)
  have pb: "p \<noteq> b" using r by (auto simp: ring_def)
  obtain sz where p: "C p = Some (sz, Free)" using binned_member [OF Bn i1 i(2), of p] snoc.prems by auto
  have sz: "chunksize s p = sz" using read_chunksize [OF H p] by simp
  have Bi: "B i = xs @ p # ys" using snoc.prems by simp
  have bk: "ck_bk s p = last (b # xs)" using r links_neighbours(1) by (fastforce simp: ring_def ck_bk_def)
  have run: "large_scan nb b p s =
     (if sz \<ge> nb then
        if sz - nb < MINSIZE then Some (Inl (chunk2mem p), set_inuse_bit_at_offset p sz (unlink p s))
        else Some (Inl (chunk2mem p), split_heads p nb (p + nb) (sz - nb) (link_remainder (p + nb) (unlink p s)))
      else large_scan nb b (ck_bk s p) s)"
    using pb by (subst large_scan.simps) (simp add: sz Let_def chunk_at_offset_def)
  show ?case
  proof (cases "sz \<ge> nb")
    case True
    then have "unat nb \<le> unat sz" by (simp add: word_le_nat_alt)
    note T = take_either [OF I i Bi p nb this B1]
    show ?thesis using T True run by (cases "sz - nb < MINSIZE") auto
  next
    case False
    then show ?thesis using snoc.IH [OF Bi] run bk by simp
  qed
qed

lemma malloc_large_ok:
  assumes I: "heap_inv s lo ts C B F" and nb: "chunk_size_ok nb" "unat nb < 2 ^ 32" and B1: "B 1 = []"
  shows "malloc_large nb (bin_index nb) s = Some (Inr (), s) \<or>
    (\<exists>p t. malloc_large nb (bin_index nb) s = Some (Inl (chunk2mem p), t) \<and> alloced s lo ts C nb p t)"
proof (cases "in_smallbin_range nb")
  case False
  let ?i = "unat (bin_index nb)"
  have "32 \<le> unat nb" using nb by (simp add: chunk_size_ok_def)
  from bin_index_range [OF this nb(2)] have i: "2 \<le> ?i" "?i < 96" by simp_all
  have b: "bin_at s (bin_index nb) = bin_addr (av_bins s) ?i" by (rule bin_at_bin_addr [OF i(2)])
  have "1 \<le> ?i" using i(1) by simp
  from ring_last [OF binned_ring [OF core_binned [OF heap_invD(1) [OF I]] this i(2)]]
  have "ck_bk s (bin_addr (av_bins s) ?i) = last (bin_addr (av_bins s) ?i # B ?i)" by (simp add: ck_bk_def)
  then show ?thesis
    using large_scan_ok [OF I i nb(1) B1, of "B ?i" "[]"] False by (simp add: malloc_large_def b)
qed (simp add: malloc_large_def)

section \<open>The walk over the bit map\<close>

lemma bin_addr_Suc: "next_bin (bin_addr av j) = bin_addr av (Suc j)"
  by (simp add: next_bin_def bin_addr_def algebra_simps)

lemma unat_pow2_32: "k < 32 \<Longrightarrow> unat ((2 :: u32) ^ k) = 2 ^ k"
proof -
  assume k: "k < 32"
  have "unat ((2::u32) ^ k) = 2 ^ k mod 2 ^ 32" using unat_of_nat [where 'a = 32, of "2 ^ k"] by simp
  moreover have "(2::nat) ^ k < 2 ^ 32" using k by (intro power_strict_increasing) auto
  ultimately show ?thesis by simp
qed

lemma high_bit_set:
  assumes "\<not> w < (2 :: u32) ^ k" "k < 32" shows "\<exists>m\<ge>k. m < 32 \<and> bit w m"
proof (rule ccontr)
  assume no: "\<not> ?thesis"
  have "take_bit k w = w"
  proof (rule bit_word_eqI)
    fix n assume "n < LENGTH(32)"
    then show "bit (take_bit k w) n = bit w n"
      using no by (cases "n < k") (auto simp: bit_take_bit_iff not_less)
  qed
  then have "unat w = unat (take_bit k w)" by simp
  also have "\<dots> < 2 ^ k" by (simp add: unsigned_take_bit_eq)
  finally show False using assms by (simp add: word_less_nat_alt not_less unat_pow2_32)
qed

lemma and_pow: "(2 :: u32) ^ k AND w = 0 \<longleftrightarrow> \<not> bit w k"
  by (subst and.commute) (rule and_exp_eq_0_iff_not_bit)

lemma advance_bin_run:
  assumes "bit mp k'" "k \<le> k'" "k' < 32" "\<And>m. k \<le> m \<Longrightarrow> m < k' \<Longrightarrow> \<not> bit mp m"
  shows "advance_bin mp (bin_addr av j) (2 ^ k) = Some (bin_addr av (j + (k' - k)), 2 ^ k')"
  using assms
proof (induction "k' - k" arbitrary: k j)
  case 0
  then have "k = k'" by simp
  then have "2 ^ k AND mp \<noteq> 0"
    using 0(2) by (simp add: and_pow)
  then show ?case using \<open>k = k'\<close> by (subst advance_bin.simps) simp
next
  case (Suc n)
  then have "\<not> bit mp k" by simp
  then have "2 ^ k AND mp = 0" by (simp add: and_pow)
  moreover have "advance_bin mp (bin_addr av (Suc j)) (2 ^ Suc k) = Some (bin_addr av (Suc j + (k' - Suc k)), 2 ^ k')"
    by (rule Suc.hyps(1)) (use Suc in auto)
  moreover have "push_bit 1 (2 ^ k :: u32) = 2 ^ Suc k" by (simp add: push_bit_eq_mult)
  moreover have "Suc j + (k' - Suc k) = j + (k' - k)" using Suc.hyps(2) by simp
  ultimately show ?case by (subst advance_bin.simps) (simp only: bin_addr_Suc if_True simp_thms)
qed

lemma skip_blocks_run:
  assumes "unat block \<le> 3"
  shows "skip_blocks block s = Some None \<or>
    (\<exists>b w. skip_blocks block s = Some (Some (b, w)) \<and> unat block < unat b \<and> unat b < 3 \<and> w \<noteq> 0 \<and> w = binmap s (unat b))"
  using assms
proof (induction "3 - unat block" arbitrary: block rule: less_induct)
  case less
  have u: "unat (block + 1) = unat block + 1" using less.prems by (simp add: unat_plus_if' word_size)
  have c: "block + 1 \<ge> BINMAPSIZE \<longleftrightarrow> 3 \<le> unat block + 1"
    by (simp add: word_le_nat_alt u dl_consts)
  show ?case
  proof (cases "3 \<le> unat block + 1")
    case True
    then show ?thesis using c by (subst (1) skip_blocks.simps) (simp add: Let_def)
  next
    case False
    have rd: "read_binmap s (block + 1) = Some (binmap s (unat block + 1))"
      using False by (simp add: read_binmap_def word_less_nat_alt u dl_consts)
    have run: "skip_blocks block s = (if binmap s (unat block + 1) = 0 then skip_blocks (block + 1) s
        else Some (Some (block + 1, binmap s (unat block + 1))))"
      using False c rd by (subst skip_blocks.simps) (simp add: Let_def)
    show ?thesis
    proof (cases "binmap s (unat block + 1) = 0")
      case True
      have "3 - unat (block + 1) < 3 - unat block" "unat (block + 1) \<le> 3"
        using \<open>\<not> 3 \<le> unat block + 1\<close> by (simp_all add: u)
      from less.hyps [OF this] show ?thesis using True run u by auto
    next
      case False
      then show ?thesis using run u \<open>\<not> 3 \<le> unat block + 1\<close>
        by (intro disjI2 exI [of _ "block + 1"] exI [of _ "binmap s (unat block + 1)"]) simp
    qed
  qed
qed

text \<open>A mark that is cleared on an empty bin.\<close>

lemma unmark_kept:
  assumes I: "heap_inv s lo ts C B F" and j: "j < 96" "B j = []"
  defines "t \<equiv> s\<lparr>binmap := (binmap s)(j div 32 := binmap s (j div 32) AND NOT (2 ^ (j mod 32)))\<rparr>"
  shows "kept s lo ts C t ts C B F"
proof -
  note H = heap_invD(1) [OF I]
  have u: "unat (word_of_nat j :: u32) = j" using j(1) by (simp add: unat_of_nat take_bit_nat_eq_self)
  have mk: "marked t i \<longleftrightarrow> marked s i \<and> i \<noteq> j" for i
    using marked_and [of s "word_of_nat j" i] unfolding u idx2bit_pow t_def .
  have "binned (mem s) (av_bins s) (marked t) C B {}"
    using core_binned [OF H] j(2) unfolding binned_def by (auto simp: mk)
  then have core: "heap_core t lo ts C B {} {}"
    using H by (simp add: heap_core_def t_def)
  have "j div 32 \<noteq> 3" using j(1) by linarith
  then have b3: "binmap t 3 = 0" using heap_invD(6) [OF I] by (simp add: t_def)
  have "heap_inv t lo ts C B F"
    by (rule heap_inv_step [OF I core]) (use b3 heap_invD(5) [OF I] in \<open>auto simp: t_def\<close>)
  then show ?thesis
    by (simp add: kept_def heap_end_def t_def calm_def have_fastchunks_def have_anychunks_def)
qed

section \<open>The scan of the larger bins\<close>

lemma take_from_bin_ok:
  assumes I: "heap_inv s lo ts C B F" and j: "2 \<le> j" "j < 96" "B j = xs @ [p]"
    and p: "C p = Some (sz, Free)" and nb: "chunk_size_ok nb" and le: "unat nb \<le> unat sz" and B1: "B 1 = []"
  obtains t where "take_from_bin nb (bin_addr (av_bins s) j) p s = (chunk2mem p, t)" "alloced s lo ts C nb p t"
proof -
  let ?b = "bin_addr (av_bins s) j"
  note H = heap_invD(1) [OF I]
  have j1: "1 \<le> j" using j(1) by simp
  have Bj: "B j = xs @ p # []" using j(3) by simp
  have r: "ring (mem s) ?b (xs @ [p])" using binned_ring [OF core_binned [OF H] j1 j(2)] j(3) by simp
  note u = unlink_last [OF r refl]
  have sz: "chunksize s p = sz" using read_chunksize [OF H p] by simp
  note T = take_either [OF I j(1,2) Bj p nb le B1]
  let ?w = "set_inuse_bit_at_offset p sz (unlink p s)"
  let ?v = "split_heads p nb (p + nb) (sz - nb) (link_remainder (p + nb) (unlink p s))"
  have heads: "split_heads a b c d (x\<lparr>last_remainder := y\<rparr>) = (split_heads a b c d x)\<lparr>last_remainder := y\<rparr>"
    for a b c d y and x :: "'a malloc_state_scheme"
    by (simp add: split_heads_def Let_def store_defs wr_def)
  have run: "take_from_bin nb ?b p s =
     (if sz - nb < MINSIZE then (chunk2mem p, ?w)
      else (chunk2mem p, if in_smallbin_range nb then ?v\<lparr>last_remainder := p + nb\<rparr> else ?v))"
    unfolding take_from_bin_def Let_def sz u(3) chunk_at_offset_def by (simp add: heads)
  show ?thesis
  proof (cases "sz - nb < MINSIZE")
    case True
    then show ?thesis using that run T(1) by simp
  next
    case False
    have "alloced s lo ts C nb p (if in_smallbin_range nb then ?v\<lparr>last_remainder := p + nb\<rparr> else ?v)"
      using T(2) [OF False] alloced_last_remainder [OF T(2) [OF False]] by (simp only: if_split simp_thms)
    then show ?thesis using that run False by simp
  qed
qed

lemma bin_scan_ok:
  assumes I: "heap_inv s lo ts C B F" and nb: "chunk_size_ok nb" and B1: "B 1 = []"
    and big: "\<And>i x z. J \<le> i \<Longrightarrow> i < 96 \<Longrightarrow> x \<in> set (B i) \<Longrightarrow> C x = Some (z, Free) \<Longrightarrow> unat nb \<le> unat z"
    and J: "2 \<le> J" "J \<le> 32 * unat block + k" "k \<le> 32" "unat block \<le> 3"
  shows "(\<exists>p t. bin_scan nb block (binmap s (unat block)) (bin_addr (av_bins s) (32 * unat block + k)) (2 ^ k) s
        = Some (Inl (chunk2mem p), t) \<and> alloced s lo ts C nb p t) \<or>
    (\<exists>t. bin_scan nb block (binmap s (unat block)) (bin_addr (av_bins s) (32 * unat block + k)) (2 ^ k) s
        = Some (Inr (), t) \<and> kept s lo ts C t ts C B F)"
  using I J(2-)
proof (induction "200 - (32 * unat block + k)" arbitrary: s block k rule: less_induct)
  case less
  note I = less.prems(1) and H = heap_invD(1) [OF less.prems(1)]
  let ?av = "av_bins s" and ?mp = "binmap s (unat block)"
  let ?skip = "2 ^ k > ?mp \<or> (2 :: u32) ^ k = 0"
  define rest where "rest block mp bin bt =
     do { (bin, bt) \<leftarrow> advance_bin mp bin bt;
          let victim = ck_bk s bin in
          if victim = bin then
            let mp = mp AND NOT bt in
            do { s \<leftarrow> write_binmap block mp s;
                 bin_scan nb block mp (next_bin bin) (push_bit 1 bt) s }
          else let (m, s) = take_from_bin nb bin victim s in Some (Inl m, s) }" for block mp bin bt
  text \<open>The rest of a round, once a word with a mark at \<open>k\<close> or above is at hand.\<close>
  have round: "(\<exists>p t. rest b (binmap s (unat b)) (bin_addr ?av (32 * unat b + l)) (2 ^ l) = Some (Inl (chunk2mem p), t) \<and>
       alloced s lo ts C nb p t) \<or>
     (\<exists>t. rest b (binmap s (unat b)) (bin_addr ?av (32 * unat b + l)) (2 ^ l) = Some (Inr (), t) \<and> kept s lo ts C t ts C B F)"
    if b: "unat b < 3" "l < 32" "\<not> binmap s (unat b) < 2 ^ l" and pos: "32 * unat block + k \<le> 32 * unat b + l" for b l
  proof -
    let ?w = "binmap s (unat b)"
    define m where "m = (LEAST m. l \<le> m \<and> bit ?w m)"
    have ex: "\<exists>m. l \<le> m \<and> bit ?w m" using high_bit_set [OF b(3,2)] by blast
    have m: "l \<le> m" "bit ?w m" using LeastI_ex [OF ex] by (simp_all add: m_def)
    have no: "\<not> bit ?w i" if "l \<le> i" "i < m" for i using not_less_Least that unfolding m_def by blast
    have m32: "m < 32" using bit_imp_le_length [OF m(2)] by simp
    define j where "j = 32 * unat b + m"
    have j: "2 \<le> j" "j < 96" "J \<le> j" using b(1) m(1) m32 pos less.prems(2) J(1) by (simp_all add: j_def)
    have jd: "j div 32 = unat b" "j mod 32 = m" using m32 by (simp_all add: j_def)
    have adv: "advance_bin ?w (bin_addr ?av (32 * unat b + l)) (2 ^ l) = Some (bin_addr ?av j, 2 ^ m)"
      using advance_bin_run [OF m(2,1) m32 no, of ?av "32 * unat b + l"] m(1) by (simp add: j_def)
    have j1: "1 \<le> j" using j(1) by simp
    have r: "ring (mem s) (bin_addr ?av j) (B j)" using binned_ring [OF core_binned [OF H] j1 j(2)] .
    show ?thesis
    proof (cases "B j" rule: rev_cases)
      case Nil
      define t where "t = s\<lparr>binmap := (binmap s)(unat b := ?w AND NOT (2 ^ m))\<rparr>"
      have K: "kept s lo ts C t ts C B F" using unmark_kept [OF I j(2) Nil] by (simp add: t_def jd)
      have wr: "write_binmap b (?w AND NOT (2 ^ m)) s = Some t"
        using b(1) by (simp add: write_binmap_def word_less_nat_alt dl_consts t_def)
      have "rest b ?w (bin_addr ?av (32 * unat b + l)) (2 ^ l) =
          bin_scan nb b (binmap t (unat b)) (bin_addr (av_bins t) (32 * unat b + Suc m)) (2 ^ Suc m) t"
        using ring_last [OF r] Nil adv wr
        by (simp add: rest_def ck_bk_def bin_addr_Suc Let_def push_bit_eq_mult t_def j_def mult.commute)
      moreover have "heap_inv t lo ts C B F" using K by (simp add: kept_def)
      moreover have "200 - (32 * unat b + Suc m) < 200 - (32 * unat block + k)" "J \<le> 32 * unat b + Suc m"
          "Suc m \<le> 32" "unat b \<le> 3"
        using b(1) m(1) m32 pos less.prems(2) by linarith+
      ultimately have "(\<exists>p u. rest b ?w (bin_addr ?av (32 * unat b + l)) (2 ^ l) = Some (Inl (chunk2mem p), u) \<and>
           alloced t lo ts C nb p u) \<or>
         (\<exists>u. rest b ?w (bin_addr ?av (32 * unat b + l)) (2 ^ l) = Some (Inr (), u) \<and> kept t lo ts C u ts C B F)"
        using less.hyps [of b "Suc m" t] by (simp only:)
      then show ?thesis using kept_alloced [OF K] kept_trans [OF K] by blast
    next
      case (snoc xs p)
      obtain z where z: "C p = Some (z, Free)"
        using binned_member [OF core_binned [OF H] j1 j(2), of p] snoc by auto
      have le: "unat nb \<le> unat z" by (rule big [OF j(3,2) _ z]) (simp add: snoc)
      obtain t where t: "take_from_bin nb (bin_addr ?av j) p s = (chunk2mem p, t)" "alloced s lo ts C nb p t"
        by (rule take_from_bin_ok [OF I j(1,2) snoc z nb le B1])
      have "ck_bk s (bin_addr ?av j) = p" "p \<noteq> bin_addr ?av j" using unlink_last(1,2) [OF r [unfolded snoc] refl] .
      then have "rest b ?w (bin_addr ?av (32 * unat b + l)) (2 ^ l) = Some (Inl (chunk2mem p), t)"
        using adv t(1) by (simp add: rest_def)
      then show ?thesis using t(2) by blast
    qed
  qed
  have run: "bin_scan nb block ?mp (bin_addr ?av (32 * unat block + k)) (2 ^ k) s =
     (if ?skip then
        do { r \<leftarrow> skip_blocks block s;
             case r of None \<Rightarrow> Some (Inr (), s)
             | Some (b, w) \<Rightarrow> rest b w (bin_at s (push_bit BINMAPSHIFT b)) 1 }
      else rest block ?mp (bin_addr ?av (32 * unat block + k)) (2 ^ k))"
    by (subst bin_scan.simps, cases "skip_blocks block s") (auto simp: rest_def split: option.splits)
  show ?case
  proof (cases ?skip)
    case True
    from skip_blocks_run [OF less.prems(4), of s] show ?thesis
    proof
      assume "skip_blocks block s = Some None"
      then show ?thesis using True run kept_refl [OF I] by simp
    next
      assume "\<exists>b w. skip_blocks block s = Some (Some (b, w)) \<and> unat block < unat b \<and> unat b < 3 \<and> w \<noteq> 0 \<and> w = binmap s (unat b)"
      then obtain b where b: "skip_blocks block s = Some (Some (b, binmap s (unat b)))" "unat block < unat b"
        "unat b < 3" "binmap s (unat b) \<noteq> 0" by blast
      have "unat (push_bit BINMAPSHIFT b) = 32 * unat b"
        using unat_push_bit_le [of b 5] b(3) by (simp add: BINMAPSHIFT_def)
      then have a: "bin_at s (push_bit BINMAPSHIFT b) = bin_addr ?av (32 * unat b)"
        using bin_at_bin_addr [of "push_bit BINMAPSHIFT b" s] b(3) by simp
      have "\<not> binmap s (unat b) < 2 ^ 0" using b(4) by (simp add: word_less_nat_alt unat_eq_zero)
      from round [OF b(3) _ this] show ?thesis
        using True run b(1,2) a less.prems(3) by simp
    qed
  next
    case False
    then have k: "k < 32"
    proof -
      have "(2 :: u32) ^ 32 = 0" by simp
      then show ?thesis using False less.prems(3) by (cases "k = 32") auto
    qed
    have "unat block \<noteq> 3"
    proof
      assume "unat block = 3"
      then have "?mp = 0" using heap_invD(6) [OF I] by simp
      then show False using False by (simp add: word_gt_0)
    qed
    then have "unat block < 3" using less.prems(4) by simp
    from round [OF this k] show ?thesis using False run by simp
  qed
qed

end
