(* ===== verification/Dl_Malloc_Ok.thy ===== *)
theory Dl_Malloc_Ok
  imports Dl_Scan
begin

text \<open>
  \<open>mALLOc\<close> as a whole: on a consistent heap it answers with memory that was not in use, or comes
  to the point where the system is asked for more, with nothing in use changed.
\<close>

unbundle bit_operations_syntax

section \<open>The larger bins\<close>

lemma bin_at_wide:
  assumes "j < 128" shows "bin_at s (word_of_nat j) = bin_addr (av_bins s) j"
proof -
  have "unat (push_bit 1 (word_of_nat j :: u32)) = 2 * j"
    using unat_push_bit_le [of "word_of_nat j" 1] assms by (simp add: unat_of_nat take_bit_nat_eq_self)
  then have "ucast (push_bit 1 (word_of_nat j :: u32)) = (word_of_nat (2 * j) :: u64)"
    using assms by (simp only: word_unat_eq_iff unsigned_ucast_eq)
      (simp add: unat_of_nat take_bit_nat_eq_self del: of_nat_mult)
  then show ?thesis by (simp add: bin_at_def bin_addr_def dl_consts)
qed

lemma bin_at_next:
  assumes "unat i < 96" shows "bin_at s (i + 1) = bin_addr (av_bins s) (unat i + 1)"
proof -
  have "i + 1 = word_of_nat (unat i + 1)" by (simp add: add.commute)
  moreover have "unat i + 1 < 128" using assms by simp
  ultimately show ?thesis using bin_at_wide [of "unat i + 1" s] by (simp add: add.commute)
qed

lemma malloc_bins_ok:
  assumes I: "heap_inv s lo ts C B F" and nb: "chunk_size_ok nb" "unat nb < 2 ^ 32" and B1: "B 1 = []"
  shows "(\<exists>p t. malloc_bins nb (bin_index nb) s = Some (Inl (chunk2mem p), t) \<and> alloced s lo ts C nb p t) \<or>
    (\<exists>t. malloc_bins nb (bin_index nb) s = Some (Inr (), t) \<and> kept s lo ts C t ts C B F)"
proof -
  note H = heap_invD(1) [OF I]
  let ?i = "unat (bin_index nb)" and ?n = "bin_index nb + 1"
  have "32 \<le> unat nb" using nb by (simp add: chunk_size_ok_def)
  from bin_index_range [OF this nb(2)] have i: "4 \<le> ?i" "?i < 96" by simp_all
  have u: "unat ?n = ?i + 1" using i by (simp add: unat_plus_if' word_size)
  define k where "k = (?i + 1) mod 32"
  have bl: "unat (idx2block ?n) = (?i + 1) div 32" using unat_idx2block u by simp
  have pos: "32 * unat (idx2block ?n) + k = ?i + 1" unfolding bl k_def by simp
  have b3: "unat (idx2block ?n) \<le> 3" using i(2) unfolding bl by linarith
  have rd: "read_binmap s (idx2block ?n) = Some (binmap s (unat (idx2block ?n)))"
    using b3 by (simp add: read_binmap_def word_less_nat_alt dl_consts)
  have run: "malloc_bins nb (bin_index nb) s = bin_scan nb (idx2block ?n) (binmap s (unat (idx2block ?n)))
      (bin_addr (av_bins s) (32 * unat (idx2block ?n) + k)) (2 ^ k) s"
    unfolding pos
    by (simp add: malloc_bins_def Let_def rd bin_at_next [OF i(2)] idx2bit_pow u k_def)
  show ?thesis
    unfolding run
  proof (rule bin_scan_ok [OF I nb(1) B1, where J = "?i + 1"])
    fix j x z assume j: "?i + 1 \<le> j" "j < 96" "x \<in> set (B j)" "C x = Some (z, Free)"
    have "1 \<le> j" "j \<noteq> 1" using j(1) i by simp_all
    then have "j = unat (bin_index z)" using binned_member [OF core_binned [OF H] _ j(2,3)] j(4) by auto
    then have "unat nb < unat z"
      using bin_index_above [of nb z] nb(2) chunk_bounds(3) [OF core_arena [OF H] j(4)] j(1) by simp
    then show "unat nb \<le> unat z" by simp
  qed (use i pos b3 in \<open>simp_all add: k_def\<close>)
qed

section \<open>The search\<close>

lemma kept_quiet:
  assumes "heap_inv t lo ts' C' B' F'" "heap_end t ts' = heap_end s ts" "in_use C' = in_use C"
    "quiet s lo (heap_end s ts) (in_use C) t" "\<not> have_fastchunks t" "have_anychunks t"
  shows "kept s lo ts C t ts' C' B' F'"
proof -
  have "unat (top_chunk t) \<le> unat (top_chunk s)" using assms(4) by (simp add: quiet_def)
  then have "unat ts \<le> unat ts'" using assms(2) by (simp add: heap_end_def)
  then show ?thesis using assms calm_quiet by (simp add: kept_def)
qed

lemma consolidate_first:
  assumes I: "heap_inv s lo ts C B F"
  obtains t ts' C' B' F' where "(if have_fastchunks s then malloc_consolidate s else Some s) = Some t"
    "kept s lo ts C t ts' C' B' F'" "\<not> have_fastchunks t"
proof (cases "have_fastchunks s")
  case True
  obtain t ts' C' B' where "malloc_consolidate s = Some t" "heap_inv t lo ts' C' B' (\<lambda>_. [])"
    "heap_end t ts' = heap_end s ts" "in_use C' = in_use C" "quiet s lo (heap_end s ts) (in_use C) t"
    "\<not> have_fastchunks t" "fast_limit t = fast_limit s" "have_anychunks t"
    by (rule malloc_consolidate_ok [OF I heap_invD(7) [OF I True]])
  then show ?thesis using that [of t ts' C' B' "\<lambda>_. []"] kept_quiet True by fastforce
next
  case False
  then show ?thesis using that [of s ts C B F] kept_refl [OF I] by simp
qed

text \<open>A step or a whole search: answered, or gone on with nothing in use changed.\<close>

definition searched ::
  "'a malloc_state_scheme \<Rightarrow> u64 \<Rightarrow> u64 \<Rightarrow> chunks \<Rightarrow> u64 \<Rightarrow> ((u64 + 'b) \<times> 'a malloc_state_scheme) option \<Rightarrow> bool" where
  "searched s lo ts C nb r \<longleftrightarrow>
     (\<exists>p t. r = Some (Inl (chunk2mem p), t) \<and> alloced s lo ts C nb p t) \<or>
     (\<exists>x t ts' C' B' F'. r = Some (Inr x, t) \<and> kept s lo ts C t ts' C' B' F')"

lemma searched_trans:
  assumes "kept s lo ts C t ts' C' B' F'" "searched t lo ts' C' nb r"
  shows "searched s lo ts C nb r"
  using assms(2) unfolding searched_def
proof (elim disjE exE conjE)
  fix p u assume "r = Some (Inl (chunk2mem p), u)" "alloced t lo ts' C' nb p u"
  then show "(\<exists>p t. r = Some (Inl (chunk2mem p), t) \<and> alloced s lo ts C nb p t) \<or>
      (\<exists>x t ts' C' B' F'. r = Some (Inr x, t) \<and> kept s lo ts C t ts' C' B' F')"
    using kept_alloced [OF assms(1)] by blast
next
  fix x u ts2 C2 B2 F2 assume "r = Some (Inr x, u)" "kept t lo ts' C' u ts2 C2 B2 F2"
  then show "(\<exists>p t. r = Some (Inl (chunk2mem p), t) \<and> alloced s lo ts C nb p t) \<or>
      (\<exists>x t ts' C' B' F'. r = Some (Inr x, t) \<and> kept s lo ts C t ts' C' B' F')"
    using kept_trans [OF assms(1)] by blast
qed

lemma malloc_search_ok:
  fixes s :: "'a malloc_state_scheme"
  assumes I: "heap_inv s lo ts C B F" and nb: "chunk_size_ok nb" "unat nb < 2 ^ 32"
  shows "searched s lo ts C nb (malloc_search nb s)"
proof -
  define after where "after idx t =
     do { (r, s) \<leftarrow> malloc_unsorted nb t;
          case r of
            Inl m \<Rightarrow> Some (Inl m, s)
          | Inr _ \<Rightarrow>
              do { (r, s) \<leftarrow> malloc_large nb idx s;
                   case r of
                     Inl m \<Rightarrow> Some (Inl m, s)
                   | Inr _ \<Rightarrow> malloc_bins nb idx s }}" for idx and t :: "'a malloc_state_scheme"
  have late: "searched t lo ts' C' nb (after (bin_index nb) t)" if J: "heap_inv t lo ts' C' B' F'" for t :: "'a malloc_state_scheme" and ts' C' B' F'
  proof -
    from malloc_unsorted_ok [OF J nb(1)] show ?thesis
    proof (elim disjE exE conjE)
      fix p u assume "malloc_unsorted nb t = Some (Inl (chunk2mem p), u)" "alloced t lo ts' C' nb p u"
      then show ?thesis by (auto simp: searched_def after_def)
    next
      fix u B2 assume u: "malloc_unsorted nb t = Some (Inr (), u)" "kept t lo ts' C' u ts' C' B2 F'" "B2 1 = []"
      then have I2: "heap_inv u lo ts' C' B2 F'" by (simp add: kept_def)
      have "searched u lo ts' C' nb (after (bin_index nb) t)"
        using malloc_large_ok [OF I2 nb u(3)] malloc_bins_ok [OF I2 nb u(3)] u(1)
        by (auto simp: after_def searched_def)
      then show ?thesis by (rule searched_trans [OF u(2)])
    qed
  qed
  have run: "malloc_search nb s =
     do { (r, s) \<leftarrow> malloc_fast nb s;
          case r of Inl m \<Rightarrow> Some (Inl m, s)
          | Inr _ \<Rightarrow> do { (r, s) \<leftarrow> malloc_small nb s;
                          case r of Inl m \<Rightarrow> Some (Inl m, s) | Inr idx \<Rightarrow> after idx s }}"
    unfolding malloc_search_def after_def ..
  from malloc_fast_ok [OF I nb(1)] show ?thesis
  proof (elim disjE exE conjE)
    fix p t assume "malloc_fast nb s = Some (Inl (chunk2mem p), t)" "alloced s lo ts C nb p t"
    then show ?thesis by (auto simp: searched_def run)
  next
    assume f: "malloc_fast nb s = Some (Inr (), s)"
    show ?thesis
    proof (cases "in_smallbin_range nb")
      case True
      then have "bin_index nb = smallbin_index nb" by (simp add: bin_index_def)
      then show ?thesis
        using malloc_small_ok [OF I nb(1) True] late [OF I] f by (auto simp: searched_def run)
    next
      case False
      then have idx: "bin_index nb = largebin_index (ucast nb)" by (simp add: bin_index_def)
      obtain t ts' C' B' F' where t: "(if have_fastchunks s then malloc_consolidate s else Some s) = Some t"
        "kept s lo ts C t ts' C' B' F'" by (rule consolidate_first [OF I]) (rule that)
      have "heap_inv t lo ts' C' B' F'" using t(2) by (simp add: kept_def)
      from searched_trans [OF t(2) late [OF this]] show ?thesis
        using False t(1) f idx by (simp add: run malloc_small_def)
    qed
  qed
qed

section \<open>malloc\<close>

text \<open>What \<open>sYSMALLOc\<close> does when no fast chunk is left.\<close>

definition from_system :: "u64 \<Rightarrow> 'a malloc_state_scheme \<Rightarrow> (u64 \<times> 'a malloc_state_scheme) option" where
  "from_system nb s =
     do { (r, s) \<leftarrow> sys_mmap nb s;
          case r of Inl p \<Rightarrow> Some (p, s) | Inr _ \<Rightarrow> sys_core nb s }"

lemma sYSMALLOc_system:
  "\<not> have_fastchunks s \<Longrightarrow> sYSMALLOc nb s = do { (p, s) \<leftarrow> from_system nb s; Some (Inl p, s) }"
  by (auto simp: sYSMALLOc_def from_system_def split: sum.splits option.splits prod.splits
      intro!: Option.bind_cong)

lemma malloc_system:
  "malloc_once bytes s = sYSMALLOc nb t \<Longrightarrow> \<not> have_fastchunks t \<Longrightarrow> mALLOc bytes s = from_system nb t"
  by (subst mALLOc.simps, cases "from_system nb t") (auto simp: sYSMALLOc_system)

text \<open>One pass over a consistent heap.\<close>

lemma malloc_once_ok:
  assumes I: "heap_inv s lo ts C B F" and r: "checked_request2size bytes = Some nb" "chunk_size_ok nb" "unat nb < 2 ^ 32"
  shows "(\<exists>p t. malloc_once bytes s = Some (Inl (chunk2mem p), t) \<and> alloced s lo ts C nb p t) \<or>
    (\<exists>t ts' C' B' F'. malloc_once bytes s = sYSMALLOc nb t \<and> kept s lo ts C t ts' C' B' F' \<and> unat ts' < unat nb + 32)"
proof -
  have nb32: "unat nb + 32 < 2 ^ 64" using r(3) by simp
  have top: "(\<exists>p u. use_top nb t = Some (Inl (chunk2mem p), u) \<and> alloced t lo ts' C' nb p u) \<or>
      unat ts' < unat nb + 32 \<and> use_top nb t = sYSMALLOc nb t"
    if "heap_inv t lo ts' C' B' F'" for t ts' C' B' F'
    using use_top_ok [OF that r(2) nb32] by blast
  have mf: "max_fast s \<noteq> 0" using max_fast_nonzero [OF heap_invD(3) [OF I]] .
  show ?thesis
  proof (cases "have_anychunks s")
    case False
    then have "malloc_once bytes s = use_top nb s" using r(1) mf by (simp add: malloc_once_def)
    then show ?thesis using top [OF I] kept_refl [OF I] by metis
  next
    case True
    from malloc_search_ok [OF I r(2,3)] show ?thesis
      unfolding searched_def
    proof (elim disjE exE conjE)
      fix p t assume "malloc_search nb s = Some (Inl (chunk2mem p), t)" "alloced s lo ts C nb p t"
      then show ?thesis using True r(1) by (auto simp: malloc_once_def)
    next
      fix x t ts' C' B' F' assume t: "malloc_search nb s = Some (Inr x, t)" "kept s lo ts C t ts' C' B' F'"
      then have J: "heap_inv t lo ts' C' B' F'" by (simp add: kept_def)
      have "malloc_once bytes s = use_top nb t" using True r(1) t(1) by (simp add: malloc_once_def)
      then show ?thesis using top [OF J] kept_alloced [OF t(2)] t(2) by metis
    qed
  qed
qed

lemma malloc_run:
  assumes I: "heap_inv s lo ts C B F" and r: "checked_request2size bytes = Some nb" "chunk_size_ok nb" "unat nb < 2 ^ 32"
  shows "(\<exists>p t. mALLOc bytes s = Some (chunk2mem p, t) \<and> alloced s lo ts C nb p t) \<or>
    (\<exists>t ts' C' B' F'. mALLOc bytes s = from_system nb t \<and> kept s lo ts C t ts' C' B' F' \<and>
       unat ts' < unat nb + 32 \<and> \<not> have_fastchunks t)"
proof -
  have settled: "(\<exists>p t. mALLOc bytes s = Some (chunk2mem p, t) \<and> alloced s lo ts C nb p t) \<or>
    (\<exists>t ts' C' B' F'. mALLOc bytes s = from_system nb t \<and> kept s lo ts C t ts' C' B' F' \<and>
       unat ts' < unat nb + 32 \<and> \<not> have_fastchunks t)"
    if I: "heap_inv s lo ts C B F" and r: "checked_request2size bytes = Some nb" and nf: "\<not> have_fastchunks s"
    for s ts C B F bytes
  proof -
    from malloc_once_ok [OF I r assms(3,4)] show ?thesis
    proof (elim disjE exE conjE)
      fix p t assume "malloc_once bytes s = Some (Inl (chunk2mem p), t)" "alloced s lo ts C nb p t"
      then show ?thesis by (subst mALLOc.simps) auto
    next
      fix t ts' C' B' F' assume t: "malloc_once bytes s = sYSMALLOc nb t" "kept s lo ts C t ts' C' B' F'"
        "unat ts' < unat nb + 32"
      then have n: "\<not> have_fastchunks t" using nf by (auto simp: kept_def)
      have "mALLOc bytes s = from_system nb t" by (rule malloc_system [OF t(1) n])
      then show ?thesis using t n by blast
    qed
  qed
  from malloc_once_ok [OF I r] show ?thesis
  proof (elim disjE exE conjE)
    fix p t assume "malloc_once bytes s = Some (Inl (chunk2mem p), t)" "alloced s lo ts C nb p t"
    then show ?thesis by (subst (1) mALLOc.simps) auto
  next
    fix t ts' C' B' F' assume t: "malloc_once bytes s = sYSMALLOc nb t" "kept s lo ts C t ts' C' B' F'"
      "unat ts' < unat nb + 32"
    show ?thesis
    proof (cases "have_fastchunks t")
      case False
      have "mALLOc bytes s = from_system nb t" by (rule malloc_system [OF t(1) False])
      then show ?thesis using t False by blast
    next
      case True
      have J: "heap_inv t lo ts' C' B' F'" using t(2) by (simp add: kept_def)
      obtain u ts2 C2 B2 F2 where u: "(if have_fastchunks t then malloc_consolidate t else Some t) = Some u"
        "kept t lo ts' C' u ts2 C2 B2 F2" "\<not> have_fastchunks u" by (rule consolidate_first [OF J]) (rule that)
      have K: "kept s lo ts C u ts2 C2 B2 F2" using kept_trans [OF t(2) u(2)] .
      have J2: "heap_inv u lo ts2 C2 B2 F2" using u(2) by (simp add: kept_def)
      have again: "checked_request2size (nb - MALLOC_ALIGN_MASK) = Some nb"
        using request2size_again r(2,3) by simp
      have "mALLOc bytes s = mALLOc (nb - MALLOC_ALIGN_MASK) u"
        using True u(1) by (subst mALLOc.simps) (simp add: t(1) sYSMALLOc_def)
      then show ?thesis
        using settled [OF J2 again u(3)] kept_alloced [OF K] kept_trans [OF K] by metis
    qed
  qed
qed

end
