(* ===== verification/Dl_Demo.thy ===== *)
theory Dl_Demo
  imports Dl_Free_Spec
begin

text \<open>
  A small concrete heap on which the properties of the allocator are applied: two chunks in use,
  the top chunk, and empty bins.
\<close>

unbundle bit_operations_syntax

section \<open>Definitions\<close>

definition demo_mem :: qmem where
  "demo_mem a =
     (if a = 0xFFFF880000000008 then 0x201
      else if a = 0xFFFF880000000208 then 0x41
      else if a = 0xFFFF880000000248 then 0x3DC1
      else (a AND NOT (mask 4)) - 16)"

definition demo_dl :: malloc_state where
  "demo_dl = kernel.extend (demo_kernel\<lparr>mem := demo_mem, heap_top := Some 0xFFFF880000004000\<rparr>)
     \<lparr>av_bins = 0x1000, max_fast = 0x51, fastbins = (\<lambda>_. 0), top_chunk = 0xFFFF880000000240,
      last_remainder = 0, binmap = (\<lambda>_. 0), trim_threshold = 0x40000, top_pad = 0,
      mmap_threshold = 0x40000, n_mmaps = 0, n_mmaps_max = 0x10000, max_n_mmaps = 0,
      pagesize = 0x1000, morecore_properties = 1, mmapped_mem = 0, sbrked_mem = 0x4000,
      max_sbrked_mem = 0x4000, max_mmapped_mem = 0, max_total_mem = 0x4000\<rparr>"

definition demo_chunks :: chunks where
  "demo_chunks = [0xFFFF880000000000 \<mapsto> (0x200, Used), 0xFFFF880000000200 \<mapsto> (0x40, Used)]"

section \<open>The invariant holds\<close>

lemma demo_fields:
  "mem demo_dl = demo_mem" "av_bins demo_dl = 0x1000" "max_fast demo_dl = 0x51"
  "fastbins demo_dl = (\<lambda>_. 0)" "top_chunk demo_dl = 0xFFFF880000000240" "binmap demo_dl = (\<lambda>_. 0)"
  "trim_threshold demo_dl = 0x40000"
  by (simp_all add: demo_dl_def kernel.defs)

lemma demo_kind: "demo_chunks p = Some (sz, k) \<Longrightarrow> k = Used"
  by (auto simp: demo_chunks_def split: if_splits)

lemma demo_layout: "layout 0xFFFF880000000000 0xFFFF880000000240 demo_chunks"
proof -
  have e: "layout 0xFFFF880000000000 0xFFFF880000000000 Map.empty" by (simp add: layout_def)
  have a: "layout 0xFFFF880000000000 0xFFFF880000000200 [0xFFFF880000000000 \<mapsto> (0x200, Used)]"
    using layout_grow(1) [OF e, of "0x200" Used] by (simp add: chunk_size_ok_def)
  show ?thesis
    using layout_grow(1) [OF a, of "0x40" Used] by (simp add: chunk_size_ok_def demo_chunks_def)
qed

lemma demo_ring:
  assumes "1 \<le> i" "i < 96" shows "ring demo_mem (bin_addr 0x1000 i) []"
proof -
  have u: "unat (word_of_nat (16 * i) :: u64) = 16 * i"
    using assms by (simp add: unat_of_nat take_bit_nat_eq_self del: of_nat_mult)
  have u2: "unat (0x1000 + word_of_nat (16 * i) :: u64) = 0x1000 + 16 * i"
    using assms u by (subst unat_add_nowrap) (simp_all del: of_nat_mult)
  have u3: "unat (0x1000 + word_of_nat (16 * i) + 8 :: u64) = 0x1008 + 16 * i"
    using assms u2 by (subst unat_add_nowrap) (simp_all del: of_nat_mult)
  have m: "demo_mem w = (0x1000 + word_of_nat (16 * i)) - 16" if "unat w div 16 = 256 + i" for w
  proof -
    have "unat w < 0x2000" using that assms(2) by linarith
    then have n: "w \<noteq> 0xFFFF880000000008" "w \<noteq> 0xFFFF880000000208" "w \<noteq> 0xFFFF880000000248" by auto
    have "unat (w AND NOT (mask 4)) = unat w - unat w mod 16" by (simp add: unat_and_not_mask)
    also have "\<dots> = 16 * (unat w div 16)" by (metis minus_mod_eq_mult_div)
    also have "\<dots> = unat (0x1000 + word_of_nat (16 * i) :: u64)" unfolding that u2 by simp
    finally have "w AND NOT (mask 4) = 0x1000 + word_of_nat (16 * i)" by (simp only: word_unat_eq_iff)
    then show ?thesis using n by (simp only: demo_mem_def if_False)
  qed
  have "demo_mem (0x1000 + word_of_nat (16 * i)) = 0x1000 + word_of_nat (16 * i) - 16"
    by (rule m, unfold u2, simp)
  moreover have "demo_mem (0x1000 + word_of_nat (16 * i) + 8) = 0x1000 + word_of_nat (16 * i) - 16"
    by (rule m, unfold u3, presburger)
  ultimately show ?thesis by (simp add: ring_def bin_addr_def)
qed

lemma demo_inv: "heap_inv demo_dl 0xFFFF880000000000 0x3DC0 demo_chunks (\<lambda>_. []) (\<lambda>_. [])"
proof -
  have nofree: "\<not> free_before demo_chunks q" for q using demo_kind by (fastforce simp: free_before_def)
  have or1: "(0x3DC0::u64) OR 1 = 0x3DC1" "(0x200::u64) OR 1 = 0x201" "(0x40::u64) OR 1 = 0x41" by simp_all
  have A: "arena 0xFFFF880000000000 0xFFFF880000000240 0x3DC0 demo_chunks 0x1000"
    using demo_layout by (simp add: arena_def chunk_size_ok_def)
  have T: "tagged demo_mem 0xFFFF880000000240 0x3DC0 demo_chunks {}"
    unfolding tagged_def flag_def using nofree demo_kind
    by (auto simp: demo_mem_def demo_chunks_def or1 split: if_splits)
  have B: "binned demo_mem 0x1000 (marked demo_dl) demo_chunks (\<lambda>_. []) {}"
    unfolding binned_def using demo_ring demo_kind by fastforce
  have F: "fast_ok demo_mem (\<lambda>_. 0) demo_chunks (\<lambda>_. [])"
    unfolding fast_ok_def using demo_kind by fastforce
  have l: "fast_limit demo_dl = 0x50"
    by (simp add: fast_limit_def demo_fields unat_and_not_mask)
  have nf: "\<not> have_fastchunks demo_dl" by (simp add: have_fastchunks_def demo_fields FASTCHUNKS_BIT_def)
  show ?thesis
    unfolding heap_inv_def heap_core_def demo_fields limit_ok_def l
    using A T B F nf demo_kind by fastforce
qed

end
