(* ===== verification/Dl_Malloc_Props.thy ===== *)
theory Dl_Malloc_Props
  imports Dl_Malloc_Ok Dl_Demo
begin

text \<open>
  The properties of \<open>mALLOc\<close>: it answers from the heap or asks the system, the memory it hands
  out is new, what was freed last is handed out first, and a failing \<open>sbrk\<close> is not noticed.
\<close>

unbundle bit_operations_syntax

section \<open>Answers\<close>

lemma request_below:
  assumes "unat bytes < 2 ^ 32 - 64"
  shows "checked_request2size bytes = Some (request2size bytes)" "chunk_size_ok (request2size bytes)"
    "unat (request2size bytes) < 2 ^ 32" "unat bytes + 8 \<le> unat (request2size bytes)"
proof -
  have b: "unat bytes < 2 ^ 64 - 64" using assms by simp
  show "checked_request2size bytes = Some (request2size bytes)"
    using b by (simp add: checked_request2size_def request_out_of_range)
  show "chunk_size_ok (request2size bytes)" "unat bytes + 8 \<le> unat (request2size bytes)"
    using request2size_ok [OF b] by simp_all
  show "unat (request2size bytes) < 2 ^ 32" using request2size_ok(3) [OF b] assms by simp
qed

text \<open>
  C11: \<open>mALLOc\<close> on a consistent heap, for requests below 4 GiB, either returns a chunk that was
  not in use, of at least the padded size and less than \<open>MINSIZE\<close> more, leaving a consistent
  heap of the same extent in which exactly this chunk is newly in use, and no word lent to
  another owner has been written; or it finds the top chunk too small and goes on to ask the system,
  from a consistent heap with no fast chunks in which the same chunks are in use. In particular
  all of its loops terminate.
\<close>

theorem malloc_ok:
  assumes "heap_inv s lo ts C B F" "unat bytes < 2 ^ 32 - 64"
  shows "(\<exists>p t. mALLOc bytes s = Some (chunk2mem p, t) \<and> alloced s lo ts C (request2size bytes) p t) \<or>
    (\<exists>t ts' C' B' F'. mALLOc bytes s = from_system (request2size bytes) t \<and> kept s lo ts C t ts' C' B' F' \<and>
       unat ts' < unat (request2size bytes) + 32 \<and> \<not> have_fastchunks t)"
  by (rule malloc_run [OF assms(1) request_below(1-3) [OF assms(2)]])

theorem malloc_ok_witness:
  "(\<exists>p t. mALLOc 100 demo_dl = Some (chunk2mem p, t) \<and>
      alloced demo_dl 0xFFFF880000000000 0x3DC0 demo_chunks (request2size 100) p t) \<or>
    (\<exists>t ts' C' B' F'. mALLOc 100 demo_dl = from_system (request2size 100) t \<and>
       kept demo_dl 0xFFFF880000000000 0x3DC0 demo_chunks t ts' C' B' F')"
  using malloc_ok [OF demo_inv, of 100] by simp blast

section \<open>The memory handed out\<close>

lemma alloced_chunk:
  assumes "alloced s lo ts C nb p t"
  obtains z ts' C' B' F' where "heap_inv t lo ts' C' B' F'" "C' p = Some (z, Used)" "unat nb \<le> unat z"
    "\<And>q w. in_use C q = Some (w, Used) \<Longrightarrow> q \<noteq> p \<and> C' q = Some (w, Used)" "heap_end t ts' = heap_end s ts"
    "arena lo (top_chunk t) ts' C' (av_bins s)"
proof -
  obtain ts' C' B' F' z where t: "heap_inv t lo ts' C' B' F'" "heap_end t ts' = heap_end s ts" "in_use C p = None"
    "in_use C' = (in_use C)(p \<mapsto> (z, Used))" "unat nb \<le> unat z" "calm s lo (heap_end s ts) (in_use C) t"
    using assms unfolding alloced_def by blast
  have u: "in_use C' q = Some (w, Used) \<longleftrightarrow> C' q = Some (w, Used)" for q w by (simp add: in_use_some)
  have "av_bins t = av_bins s" using t(6) by (rule calmE) simp
  then have "arena lo (top_chunk t) ts' C' (av_bins s)" using core_arena [OF heap_invD(1) [OF t(1)]] by simp
  moreover have "C' p = Some (z, Used)" using u [of p z] t(4) by simp
  moreover have "q \<noteq> p \<and> C' q = Some (w, Used)" if "in_use C q = Some (w, Used)" for q w
  proof -
    have "q \<noteq> p" using t(3) that by auto
    then have "in_use C' q = Some (w, Used)" using t(4) that by simp
    then show ?thesis using \<open>q \<noteq> p\<close> by (simp only: u simp_thms)
  qed
  ultimately show ?thesis using that t(1,2,5) by blast
qed

lemma alloced_block:
  assumes "alloced s lo ts C (request2size bytes) p t" "unat bytes < 2 ^ 32 - 64"
  shows "unat (chunk2mem p) mod 16 = 0" "unat lo < unat (chunk2mem p)"
    "unat (chunk2mem p) + unat bytes \<le> heap_end s ts + 8"
    "\<And>q w a. in_use C q = Some (w, Used) \<Longrightarrow> a \<in> data_words q w \<Longrightarrow>
       \<not> (unat (chunk2mem p) \<le> unat a \<and> unat a < unat (chunk2mem p) + unat bytes)"
proof -
  obtain z ts' C' B' F' where t: "C' p = Some (z, Used)" "unat (request2size bytes) \<le> unat z"
    "\<And>q w. in_use C q = Some (w, Used) \<Longrightarrow> q \<noteq> p \<and> C' q = Some (w, Used)" "heap_end t ts' = heap_end s ts"
    "arena lo (top_chunk t) ts' C' (av_bins s)"
    using assms(1) by (rule alloced_chunk) (rule that)
  note A = t(5)
  have pin: "p \<in> insert (top_chunk t) (dom C')" using t(1) by auto
  note n = node_bounds [OF A pin] and c = chunk_bounds [OF A t(1)]
  have m: "unat (chunk2mem p) = unat p + 16" using n(6) by (simp add: chunk2mem_def dl_consts)
  have z: "unat bytes + 8 \<le> unat z" using request_below(4) [OF assms(2)] t(2) by simp
  have inside: "a \<in> data_words p z" if "unat (chunk2mem p) \<le> unat a" "unat a < unat (chunk2mem p) + unat bytes" for a
    using that z by (simp add: data_words_def m)
  have "a \<notin> data_words q w" if "in_use C q = Some (w, Used)" "a \<in> data_words p z" for q w a
    using t(3) [OF that(1)] own_disjoint [OF arena_layout [OF A], of q w Used p z Used] t(1)
      data_own [of q w] data_own [of p z] that(2) by blast
  then show "\<And>q w a. in_use C q = Some (w, Used) \<Longrightarrow> a \<in> data_words q w \<Longrightarrow>
       \<not> (unat (chunk2mem p) \<le> unat a \<and> unat a < unat (chunk2mem p) + unat bytes)"
    using inside by blast
  show "unat (chunk2mem p) mod 16 = 0" using n(3) by (auto simp: m elim!: dvdE)
  have "unat p + unat z \<le> heap_end s ts" using c(2) t(4) by (simp add: heap_end_def)
  then show "unat lo < unat (chunk2mem p)" "unat (chunk2mem p) + unat bytes \<le> heap_end s ts + 8"
    using n(1) z m by simp_all
qed

text \<open>
  When the top chunk is \<open>MINSIZE\<close> longer than the padded request, \<open>mALLOc\<close> returns a block:
  it is aligned to 16 bytes, lies between the start of the heap and the end of the top chunk, holds
  the requested bytes, and overlaps the data of no chunk that was in use.
\<close>

lemma malloc_block_new:
  assumes "heap_inv s lo ts C B F" "unat bytes < 2 ^ 32 - 64" "unat (request2size bytes) + 32 \<le> unat ts"
  shows "\<exists>m t. mALLOc bytes s = Some (m, t) \<and> unat m mod 16 = 0 \<and> unat lo < unat m \<and>
    unat m + unat bytes \<le> heap_end s ts + 8 \<and>
    (\<forall>q w a. in_use C q = Some (w, Used) \<longrightarrow> a \<in> data_words q w \<longrightarrow>
       \<not> (unat m \<le> unat a \<and> unat a < unat m + unat bytes))"
  using malloc_run [OF assms(1) request_below(1-3) [OF assms(2)]]
proof (elim disjE exE conjE)
  fix p t assume t: "mALLOc bytes s = Some (chunk2mem p, t)" "alloced s lo ts C (request2size bytes) p t"
  show ?thesis
    by (intro exI [of _ "chunk2mem p"] exI [of _ t] conjI allI impI) (fact t alloced_block [OF t(2) assms(2)])+
next
  fix t ts' C' B' F' assume "kept s lo ts C t ts' C' B' F'" "unat ts' < unat (request2size bytes) + 32"
  then show ?thesis using assms(3) by (simp add: kept_def)
qed

lemma malloc_block_new_witness:
  "\<exists>m t. mALLOc 100 demo_dl = Some (m, t) \<and> unat m mod 16 = 0 \<and>
    unat (0xFFFF880000000000 :: u64) < unat m \<and> unat m + 100 \<le> 0xFFFF880000004008"
proof -
  have e: "heap_end demo_dl 0x3DC0 = 0xFFFF880000004000" by (simp add: heap_end_def demo_fields)
  have r: "request2size 100 = 112" by (simp add: request2size_def dl_consts)
  from malloc_block_new [OF demo_inv, of 100] r obtain m t where "mALLOc 100 demo_dl = Some (m, t)"
    "unat m mod 16 = 0" "unat (0xFFFF880000000000 :: u64) < unat m" "unat m + 100 \<le> heap_end demo_dl 0x3DC0 + 8"
    by auto
  then show ?thesis by (auto simp: e)
qed

section \<open>Last in, first out\<close>

text \<open>
  C16: a chunk small enough for the fast lists that is freed is what the next request of its size gets.
\<close>

theorem free_malloc_roundtrip:
  assumes "heap_inv s lo ts C B F" "C p = Some (sz, Used)" "unat sz \<le> fast_limit s"
    and "checked_request2size bytes = Some sz"
  shows "\<exists>t u. fREe (chunk2mem p) s = Some t \<and> mALLOc bytes t = Some (chunk2mem p, u)"
proof -
  note H = heap_invD(1) [OF assms(1)]
  obtain t F' where t: "free_fast p sz s = Some t" "freed s lo ts C p t ts (C(p \<mapsto> (sz, Fast))) B F'"
    by (rule free_fast_ok [OF assms(1-3)])
  have le: "sz \<le> max_fast s" using chunk_above_fast [OF assms(1,2)] assms(3) by simp
  have nz: "chunk2mem p \<noteq> 0" by (rule chunk2mem_nonzero [OF H assms(2)])
  have rd: "chunksize s p = sz" using read_chunksize [OF H assms(2)] by simp
  have free: "fREe (chunk2mem p) s = Some t" using nz le rd t(1) by (simp add: fREe_def)
  have I: "heap_inv t lo ts (C(p \<mapsto> (sz, Fast))) B F'" using t(2) by (simp add: freed_def)
  have any: "have_anychunks t" by (rule heap_invD(5) [OF I, of p sz Fast]) simp_all
  have i: "fastbin_index sz < NFASTBINS" using t(1)
    by (auto simp: free_fast_def read_fastbin_def Let_def split: if_splits)
  have top: "fastbins t (unat (fastbin_index sz)) = p" "max_fast t = max_fast (set_fastchunks s)"
    using t(1) i by (auto simp: free_fast_def read_fastbin_def write_fastbin_def set_fd_def Let_def)
  have "unat sz \<le> fast_limit t"
    using assms(3) fast_limit_set(1) [of s] top(2) by (simp add: fast_limit_def)
  then have fits: "sz \<le> max_fast t"
    using chunk_above_fast [OF I, of p sz Fast] by simp
  have pz: "p \<noteq> 0" using node_bounds(4) [OF core_arena [OF H], of p] assms(2) by auto
  have "malloc_fast sz t = Some (Inl (chunk2mem p), t\<lparr>fastbins := (fastbins t)(unat (fastbin_index sz) := ck_fd t p)\<rparr>)"
    using fits i top(1) pz by (simp add: malloc_fast_def read_fastbin_def write_fastbin_def)
  then have "mALLOc bytes t = Some (chunk2mem p, t\<lparr>fastbins := (fastbins t)(unat (fastbin_index sz) := ck_fd t p)\<rparr>)"
    using any assms(4) by (subst mALLOc.simps) (simp add: malloc_once_def malloc_search_def)
  then show ?thesis using free by blast
qed

theorem free_malloc_roundtrip_witness:
  "\<exists>t u. fREe 0xFFFF880000000210 demo_dl = Some t \<and> mALLOc 50 t = Some (0xFFFF880000000210, u)"
proof -
  have p: "demo_chunks 0xFFFF880000000200 = Some (0x40, Used)" by (simp add: demo_chunks_def)
  have l: "unat (0x40 :: u64) \<le> fast_limit demo_dl" by (simp add: fast_limit_def demo_fields unat_and_not_mask)
  have r: "checked_request2size 50 = Some 0x40"
    by (simp add: checked_request2size_def REQUEST_OUT_OF_RANGE_def request2size_def dl_consts)
  show ?thesis using free_malloc_roundtrip [OF demo_inv p l r] by (simp add: chunk2mem_def dl_consts)
qed

end
