(* ===== verification/Dl_Owned.thy ===== *)
theory Dl_Owned
  imports Dl_Malloc_Props
begin

text \<open>
  The words the allocator owns: its invariant depends on no others, so the users of chunks may
  write their data. Chunks in use can be split and joined, and the top chunk can grow or give
  its front away.
\<close>

unbundle bit_operations_syntax

section \<open>The words of the invariant\<close>

definition same_av :: "'a malloc_state_scheme \<Rightarrow> 'a malloc_state_scheme \<Rightarrow> bool" where
  "same_av s t \<longleftrightarrow> top_chunk t = top_chunk s \<and> av_bins t = av_bins s \<and> binmap t = binmap s \<and>
     fastbins t = fastbins s \<and> max_fast t = max_fast s"

lemma same_avD:
  assumes "same_av s t"
  shows "top_chunk t = top_chunk s" "av_bins t = av_bins s" "binmap t = binmap s"
    "fastbins t = fastbins s" "max_fast t = max_fast s" "heap_end t ts = heap_end s ts"
    "limit_ok t = limit_ok s" "fast_limit t = fast_limit s" "have_fastchunks t = have_fastchunks s"
    "have_anychunks t = have_anychunks s"
  using assms by (simp_all add: same_av_def heap_end_def limit_ok_def fast_limit_def have_fastchunks_def
      have_anychunks_def)

lemma heap_inv_parts:
  assumes I: "heap_inv s lo ts C B F" and v: "same_av s t" and core: "heap_core t lo ts' C' B' {} {}"
    and fo: "fast_ok (mem t) (fastbins t) C' F"
    and k: "\<And>x sz k. C' x = Some (sz, k) \<Longrightarrow> k \<noteq> Used \<Longrightarrow> C x = Some (sz, k)"
  shows "heap_inv t lo ts' C' B' F"
  unfolding heap_inv_def same_avD [OF v]
  using core fo heap_invD(3,6,7) [OF I] heap_invD(4,5) [OF I k] by (auto simp: same_avD [OF v])

lemma owned_words:
  assumes A: "arena lo tp ts C av"
  shows "p \<in> insert tp (dom C) \<Longrightarrow> p + 8 \<in> touch lo (unat tp + unat ts) av (in_use C)"
    "C p = Some (sz, k) \<Longrightarrow> k \<noteq> Used \<Longrightarrow> a \<in> own p sz \<Longrightarrow> a \<in> touch lo (unat tp + unat ts) av (in_use C)"
proof -
  have N: "in_use C q = Some (z, k) \<Longrightarrow> C q = Some (z, k)" for q z k by (simp add: in_use_some)
  show "p \<in> insert tp (dom C) \<Longrightarrow> p + 8 \<in> touch lo (unat tp + unat ts) av (in_use C)"
    by (rule touch_head [OF A _ N])
  show "a \<in> touch lo (unat tp + unat ts) av (in_use C)" if "C p = Some (sz, k)" "k \<noteq> Used" "a \<in> own p sz"
    by (rule touch_own [OF A that(1) _ N that(3)]) (use that in \<open>simp_all add: in_use_def\<close>)
qed

lemma heap_inv_owned:
  assumes I: "heap_inv s lo ts C B F" and v: "same_av s t"
    and m: "\<And>a. a \<in> touch lo (heap_end s ts) (av_bins s) (in_use C) \<Longrightarrow> mem t a = mem s a"
  shows "heap_inv t lo ts C B F"
proof -
  note H = heap_invD(1) [OF I]
  note A = core_arena [OF H] and T = core_tagged [OF H]
  note o = owned_words [OF A, folded heap_end_def, THEN m]
  have head: "mem t (p + 8) = mem s (p + 8)" if "p \<in> insert (top_chunk s) (dom C)" for p
    by (rule o(1) [OF that])
  have T': "tagged (mem t) (top_chunk s) ts C {}"
    unfolding tagged_def
  proof (intro conjI allI impI)
    show "mem t (p + 8) = sz OR flag C p" if "C p = Some (sz, k)" for p sz k
      using head [of p] tagged_head [OF T that] that by auto
    show "mem t (top_chunk s + 8) = ts OR 1" using head tagged_top [OF T] by simp
    show "mem t (p + sz) = sz" if "C p = Some (sz, Free)" for p sz
      using o(2) [OF that _ own_words(4) [OF A that]] tagged_foot [OF T that] by simp
  qed (use T in \<open>auto simp: tagged_def\<close>)
  have "link_words (bin_nodes (av_bins s) B) \<subseteq> touch lo (heap_end s ts) (av_bins s) (in_use C)"
    using links_touch_live [OF H] touch_anti [of "in_use C" "live C" lo "heap_end s ts" "av_bins s"]
    by (auto simp: in_use_of_live)
  then have B': "binned (mem t) (av_bins s) (marked s) C B {}"
    using m by (intro binned_frame [OF core_binned [OF H]]) blast
  have core: "heap_core t lo ts C B {} {}"
    unfolding heap_core_def same_avD [OF v] marked_cong [OF same_avD(3) [OF v]] using A T' B' by blast
  have "fast_list (mem t) (fastbins s i) (F i)" if i: "i < 11" for i
  proof (rule fast_list_frame [OF fast_okD(1) [OF heap_invD(2) [OF I] i]])
    fix x assume "x \<in> set (F i)"
    then obtain sz where x: "C x = Some (sz, Fast)" using fast_okD(3) [OF heap_invD(2) [OF I] i] by blast
    show "mem t (x + 16) = mem s (x + 16)" by (rule o(2) [OF x _ own_words(2) [OF A x]]) simp
  qed
  then have fo: "fast_ok (mem t) (fastbins t) C F"
    using heap_invD(2) [OF I] unfolding fast_ok_def same_avD [OF v] by blast
  show ?thesis by (rule heap_inv_parts [OF I v core fo])
qed

text \<open>What a user writes into a chunk in use.\<close>

lemma data_not_owned:
  assumes I: "heap_inv s lo ts C B F" and p: "C p = Some (sz, Used)" and a: "a \<in> data_words p sz"
  shows "a \<notin> touch lo (heap_end s ts) (av_bins s) (in_use C)"
proof -
  note A = core_arena [OF heap_invD(1) [OF I]]
  have "unat lo \<le> unat a" "unat a < heap_end s ts + 8"
    using a chunk_bounds(1,2) [OF A p] by (auto simp: data_words_def heap_end_def)
  then show ?thesis
    using arena_bounds(8) [OF A] p a by (fastforce simp: touch_def heap_end_def in_use_some)
qed

lemma user_write_inv:
  assumes I: "heap_inv s lo ts C B F" and p: "C p = Some (sz, Used)" and v: "same_av s t"
    and w: "\<And>a. a \<notin> data_words p sz \<Longrightarrow> mem t a = mem s a"
  shows "heap_inv t lo ts C B F"
  by (rule heap_inv_owned [OF I v]) (use w data_not_owned [OF I p] in blast)

section \<open>The top chunk grows\<close>

lemma grow_top:
  assumes I: "heap_inv s lo ts C B F" and n: "chunk_size_ok (ts + n)" "unat (ts + n) = unat ts + unat n"
    and e: "heap_end s ts + unat n + 16 < 2 ^ 64" "heap_end s ts + unat n < unat lo + 2 ^ 32"
    and av: "unat (av_bins s) + 1536 \<le> unat lo \<or> heap_end s ts + unat n + 16 \<le> unat (av_bins s)"
  shows "heap_inv (set_head (top_chunk s) ((ts + n) OR 1) s) lo (ts + n) C B F"
proof -
  note H = heap_invD(1) [OF I]
  note A = core_arena [OF H] and T = core_tagged [OF H]
  let ?tp = "top_chunk s" and ?t = "set_head (top_chunk s) ((ts + n) OR 1) s"
  have m: "mem ?t = (mem s)(?tp + 8 := (ts + n) OR 1)" by (simp add: set_head_def wr_def)
  have f: "top_chunk ?t = ?tp" "av_bins ?t = av_bins s" "fastbins ?t = fastbins s" "marked ?t = marked s"
    by (simp_all add: set_head_def)
  have A': "arena lo ?tp (ts + n) C (av_bins s)"
    using A n e av unfolding arena_def heap_end_def by auto
  have tp: "?tp \<in> insert ?tp (dom C)" by simp
  have other: "p + 8 \<noteq> ?tp + 8" if "C p = Some (sz, k)" for p sz k
    using next_not_self(2) [OF arena_layout [OF A] that] by simp
  have T': "tagged (mem ?t) ?tp (ts + n) C {}"
    unfolding tagged_def m
  proof (intro conjI allI impI)
    show "((mem s)(?tp + 8 := (ts + n) OR 1)) (p + 8) = sz OR flag C p" if "C p = Some (sz, k)" for p sz k
      using other [OF that] tagged_head [OF T that] by simp
    show "((mem s)(?tp + 8 := (ts + n) OR 1)) (p + sz) = sz" if "C p = Some (sz, Free)" for p sz
      using head_foot [OF A tp that] tagged_foot [OF T that] by simp
  qed (use T in \<open>auto simp: tagged_def\<close>)
  have sub: "bin_nodes (av_bins s) B \<subseteq> all_nodes (av_bins s) C"
    using binned_member [OF core_binned [OF H]] by (fastforce simp: bin_nodes_def all_nodes_def)
  have B': "binned (mem ?t) (av_bins s) (marked s) C B {}"
    by (rule binned_frame [OF core_binned [OF H]])
       (use other_header [OF H tp] link_words_mono [OF sub] m in auto)
  have core: "heap_core ?t lo (ts + n) C B {} {}" unfolding heap_core_def f using A' T' B' by blast
  have "fast_list (mem ?t) (fastbins s i) (F i)" if i: "i < 11" for i
  proof (rule fast_list_frame [OF fast_okD(1) [OF heap_invD(2) [OF I] i]])
    fix x assume "x \<in> set (F i)"
    then have "x \<in> dom C" using fast_okD(3) [OF heap_invD(2) [OF I] i] by blast
    then show "mem ?t (x + 16) = mem s (x + 16)" using head_link(1) [OF A tp, of x] by (auto simp: m)
  qed
  then have fo: "fast_ok (mem ?t) (fastbins ?t) C F"
    using heap_invD(2) [OF I] unfolding fast_ok_def f by blast
  show ?thesis by (rule heap_inv_parts [OF I _ core fo]) (simp add: same_av_def set_head_def)
qed

end
