(* ===== verification/Dl_Sys_Props.thy ===== *)
theory Dl_Sys_Props
  imports Dl_Malloc_Props
begin

text \<open>
  What \<open>sYSMALLOc\<close> makes of an \<open>sbrk\<close> that reports failure by a null pointer.
\<close>

unbundle bit_operations_syntax

section \<open>Pages\<close>

lemma page_up_mask:
  assumes "pagesize s = malloc_getpagesize"
  shows "page_up s x = (x + mask 12) AND NOT (mask 12)"
  by (simp add: page_up_def pagemask_def assms malloc_getpagesize_def mask_eq_exp_minus_1)

lemma add_mask_up:
  assumes "y AND mask n = (0 :: u64)" shows "(y + mask n) AND NOT (mask n) = y"
proof -
  have "y + mask n = y OR mask n" by (rule disjunctive_add_eq_or) (rule assms)
  then have "(y + mask n) AND NOT (mask n) = (y OR mask n) AND NOT (mask n)" by simp
  also have "\<dots> = y"
  proof (rule bit_word_eqI)
    fix i assume "i < LENGTH(64)"
    have "bit (y AND mask n) i = bit (0 :: u64) i" using assms by simp
    then show "bit ((y OR mask n) AND NOT (mask n)) i = bit y i"
      using \<open>i < LENGTH(64)\<close> by (auto simp: bit_simps)
  qed
  finally show ?thesis .
qed

lemma page_up_page_up:
  assumes "pagesize s = malloc_getpagesize" shows "page_up s (page_up s x) = page_up s x"
proof -
  have "((x + mask 12) AND NOT (mask 12)) AND mask 12 = 0" by (simp add: and.assoc)
  then show ?thesis by (simp only: page_up_mask [OF assms] add_mask_up)
qed

lemma page_up_cong: "pagesize t = pagesize s \<Longrightarrow> page_up t x = page_up s x"
  by (simp add: page_up_def pagemask_def)

section \<open>A failed sbrk\<close>


text \<open>A heap before its first allocation, and a request of 64 MiB for a heap of 1 MiB.\<close>

definition demo_fresh :: malloc_state where
  "demo_fresh = demo_dl\<lparr>mem := demo_mem(0x1008 := 0), top_chunk := 0x1000, heap_top := Some 0xFFFF880000000000\<rparr>"


end
