(* ===== verification/Heap_Frame.thy ===== *)
theory Heap_Frame
  imports Heap
begin

text \<open>
  What the memory management writes: mapping a page and growing the heap change no word outside
  the page tables and the memory of the physical allocator, and they succeed while there is room.
\<close>

unbundle bit_operations_syntax

section \<open>Mapping a page\<close>

definition tables_in :: "nat set \<Rightarrow> 'a machine_scheme \<Rightarrow> u64 \<Rightarrow> bool" where
  "tables_in R s root \<longleftrightarrow>
     (\<forall>is t. short_path is \<longrightarrow> table_at s root is = Some t \<longrightarrow> span t PAGE_SIZE \<subseteq> R)"

definition writes_in :: "nat set \<Rightarrow> 'a machine_scheme \<Rightarrow> 'a machine_scheme \<Rightarrow> bool" where
  "writes_in R s t \<longleftrightarrow> (\<forall>x. unat x \<notin> R \<longrightarrow> mem t x = mem s x)"

lemma writes_in_refl [simp]: "writes_in R s s"
  by (simp add: writes_in_def)

lemma writes_in_trans: "writes_in R s t \<Longrightarrow> writes_in R t u \<Longrightarrow> writes_in R s u"
  by (simp add: writes_in_def)

lemma writes_inD: "writes_in R s t \<Longrightarrow> unat x \<notin> R \<Longrightarrow> mem t x = mem s x"
  by (simp add: writes_in_def)

lemma tables_inD:
  "tables_in R s root \<Longrightarrow> short_path is \<Longrightarrow> table_at s root is = Some t \<Longrightarrow> span t PAGE_SIZE \<subseteq> R"
  by (simp add: tables_in_def)

lemma tables_in_same:
  "tables_in R s root \<Longrightarrow> (\<And>is. short_path is \<Longrightarrow> table_at t root is = table_at s root is) \<Longrightarrow> tables_in R t root"
  by (simp add: tables_in_def)

text \<open>One table more, taken from free memory.\<close>

lemma ensure_table_frame:
  assumes ok: "vm_ok s root A" and R: "A \<subseteq> R" "tables_in R s root"
    and t: "table_at s root is = Some t" and i: "short_path (is @ [i])"
    and run: "ensure_table (entry_addr t i) s = Some (r, s')"
  shows "tables_in R s' root" "writes_in R s s'"
proof -
  let ?e = "entry_addr t i"
  have wf: "pt_wf s root A" and pm: "pma_free_at s A" and dm: "direct_mapped s A"
    using ok by (auto simp: vm_ok_def)
  have pis: "short_path is" and ib: "unat i < 512" using i short_path_append by (auto simp: short_path_def)
  have gt: "good_table A t" by (rule pt_wf_table [OF wf pis t])
  have eR: "unat ?e \<in> R"
    using tables_inD [OF R(2) pis t] entry_addr_in_span [of t i] gt ib by (auto simp: good_table_def)
  have "tables_in R s' root \<and> writes_in R s s'"
  proof (cases "present (mem s ?e)")
    case True
    then show ?thesis using run R(2) by (auto simp: ensure_table_def present_def)
  next
    case absent: False
    obtain p s1 B where a: "alloc_page s = Some (p, s1)" "B \<subseteq> A"
      "hhdm_offset s1 = hhdm_offset s" "\<And>x. unat x \<notin> A \<Longrightarrow> mem s1 x = mem s x"
      "p \<noteq> 0 \<longrightarrow> 4096 dvd unat (p + hhdm_offset s) \<and> fits (p + hhdm_offset s) PAGE_SIZE
         \<and> page_span (hhdm_offset s) p \<subseteq> A - B"
      using phys.alloc_ok [OF pm] by blast
    let ?T = "p + hhdm_offset s"
    show ?thesis
    proof (cases "p = 0")
      case True
      then have "s' = s1" using run absent a(1) by (simp add: ensure_table_def alloc_table_def present_def)
      then show ?thesis
        using tables_in_same [OF R(2) walks_unchanged(1) [OF wf a(3,4)]] a(4) R(1)
        by (auto simp: writes_in_def)
    next
      case False
      then have T: "4096 dvd unat ?T" "fits ?T PAGE_SIZE" "span ?T PAGE_SIZE \<subseteq> A - B"
        using a(5) by (auto simp: page_span_def)
      have "unat ?T \<in> span ?T PAGE_SIZE" by (simp add: span_def)
      then have "unat ?T \<in> A" using T(3) by blast
      then have "?T \<noteq> 0" using pma_free_at_0 [OF pm] by (metis unat_0)
      then have gT: "good_table B ?T" using T by (auto simp: good_table_def)
      have TA: "span ?T PAGE_SIZE \<subseteq> A" using T(3) by blast
      have s': "s' = (zero_page ?T s1)\<lparr>mem := (mem (zero_page ?T s1))(?e := table_entry p)\<rparr>"
        using run absent a(1,3) False \<open>?T \<noteq> 0\<close>
        by (auto simp: ensure_table_def alloc_table_def present_def get_memory_slide_def table_entry_def Let_def)
      have eT: "unat ?e \<notin> span ?T PAGE_SIZE" using entry_addr_free [OF gt ib] TA by blast
      have off: "hhdm_offset s' = hhdm_offset s" using a(3) by (simp add: s')
      have entry: "present (mem s' ?e)" "child s (mem s' ?e) = ?T"
        using table_entry_links [of p] frame_of_table [OF dm gT TA] by (simp_all add: child_def s')
      have zero: "mem s' x = 0" if "unat x \<in> span ?T PAGE_SIZE" for x
        using that eT T(2) by (auto simp: mem_zero_page s')
      have same: "mem s' x = mem s x" if "unat x \<notin> A" "x \<noteq> ?e" for x
        using that TA T(2) a(4) by (auto simp: mem_zero_page s')
      note link = link_table(5) [OF wf t i absent off gT TA a(2) entry zero same]
      have "tables_in R s' root"
        unfolding tables_in_def using link tables_inD [OF R(2)] TA R(1) by (metis subset_trans)
      moreover have "writes_in R s s'"
        unfolding writes_in_def using same eR R(1) by blast
      ultimately show ?thesis ..
    qed
  qed
  then show "tables_in R s' root" "writes_in R s s'" by simp_all
qed

lemma map_virtual_frame:
  assumes ok: "vm_ok s root A" and R: "A \<subseteq> R" "tables_in R s root" and args: "good_args virt phys"
    and run: "map_virtual root virt phys flags s = Some (r, t)"
  shows "tables_in R t root \<and> writes_in R s t"
proof -
  note idx = page_path_index [of virt]
  let ?i = "va_pml4_index virt" and ?j = "va_pdp_index virt" and ?k = "va_pd_index virt"
  have g: "pt_wf s root A" using ok by (simp add: vm_ok_def)
  have "good_table A root" by (rule pt_wf_table [OF g short_path_va(1)]) simp
  then have root: "root \<noteq> 0" by (simp add: good_table_def)
  have sp: "short_path ([] @ [?i])" "short_path ([?i] @ [?j])" "short_path ([?i, ?j] @ [?k])"
    using short_path_va by auto
  note start = run args [unfolded good_args_def] root
  obtain r1 s1 A1 where e1: "ensure_table (entry_addr root ?i) s = Some (r1, s1)" "vm_ok s1 root A1"
    "A1 \<subseteq> A" "r1 \<noteq> 0 \<longrightarrow> table_at s1 root [?i] = Some r1"
    using ensure_table_step [OF ok _ sp(1), of root] by auto
  note f1 = ensure_table_frame [OF ok R _ sp(1) e1(1), simplified]
  show ?thesis
  proof (cases "r1 = 0")
    case True
    then show ?thesis using start e1(1) f1 by (simp add: map_virtual_def Let_def idx)
  next
    case r1: False
    obtain r2 s2 A2 where e2: "ensure_table (entry_addr r1 ?j) s1 = Some (r2, s2)" "vm_ok s2 root A2"
      "A2 \<subseteq> A1" "r2 \<noteq> 0 \<longrightarrow> table_at s2 root [?i, ?j] = Some r2"
      using ensure_table_step [OF e1(2) _ sp(2), of r1] e1(4) r1 by auto
    have R1: "A1 \<subseteq> R" using e1(3) R(1) by blast
    have "table_at s1 root [?i] = Some r1" using e1(4) r1 by blast
    note f2 = ensure_table_frame [OF e1(2) R1 f1(1) this sp(2) e2(1)]
    show ?thesis
    proof (cases "r2 = 0")
      case True
      then show ?thesis using start e1(1) e2(1) r1 f2 writes_in_trans [OF f1(2)]
        by (simp add: map_virtual_def Let_def idx)
    next
      case r2: False
      have t2: "table_at s2 root [?i, ?j] = Some r2" using e2(4) r2 by blast
      obtain r3 s3 A3 where e3: "ensure_table (entry_addr r2 ?k) s2 = Some (r3, s3)" "vm_ok s3 root A3"
        "A3 \<subseteq> A2" "r3 \<noteq> 0 \<longrightarrow> table_at s3 root [?i, ?j, ?k] = Some r3"
        using ensure_table_step [OF e2(2) t2 sp(3)] by auto
      have R2: "A2 \<subseteq> R" using e2(3) R1 by blast
      note f3 = ensure_table_frame [OF e2(2) R2 f2(1) t2 sp(3) e3(1)]
      have w3: "writes_in R s s3" by (rule writes_in_trans [OF writes_in_trans [OF f1(2) f2(2)] f3(2)])
      show ?thesis
      proof (cases "r3 = 0")
        case True
        then show ?thesis using start e1(1) e2(1) e3(1) r1 r2 f3(1) w3
          by (simp add: map_virtual_def Let_def idx)
      next
        case r3: False
        let ?a = "entry_addr r3 (va_pt_index virt)" and ?x = "(phys AND ppn_mask) OR entry_flags flags"
        let ?s4 = "s3\<lparr>mem := (mem s3)(?a := ?x)\<rparr>"
        have t3: "table_at s3 root [?i, ?j, ?k] = Some r3" using e3(4) r3 by blast
        have w: "pt_wf s3 root A3" using e3(2) by (simp add: vm_ok_def)
        have "unat ?a \<in> R"
          using tables_inD [OF f3(1) short_path_va(4) t3] entry_addr_in_span [OF _ index_bound(4)]
            pt_wf_table [OF w short_path_va(4) t3] by (auto simp: good_table_def)
        then have "writes_in R s3 ?s4" by (auto simp: writes_in_def)
        then have wr: "writes_in R s ?s4" by (rule writes_in_trans [OF w3])
        have tb: "tables_in R ?s4 root"
          by (rule tables_in_same [OF f3(1) write_leaf(4) [OF e3(2) t3 refl]])
        have t: "t = ?s4 \<or> t = invlpg virt ?s4"
          using start e1(1) e2(1) e3(1) r1 r2 r3 by (auto simp: map_virtual_def Let_def idx)
        have tab: "table_at (invlpg virt ?s4) u js = table_at ?s4 u js" for u js
          by (rule table_at_frame) (simp_all add: invlpg_def)
        have "tables_in R (invlpg virt ?s4) root" using tb unfolding tables_in_def tab .
        moreover have "writes_in R s (invlpg virt ?s4)" using wr unfolding writes_in_def invlpg_def by simp
        ultimately show ?thesis using t wr tb by blast
      qed
    qed
  qed
qed

section \<open>Growing the heap\<close>

text \<open>A page from the allocator, as the loops of \<open>sbrk\<close> and \<open>mmap\<close> take it.\<close>

lemma alloc_page_frame:
  assumes "vm_ok s root A" "A \<subseteq> R" "tables_in R s root" "alloc_page s = Some (p, t)"
  shows "tables_in R t root" "writes_in R s t"
proof -
  have wf: "pt_wf s root A" and pm: "pma_free_at s A" using assms(1) by (auto simp: vm_ok_def)
  have a: "hhdm_offset t = hhdm_offset s" "\<And>x. unat x \<notin> A \<Longrightarrow> mem t x = mem s x"
    using phys.alloc_ok [OF pm] assms(4) by auto
  show "tables_in R t root" by (rule tables_in_same [OF assms(3) walks_unchanged(1) [OF wf a]])
  show "writes_in R s t" using a(2) assms(2) by (auto simp: writes_in_def)
qed

text \<open>One round of the loop.\<close>

lemma sbrk_round:
  assumes ok: "vm_ok s (pagemap s) A" and v: "v \<noteq> 0" "4096 dvd unat v"
    and a: "alloc_page s = Some (p, s1)" "p \<noteq> 0"
  obtains b s2 B where "map_virtual (pagemap s1) v p heap_flags s1 = Some (b, s2)" "vm_ok s2 (pagemap s2) B" "B \<subseteq> A"
    "pagemap s2 = pagemap s" "same_kernel s s2" "pagemap s1 = pagemap s"
    "\<And>R. A \<subseteq> R \<Longrightarrow> tables_in R s (pagemap s) \<Longrightarrow> tables_in R s2 (pagemap s) \<and> writes_in R s s2"
    "\<And>k. room s (k + 32768) \<Longrightarrow> k = 0 \<or> 16 < k \<Longrightarrow> b \<and> (0 < k \<longrightarrow> room s2 k)"
proof -
  obtain A1 where A1: "vm_ok s1 (pagemap s) A1" "A1 \<subseteq> A" "only_mem s s1" "4096 dvd unat p"
    using alloc_page_vm [OF ok] a by auto
  have args: "good_args v p" using v a(2) A1(4) by (simp add: good_args_def check_aligned_page)
  obtain b s2 B where m: "map_virtual (pagemap s) v p heap_flags s1 = Some (b, s2)" "vm_ok s2 (pagemap s) B" "B \<subseteq> A1"
    "only_mem s1 (s2\<lparr>invlpg_log := invlpg_log s1\<rparr>)"
    using map_virtual_run [OF A1(1) args, of heap_flags] by blast
  have k1: "same_kernel s s1" by (rule only_mem_kernel [OF A1(3)])
  have k2: "same_kernel s s2" by (rule same_kernel_trans [OF k1 only_mem_log [OF m(4)]])
  have r: "pagemap s1 = pagemap s" "pagemap s2 = pagemap s" using pagemap_same [OF k1] pagemap_same [OF k2] by simp_all
  show ?thesis
  proof (rule that [of b s2 B])
    show "tables_in R s2 (pagemap s) \<and> writes_in R s s2" if "A \<subseteq> R" "tables_in R s (pagemap s)" for R
    proof -
      note f = alloc_page_frame [OF ok that a(1)]
      have "A1 \<subseteq> R" using A1(2) that(1) by blast
      then show ?thesis using map_virtual_frame [OF A1(1) _ f(1) args m(1)] writes_in_trans [OF f(2)] by blast
    qed
    show "b \<and> (0 < k \<longrightarrow> room s2 k)" if "room s (k + 32768)" "k = 0 \<or> 16 < k" for k
    proof -
      have "room s ((k + 24576) + 8192)" using that(1) by (simp add: add.commute)
      then obtain p' t bs where "alloc_page s = Some (p', t)" "blocks_at t bs" "wf_blocks bs"
        "\<exists>c \<in> set bs. k + 24576 \<le> unat (snd c)"
        using alloc_page_room [OF ok, of "k + 24576"] by auto
      then have "room s1 (k + 24576)" using a(1) by (auto simp: room_def)
      then show ?thesis using map_virtual_room [OF A1(1) args _ that(2), of heap_flags] m(1) by auto
    qed
  qed (use m A1(2) r k2 in auto)
qed

lemma sbrk_loop_frame:
  assumes "vm_ok s (pagemap s) A" "old \<noteq> 0" "4096 dvd unat old" "unat old + (unat i + k) * 4096 < 2 ^ 64"
    and "sbrk_loop old i k s = Some (ok, t)"
  shows "(A \<subseteq> R \<longrightarrow> tables_in R s (pagemap s) \<longrightarrow> tables_in R t (pagemap s) \<and> writes_in R s t) \<and>
    (room s (k * 32768) \<longrightarrow> ok)"
  using assms
proof (induction k arbitrary: i s A)
  case 0
  then show ?case by simp
next
  case (Suc k)
  let ?v = "heap_page old i 0"
  have v: "unat ?v = unat old + unat i * 4096"
    using unat_heap_page [of old i "Suc k" 0] Suc.prems(4) by simp
  then have v': "?v \<noteq> 0" "4096 dvd unat ?v"
    using Suc.prems(2,3) by (auto simp: unat_eq_0 dest: arg_cong [of _ _ unat])
  obtain p s1 where a: "alloc_page s = Some (p, s1)" using alloc_page_vm [OF Suc.prems(1)] by blast
  show ?case
  proof (cases "p = 0")
    case True
    then have t: "t = set_error OutOfMemory s1" using Suc.prems(5) a by simp
    have "\<not> room s (Suc k * 32768)"
    proof
      assume "room s (Suc k * 32768)"
      then have "room s (0 + 8192)" unfolding room_def by (fastforce elim: order_trans [rotated])
      then show False using alloc_page_room [OF Suc.prems(1), of 0] a True by auto
    qed
    moreover have "tables_in R t (pagemap s) \<and> writes_in R s t" if "A \<subseteq> R" "tables_in R s (pagemap s)"
      using alloc_page_frame [OF Suc.prems(1) that a]
        tables_in_same [of R s1 "pagemap s" t] table_at_frame [of t s1] unfolding t by (simp add: writes_in_def)
    ultimately show ?thesis by blast
  next
    case False
    obtain b s2 B where m: "map_virtual (pagemap s1) ?v p heap_flags s1 = Some (b, s2)" "vm_ok s2 (pagemap s2) B" "B \<subseteq> A"
      "pagemap s2 = pagemap s" "same_kernel s s2" "pagemap s1 = pagemap s"
      "\<And>R. A \<subseteq> R \<Longrightarrow> tables_in R s (pagemap s) \<Longrightarrow> tables_in R s2 (pagemap s) \<and> writes_in R s s2"
      "\<And>k. room s (k + 32768) \<Longrightarrow> k = 0 \<or> 16 < k \<Longrightarrow> b \<and> (0 < k \<longrightarrow> room s2 k)"
      by (rule sbrk_round [OF Suc.prems(1) v' a False]) (rule that)
    have run: "sbrk_loop old i (Suc k) s
        = (if \<not> b then Some (False, set_error MapFail s2) else sbrk_loop old (i + 1) k s2)"
      using a False m(1) by (simp add: heap_page_0 heap_flags_def)
    have step: "room s2 (k * 32768) \<or> k = 0" "b" if "room s (Suc k * 32768)"
    proof -
      have "k * 32768 = 0 \<or> 16 < k * 32768" by (cases k) auto
      moreover have "room s (k * 32768 + 32768)" using that by (simp add: add.commute)
      ultimately have "b \<and> (0 < k * 32768 \<longrightarrow> room s2 (k * 32768))" by (rule m(8) [rotated])
      then show "room s2 (k * 32768) \<or> k = 0" "b" by auto
    qed
    show ?thesis
    proof (cases b)
      case False
      then have t: "t = set_error MapFail s2" "\<not> ok" using Suc.prems(5) run by auto
      have "tables_in R t (pagemap s) \<and> writes_in R s t" if "A \<subseteq> R" "tables_in R s (pagemap s)"
        using m(7) [OF that]
          tables_in_same [of R s2 "pagemap s" t] table_at_frame [of t s2] unfolding t by (simp add: writes_in_def)
      then show ?thesis using step(2) False by blast
    next
      case True
      have i1: "unat (i + 1) = unat i + 1"
        using Suc.prems(4) by (subst unat_add_nowrap) auto
      have le: "unat old + (unat (i + 1) + k) * 4096 < 2 ^ 64" using Suc.prems(4) i1 by simp
      have go: "sbrk_loop old (i + 1) k s2 = Some (ok, t)" using Suc.prems(5) run True by simp
      note IH = Suc.IH [OF m(2) Suc.prems(2,3) le go]
      have "tables_in R t (pagemap s) \<and> writes_in R s t" if R: "A \<subseteq> R" "tables_in R s (pagemap s)"
        using IH m(4) m(7) [OF R] m(3) R(1) writes_in_trans by (metis subset_trans)
      moreover have "ok" if "room s (Suc k * 32768)"
      proof (cases "k = 0")
        case True
        then show ?thesis using go by simp
      next
        case False
        then show ?thesis using step(1) [OF that] IH by blast
      qed
      ultimately show ?thesis by blast
    qed
  qed
qed

lemma tables_in_heap_top [simp]:
  "tables_in R (s\<lparr>heap_top := x\<rparr>) root = tables_in R s root" "room (s\<lparr>heap_top := x\<rparr>) k = room s k"
proof -
  have "table_at (s\<lparr>heap_top := x\<rparr>) root is = table_at s root is" for "is" by (rule table_at_frame) simp_all
  then show "tables_in R (s\<lparr>heap_top := x\<rparr>) root = tables_in R s root" by (simp add: tables_in_def)
  show "room (s\<lparr>heap_top := x\<rparr>) k = room s k" by (simp add: room_def blocks_at_def)
qed

text \<open>What \<open>sbrk\<close> keeps, and when it succeeds.\<close>

lemma sbrk_frame:
  assumes ok: "heap_ok s A" and inc: "increment \<noteq> 0" "\<not> increment <s 0"
    and nowrap: "unat (cur_top s) + unat increment + 4096 \<le> 2 ^ 64"
    and R: "A \<subseteq> R" "tables_in R s (pagemap s)" and run: "sbrk increment s = Some (r, t)"
  shows "writes_in R s t" "kernel.more t = kernel.more s" "tables_in R t (pagemap t)"
    "heap_base t = heap_base s" "heap_size t = heap_size s"
    "room s (grown_pages increment * 32768) \<Longrightarrow>
       unat (cur_top s) + unat (align_up increment PAGE_SIZE) \<le> unat (heap_base s) + unat (heap_size s) \<Longrightarrow> r \<noteq> 0"
proof -
  let ?old = "cur_top s" and ?al = "align_up increment PAGE_SIZE" and ?k = "grown_pages increment"
  let ?u = "s\<lparr>heap_top := Some ?old\<rparr>"
  have u: "(if heap_top s = None then s\<lparr>heap_top := Some (heap_base s)\<rparr> else s) = ?u"
    by (cases "heap_top s") (simp_all add: cur_top_def)
  have sk: "vm_ok ?u (pagemap ?u) A" "is_initialized s" using ok by (auto simp: heap_ok_def)
  have old: "?old \<noteq> 0" "4096 dvd unat ?old" using ok by (auto simp: heap_ok_def unat_eq_0)
  have al: "4096 dvd unat ?al" "unat ?al < unat increment + 4096"
    using align_up_page_spec [of increment] nowrap by simp_all
  have nw: "unat (?old + ?al) = unat ?old + unat ?al"
    using nowrap al(2) by (intro unat_add_nowrap) simp
  have lim: "unat (heap_base s + heap_size s) = unat (heap_base s) + unat (heap_size s)"
    using ok by (intro unat_add_nowrap) (simp add: heap_ok_def)
  have eq: "sbrk increment s =
      (if ?old + ?al > heap_base s + heap_size s then Some (0, set_error OutOfMemory ?u)
       else do { (b, t) \<leftarrow> sbrk_loop ?old 0 ?k ?u;
                 if \<not> b then Some (0, t) else Some (?old, t\<lparr>heap_top := Some (?old + ?al)\<rparr>) })"
    using sk(2) inc unfolding sbrk_def u
    by (simp add: Let_def grown_pages_def unat_div_page cong: if_cong)
  have fits: "?old + ?al > heap_base s + heap_size s \<longleftrightarrow>
      unat (heap_base s) + unat (heap_size s) < unat ?old + unat ?al"
    using nw lim by (simp add: word_less_nat_alt)
  have "writes_in R s t \<and> kernel.more t = kernel.more s \<and> tables_in R t (pagemap t) \<and>
      heap_base t = heap_base s \<and> heap_size t = heap_size s \<and> (room s (?k * 32768) \<longrightarrow>
       unat ?old + unat ?al \<le> unat (heap_base s) + unat (heap_size s) \<longrightarrow> r \<noteq> 0)"
  proof (cases "?old + ?al > heap_base s + heap_size s")
    case True
    then have t: "t = set_error OutOfMemory ?u" using run eq by simp
    have "tables_in R t (pagemap s)"
      by (rule tables_in_same [OF R(2)]) (rule table_at_frame, simp_all add: t)
    moreover have "pagemap t = pagemap s"
      by (simp add: t pagemap_def get_cr3_def get_memory_slide_def)
    ultimately show ?thesis using True fits t by (simp add: writes_in_def set_error_def)
  next
    case False
    have k: "unat ?old + (unat (0::u64) + ?k) * 4096 < 2 ^ 64" "?k \<le> 2 ^ 35"
    proof -
      have k: "?k * 4096 = unat ?al" using al(1) by (simp add: grown_pages_def)
      have b: "unat ?old + unat ?al \<le> unat (heap_base s) + unat (heap_size s)" "unat (heap_base s) \<le> unat ?old"
        "unat (heap_size s) \<le> 2 ^ 47" "unat (heap_base s) + unat (heap_size s) < 2 ^ 64"
        using ok False fits by (simp_all add: heap_ok_def)
      then show "unat ?old + (unat (0::u64) + ?k) * 4096 < 2 ^ 64" using k by simp
      have "?k * 4096 \<le> 2 ^ 47" using k b by linarith
      then show "?k \<le> 2 ^ 35" by simp
    qed
    obtain b t' where t': "sbrk_loop ?old 0 ?k ?u = Some (b, t')" "same_kernel ?u t'"
      using sbrk_loop_spec [OF sk(1) old k] by blast
    have f: "tables_in R t' (pagemap s) \<and> writes_in R ?u t'" "room s (?k * 32768) \<Longrightarrow> b"
      using sbrk_loop_frame [OF sk(1) old k(1) t'(1), of R] R by simp_all
    have m: "kernel.more t' = kernel.more s" "heap_base t' = heap_base s" "heap_size t' = heap_size s"
      using t'(2) by (simp_all add: same_kernel_def)
    have pg: "pagemap t' = pagemap s" using pagemap_same [OF t'(2)] by simp
    have w: "writes_in R s t'" using f(1) by (simp add: writes_in_def)
    have rt: "r = (if b then ?old else 0)" "t = (if b then t'\<lparr>heap_top := Some (?old + ?al)\<rparr> else t')"
      using run eq False t'(1) by auto
    have "tables_in R t (pagemap t)" using rt(2) f(1) pg by simp
    then show ?thesis using rt m w f(2) old(1) by (auto simp: writes_in_def)
  qed
  then show "writes_in R s t" "kernel.more t = kernel.more s" "tables_in R t (pagemap t)"
    "heap_base t = heap_base s" "heap_size t = heap_size s"
    "room s (?k * 32768) \<Longrightarrow> unat ?old + unat ?al \<le> unat (heap_base s) + unat (heap_size s) \<Longrightarrow> r \<noteq> 0"
    by simp_all
qed

section \<open>What others write\<close>

text \<open>Nothing of this depends on words outside the tables and the free memory.\<close>

lemma vm_ok_outside:
  assumes ok: "vm_ok s root A" and R: "A \<subseteq> R" "tables_in R s root"
    and t: "hhdm_offset t = hhdm_offset s" "m_head t = m_head s" "\<And>x. unat x \<in> R \<Longrightarrow> mem t x = mem s x"
  shows "vm_ok t root A" "tables_in R t root" "room s k \<Longrightarrow> room t k"
proof -
  have wf: "pt_wf s root A" and pm: "pma_free_at s A" and dm: "direct_mapped s A"
    using ok by (auto simp: vm_ok_def)
  have tab: "table_at t root is = table_at s root is" if "short_path is" for "is"
  proof (rule table_at_frame [OF t(1)])
    fix ps k qs u
    assume a: "is = ps @ k # qs" "table_at s root ps = Some u"
    then have p: "short_path ps" "unat k < 512" using that by (auto simp: short_path_def)
    have "good_table A u" by (rule pt_wf_table [OF wf p(1) a(2)])
    then have "unat (entry_addr u k) \<in> R"
      using entry_addr_in_span [OF _ p(2)] tables_inD [OF R(2) p(1) a(2)] by (auto simp: good_table_def)
    then show "mem t (entry_addr u k) = mem s (entry_addr u k)" by (rule t(3))
  qed
  have "pt_wf t root A"
    by (rule pt_wfI) (use pt_wf_table [OF wf] pt_wf_unique [OF wf] tab in \<open>metis\<close>)+
  moreover have "pma_free_at t A" by (rule pma_free_at_cong [OF pm t(2)]) (use t(3) R(1) in blast)
  moreover have "direct_mapped t A" by (rule direct_mapped_mono [OF dm subset_refl t(1)])
  ultimately show "vm_ok t root A" by (simp add: vm_ok_def)
  show "tables_in R t root" by (rule tables_in_same [OF R(2) tab])
  show "room t k" if r: "room s k"
  proof -
    obtain bs where bs: "blocks_at s bs" "wf_blocks bs" "\<exists>b \<in> set bs. k \<le> unat (snd b)"
      using r by (auto simp: room_def)
    obtain cs where "blocks_at s cs" "cover cs = A" using pm by (auto simp: pma_free_at_def)
    then have "cover bs = A" using bs(1) seg_unique by (metis blocks_at_def)
    then have "mem t x = mem s x" if "x \<in> hdrs bs" for x
      using hdrs_cover [OF bs(2) that] R(1) t(3) by blast
    then have "seg (mem t) (m_head s) bs 0 = seg (mem s) (m_head s) bs 0" by (rule seg_cong)
    then have "blocks_at t bs" using bs(1) t(2) by (simp add: blocks_at_def)
    then show ?thesis using bs(2,3) by (auto simp: room_def)
  qed
qed

lemma heap_ok_outside:
  assumes "heap_ok s A" "A \<subseteq> R" "tables_in R s (pagemap s)" "kernel.truncate (t\<lparr>mem := m\<rparr>) = kernel.truncate (s\<lparr>mem := m\<rparr>)"
    and "\<And>x. unat x \<in> R \<Longrightarrow> mem t x = mem s x"
  shows "heap_ok t A" "tables_in R t (pagemap t)" "pagemap t = pagemap s" "room s k \<Longrightarrow> room t k"
    "cur_top t = cur_top s" "heap_base t = heap_base s" "heap_size t = heap_size s"
proof -
  have f: "hhdm_offset t = hhdm_offset s" "m_head t = m_head s" "cr3 t = cr3 s" "is_initialized t = is_initialized s"
    "heap_base t = heap_base s" "heap_size t = heap_size s" "heap_top t = heap_top s"
    using assms(4) by (simp_all add: kernel.defs)
  show p: "pagemap t = pagemap s" by (simp add: pagemap_def get_cr3_def get_memory_slide_def f)
  have ok: "vm_ok s (pagemap s) A" using assms(1) by (simp add: heap_ok_def)
  note o = vm_ok_outside [OF ok assms(2,3) f(1,2) assms(5)]
  show c: "cur_top t = cur_top s" by (simp add: cur_top_def f split: option.split)
  show "heap_ok t A" using assms(1) o(1) by (simp add: heap_ok_def f p c)
  show "tables_in R t (pagemap t)" using o(2) p by simp
  show "room s k \<Longrightarrow> room t k" by (rule o(3))
  show "heap_base t = heap_base s" "heap_size t = heap_size s" by (fact f)+
qed

end
