(* ===== verification/Dl_System.thy ===== *)
theory Dl_System
  imports Dl_Owned Dl_Sys_Props Heap_Frame
begin

text \<open>
  The allocator together with the kernel below it: the invariant of \<open>dlmalloc\<close>, of the heap
  that \<open>sbrk\<close> grows, of the page tables and of the physical allocator as one, kept by \<open>mALLOc\<close>
  also when the top chunk is used up and \<open>sbrk\<close> has to map more pages.
\<close>

unbundle bit_operations_syntax

section \<open>The combined invariant\<close>

text \<open>
  The page tables and the free physical memory, both inside \<open>R\<close>, do not overlap the bins and
  the addresses of the heap.
\<close>

definition apart_from :: "nat set \<Rightarrow> u64 \<Rightarrow> u64 \<Rightarrow> nat \<Rightarrow> bool" where
  "apart_from R lo av e \<longleftrightarrow>
     (\<forall>x\<in>R. \<not> (unat av + 16 \<le> x \<and> x < unat av + 1536) \<and> \<not> (unat lo \<le> x \<and> x < e + 8)) \<and>
     (unat av + 1536 \<le> unat lo \<or> e + 16 \<le> unat av) \<and> e + 16 < 2 ^ 64 \<and> e < unat lo + 2 ^ 32"

definition dl_ok ::
  "'a malloc_state_scheme \<Rightarrow> u64 \<Rightarrow> u64 \<Rightarrow> chunks \<Rightarrow> (nat \<Rightarrow> u64 list) \<Rightarrow> (nat \<Rightarrow> u64 list) \<Rightarrow> nat set \<Rightarrow> nat set \<Rightarrow> bool" where
  "dl_ok s lo ts C B F A R \<longleftrightarrow>
     heap_inv s lo ts C B F \<and> heap_ok s A \<and> A \<subseteq> R \<and> tables_in R s (pagemap s) \<and>
     apart_from R lo (av_bins s) (unat (heap_base s) + unat (heap_size s)) \<and>
     cur_top s = top_chunk s + ts \<and> contiguous s \<and> pagesize s = malloc_getpagesize \<and> top_pad s = 0"

lemma apart_fromD:
  assumes "apart_from R lo av e" "x \<in> R"
  shows "\<not> (unat av + 16 \<le> x \<and> x < unat av + 1536)" "\<not> (unat lo \<le> x \<and> x < e + 8)"
  using assms unfolding apart_from_def by blast+

lemma dl_okD:
  assumes "dl_ok s lo ts C B F A R"
  shows "heap_inv s lo ts C B F" "heap_ok s A" "A \<subseteq> R" "tables_in R s (pagemap s)"
    "apart_from R lo (av_bins s) (unat (heap_base s) + unat (heap_size s))"
    "cur_top s = top_chunk s + ts" "contiguous s" "pagesize s = malloc_getpagesize" "top_pad s = 0"
    "heap_end s ts = unat (cur_top s)" "heap_end s ts \<le> unat (heap_base s) + unat (heap_size s)"
proof -
  show a: "heap_inv s lo ts C B F" "heap_ok s A" "A \<subseteq> R" "tables_in R s (pagemap s)"
    "apart_from R lo (av_bins s) (unat (heap_base s) + unat (heap_size s))"
    "cur_top s = top_chunk s + ts" "contiguous s" "pagesize s = malloc_getpagesize" "top_pad s = 0"
    using assms by (simp_all add: dl_ok_def)
  have "unat (top_chunk s + ts) = unat (top_chunk s) + unat ts"
    using arena_bounds(1) [OF core_arena [OF heap_invD(1) [OF a(1)]]] by (intro unat_add_nowrap) simp
  then show e: "heap_end s ts = unat (cur_top s)" by (simp add: heap_end_def a(6))
  show "heap_end s ts \<le> unat (heap_base s) + unat (heap_size s)"
    unfolding e using a(2) by (simp add: heap_ok_def)
qed

text \<open>What the allocator may touch is outside \<open>R\<close>.\<close>

lemma touch_apart:
  assumes "apart_from R lo av e" "unat x \<in> R" "e' \<le> e" shows "x \<notin> touch lo e' av N"
  using apart_fromD [OF assms(1,2)] assms(3) by (auto simp: touch_def)

lemma calm_fields:
  assumes "calm s lo e N t"
  shows "av_bins t = av_bins s" "contiguous t = contiguous s" "pagesize t = pagesize s" "top_pad t = top_pad s"
    "mmap_threshold t = mmap_threshold s" "n_mmaps t = n_mmaps s" "trim_threshold t = trim_threshold s"
    "kernel.truncate (t\<lparr>mem := m\<rparr>) = kernel.truncate (s\<lparr>mem := m\<rparr>)"
  using assms by (auto elim!: calmE simp: contiguous_def kernel.defs)

lemma calm_dl_ok:
  assumes ok: "dl_ok s lo ts C B F A R" and c: "calm s lo (heap_end s ts) N t"
    and I: "heap_inv t lo ts' C' B' F'" and e: "heap_end t ts' = heap_end s ts"
  shows "dl_ok t lo ts' C' B' F' A R"
    "room s k \<Longrightarrow> room t k" "heap_base t = heap_base s" "heap_size t = heap_size s" "cur_top t = cur_top s"
proof -
  note d = dl_okD [OF ok] and f = calm_fields [OF c]
  have m: "mem t x = mem s x" if "unat x \<in> R" for x
    using c touch_apart [OF d(5) that d(11)] by (auto elim!: calmE)
  note o = heap_ok_outside [OF d(2-4) f(8) m]
  show "room s k \<Longrightarrow> room t k" by (rule o(4))
  show "heap_base t = heap_base s" "heap_size t = heap_size s" "cur_top t = cur_top s" by (simp_all add: o)
  have "unat (top_chunk t + ts') = unat (top_chunk t) + unat ts'"
    using arena_bounds(1) [OF core_arena [OF heap_invD(1) [OF I]]] by (intro unat_add_nowrap) simp
  then have "cur_top t = top_chunk t + ts'"
    using e d(10) o(5) by (simp add: heap_end_def word_unat_eq_iff)
  then show "dl_ok t lo ts' C' B' F' A R"
    using I o d f by (simp add: dl_ok_def)
qed

section \<open>Sizes\<close>

lemma small_signed:
  assumes "unat (n :: u64) < 2 ^ 63" shows "\<not> n <s 0" "n \<noteq> 0 \<Longrightarrow> 0 <s n"
proof -
  have "int (unat n) < int (2 ^ 63)" using assms by (simp only: of_nat_less_iff)
  then have u: "uint n < 2 ^ 63" by simp
  have "signed_take_bit 63 (uint n) = uint n"
    by (rule signed_take_bit_int_eq_self [OF order_trans [OF _ uint_ge_0] u]) simp
  then have x: "sint n = uint n" by (simp add: sint_uint)
  show "\<not> n <s 0" using x by (simp add: word_sless_alt)
  assume "n \<noteq> 0"
  then have "uint n \<noteq> 0" by (metis uint_0_iff)
  then have "0 < uint n" using uint_ge_0 [of n] by linarith
  then show "0 <s n" by (simp add: word_sless_alt x)
qed

lemma unat_page_up:
  assumes "pagesize s = malloc_getpagesize" "unat x + 4096 \<le> 2 ^ 64"
  shows "4096 dvd unat (page_up s x)" "unat x \<le> unat (page_up s x)" "unat (page_up s x) < unat x + 4096"
proof -
  have m: "unat (mask 12 :: u64) = 4095" by (simp add: mask_eq_exp_minus_1)
  have a: "unat (x + mask 12) = unat x + 4095"
    using assms(2) m by (subst unat_add_nowrap) simp_all
  have e: "unat (page_up s x) = unat x + 4095 - (unat x + 4095) mod 4096"
    unfolding page_up_mask [OF assms(1)] unat_and_not_mask a by simp
  show "4096 dvd unat (page_up s x)" unfolding e by (rule dvd_minus_mod)
  show "unat x \<le> unat (page_up s x)" "unat (page_up s x) < unat x + 4096" 
    unfolding e using mod_less_divisor [of 4096 "unat x + 4095"] by linarith+
qed

lemma phys_room_mono: "room s k \<Longrightarrow> k' \<le> k \<Longrightarrow> room s k'"
  unfolding room_def by (meson order_trans)

section \<open>More memory from sbrk\<close>

text \<open>The space \<open>sYSMALLOc\<close> asks for when the top chunk of size \<open>ts\<close> is too small.\<close>

definition core_size :: "'a malloc_state_scheme \<Rightarrow> u64 \<Rightarrow> u64 \<Rightarrow> u64" where
  "core_size s nb ts = page_up s (nb + MINSIZE - ts)"

text \<open>
  The request fits the top chunk, or there are addresses and one block of free physical memory
  for the pages that are missing, eight pages for each: its frame, three tables, and the header
  pages of these four requests.
\<close>

definition supply_for :: "'a malloc_state_scheme \<Rightarrow> u64 \<Rightarrow> u64 \<Rightarrow> bool" where
  "supply_for s nb ts \<longleftrightarrow> unat nb + 32 \<le> unat ts \<or>
     unat (cur_top s) + unat nb + 12288 \<le> unat (heap_base s) + unat (heap_size s) \<and>
     room s ((unat nb + 4127 - unat ts) div 4096 * 32768)"

lemma core_size_bounds:
  assumes "pagesize s = malloc_getpagesize" "unat nb < 2 ^ 32" "unat ts < unat nb + 32" "16 dvd unat nb" "16 dvd unat ts"
  shows "4096 dvd unat (core_size s nb ts)" "0 < unat (core_size s nb ts)" "unat (core_size s nb ts) < unat nb + 4128"
    "unat (core_size s nb ts) div 4096 \<le> (unat nb + 4127 - unat ts) div 4096" "unat nb + 32 \<le> unat ts + unat (core_size s nb ts)"
proof -
  have a: "unat (nb + MINSIZE) = unat nb + 32"
    using assms(2) by (subst unat_add_nowrap) (simp_all add: dl_consts)
  have d: "unat (nb + MINSIZE - ts) = unat nb + 32 - unat ts"
    using assms(3) a by (subst unat_sub_le) simp_all
  have "unat (nb + MINSIZE - ts) + 4096 \<le> 2 ^ 64" using d assms(2) by simp
  note p = unat_page_up [OF assms(1) this, folded core_size_def]
  show "4096 dvd unat (core_size s nb ts)" "0 < unat (core_size s nb ts)" "unat (core_size s nb ts) < unat nb + 4128"
    "unat nb + 32 \<le> unat ts + unat (core_size s nb ts)"
    using p d assms(3) by simp_all
  show "unat (core_size s nb ts) div 4096 \<le> (unat nb + 4127 - unat ts) div 4096"
    using p(3) d assms(3) by (intro div_le_mono) simp
qed

lemma more_fields:
  assumes "kernel.more t = kernel.more (s :: 'a malloc_state_scheme)"
  shows "same_av s t" "contiguous t = contiguous s" "pagesize t = pagesize s" "top_pad t = top_pad s"
    "trim_threshold t = trim_threshold s" "mmap_threshold t = mmap_threshold s"
  using assms by (cases s, cases t, simp add: same_av_def contiguous_def)+

text \<open>\<open>sbrk\<close> maps the new pages at the end of the heap.\<close>

lemma morecore_run:
  assumes ok: "heap_ok s A" "A \<subseteq> R" "tables_in R s (pagemap s)" and ps: "pagesize s = malloc_getpagesize"
    and lim: "unat (heap_base s) + unat (heap_size s) + 16 < 2 ^ 64"
    and nb: "unat nb < 2 ^ 32" "16 dvd unat nb" and ts: "unat ts < unat nb + 32" "16 dvd unat ts"
    and sup: "supply_for s nb ts"
  obtains v A' where "MORECORE (core_size s nb ts) s = Some (cur_top s, v)" "heap_ok v A'" "A' \<subseteq> R"
    "tables_in R v (pagemap v)" "kernel.more v = kernel.more s" "writes_in R s v" "heap_base v = heap_base s"
    "heap_size v = heap_size s" "unat (cur_top v) = unat (cur_top s) + unat (core_size s nb ts)"
    "unat (cur_top s) + unat (core_size s nb ts) \<le> unat (heap_base s) + unat (heap_size s)"
proof -
  let ?n = "core_size s nb ts"
  note n = core_size_bounds [OF ps nb(1) ts(1) nb(2) ts(2)]
  have al: "align_up ?n PAGE_SIZE = ?n" by (rule align_up_page_id [OF n(1)])
  have top: "unat (cur_top s) + unat nb + 12288 \<le> unat (heap_base s) + unat (heap_size s)"
    using sup ts(1) by (simp add: supply_for_def)
  have nz: "?n \<noteq> 0" "\<not> ?n <s 0" using n(2,3) nb small_signed(1) [of ?n] by (auto simp: unat_eq_0)
  have nw: "unat (cur_top s) + unat ?n + 4096 \<le> 2 ^ 64" using top lim n(3) by simp
  obtain r v A' where run: "sbrk ?n s = Some (r, v)" "heap_ok v A'" "A' \<subseteq> A"
    "if r = 0 then cur_top v = cur_top s else r = cur_top s \<and> cur_top v = cur_top s + ?n"
    using sbrk_run [OF ok(1) nz nw] unfolding al by (auto split: if_splits)
  note f = sbrk_frame [OF ok(1) nz nw ok(2,3) run(1), unfolded al]
  have "grown_pages ?n * 32768 \<le> (unat nb + 4127 - unat ts) div 4096 * 32768"
    using n(4) by (simp add: grown_pages_def al)
  moreover have "room s ((unat nb + 4127 - unat ts) div 4096 * 32768)"
    using sup ts(1) by (simp add: supply_for_def)
  ultimately have rm: "room s (grown_pages ?n * 32768)" by (rule phys_room_mono [rotated])
  have r0: "r \<noteq> 0" by (rule f(6) [OF rm]) (use top n(3) in simp)
  have e: "unat (cur_top s + ?n) = unat (cur_top s) + unat ?n" using nw by (intro unat_add_nowrap) simp
  show ?thesis
    by (rule that [of v A']) (use run r0 f ok(2) e top n(3) in \<open>auto simp: MORECORE_def\<close>)
qed

text \<open>The top chunk after the extension, with the statistics updated.\<close>

definition extended :: "u64 \<Rightarrow> u64 \<Rightarrow> 'a malloc_state_scheme \<Rightarrow> 'a malloc_state_scheme" where
  "extended n ts v = sbrk_stats (set_head (top_chunk v) ((ts + n) OR 1) (v\<lparr>sbrked_mem := sbrked_mem v + n\<rparr>))"

lemma extended_fields:
  "same_av v (extended n ts v)" "kernel.truncate (extended n ts v) = kernel.truncate (v\<lparr>mem := mem (extended n ts v)\<rparr>)"
  "contiguous (extended n ts v) = contiguous v" "pagesize (extended n ts v) = pagesize v" "top_pad (extended n ts v) = top_pad v"
  "mem (extended n ts v) = (mem v)(top_chunk v + 8 := (ts + n) OR 1)"
  "trim_threshold (extended n ts v) = trim_threshold v" "mmap_threshold (extended n ts v) = mmap_threshold v"
  by (simp_all add: extended_def sbrk_stats_def set_head_def wr_def same_av_def contiguous_def kernel.defs Let_def)

lemma sys_core_contiguous:
  assumes I: "heap_inv s lo ts C B F" and par: "contiguous s" "top_pad s = 0"
    and run: "MORECORE (core_size s nb ts) s = Some (top_chunk s + ts, v)" "top_chunk v = top_chunk s"
    and n: "0 <s core_size s nb ts" "top_chunk s + ts \<noteq> MORECORE_FAILURE"
    and sz: "16 dvd unat (ts + core_size s nb ts)" "nb + MINSIZE \<le> ts + core_size s nb ts"
  shows "sys_core nb s = Some (split_top nb (ts + core_size s nb ts) (extended (core_size s nb ts) ts v))"
proof -
  let ?n = "core_size s nb ts"
  note rt = read_top [OF heap_invD(1) [OF I]]
  have more: "sys_morecore nb ts s = Some ((top_chunk s + ts, MORECORE_FAILURE, ?n), v)"
    using par run(1) n by (simp add: sys_morecore_def Let_def core_size_def)
  have "chunksize (extended ?n ts v) (top_chunk (extended ?n ts v)) = ts + ?n"
    using tag_bits(1) [OF sz(1)]
    by (simp add: chunksize_def ck_size_def extended_fields same_avD [OF extended_fields(1)] SIZE_BITS_def PREV_INUSE_def
        IS_MMAPPED_def)
  moreover have "sys_extend (top_chunk s) ts (top_chunk s + ts) MORECORE_FAILURE ?n (v\<lparr>sbrked_mem := sbrked_mem v + ?n\<rparr>)
    = Some (set_head (top_chunk v) ((ts + ?n) OR 1) (v\<lparr>sbrked_mem := sbrked_mem v + ?n\<rparr>))"
    by (simp add: sys_extend_def chunk_at_offset_def run(2) PREV_INUSE_def add.commute)
  ultimately show ?thesis
    using more n(2) sz(2) by (simp add: sys_core_def rt Let_def extended_def)
qed

lemma heap_words_apart:
  assumes ok: "dl_ok s lo ts C B F A R" and a: "unat lo \<le> unat a" "unat a < heap_end s ts + 8" shows "unat a \<notin> R"
  using apart_fromD(2) [OF dl_okD(5) [OF ok], of "unat a"] a dl_okD(11) [OF ok] by auto

lemma data_words_heap:
  assumes I: "heap_inv s lo ts C B F" and q: "C q = Some (w, k)" and a: "a \<in> data_words q w"
  shows "unat lo \<le> unat a" "unat a < heap_end s ts + 8"
  using a chunk_bounds(1,2) [OF core_arena [OF heap_invD(1) [OF I]] q] by (auto simp: data_words_def heap_end_def)

lemma sys_core_ok:
  assumes ok: "dl_ok s lo ts C B F A R" and nb: "chunk_size_ok nb" "unat nb < 2 ^ 32" and le: "unat ts < unat nb + 32"
    and sup: "supply_for s nb ts"
  obtains u ts' A' where "sys_core nb s = Some (split_top nb ts' u)" "dl_ok u lo ts' C B F A' R" "unat nb + 32 \<le> unat ts'"
    "heap_end u ts' \<le> heap_end s ts + unat nb + 4128" "trim_threshold u = trim_threshold s"
    "mmap_threshold u = mmap_threshold s"
    "\<And>q w a. C q = Some (w, Used) \<Longrightarrow> a \<in> data_words q w \<Longrightarrow> mem u a = mem s a"
proof -
  note d = dl_okD [OF ok]
  note I = d(1)
  note H = heap_invD(1) [OF I]
  note A = core_arena [OF H]
  let ?n = "core_size s nb ts"
  have d16: "16 dvd unat nb" "16 dvd unat ts" using nb(1) A by (simp_all add: chunk_size_ok_def arena_def)
  note n = core_size_bounds [OF d(8) nb(2) le d16]
  have "unat (heap_base s) + unat (heap_size s) + 16 < 2 ^ 64" using d(5) by (simp add: apart_from_def)
  then obtain v A' where w: "MORECORE ?n s = Some (cur_top s, v)" "heap_ok v A'" "A' \<subseteq> R"
    "tables_in R v (pagemap v)" "kernel.more v = kernel.more s" "writes_in R s v" "heap_base v = heap_base s"
    "heap_size v = heap_size s" "unat (cur_top v) = unat (cur_top s) + unat ?n"
    "unat (cur_top s) + unat ?n \<le> unat (heap_base s) + unat (heap_size s)"
    by (rule morecore_run [OF d(2-4,8) _ nb(2) d16(1) le d16(2) sup]) (rule that)
  note v = w(1-8) w(9,10) [folded d(10)]
  note sv = more_fields [OF v(5)]
  note av = same_avD [OF sv(1)]
  let ?u = "extended ?n ts v"
  note x = extended_fields [where v = v and n = ?n and ts = ts]
  note xv = same_avD [OF x(1)]
  have ap: "heap_end s ts + unat ?n + 16 < 2 ^ 64" "heap_end s ts + unat ?n < unat lo + 2 ^ 32"
    "unat (av_bins s) + 1536 \<le> unat lo \<or> heap_end s ts + unat ?n + 16 \<le> unat (av_bins s)"
    using d(5) v(10) by (auto simp: apart_from_def)
  have un: "unat (ts + ?n) = unat ts + unat ?n" using ap(1) by (intro unat_add_nowrap) (simp add: heap_end_def)
  have c: "chunk_size_ok (ts + ?n)"
  proof -
    have "16 dvd unat ?n" by (rule dvd_trans [OF _ n(1)]) simp
    then show ?thesis using arena_bounds(2) [OF A] d16(2) by (simp add: chunk_size_ok_def un)
  qed
  have same: "mem v a = mem s a" if "unat a \<notin> R" for a using writes_inD [OF v(6) that] .
  have Iv: "heap_inv v lo ts C B F"
    by (rule heap_inv_owned [OF I sv(1)]) (use same touch_apart [OF d(5) _ d(11)] in blast)
  have Iu: "heap_inv ?u lo (ts + ?n) C B F"
  proof (rule heap_inv_owned [OF grow_top [OF Iv c un]])
    show "heap_end v ts + unat ?n + 16 < 2 ^ 64" "heap_end v ts + unat ?n < unat lo + 2 ^ 32"
      "unat (av_bins v) + 1536 \<le> unat lo \<or> heap_end v ts + unat ?n + 16 \<le> unat (av_bins v)"
      using ap by (simp_all add: av)
    show "same_av (set_head (top_chunk v) ((ts + ?n) OR 1) v) ?u" using x(1) by (simp add: same_av_def set_head_def)
    show "mem ?u a = mem (set_head (top_chunk v) ((ts + ?n) OR 1) v) a" for a
      by (simp add: x(6) set_head_def wr_def)
  qed
  have u8: "unat (top_chunk s + 8) = unat (top_chunk s) + 8" using node_bounds(5) [OF A, of "top_chunk s"] by simp
  have t8: "unat (top_chunk s + 8) \<notin> R"
    by (rule heap_words_apart [OF ok]) (use u8 arena_bounds(2,7) [OF A] in \<open>simp_all add: heap_end_def\<close>)
  have mu: "mem ?u a = mem v a" if "unat a \<in> R" for a using that t8 by (auto simp: x(6) av)
  have tr: "kernel.truncate (?u\<lparr>mem := m\<rparr>) = kernel.truncate (v\<lparr>mem := m\<rparr>)" for m
    using arg_cong [OF x(2), of "\<lambda>k. k\<lparr>mem := m\<rparr>"] by (simp add: kernel.defs)
  note o = heap_ok_outside [OF v(2-4) tr mu]
  have "unat (top_chunk s + (ts + ?n)) = unat (top_chunk s) + unat ts + unat ?n"
    using ap(1) un by (subst unat_add_nowrap) (simp_all add: heap_end_def)
  then have "cur_top v = top_chunk s + (ts + ?n)" using v(9) by (simp add: word_unat_eq_iff heap_end_def)
  then have oku: "dl_ok ?u lo (ts + ?n) C B F A' R"
    using Iu o v(3,7,8) d(5,7-9) sv x av xv by (simp add: dl_ok_def)
  have nz: "top_chunk s + ts \<noteq> MORECORE_FAILURE"
  proof
    assume "top_chunk s + ts = MORECORE_FAILURE"
    then have "cur_top s = - 1" using d(6) by (simp add: MORECORE_FAILURE_def)
    then have "4096 dvd unat (- 1 :: u64)" using d(2) by (simp add: heap_ok_def)
    then show False using and_mask_zero_iff [of "- 1 :: u64" 12] by (simp add: mask_eq_exp_minus_1)
  qed
  have run: "sys_core nb s = Some (split_top nb (ts + ?n) ?u)"
  proof (rule sys_core_contiguous [OF I d(7,9) v(1) [unfolded d(6)] _ _ nz])
    show "top_chunk v = top_chunk s" by (rule av(1))
    show "0 <s ?n" using n(2,3) nb(2) by (intro small_signed(2)) (auto simp: unat_eq_0)
    show "16 dvd unat (ts + ?n)" using c by (simp add: chunk_size_ok_def)
    have "unat (nb + MINSIZE) = unat nb + 32"
      using nb(2) by (subst unat_add_nowrap) (simp_all add: dl_consts)
    then show "nb + MINSIZE \<le> ts + ?n" using n(5) un by (simp add: word_le_nat_alt)
  qed
  show ?thesis
  proof (rule that [OF run oku])
    show "unat nb + 32 \<le> unat (ts + ?n)" using n(5) un by simp
    show "heap_end ?u (ts + ?n) \<le> heap_end s ts + unat nb + 4128" using n(3) by (simp add: heap_end_def xv av un)
    show "trim_threshold ?u = trim_threshold s" "mmap_threshold ?u = mmap_threshold s" by (simp_all add: x sv)
    show "mem ?u a = mem s a" if q: "C q = Some (w, Used)" "a \<in> data_words q w" for q w a
    proof -
      note b = data_words_heap [OF I q]
      have "unat a < unat (top_chunk s) + 8"
        using q chunk_bounds(2) [OF A q(1)] by (auto simp: data_words_def)
      then have "a \<noteq> top_chunk s + 8" using u8 by auto
      then show ?thesis using same [OF heap_words_apart [OF ok b]] by (simp add: x(6) av)
    qed
  qed
qed

section \<open>malloc and free keep it\<close>

lemma supply_kept:
  assumes ok: "dl_ok s lo ts C B F A R" and k: "kept s lo ts C t ts' C' B' F'" and sup: "supply_for s nb ts"
  shows "dl_ok t lo ts' C' B' F' A R" "supply_for t nb ts'"
proof -
  have c: "calm s lo (heap_end s ts) (in_use C) t" "heap_inv t lo ts' C' B' F'" "heap_end t ts' = heap_end s ts"
    "unat ts \<le> unat ts'" using k by (simp_all add: kept_def)
  note o = calm_dl_ok [OF ok c(1-3)]
  show "dl_ok t lo ts' C' B' F' A R" by (rule o(1))
  have "(unat nb + 4127 - unat ts') div 4096 * 32768 \<le> (unat nb + 4127 - unat ts) div 4096 * 32768"
    using c(4) by (intro mult_le_mono1 div_le_mono) simp
  then show "supply_for t nb ts'"
    using sup c(4) o(2) phys_room_mono unfolding supply_for_def o(3-5) by (meson le_trans)
qed

lemma calm_data:
  assumes "heap_inv s lo ts C B F" "calm s lo (heap_end s ts) (in_use C) t" "C q = Some (w, Used)" "a \<in> data_words q w"
  shows "mem t a = mem s a"
  using assms(2) data_not_owned [OF assms(1,3,4)] by (auto elim!: calmE)

text \<open>A request that was answered: the new chunk, the combined invariant, and nobody's data changed.\<close>

definition answered ::
  "'a malloc_state_scheme \<Rightarrow> u64 \<Rightarrow> chunks \<Rightarrow> u64 \<Rightarrow> nat set \<Rightarrow> u64 \<Rightarrow> 'a malloc_state_scheme \<Rightarrow> bool" where
  "answered s lo C nb R p t \<longleftrightarrow>
     (\<exists>ts' C' B' F' A' z. dl_ok t lo ts' C' B' F' A' R \<and> in_use C p = None \<and>
        in_use C' = (in_use C)(p \<mapsto> (z, Used)) \<and> unat nb \<le> unat z \<and> unat z < unat nb + 32) \<and>
     unat (cur_top t) \<le> unat (cur_top s) + unat nb + 4128 \<and>
     trim_threshold t = trim_threshold s \<and> mmap_threshold t = mmap_threshold s \<and>
     (\<forall>q w a. in_use C q = Some (w, Used) \<longrightarrow> a \<in> data_words q w \<longrightarrow> mem t a = mem s a)"

lemma alloced_answered:
  assumes ok: "dl_ok s lo ts C B F A R" and al: "alloced s lo ts C nb p t"
  shows "answered s lo C nb R p t" "cur_top t = cur_top s"
proof -
  obtain ts' C' B' F' z where t: "heap_inv t lo ts' C' B' F'" "heap_end t ts' = heap_end s ts" "in_use C p = None"
    "in_use C' = (in_use C)(p \<mapsto> (z, Used))" "unat nb \<le> unat z" "unat z < unat nb + 32"
    "calm s lo (heap_end s ts) (in_use C) t"
    using al unfolding alloced_def by blast
  have "\<forall>q w a. in_use C q = Some (w, Used) \<longrightarrow> a \<in> data_words q w \<longrightarrow> mem t a = mem s a"
    using calm_data [OF dl_okD(1) [OF ok] t(7)] by (auto simp: in_use_some)
  moreover show c: "cur_top t = cur_top s" by (rule calm_dl_ok(5) [OF ok t(7,1,2)])
  ultimately show "answered s lo C nb R p t"
    unfolding answered_def using calm_dl_ok(1) [OF ok t(7,1,2)] calm_fields(5,7) [OF t(7)] t(3-6)
    by (intro conjI) (blast, simp_all)
qed

lemma answered_later:
  assumes "in_use C' = in_use C" "answered u lo C' nb R p t" "unat (cur_top t) \<le> unat (cur_top s) + unat nb + 4128"
    "trim_threshold u = trim_threshold s" "mmap_threshold u = mmap_threshold s"
    and "\<And>q w a. C q = Some (w, Used) \<Longrightarrow> a \<in> data_words q w \<Longrightarrow> mem u a = mem s a"
  shows "answered s lo C nb R p t"
  using assms unfolding answered_def by (auto simp: in_use_some)

text \<open>A request that the top chunk cannot answer goes to \<open>sys_core\<close>.\<close>

lemma malloc_serves_run:
  assumes "dl_ok s lo ts C B F A R" "unat bytes < 2 ^ 32 - 64" "request2size bytes < mmap_threshold s"
    "supply_for s (request2size bytes) ts"
  shows "\<exists>p t. mALLOc bytes s = Some (chunk2mem p, t) \<and> answered s lo C (request2size bytes) R p t"
proof -
  let ?nb = "request2size bytes"
  note r = request_below [OF assms(2)]
  note I = dl_okD(1) [OF assms(1)]
  from malloc_run [OF I r(1-3)] show ?thesis
  proof (elim disjE exE conjE)
    fix p t assume "mALLOc bytes s = Some (chunk2mem p, t)" "alloced s lo ts C ?nb p t"
    then show ?thesis using alloced_answered [OF assms(1)] by blast
  next
    fix t ts' C' B' F' assume t: "mALLOc bytes s = from_system ?nb t" "kept s lo ts C t ts' C' B' F'"
      "unat ts' < unat ?nb + 32"
    note k = supply_kept [OF assms(1) t(2) assms(4)]
    have c: "calm s lo (heap_end s ts) (in_use C) t" "in_use C' = in_use C" using t(2) by (simp_all add: kept_def)
    have "\<not> mmap_threshold t \<le> ?nb" using assms(3) calm_fields(5) [OF c(1)] by (metis leD)
    then have nomap: "sys_mmap ?nb t = Some (Inr (), t)" by (simp add: sys_mmap_def)
    obtain u ts2 A2 where u: "sys_core ?nb t = Some (split_top ?nb ts2 u)" "dl_ok u lo ts2 C' B' F' A2 R"
      "unat ?nb + 32 \<le> unat ts2" "heap_end u ts2 \<le> heap_end t ts' + unat ?nb + 4128" "trim_threshold u = trim_threshold t"
      "mmap_threshold u = mmap_threshold t" "\<And>q w a. C' q = Some (w, Used) \<Longrightarrow> a \<in> data_words q w \<Longrightarrow> mem u a = mem t a"
      by (rule sys_core_ok [OF k(1) r(2,3) t(3) k(2)]) (rule that)
    obtain v where v: "split_top ?nb ts2 u = (chunk2mem (top_chunk u), v)" "alloced u lo ts2 C' ?nb (top_chunk u) v"
      using split_top_ok [OF dl_okD(1) [OF u(2)] r(2) u(3)] by blast
    have "mALLOc bytes s = Some (chunk2mem (top_chunk u), v)"
      using t(1) nomap u(1) v(1) by (simp add: from_system_def)
    moreover have "answered s lo C ?nb R (top_chunk u) v"
    proof (rule answered_later [OF c(2) alloced_answered(1) [OF u(2) v(2)]])
      show "unat (cur_top v) \<le> unat (cur_top s) + unat ?nb + 4128"
        using u(4) t(2) dl_okD(10) [OF assms(1)] dl_okD(10) [OF u(2)] alloced_answered(2) [OF u(2) v(2)] by (simp add: kept_def)
      show "trim_threshold u = trim_threshold s" "mmap_threshold u = mmap_threshold s"
        using u(5,6) calm_fields(5,7) [OF c(1)] by simp_all
      fix q w a assume q: "C q = Some (w, Used)" "a \<in> data_words q w"
      then have "C' q = Some (w, Used)" using c(2) by (metis in_use_some)
      then show "mem u a = mem s a" using u(7) q(2) calm_data [OF I c(1) q] by simp
    qed
    ultimately show ?thesis by blast
  qed
qed

text \<open>
  C1: \<open>mALLOc\<close> on a consistent system answers every request below the threshold for mappings of
  its own, from a free chunk, the top chunk, or new pages that \<open>sbrk\<close> maps behind it, as long as
  there are addresses and physical memory. The chunk was not in use and is at least as large as
  the padded request; heap, page tables and physical allocator are consistent again, exactly
  this chunk is newly in use, and the data of all chunks in use is unchanged.
\<close>

theorem malloc_serves:
  assumes "dl_ok s lo ts C B F A R" "unat bytes < 2 ^ 32 - 64" "request2size bytes < mmap_threshold s"
    "supply_for s (request2size bytes) ts"
  shows "\<exists>p t. mALLOc bytes s = Some (chunk2mem p, t) \<and> answered s lo C (request2size bytes) R p t"
  by (rule malloc_serves_run [OF assms])

text \<open>The heap of \<open>Dl_Demo\<close> above the page table and free list of \<open>demo_pma\<close>.\<close>

definition demo_system :: malloc_state where
  "demo_system = demo_dl\<lparr>mem := (\<lambda>a. if 0x9000 \<le> a \<and> a < 0x24000 then mem demo_pma a else demo_mem a)\<rparr>"

abbreviation demo_frames :: "nat set" where
  "demo_frames \<equiv> cover [(0x10000, 0x8000), (0x20000, 0x4000)]"

lemma demo_kernel_fields:
  "mem demo_kernel = mem demo_pma" "hhdm_offset demo_kernel = hhdm_offset demo_pma" "pagemap demo_kernel = 0x9000"
  "m_head demo_kernel = m_head demo_pma" "heap_base demo_kernel = 0xFFFF880000000000" "heap_size demo_kernel = 0x100000"
  "heap_top demo_kernel = None"
  by (simp_all add: demo_kernel_def demo_pma_def pma.defs pagemap_def get_cr3_def get_memory_slide_def)

lemma demo_tables_in: "tables_in {0x9000..<0x24000} demo_kernel (pagemap demo_kernel)"
proof -
  have "table_at demo_kernel 0x9000 is = table_at demo_pma 0x9000 is" for "is"
    by (rule table_at_frame) (simp_all add: demo_kernel_fields)
  moreover have "span 0x9000 PAGE_SIZE \<subseteq> {0x9000..<0x24000}" by (auto simp: span_def)
  ultimately show ?thesis using demo_pma_tables by (auto simp: tables_in_def demo_kernel_fields(3))
qed

lemma demo_frames_in: "demo_frames \<subseteq> {0x9000..<0x24000}"
  by (auto simp: span_def)

lemma demo_kernel_grown: "heap_ok (demo_kernel\<lparr>heap_top := Some 0xFFFF880000004000\<rparr>) demo_frames"
  using demo_heap_ok by (simp add: heap_ok_def cur_top_def demo_kernel_fields)

lemma demo_system_ok:
  "dl_ok demo_system 0xFFFF880000000000 0x3DC0 demo_chunks (\<lambda>_. []) (\<lambda>_. []) demo_frames {0x9000..<0x24000}"
  "room demo_system 32768" "heap_base demo_system = 0xFFFF880000000000" "heap_size demo_system = 0x100000"
  "cur_top demo_system = 0xFFFF880000004000" "mmap_threshold demo_system = 0x40000"
proof -
  let ?k = "demo_kernel\<lparr>heap_top := Some 0xFFFF880000004000\<rparr>"
  have t: "tables_in {0x9000..<0x24000} ?k (pagemap ?k)" using demo_tables_in by simp
  have tr: "kernel.truncate (demo_system\<lparr>mem := m\<rparr>) = kernel.truncate (?k\<lparr>mem := m\<rparr>)" for m
    by (simp add: demo_system_def demo_dl_def kernel.defs)
  have m: "mem demo_system x = mem ?k x" if "unat x \<in> {0x9000..<0x24000}" for x
    using that by (simp add: demo_system_def demo_kernel_fields word_le_nat_alt word_less_nat_alt)
  note o = heap_ok_outside [OF demo_kernel_grown demo_frames_in t tr m]
  show b: "heap_base demo_system = 0xFFFF880000000000" "heap_size demo_system = 0x100000"
    using o(6,7) by (simp_all add: demo_kernel_fields)
  show c: "cur_top demo_system = 0xFFFF880000004000" using o(5) by (simp add: cur_top_def)
  have "room demo_pma 32768"
    using demo_pma_blocks unfolding room_def by (intro exI [of _ "[(0x10000, 0x8000), (0x20000, 0x4000)]"]) simp
  then have "room ?k 32768" by (simp add: room_def blocks_at_def demo_kernel_fields)
  then show "room demo_system 32768" using o(4) [of 32768] by simp
  show "mmap_threshold demo_system = 0x40000" by (simp add: demo_system_def demo_dl_def kernel.defs)
  have f: "av_bins demo_system = 0x1000" "top_chunk demo_system = 0xFFFF880000000240" "top_pad demo_system = 0"
    "contiguous demo_system" "pagesize demo_system = malloc_getpagesize"
    by (simp_all add: demo_system_def demo_dl_def kernel.defs contiguous_def MORECORE_CONTIGUOUS_BIT_def malloc_getpagesize_def)
  have I: "heap_inv demo_system 0xFFFF880000000000 0x3DC0 demo_chunks (\<lambda>_. []) (\<lambda>_. [])"
  proof (rule heap_inv_owned [OF demo_inv])
    show "same_av demo_dl demo_system" by (simp add: same_av_def demo_system_def)
    fix a assume "a \<in> touch 0xFFFF880000000000 (heap_end demo_dl 0x3DC0) (av_bins demo_dl) (in_use demo_chunks)"
    then show "mem demo_system a = mem demo_dl a"
      by (auto simp: touch_def demo_fields demo_system_def word_le_nat_alt word_less_nat_alt)
  qed
  show "dl_ok demo_system 0xFFFF880000000000 0x3DC0 demo_chunks (\<lambda>_. []) (\<lambda>_. []) demo_frames {0x9000..<0x24000}"
    unfolding dl_ok_def using I o(1,2) demo_frames_in f by (simp add: b c apart_from_def)
qed

text \<open>A request that does not fit the top chunk of 15808 bytes.\<close>

theorem malloc_serves_witness:
  "\<exists>p t. mALLOc 16000 demo_system = Some (chunk2mem p, t) \<and>
     answered demo_system 0xFFFF880000000000 demo_chunks 16016 {0x9000..<0x24000} p t"
proof -
  have r: "request2size 16000 = 16016" by (simp add: request2size_def dl_consts)
  have "supply_for demo_system (request2size 16000) 0x3DC0"
    using demo_system_ok(2-5) by (simp add: supply_for_def r)
  then show ?thesis
    using malloc_serves [OF demo_system_ok(1), of 16000] demo_system_ok(6) by (simp add: r)
qed

text \<open>\<open>fREe\<close> keeps the combined invariant as long as the heap is below the trim threshold.\<close>

lemma free_dl_ok:
  assumes ok: "dl_ok s lo ts C B F A R" and p: "C p = Some (sz, Used)" and th: "heap_end s ts < unat lo + unat (trim_threshold s)"
  obtains t ts' C' B' F' where "fREe (chunk2mem p) s = Some t" "dl_ok t lo ts' C' B' F' A R"
    "in_use C' = (in_use C)(p := None)" "heap_end t ts' = heap_end s ts"
    "calm s lo (heap_end s ts) ((in_use C)(p := None)) t" "room s k \<Longrightarrow> room t k"
proof -
  obtain t ts' C' B' F' where t: "freed s lo ts C p t ts' C' B' F'"
    "fREe (chunk2mem p) s = Some t \<or> trim_threshold s \<le> ts' \<and> fREe (chunk2mem p) s = trims t"
    by (rule free_run [OF dl_okD(1) [OF ok] p])
  have f: "heap_inv t lo ts' C' B' F'" "heap_end t ts' = heap_end s ts" "in_use C' = (in_use C)(p := None)"
    "calm s lo (heap_end s ts) ((in_use C)(p := None)) t"
    using t(1) by (auto simp: freed_def intro: calm_quiet)
  have "unat lo \<le> unat (top_chunk t)" using arena_bounds(7) [OF core_arena [OF heap_invD(1) [OF f(1)]]] .
  then have "\<not> trim_threshold s \<le> ts'" using th f(2) by (simp add: heap_end_def word_le_nat_alt)
  then show ?thesis
    using that t(2) calm_dl_ok(1,2) [OF ok f(4,1,2)] f(2-4) by blast
qed

end
