(* ===== verification/Dl_First.thy ===== *)
theory Dl_First
  imports Dl_System
begin

text \<open>
  The first allocation: \<open>malloc_init_state\<close> empties the bins, \<open>sYSMALLOc\<close> lets \<open>sbrk\<close> map the
  first pages, and the invariant holds from then on.
\<close>

unbundle bit_operations_syntax

section \<open>Empty bins\<close>

lemma init_bins_fields:
  "init_bins i k s = s\<lparr>mem := mem (init_bins i k s)\<rparr>"
proof (induction k arbitrary: i s)
  case (Suc k)
  let ?s = "set_fd (bin_at s i) (bin_at s i) (set_bk (bin_at s i) (bin_at s i) s)"
  have "init_bins i (Suc k) s = init_bins (i + 1) k ?s" by (simp add: Let_def)
  then show ?case using Suc.IH [of "i + 1" ?s] by (simp add: set_fd_def set_bk_def wr_def)
qed simp

lemma bin_words:
  assumes "8 dvd unat av" "unat av + 1536 < 2 ^ 64" "1 \<le> i" "i < 96"
  shows "unat (bin_addr av i + 16) = unat av + 16 * i" "unat (bin_addr av i + 24) = unat av + 16 * i + 8"
proof -
  have k: "unat (of_nat (16 * i) :: u64) = 16 * i"
    using assms(4) by (simp add: unat_of_nat take_bit_nat_eq_self del: of_nat_mult)
  have a: "unat (av + of_nat (16 * i)) = unat av + 16 * i"
    using assms k by (subst unat_add_nowrap) (simp_all del: of_nat_mult)
  then show "unat (bin_addr av i + 16) = unat av + 16 * i" by (simp add: bin_addr_def del: of_nat_mult)
  have "unat (av + of_nat (16 * i) + 8) = unat av + 16 * i + 8"
    using assms a by (subst unat_add_nowrap) (simp_all del: of_nat_mult)
  moreover have "bin_addr av i + 24 = av + of_nat (16 * i) + 8" by (simp add: bin_addr_def del: of_nat_mult)
  ultimately show "unat (bin_addr av i + 24) = unat av + 16 * i + 8" by (simp only:)
qed

text \<open>The loop from bin \<open>i\<close> on.\<close>

definition empty_from :: "nat \<Rightarrow> u64 \<Rightarrow> qmem \<Rightarrow> bool" where
  "empty_from i av m \<longleftrightarrow> (\<forall>j. i \<le> j \<longrightarrow> j < 96 \<longrightarrow>
     m (bin_addr av j + 16) = bin_addr av j \<and> m (bin_addr av j + 24) = bin_addr av j)"

lemma init_bins_mem:
  assumes "8 dvd unat (av_bins s)" "unat (av_bins s) + 1536 < 2 ^ 64" "1 \<le> unat i" "unat i + k = 96"
  shows "empty_from (unat i) (av_bins s) (mem (init_bins i k s)) \<and>
    (\<forall>a. \<not> (unat (av_bins s) + 16 * unat i \<le> unat a \<and> unat a < unat (av_bins s) + 1536) \<longrightarrow>
       mem (init_bins i k s) a = mem s a)"
  using assms
proof (induction k arbitrary: i s)
  case 0
  then show ?case by (simp add: empty_from_def)
next
  case (Suc k)
  let ?av = "av_bins s"
  let ?b = "bin_addr ?av (unat i)"
  let ?s = "set_fd (bin_at s i) (bin_at s i) (set_bk (bin_at s i) (bin_at s i) s)"
  have run: "init_bins i (Suc k) s = init_bins (i + 1) k ?s" by (simp add: Let_def)
  have b: "bin_at s i = ?b" using bin_at_addr [of "unat i" s] Suc.prems(4) by simp
  have i1: "unat (i + 1) = unat i + 1" using Suc.prems(4) by (simp add: unat_word_ariths)
  have w: "unat (?b + 16) = unat ?av + 16 * unat i" "unat (?b + 24) = unat ?av + 16 * unat i + 8"
    using bin_words [OF Suc.prems(1,2)] Suc.prems(3,4) by simp_all
  have f: "av_bins ?s = ?av" by (simp add: set_fd_def set_bk_def)
  have m: "mem ?s = (mem s)(?b + 24 := ?b, ?b + 16 := ?b)" by (simp add: set_fd_def set_bk_def wr_def b)
  have d: "?b + 16 \<noteq> ?b + 24" using w by (metis add_cancel_left_right zero_neq_numeral)
  have le: "1 \<le> unat (i + 1)" "unat (i + 1) + k = 96" using Suc.prems(3,4) i1 by simp_all
  note IH = Suc.IH [of ?s "i + 1", unfolded f, OF Suc.prems(1,2) le, unfolded i1]
  have bk: "mem (init_bins (i + 1) k ?s) a = mem ?s a" if "unat a < unat ?av + 16 * unat i + 16" for a
    using IH that by auto
  have here: "mem (init_bins (i + 1) k ?s) (?b + 16) = ?b" "mem (init_bins (i + 1) k ?s) (?b + 24) = ?b"
    using bk [of "?b + 16"] bk [of "?b + 24"] w d by (simp_all add: m)
  have "empty_from (unat i) ?av (mem (init_bins (i + 1) k ?s))"
    unfolding empty_from_def
  proof (intro allI impI)
    fix j assume "unat i \<le> j" "j < 96"
    then show "mem (init_bins (i + 1) k ?s) (bin_addr ?av j + 16) = bin_addr ?av j \<and>
        mem (init_bins (i + 1) k ?s) (bin_addr ?av j + 24) = bin_addr ?av j"
      using here IH by (cases "j = unat i") (auto simp: empty_from_def)
  qed
  moreover have "mem (init_bins (i + 1) k ?s) a = mem s a"
    if "\<not> (unat ?av + 16 * unat i \<le> unat a \<and> unat a < unat ?av + 1536)" for a
  proof -
    have "a \<noteq> ?b + 16" "a \<noteq> ?b + 24" using that w Suc.prems(4) by auto
    moreover have "mem (init_bins (i + 1) k ?s) a = mem ?s a" using IH that by auto
    ultimately show ?thesis by (simp add: m)
  qed
  ultimately show ?case unfolding run by blast
qed

text \<open>The state after the initialisation.\<close>

lemma init_state_fields:
  assumes "max_fast s = 0"
  shows "max_fast (malloc_init_state s) = 80" "top_pad (malloc_init_state s) = 0"
    "mmap_threshold (malloc_init_state s) = 0x40000" "contiguous (malloc_init_state s)"
    "pagesize (malloc_init_state s) = malloc_getpagesize" "av_bins (malloc_init_state s) = av_bins s"
    "top_chunk (malloc_init_state s) = av_bins s" "fastbins (malloc_init_state s) = fastbins s"
    "binmap (malloc_init_state s) = binmap s" "trim_threshold (malloc_init_state s) = 0x40000"
    "mem (malloc_init_state s) = mem (init_bins 1 95 s)"
    "kernel.truncate (malloc_init_state s) = kernel.truncate (s\<lparr>mem := mem (init_bins 1 95 s)\<rparr>)"
proof -
  have n: "unat NBINS - 1 = 95" "unat NBINS - Suc 0 = 95" by (simp_all add: NBINS_def)
  obtain m where m: "init_bins 1 95 s = s\<lparr>mem := m\<rparr>" using init_bins_fields by metis
  note defs = malloc_init_state_def n m set_contiguous_def set_max_fast_def initial_top_def Let_def
    DEFAULT_TOP_PAD_def DEFAULT_MMAP_THRESHOLD_def DEFAULT_TRIM_THRESHOLD_def DEFAULT_MXFAST_def contiguous_def
  have r: "request2size 64 = 80" by (simp add: request2size_def dl_consts)
  show "max_fast (malloc_init_state s) = 80" by (simp add: defs assms r)
  show "top_pad (malloc_init_state s) = 0" "mmap_threshold (malloc_init_state s) = 0x40000"
    "pagesize (malloc_init_state s) = malloc_getpagesize" "av_bins (malloc_init_state s) = av_bins s"
    "fastbins (malloc_init_state s) = fastbins s" "binmap (malloc_init_state s) = binmap s"
    "trim_threshold (malloc_init_state s) = 0x40000" "mem (malloc_init_state s) = mem (init_bins 1 95 s)"
    "kernel.truncate (malloc_init_state s) = kernel.truncate (s\<lparr>mem := mem (init_bins 1 95 s)\<rparr>)"
    by (simp_all add: defs kernel.defs)
  show "contiguous (malloc_init_state s)"
    by (simp add: defs MORECORE_CONTIGUOUS_BIT_def)
  show "top_chunk (malloc_init_state s) = av_bins s"
    by (simp add: defs unsorted_addr bin_addr_def)
qed

section \<open>The first pages\<close>

text \<open>The allocator as the program starts, above a kernel whose heap has not been used.\<close>

definition fresh_dl :: "'a malloc_state_scheme \<Rightarrow> nat set \<Rightarrow> nat set \<Rightarrow> bool" where
  "fresh_dl s A R \<longleftrightarrow>
     max_fast s = 0 \<and> fastbins s = (\<lambda>_. 0) \<and> binmap s = (\<lambda>_. 0) \<and> mem s (av_bins s + 8) = 0 \<and>
     8 dvd unat (av_bins s) \<and> unat (av_bins s) + 1536 < 2 ^ 64 \<and>
     heap_ok s A \<and> A \<subseteq> R \<and> tables_in R s (pagemap s) \<and>
     apart_from R (cur_top s) (av_bins s) (unat (heap_base s) + unat (heap_size s))"

lemma init_state_ok:
  assumes fr: "fresh_dl s A R"
  defines "u \<equiv> malloc_init_state s"
  shows "heap_ok u A" "tables_in R u (pagemap u)" "cur_top u = cur_top s" "heap_base u = heap_base s" "heap_size u = heap_size s"
    "room s k \<Longrightarrow> room u k" "empty_from 1 (av_bins s) (mem u)" "chunksize u (top_chunk u) = 0"
proof -
  have f: "max_fast s = 0" "8 dvd unat (av_bins s)" "unat (av_bins s) + 1536 < 2 ^ 64" "mem s (av_bins s + 8) = 0"
    "heap_ok s A" "A \<subseteq> R" "tables_in R s (pagemap s)"
    "apart_from R (cur_top s) (av_bins s) (unat (heap_base s) + unat (heap_size s))"
    using fr by (simp_all add: fresh_dl_def)
  note u = init_state_fields [OF f(1), folded u_def]
  have m: "empty_from 1 (av_bins s) (mem u)"
    "\<And>a. \<not> (unat (av_bins s) + 16 \<le> unat a \<and> unat a < unat (av_bins s) + 1536) \<Longrightarrow> mem u a = mem s a"
    using init_bins_mem [OF f(2,3), of 1 95] u(11) by auto
  show "empty_from 1 (av_bins s) (mem u)" by (rule m)
  have same: "mem u x = mem s x" if "unat x \<in> R" for x using m(2) apart_fromD(1) [OF f(8) that] .
  have tr: "kernel.truncate (u\<lparr>mem := m\<rparr>) = kernel.truncate (s\<lparr>mem := m\<rparr>)" for m
    using arg_cong [OF u(12), of "\<lambda>k. k\<lparr>mem := m\<rparr>"] by (simp add: kernel.defs)
  note o = heap_ok_outside [OF f(5-7) tr same]
  show "heap_ok u A" "tables_in R u (pagemap u)" using o(1,2) by simp_all
  show "cur_top u = cur_top s" "heap_base u = heap_base s" "heap_size u = heap_size s" by (simp_all add: o)
  show "room s k \<Longrightarrow> room u k" by (rule o(4))
  have "unat (av_bins s + 8) = unat (av_bins s) + 8" using f(3) by (intro unat_add_nowrap [THEN trans]) simp_all
  then have "mem u (av_bins s + 8) = 0" using m(2) [of "av_bins s + 8"] f(4) by simp
  then show "chunksize u (top_chunk u) = 0" by (simp add: chunksize_def ck_size_def u)
qed

lemma sbrk_zero:
  "is_initialized s \<Longrightarrow> MORECORE 0 s = Some (cur_top s, s\<lparr>heap_top := Some (cur_top s)\<rparr>)"
proof -
  assume i: "is_initialized s"
  show ?thesis
  proof (cases "heap_top s")
    case None
    then show ?thesis using i by (simp add: MORECORE_def sbrk_def cur_top_def Let_def)
  next
    case (Some x)
    then have "s\<lparr>heap_top := Some x\<rparr> = s" by simp
    then show ?thesis using i Some by (simp add: MORECORE_def sbrk_def cur_top_def Let_def)
  qed
qed

text \<open>A new top chunk at the page-aligned address \<open>H\<close>.\<close>

definition first_top :: "u64 \<Rightarrow> u64 \<Rightarrow> 'a malloc_state_scheme \<Rightarrow> 'a malloc_state_scheme" where
  "first_top H n v =
     (let s = v\<lparr>sbrked_mem := sbrked_mem v + n, heap_top := Some (H + n)\<rparr>;
          s = set_head H (n OR 1) (s\<lparr>top_chunk := H\<rparr>)
      in sbrk_stats (s\<lparr>sbrked_mem := sbrked_mem s + 0\<rparr>))"

lemma first_top_fields:
  "mem (first_top H n v) = (mem v)(H + 8 := n OR 1)" "top_chunk (first_top H n v) = H"
  "av_bins (first_top H n v) = av_bins v" "fastbins (first_top H n v) = fastbins v" "binmap (first_top H n v) = binmap v"
  "max_fast (first_top H n v) = max_fast v" "contiguous (first_top H n v) = contiguous v"
  "pagesize (first_top H n v) = pagesize v" "top_pad (first_top H n v) = top_pad v"
  "trim_threshold (first_top H n v) = trim_threshold v" "mmap_threshold (first_top H n v) = mmap_threshold v"
  "kernel.truncate (first_top H n v) = kernel.truncate (v\<lparr>mem := mem (first_top H n v), heap_top := Some (H + n)\<rparr>)"
  by (simp_all add: first_top_def sbrk_stats_def set_head_def wr_def contiguous_def kernel.defs Let_def)

lemma page_low_bits:
  assumes "4096 dvd unat (x :: u64)"
  shows "(x + 16) AND 15 = 0" "x \<noteq> - 1" "pagesize s = malloc_getpagesize \<Longrightarrow> page_up s x = x"
proof -
  have a: "x AND mask 12 = 0" using assms by (simp add: and_mask_zero_iff)
  have "unat (x + 16) mod 16 = 0"
  proof -
    have "(unat x + 16) mod 2 ^ 64 mod 16 = (unat x + 16) mod 16" by (simp add: mod_mod_cancel)
    also have "\<dots> = 0" using dvd_trans [OF _ assms, of 16] by (simp add: dvd_eq_mod_eq_0)
    finally show ?thesis by (simp add: unat_word_ariths)
  qed
  then have "(x + 16) AND mask 4 = 0" by (simp add: and_mask_zero_iff dvd_eq_mod_eq_0)
  then show "(x + 16) AND 15 = 0" by (simp add: mask_eq_exp_minus_1)
  show "x \<noteq> - 1" using a by (auto simp: mask_eq_exp_minus_1)
  show "page_up s x = x" if "pagesize s = malloc_getpagesize"
    unfolding page_up_mask [OF that] by (rule add_mask_up [OF a])
qed

lemma sys_core_first:
  assumes u: "contiguous u" "top_pad u = 0" "pagesize u = malloc_getpagesize" "chunksize u (top_chunk u) = 0"
    and run: "MORECORE (core_size u nb 0) u = Some (H, v)" "kernel.more v = kernel.more u" "is_initialized v"
      "cur_top v = H + core_size u nb 0"
    and H: "4096 dvd unat H" "4096 dvd unat (H + core_size u nb 0)" "H \<noteq> top_chunk u" "H \<le> H + core_size u nb 0"
    and n: "0 <s core_size u nb 0" "nb + MINSIZE \<le> core_size u nb 0" "16 dvd unat (core_size u nb 0)"
  shows "sys_core nb u = Some (split_top nb (core_size u nb 0) (first_top H (core_size u nb 0) v))"
proof -
  define n' where "n' = core_size u nb 0"
  note mf = more_fields [OF run(2)]
  note h = page_low_bits [OF H(1)] and e = page_low_bits [OF H(2), folded n'_def]
  have more: "sys_morecore nb 0 u = Some ((H, MORECORE_FAILURE, n'), v)"
    using u(1,2) run(1) n(1) h(2) by (simp add: sys_morecore_def Let_def core_size_def n'_def MORECORE_FAILURE_def)
  define s where "s = v\<lparr>sbrked_mem := sbrked_mem v + n'\<rparr>"
  have s: "contiguous s" "pagesize s = malloc_getpagesize" "is_initialized s" "cur_top s = H + n'"
    using mf u(1,3) run(3,4) by (simp_all add: s_def contiguous_def cur_top_def n'_def split: option.splits)
  have m0: "MORECORE 0 s = Some (H + n', s\<lparr>heap_top := Some (H + n')\<rparr>)"
    using sbrk_zero [OF s(3)] by (simp add: s(4))
  have cont: "sys_contiguous H n' 0 (top_chunk u) s = Some ((H, H + n', 0), s\<lparr>heap_top := Some (H + n')\<rparr>)"
    using h(1) e(2) e(3) [OF s(2)] m0 H(4)
    by (simp add: sys_contiguous_def Let_def chunk2mem_def dl_consts MORECORE_FAILURE_def n'_def not_less)
  define t where "t = set_head H (n' OR 1) (s\<lparr>heap_top := Some (H + n'), top_chunk := H\<rparr>)"
  have ext: "sys_extend (top_chunk u) 0 H MORECORE_FAILURE n' s = Some (t\<lparr>sbrked_mem := sbrked_mem t + 0\<rparr>)"
    using H(3) s(1) cont e(2)
    by (simp add: sys_extend_def chunk_at_offset_def sys_adjust_top_def sys_fenceposts_def t_def dl_consts
        set_head_def wr_def Let_def MORECORE_FAILURE_def)
  have ft: "sbrk_stats (t\<lparr>sbrked_mem := sbrked_mem t + 0\<rparr>) = first_top H n' v"
    by (simp only: first_top_def t_def s_def Let_def)
  then have ft': "sbrk_stats t = first_top H n' v" by simp
  have cs: "chunksize (first_top H n' v) (top_chunk (first_top H n' v)) = n'"
    using tag_bits(1) [OF n(3)] by (simp add: chunksize_def ck_size_def first_top_fields dl_consts n'_def)
  show ?thesis
    using more ext cs n(2) h(2) unfolding n'_def [symmetric]
    by (simp add: sys_core_def u(4) Let_def MORECORE_FAILURE_def ft' flip: s_def)
qed

section \<open>The invariant is established\<close>

lemma empty_rings:
  assumes "empty_from 1 av m" "1 \<le> i" "i < 96" shows "ring m (bin_addr av i) []"
  using assms by (simp add: empty_from_def ring_def)

lemma first_heap_inv:
  assumes e: "empty_from 1 (av_bins s) (mem s)" and f: "fastbins s = (\<lambda>_. 0)" "binmap s 3 = 0" "max_fast s = 80"
    and H: "16 dvd unat (top_chunk s)" "16 \<le> unat (top_chunk s)" "mem s (top_chunk s + 8) = n OR 1" "chunk_size_ok n"
    and av: "8 dvd unat (av_bins s)" "unat (av_bins s) + 1536 < 2 ^ 64"
      "unat (av_bins s) + 1536 \<le> unat (top_chunk s) \<or> heap_end s n + 16 \<le> unat (av_bins s)"
    and b: "heap_end s n + 16 < 2 ^ 64" "heap_end s n < unat (top_chunk s) + 2 ^ 32"
  shows "heap_inv s (top_chunk s) n Map.empty (\<lambda>_. []) (\<lambda>_. [])"
proof -
  have "layout (top_chunk s) (top_chunk s) Map.empty" using H(1) by (simp add: layout_def)
  then have A: "arena (top_chunk s) (top_chunk s) n Map.empty (av_bins s)"
    using H av b by (auto simp: arena_def heap_end_def)
  have T: "tagged (mem s) (top_chunk s) n Map.empty {}" using H(3) by (simp add: tagged_def)
  have B: "binned (mem s) (av_bins s) (marked s) Map.empty (\<lambda>_. []) {}"
    using empty_rings [OF e] by (simp add: binned_def)
  have F: "fast_ok (mem s) (fastbins s) Map.empty (\<lambda>_. [])" by (simp add: fast_ok_def f)
  have l: "fast_limit s = 80" by (simp add: fast_limit_def f unat_and_not_mask)
  have nf: "\<not> have_fastchunks s" by (simp add: have_fastchunks_def f FASTCHUNKS_BIT_def)
  show ?thesis unfolding heap_inv_def heap_core_def limit_ok_def l using A T B F nf f(2) by simp
qed

lemma more_init:
  assumes "kernel.more v = kernel.more (u :: 'a malloc_state_scheme)"
  shows "trim_threshold v = trim_threshold u" "mmap_threshold v = mmap_threshold u"
  using assms by (cases u, cases v, simp)+

text \<open>The heap and everything below it after the first pages have come.\<close>

lemma first_dl_ok:
  assumes fr: "fresh_dl s A R" and nb: "chunk_size_ok nb" "unat nb < 2 ^ 32" and sup: "supply_for s nb 0"
  obtains w n A' where "sys_core nb (malloc_init_state s) = Some (split_top nb n w)"
    "dl_ok w (cur_top s) n Map.empty (\<lambda>_. []) (\<lambda>_. []) A' R" "top_chunk w = cur_top s" "unat nb + 32 \<le> unat n"
    "trim_threshold w = 0x40000" "mmap_threshold w = 0x40000" "unat n < unat nb + 4128"
proof -
  let ?u = "malloc_init_state s" and ?H = "cur_top s" and ?av = "av_bins s" and ?e = "unat (heap_base s) + unat (heap_size s)"
  have f: "max_fast s = 0" "8 dvd unat ?av" "unat ?av + 1536 < 2 ^ 64" "A \<subseteq> R" "apart_from R ?H ?av ?e"
    "fastbins s = (\<lambda>_. 0)" "binmap s = (\<lambda>_. 0)" "heap_ok s A"
    using fr by (simp_all add: fresh_dl_def)
  note i = init_state_fields [OF f(1)] and o = init_state_ok [OF fr]
  have ap: "unat ?av + 1536 \<le> unat ?H \<or> ?e + 16 \<le> unat ?av" "?e + 16 < 2 ^ 64" "?e < unat ?H + 2 ^ 32"
    using f(5) by (simp_all add: apart_from_def)
  define n where "n = core_size ?u nb 0"
  have z: "unat (0 :: u64) < unat nb + 32" "16 dvd unat (0 :: u64)" "16 dvd unat nb" using nb(1) by (simp_all add: chunk_size_ok_def)
  have su: "supply_for ?u nb 0" using sup o(3-6) by (simp add: supply_for_def)
  have lim: "unat (heap_base ?u) + unat (heap_size ?u) + 16 < 2 ^ 64" using ap(2) o(4,5) by simp
  obtain v A' where v: "MORECORE n ?u = Some (cur_top ?u, v)" "heap_ok v A'" "A' \<subseteq> R" "tables_in R v (pagemap v)"
    "kernel.more v = kernel.more ?u" "writes_in R ?u v" "heap_base v = heap_base ?u" "heap_size v = heap_size ?u"
    "unat (cur_top v) = unat (cur_top ?u) + unat n"
    "unat (cur_top ?u) + unat n \<le> unat (heap_base ?u) + unat (heap_size ?u)"
    by (rule morecore_run [OF o(1) f(4) o(2) i(5) lim nb(2) z(3,1,2) su, folded n_def]) (rule that)
  note nn = core_size_bounds [OF i(5) nb(2) z(1,3,2), folded n_def]
  have H: "4096 dvd unat ?H" "?H \<noteq> 0" "unat ?H + unat n \<le> ?e"
    using f(8) v(10) o(3-5) by (auto simp: heap_ok_def unat_eq_0)
  have Hn: "unat (?H + n) = unat ?H + unat n" using H(3) ap(2) by (intro unat_add_nowrap) simp
  have ct: "cur_top v = ?H + n" using v(9) o(3) Hn by (simp add: word_unat_eq_iff)
  have nav: "?H \<noteq> top_chunk ?u" using ap H(3) by (auto simp: i(7))
  have small: "0 <s n" using nn(2,3) nb(2) by (intro small_signed(2)) (auto simp: unat_eq_0)
  have nbu: "unat (nb + MINSIZE) = unat nb + 32" using nb(2) by (subst unat_add_nowrap) (simp_all add: dl_consts)
  have n16: "16 dvd unat n" by (rule dvd_trans [OF _ nn(1)]) simp
  let ?w = "first_top ?H n v"
  have run: "sys_core nb ?u = Some (split_top nb n ?w)"
    using sys_core_first [of ?u nb ?H v, folded n_def] i(2,4,5) o(3,8) v(1,2,5) ct H(1) nav small n16 Hn nn(1,5) nbu
    by (simp add: heap_ok_def dvd_add word_le_nat_alt)
  note x = first_top_fields [where H = ?H and n = n and v = v]
  note mf = more_fields [OF v(5)]
  note av = same_avD [OF mf(1)]
  have bins: "mem ?w a = mem ?u a" if a: "unat ?av + 16 \<le> unat a" "unat a < unat ?av + 1536" for a
  proof -
    have "unat a \<notin> R" using f(5) a by (auto simp: apart_from_def)
    moreover have "unat (?H + 8) = unat ?H + 8" using H(3) ap(2) nn(2) n16 by (intro unat_add_nowrap [THEN trans]) simp_all
    then have "a \<noteq> ?H + 8" using ap(1) a H(3) by auto
    ultimately show ?thesis using writes_inD [OF v(6)] by (simp add: x(1))
  qed
  have emp: "empty_from 1 ?av (mem ?w)"
    unfolding empty_from_def
  proof (intro allI impI)
    fix j :: nat assume j: "1 \<le> j" "j < 96"
    note w = bin_words [OF f(2,3) j]
    show "mem ?w (bin_addr ?av j + 16) = bin_addr ?av j \<and> mem ?w (bin_addr ?av j + 24) = bin_addr ?av j"
      using bins [of "bin_addr ?av j + 16"] bins [of "bin_addr ?av j + 24"] w j o(7) by (simp add: empty_from_def)
  qed
  have he: "heap_end ?w n = unat ?H + unat n" by (simp add: heap_end_def x(2))
  have I: "heap_inv ?w (top_chunk ?w) n Map.empty (\<lambda>_. []) (\<lambda>_. [])"
  proof (rule first_heap_inv)
    show "empty_from 1 (av_bins ?w) (mem ?w)" using emp by (simp add: x(3) av i(6))
    show "16 dvd unat (top_chunk ?w)" using H(1) dvd_trans [of 16 4096 "unat ?H"] by (simp add: x(2))
    have "0 < unat ?H" using H(2) by (simp add: unat_gt_0)
    then show "16 \<le> unat (top_chunk ?w)" using dvd_imp_le [OF H(1)] by (simp add: x(2))
    show "chunk_size_ok n" using n16 nn(5) nb(1) by (simp add: chunk_size_ok_def)
  qed (use f(2,3,6,7) ap H(3) in \<open>auto simp: x he av i\<close>)
  have H8: "unat (?H + 8) \<notin> R"
  proof -
    have "unat (?H + 8) = unat ?H + 8" using H(3) ap(2) by (intro unat_add_nowrap [THEN trans]) simp_all
    moreover have "unat ?H + 8 < ?e + 8" using H(3) nn(2) by simp
    ultimately show ?thesis using apart_fromD(2) [OF f(5), of "unat (?H + 8)"] by auto
  qed
  let ?v = "v\<lparr>heap_top := Some (?H + n)\<rparr>"
  have vt: "heap_ok ?v A'" "tables_in R ?v (pagemap ?v)"
    using v(2,4) ct by (auto simp: heap_ok_def cur_top_def)
  have tr: "kernel.truncate (?w\<lparr>mem := m\<rparr>) = kernel.truncate (?v\<lparr>mem := m\<rparr>)" for m
    using arg_cong [OF x(12), of "\<lambda>k. k\<lparr>mem := m\<rparr>"] by (simp add: kernel.defs)
  have mw: "mem ?w a = mem ?v a" if "unat a \<in> R" for a using that H8 by (auto simp: x(1))
  note ow = heap_ok_outside [OF vt(1) v(3) vt(2) tr mw]
  have cw: "cur_top ?w = ?H + n" using ow(5) by (simp add: cur_top_def)
  have "heap_base ?w = heap_base s" "heap_size ?w = heap_size s" using ow(6,7) v(7,8) o(4,5) by simp_all
  then have "dl_ok ?w ?H n Map.empty (\<lambda>_. []) (\<lambda>_. []) A' R"
    using I ow(1,2) v(3) f(5) cw mf i(2,4,5,6) by (simp add: dl_ok_def x av)
  then show ?thesis
    by (rule that [OF run]) (use x nn(3,5) more_init [OF v(5)] i in \<open>simp_all add: x\<close>)
qed

text \<open>
  The first \<open>mALLOc\<close> of the program, on a kernel heap that has not been used, initialises the
  allocator, lets \<open>sbrk\<close> map the first pages, and answers with the start of the heap. From then
  on the combined invariant holds, with the new chunk as the only one in use.
\<close>

lemma malloc_first:
  assumes "fresh_dl s A R" "unat bytes < 2 ^ 17" "supply_for s (request2size bytes) 0"
  shows "\<exists>t ts C B F A' z. mALLOc bytes s = Some (chunk2mem (cur_top s), t) \<and> dl_ok t (cur_top s) ts C B F A' R \<and>
    in_use C = [cur_top s \<mapsto> (z, Used)] \<and> unat (request2size bytes) \<le> unat z \<and> unat z < unat (request2size bytes) + 32 \<and>
    trim_threshold t = 0x40000 \<and> mmap_threshold t = 0x40000 \<and>
    top_chunk t = cur_top s + request2size bytes \<and> unat (cur_top t) < unat (cur_top s) + unat (request2size bytes) + 4128"
proof -
  let ?nb = "request2size bytes" and ?u = "malloc_init_state s"
  have b: "unat bytes < 2 ^ 32 - 64" using assms(2) by simp
  note r = request_below [OF b]
  have small: "unat ?nb < 2 ^ 17 + 64" using request2size_ok(3) [of bytes] assms(2) by simp
  have mf: "max_fast s = 0" using assms(1) by (simp add: fresh_dl_def)
  note i = init_state_fields [OF mf] and o = init_state_ok [OF assms(1)]
  obtain w n A' where w: "sys_core ?nb ?u = Some (split_top ?nb n w)"
    "dl_ok w (cur_top s) n Map.empty (\<lambda>_. []) (\<lambda>_. []) A' R" "top_chunk w = cur_top s" "unat ?nb + 32 \<le> unat n"
    "trim_threshold w = 0x40000" "mmap_threshold w = 0x40000" "unat n < unat ?nb + 4128"
    by (rule first_dl_ok [OF assms(1) r(2,3) assms(3)]) (rule that)
  note Iw = dl_okD(1) [OF w(2)]
  obtain t where t: "split_top ?nb n w = (chunk2mem (cur_top s), t)" "alloced w (cur_top s) n Map.empty ?nb (cur_top s) t"
    using split_top_ok [OF Iw r(2) w(4)] w(3) by auto
  have none: "\<not> have_anychunks s" by (simp add: have_anychunks_def mf)
  have fl: "\<not> have_fastchunks ?u" by (simp add: have_fastchunks_def i FASTCHUNKS_BIT_def)
  have con: "malloc_consolidate s = Some ?u" by (simp add: malloc_consolidate_def mf)
  have "\<not> ?nb + MINSIZE \<le> 0"
  proof -
    have "unat (?nb + MINSIZE) = unat ?nb + 32" using r(3) by (subst unat_add_nowrap) (simp_all add: dl_consts)
    then show ?thesis by (simp add: word_le_nat_alt)
  qed
  then have top: "use_top ?nb ?u = sYSMALLOc ?nb ?u" using o(8) by (simp add: use_top_def Let_def)
  have "\<not> 0x40000 \<le> ?nb" using small by (simp add: word_le_nat_alt)
  then have "sys_mmap ?nb ?u = Some (Inr (), ?u)" by (simp add: sys_mmap_def i(3))
  then have sys: "from_system ?nb ?u = Some (chunk2mem (cur_top s), t)" using w(1) t(1) by (simp add: from_system_def)
  have "malloc_once bytes s = sYSMALLOc ?nb ?u"
    using none con top mf r(1) by (simp add: malloc_once_def)
  then have run: "mALLOc bytes s = Some (chunk2mem (cur_top s), t)"
    using malloc_system [OF _ fl] sys by simp
  obtain ts' C' B' F' z where a: "heap_inv t (cur_top s) ts' C' B' F'" "heap_end t ts' = heap_end w n"
    "in_use C' = (in_use Map.empty)(cur_top s \<mapsto> (z, Used))" "unat ?nb \<le> unat z" "unat z < unat ?nb + 32"
    "calm w (cur_top s) (heap_end w n) (in_use Map.empty) t"
    using t(2) unfolding alloced_def by blast
  have "in_use C' = [cur_top s \<mapsto> (z, Used)]" using a(3) by (simp add: in_use_def)
  moreover have "trim_threshold t = 0x40000" "mmap_threshold t = 0x40000" using calm_fields(5,7) [OF a(6)] w(5,6) by simp_all
  moreover have "top_chunk t = cur_top s + ?nb"
    using t(1) by (auto simp: split_top_def w(3) chunk_at_offset_def set_head_def Let_def)
  moreover have "unat (cur_top t) < unat (cur_top s) + unat ?nb + 4128"
    using calm_dl_ok(5) [OF w(2) a(6,1,2)] dl_okD(10) [OF w(2)] w(3,7) by (simp add: heap_end_def)
  ultimately show ?thesis using run calm_dl_ok(1) [OF w(2) a(6,1,2)] a(4,5) by blast
qed

text \<open>The kernel of \<open>demo_kernel\<close> with an allocator that has not been used.\<close>

definition demo_start :: malloc_state where
  "demo_start = demo_dl\<lparr>mem := mem demo_pma, max_fast := 0, heap_top := None\<rparr>"

lemma demo_start_ok: "fresh_dl demo_start demo_frames {0x9000..<0x24000}" "room demo_start 32768"
  "cur_top demo_start = 0xFFFF880000000000" "heap_base demo_start = 0xFFFF880000000000" "heap_size demo_start = 0x100000"
proof -
  have tr: "kernel.truncate (demo_start\<lparr>mem := m\<rparr>) = kernel.truncate (demo_kernel\<lparr>mem := m\<rparr>)" for m
    by (simp add: demo_start_def demo_dl_def kernel.defs demo_kernel_fields(7))
  have m: "mem demo_start x = mem demo_kernel x" for x by (simp add: demo_start_def demo_kernel_fields)
  note o = heap_ok_outside [OF demo_heap_ok demo_frames_in demo_tables_in tr m]
  show b: "heap_base demo_start = 0xFFFF880000000000" "heap_size demo_start = 0x100000"
    "cur_top demo_start = 0xFFFF880000000000"
    using o(5-7) by (simp_all add: demo_kernel_fields cur_top_def)
  have "room demo_pma 32768"
    using demo_pma_blocks unfolding room_def by (intro exI [of _ "[(0x10000, 0x8000), (0x20000, 0x4000)]"]) simp
  then have "room demo_kernel 32768" by (simp add: room_def blocks_at_def demo_kernel_fields)
  then show "room demo_start 32768" using o(4) [of 32768] by simp
  have "mem demo_pma 0x1008 = 0" by (simp add: demo_pma_def)
  then show "fresh_dl demo_start demo_frames {0x9000..<0x24000}"
    unfolding fresh_dl_def using o(1,2) demo_frames_in
    by (simp add: b apart_from_def) (simp add: demo_start_def demo_fields)
qed

lemma malloc_first_witness:
  "\<exists>t. mALLOc 100 demo_start = Some (0xFFFF880000000010, t) \<and>
     (\<exists>ts C B F A' z. dl_ok t 0xFFFF880000000000 ts C B F A' {0x9000..<0x24000} \<and> in_use C = [0xFFFF880000000000 \<mapsto> (z, Used)])"
proof -
  have r: "request2size 100 = 112" by (simp add: request2size_def dl_consts)
  have "supply_for demo_start (request2size 100) 0"
    using demo_start_ok(2-5) by (simp add: supply_for_def r)
  then obtain t ts C B F A' z where t: "mALLOc 100 demo_start = Some (chunk2mem (cur_top demo_start), t)"
    "dl_ok t (cur_top demo_start) ts C B F A' {0x9000..<0x24000}" "in_use C = [cur_top demo_start \<mapsto> (z, Used)]"
    using malloc_first [OF demo_start_ok(1), of 100] by auto
  have "mALLOc 100 demo_start = Some (0xFFFF880000000010, t)"
    using t(1) by (simp add: demo_start_ok(3) chunk2mem_def dl_consts)
  then show ?thesis using t(2,3) unfolding demo_start_ok(3) by blast
qed

end
