(* ===== verification/Dl_Reshape.thy ===== *)
theory Dl_Reshape
  imports Dl_First
begin

text \<open>
  Chunks in use change their size in place: they are split, joined with the chunk behind, and
  extended into the top chunk.
\<close>

unbundle bit_operations_syntax

section \<open>A new size field\<close>

text \<open>One header of a chunk in use is written; what is not in use stays as it is.\<close>

lemma rehead:
  assumes I: "heap_inv s lo ts C B F" and v: "same_av s t" and L: "layout lo (top_chunk s) C'"
    and keep: "\<And>x z k. k \<noteq> Used \<Longrightarrow> C' x = Some (z, k) \<longleftrightarrow> C x = Some (z, k)"
    and p: "C p = Some (a, Used)" and m: "mem t = (mem s)(p + 8 := w)"
    and head: "\<And>x z. C' x = Some (z, Used) \<Longrightarrow> mem t (x + 8) = z OR flag C x"
  shows "heap_inv t lo ts C' B F"
proof -
  note H = heap_invD(1) [OF I]
  note A = core_arena [OF H] and T = core_tagged [OF H] and Bn = core_binned [OF H]
  let ?tp = "top_chunk s"
  have pi: "p \<in> insert ?tp (dom C)" using p by auto
  have fb: "free_before C' q = free_before C q" for q by (rule free_before_cong) (rule keep, simp)
  have fl: "flag C' q = flag C q" for q by (simp only: flag_def fb)
  have ptp: "p + 8 \<noteq> ?tp + 8" using p tp_not_chunk [OF arena_layout [OF A]] by auto
  have A': "arena lo ?tp ts C' (av_bins s)" by (rule arena_retag [OF A L])
  have T': "tagged (mem t) ?tp ts C' {}"
    unfolding tagged_def fl
  proof (intro conjI allI impI)
    fix x z k assume x: "C' x = Some (z, k)"
    show "mem t (x + 8) = z OR flag C x"
    proof (cases "k = Used")
      case True
      then show ?thesis using head x by simp
    next
      case False
      then have c: "C x = Some (z, k)" using keep x by simp
      then have "x \<noteq> p" using p False by auto
      then show ?thesis using tagged_head [OF T c] by (simp add: m)
    qed
  next
    show "mem t (?tp + 8) = ts OR 1" using tagged_top [OF T] ptp by (simp add: m)
  next
    fix x z assume "C' x = Some (z, Free)"
    then have c: "C x = Some (z, Free)" using keep by simp
    have "p + 8 \<noteq> x + z" by (rule head_foot [OF A pi c])
    then show "mem t (x + z) = z" using tagged_foot [OF T c] by (auto simp: m)
    show "\<not> free_before C' x" "x + z \<noteq> ?tp" using tagged_apart [OF T c] by (simp_all add: fb)
  qed
  have sub: "bin_nodes (av_bins s) B \<subseteq> all_nodes (av_bins s) C"
    using binned_member [OF Bn] by (fastforce simp: bin_nodes_def all_nodes_def)
  have "binned (mem t) (av_bins s) (marked s) C B {}"
    by (rule binned_frame [OF Bn]) (use other_header [OF H pi] link_words_mono [OF sub] m in auto)
  then have B': "binned (mem t) (av_bins s) (marked s) C' B {}"
    by (rule binned_cong) (simp add: keep)
  have core: "heap_core t lo ts C' B {} {}"
    unfolding heap_core_def same_avD [OF v] marked_cong [OF same_avD(3) [OF v]] using A' T' B' by blast
  have "fast_list (mem t) (fastbins s i) (F i)" if i: "i < 11" for i
  proof (rule fast_list_frame [OF fast_okD(1) [OF heap_invD(2) [OF I] i]])
    fix x assume "x \<in> set (F i)"
    then have "x \<in> dom C" using fast_okD(3) [OF heap_invD(2) [OF I] i] by blast
    then show "mem t (x + 16) = mem s (x + 16)" using head_link(1) [OF A pi, of x] by (auto simp: m)
  qed
  then have fo: "fast_ok (mem t) (fastbins t) C' F"
    using heap_invD(2) [OF I] unfolding fast_ok_def same_avD [OF v] by (simp add: keep)
  show ?thesis by (rule heap_inv_parts [OF I v core fo]) (simp add: keep)
qed

section \<open>Splitting and joining\<close>

lemma split_used:
  assumes I: "heap_inv s lo ts C B F" and p: "C p = Some (sz, Used)" and nb: "chunk_size_ok nb" "unat nb + 32 \<le> unat sz"
    and v: "same_av s t" and m: "mem t = (mem s)(p + 8 := nb OR flag C p, p + nb + 8 := (sz - nb) OR 1)"
  shows "heap_inv t lo ts (C(p \<mapsto> (nb, Used), p + nb \<mapsto> (sz - nb, Used))) B F"
    "p + nb \<notin> dom C" "p + nb \<noteq> p" "unat (p + nb) = unat p + unat nb" "unat (sz - nb) = unat sz - unat nb"
proof -
  note A = core_arena [OF heap_invD(1) [OF I]] and T = core_tagged [OF heap_invD(1) [OF I]]
  note L = arena_layout [OF A]
  let ?r = "p + nb" and ?C = "C(p \<mapsto> (nb, Used), p + nb \<mapsto> (sz - nb, Used))"
  have uz: "unat (sz - nb) = unat sz - unat nb" using nb(2) by (intro unat_sub_le) simp
  have z: "chunk_size_ok (sz - nb)"
    using nb chunk_bounds(6) [OF A p] by (simp add: chunk_size_ok_def uz)
  have le: "unat nb \<le> unat sz" using nb(2) by simp
  note S = layout_split(1) [OF L p nb(1) z le, of Used Used] layout_split(2-5) [OF L p nb(1) z le]
  show "?r \<notin> dom C" "?r \<noteq> p" "unat ?r = unat p + unat nb" "unat (sz - nb) = unat sz - unat nb"
    by (fact S uz)+
  have r8: "unat (?r + 8) = unat ?r + 8"
    using S(5) chunk_bounds(2) [OF A p] arena_bounds(1) [OF A] nb(2) by (intro unat_add_nowrap [THEN trans]) simp_all
  have "?r + 8 \<in> data_words p sz" using r8 S(5) nb by (auto simp: data_words_def chunk_size_ok_def)
  define u where "u = s\<lparr>mem := (mem s)(?r + 8 := (sz - nb) OR 1)\<rparr>"
  have Iu: "heap_inv u lo ts C B F"
    by (rule user_write_inv [OF I p]) (use \<open>?r + 8 \<in> _\<close> in \<open>auto simp: u_def same_av_def\<close>)
  have ne: "p + 8 \<noteq> ?r + 8" using S(3) by simp
  have nfr: "\<not> free_before C ?r"
  proof
    assume "free_before C ?r"
    then obtain q w where q: "C q = Some (w, Free)" "q + w = ?r" by (auto simp: free_before_def)
    have "?r \<noteq> top_chunk s" using S(5) chunk_bounds(2) [OF A p] nb(2) by auto
    then show False using layout_next [OF L q(1)] q(2) S(2) by auto
  qed
  show "heap_inv t lo ts ?C B F"
  proof (rule rehead [OF Iu _ _ _ p])
    show "same_av u t" using v by (simp add: same_av_def u_def)
    show "layout lo (top_chunk u) ?C" using S(1) by (simp add: u_def)
    show "mem t = (mem u)(p + 8 := nb OR flag C p)" using m ne by (simp add: u_def fun_upd_twist)
    show "?C x = Some (w, k) \<longleftrightarrow> C x = Some (w, k)" if "k \<noteq> Used" for x w k
      using that p S(2,3) by (cases "x = p"; cases "x = ?r") auto
    show "mem t (x + 8) = w OR flag C x" if "?C x = Some (w, Used)" for x w
    proof (cases "x = ?r")
      case True
      then show ?thesis using that nfr by (simp add: m flag_def)
    next
      case False
      then show ?thesis using that S(3) tagged_head [OF T, of x w Used] by (cases "x = p") (auto simp: m)
    qed
  qed
qed

lemma join_used:
  assumes I: "heap_inv s lo ts C B F" and p: "C p = Some (a, Used)" and q: "C (p + a) = Some (b, Used)"
    and v: "same_av s t" and m: "mem t = (mem s)(p + 8 := (a + b) OR flag C p)"
  shows "heap_inv t lo ts ((C(p + a := None))(p \<mapsto> (a + b, Used))) B F" "unat (a + b) = unat a + unat b"
proof -
  note A = core_arena [OF heap_invD(1) [OF I]] and T = core_tagged [OF heap_invD(1) [OF I]]
  note J = layout_join(1) [OF arena_layout [OF A] p q, of Used] layout_join(2) [OF arena_layout [OF A] p q]
  let ?C = "(C(p + a := None))(p \<mapsto> (a + b, Used))"
  show "unat (a + b) = unat a + unat b" by (rule J)
  have ne: "p + a \<noteq> p" by (rule next_not_self(1) [OF arena_layout [OF A] p])
  show "heap_inv t lo ts ?C B F"
  proof (rule rehead [OF I v J(1) _ p m])
    show "?C x = Some (w, k) \<longleftrightarrow> C x = Some (w, k)" if "k \<noteq> Used" for x w k
      using that p q by (cases "x = p"; cases "x = p + a") auto
    show "mem t (x + 8) = w OR flag C x" if "?C x = Some (w, Used)" for x w
      using that tagged_head [OF T, of x w Used] by (cases "x = p") (auto simp: m split: if_splits)
  qed
qed

section \<open>Into the top chunk\<close>

lemma extend_top:
  assumes I: "heap_inv s lo ts C B F" and p: "C p = Some (a, Used)" and top: "p + a = top_chunk s"
    and nb: "chunk_size_ok nb" "unat a \<le> unat nb" "unat nb + 32 \<le> unat a + unat ts"
    and t: "t = s\<lparr>mem := (mem s)(p + 8 := nb OR flag C p, p + nb + 8 := (a + ts - nb) OR 1), top_chunk := p + nb\<rparr>"
  shows "heap_inv t lo (a + ts - nb) (C(p \<mapsto> (nb, Used))) B F" "heap_end t (a + ts - nb) = heap_end s ts"
proof -
  note H = heap_invD(1) [OF I]
  note A = core_arena [OF H] and T = core_tagged [OF H] and Bn = core_binned [OF H]
  note L = arena_layout [OF A] and b = arena_bounds [OF A] and c = chunk_bounds [OF A p]
  let ?tp = "top_chunk s" and ?r = "p + nb" and ?z = "a + ts - nb" and ?C = "C(p \<mapsto> (nb, Used))"
  have ut: "unat ?tp = unat p + unat a" using c(5) top by simp
  have ua: "unat (a + ts) = unat a + unat ts" using b(1) ut by (intro unat_add_nowrap) simp
  have uz: "unat ?z = unat a + unat ts - unat nb" using nb(3) ua by (subst unat_sub_le) simp_all
  have w: "unat p + unat nb < 2 ^ 64" using nb(3) ut b(1) by simp
  note G = layout_grow(1) [OF layout_shrink [OF L p top] nb(1) w, of Used]
    layout_grow(2) [OF layout_shrink [OF L p top] nb(1) w]
  have upd: "(C(p := None))(p \<mapsto> (nb, Used)) = ?C" by simp
  have zok: "chunk_size_ok ?z"
    using nb A c(6) uz by (auto simp: chunk_size_ok_def arena_def intro: dvd_diff_nat)
  have he: "unat ?r + unat ?z = unat ?tp + unat ts" using uz nb(3) G(2) ut by simp
  then show "heap_end t ?z = heap_end s ts" by (simp add: heap_end_def t)
  have A': "arena lo ?r ?z ?C (av_bins s)" using A G(1) zok he unfolding upd by (simp add: arena_def add.assoc)
  have keep: "?C x = Some (z, k) \<longleftrightarrow> C x = Some (z, k)" if "k \<noteq> Used" for x z k using that p by auto
  have fb: "free_before ?C q = free_before C q" for q by (rule free_before_cong) (rule keep, simp)
  have fl: "flag ?C q = flag C q" for q by (simp only: flag_def fb)
  have pi: "p \<in> insert ?tp (dom C)" using p by auto
  have ri: "?r \<in> insert ?r (dom ?C)" by simp
  have m: "mem t = (mem s)(p + 8 := nb OR flag C p, ?r + 8 := ?z OR 1)" by (simp add: t)
  have rp: "?r \<noteq> p" using G(2) nb(1) by (auto simp: chunk_size_ok_def)
  have rd: "?r \<notin> dom ?C" using tp_not_chunk [OF arena_layout [OF A']] .
  have T': "tagged (mem t) ?r ?z ?C {}"
    unfolding tagged_def fl
  proof (intro conjI allI impI)
    fix x z k assume x: "?C x = Some (z, k)"
    then have "x \<noteq> ?r" using rd by auto
    then show "mem t (x + 8) = z OR flag C x"
      using x rp tagged_head [OF T, of x z k] by (cases "x = p") (auto simp: m)
  next
    show "mem t (?r + 8) = ?z OR 1" by (simp add: m)
  next
    fix x z assume x': "?C x = Some (z, Free)"
    then have x: "C x = Some (z, Free)" using keep by simp
    have "p + 8 \<noteq> x + z" by (rule head_foot [OF A pi x])
    moreover have "?r + 8 \<noteq> x + z" by (rule head_foot [OF A' ri x'])
    ultimately show "mem t (x + z) = z" using tagged_foot [OF T x] by (auto simp: m)
    show "\<not> free_before ?C x" using tagged_apart [OF T x] by (simp add: fb)
    have "unat x + unat z \<le> unat ?tp" by (rule chunk_bounds(2) [OF A x])
    moreover have "x + z \<noteq> ?tp" using tagged_apart [OF T x] by simp
    ultimately have "unat x + unat z < unat ?tp" using chunk_bounds(5) [OF A x] by (metis le_neq_implies_less word_unat_eq_iff)
    then show "x + z \<noteq> ?r" using G(2) ut nb(2) chunk_bounds(5) [OF A x] by auto
  qed
  have sub: "bin_nodes (av_bins s) B \<subseteq> all_nodes (av_bins s) C" "all_nodes (av_bins s) ?C = all_nodes (av_bins s) C"
    using binned_member [OF Bn] p by (fastforce simp: bin_nodes_def all_nodes_def)+
  have "mem t x = mem s x" if "x \<in> link_words (all_nodes (av_bins s) C)" for x
    using that links_not_head [OF A pi] links_not_head [OF A' ri] by (auto simp: m sub(2))
  then have "binned (mem t) (av_bins s) (marked s) C B {}"
    using link_words_mono [OF sub(1)] by (intro binned_frame [OF Bn]) blast
  then have B': "binned (mem t) (av_bins s) (marked s) ?C B {}" by (rule binned_cong) (use p in auto)
  have f: "top_chunk t = ?r" "av_bins t = av_bins s" "binmap t = binmap s" "fastbins t = fastbins s" "max_fast t = max_fast s"
    by (simp_all add: t)
  have core: "heap_core t lo ?z ?C B {} {}"
    unfolding heap_core_def f marked_cong [OF f(3)] using A' T' B' by blast
  have "fast_list (mem t) (fastbins s i) (F i)" if i: "i < 11" for i
  proof (rule fast_list_frame [OF fast_okD(1) [OF heap_invD(2) [OF I] i]])
    fix x assume "x \<in> set (F i)"
    then have x: "x \<in> dom C" using fast_okD(3) [OF heap_invD(2) [OF I] i] by blast
    then have "x \<in> dom ?C" by auto
    then have "?r + 8 \<noteq> x + 16" by (rule head_link(1) [OF A' ri])
    moreover have "p + 8 \<noteq> x + 16" by (rule head_link(1) [OF A pi x])
    ultimately have "x + 16 \<noteq> ?r + 8" "x + 16 \<noteq> p + 8" by metis+
    then show "mem t (x + 16) = mem s (x + 16)" unfolding m by (simp only: fun_upd_apply if_False)
  qed
  then have fo: "fast_ok (mem t) (fastbins t) ?C F"
    using heap_invD(2) [OF I] unfolding fast_ok_def f by (simp add: keep del: fun_upd_apply)
  have k: "C x = Some (z, k)" if "?C x = Some (z, k)" "k \<noteq> Used" for x z k using that keep by simp
  show "heap_inv t lo ?z ?C B F"
    unfolding heap_inv_def limit_ok_def fast_limit_def have_fastchunks_def have_anychunks_def f
    using core fo heap_invD(3,6,7) [OF I] heap_invD(4,5) [OF I k]
    unfolding limit_ok_def fast_limit_def have_fastchunks_def have_anychunks_def f by blast
qed

section \<open>A free chunk whole\<close>

lemma use_free:
  assumes I: "heap_inv s lo ts C B F" and p: "C p = Some (sz, Free)"
  obtains B' where "heap_inv (set_inuse_bit_at_offset p sz (unlink p s)) lo ts (C(p \<mapsto> (sz, Used))) B' F"
    "calm s lo (heap_end s ts) (in_use C) (set_inuse_bit_at_offset p sz (unlink p s))"
proof -
  let ?t = "unlink p s" and ?W = "touch lo (heap_end s ts) (av_bins s) (live C)"
  let ?u = "set_inuse_bit_at_offset p sz ?t"
  note H = heap_invD(1) [OF I]
  obtain i where i: "1 \<le> i" "i < 96" "p \<in> set (B i)" using binned_find [OF core_binned [OF H] p] by blast
  obtain xs ys where xy: "B i = xs @ p # ys" using i(3) split_list by metis
  note U = unlink_core [OF H i(1,2) xy]
  note V = use_core [OF U(1) p]
  have e: "heap_end ?t ts = heap_end s ts" "av_bins ?t = av_bins s" by (simp_all add: heap_end_def)
  have w: "writes ?W s ?u" using writes_trans [OF U(2)] V(2) unfolding e by blast
  obtain m where m: "?u = s\<lparr>mem := m\<rparr>" "\<And>a. a \<notin> ?W \<Longrightarrow> m a = mem s a" using w by (rule writesE) (rule that)
  have "heap_inv ?u lo ts (C(p \<mapsto> (sz, Used))) (B(i := xs @ ys)) F"
    by (rule heap_inv_step [OF I V(1)])
       (use m p heap_invD(5) [OF I] heap_invD(6) [OF I] in \<open>auto split: if_splits\<close>)
  then show ?thesis using that calm_writes [OF w] by blast
qed

end
