(* ===== verification/Dl_Realloc.thy ===== *)
theory Dl_Realloc
  imports Dl_Reshape Dl_Api
begin

text \<open>
  \<open>rEALLOc\<close>: the block it returns has the contents of the old one as far as both reach, whether
  the chunk shrinks, grows into the chunk or the top chunk behind it, or moves.
\<close>

unbundle bit_operations_syntax

section \<open>Stores that change nothing\<close>

lemma wr_same: "mem s a = v \<Longrightarrow> wr a v s = s"
  by (simp add: wr_def fun_upd_idem)

lemma or_1_same: "x AND 1 \<noteq> 0 \<Longrightarrow> x OR 1 = (x :: u64)"
proof (rule bit_word_eqI)
  fix n assume "x AND 1 \<noteq> 0"
  then have "bit x 0" by (simp add: and_one_eq mod_2_eq_odd bit_0 split: if_splits)
  then show "bit (x OR 1) n = bit x n" by (auto simp: bit_or_iff small_bits)
qed

lemma inuse_same:
  assumes "heap_inv s lo ts C B F" "C p = Some (sz, k)" "k \<noteq> Free"
  shows "mem s (p + sz + 8) OR 1 = mem s (p + sz + 8)"
  using read_inuse [OF heap_invD(1) [OF assms(1)] assms(2)] assms(3)
  by (intro or_1_same) (simp add: inuse_bit_at_offset_def ck_size_def PREV_INUSE_def)

lemma head_same:
  assumes "heap_inv s lo ts C B F" "C p = Some (sz, k)"
  shows "(mem s (p + 8) AND 1) OR z = z OR flag C p" "mem s (p + 8) = sz OR flag C p"
proof -
  have t: "mem s (p + 8) = sz OR flag C p"
    using tagged_head [OF core_tagged [OF heap_invD(1) [OF assms(1)]] assms(2)] by simp
  then show "mem s (p + 8) = sz OR flag C p" .
  have "16 dvd unat sz" by (rule chunk_bounds(6) [OF core_arena [OF heap_invD(1) [OF assms(1)]] assms(2)])
  then show "(mem s (p + 8) AND 1) OR z = z OR flag C p"
    using tag_read(3) [of sz C p] t by (simp add: or.commute)
qed

section \<open>Writing in a chunk\<close>

lemma own_calm:
  assumes I: "heap_inv s lo ts C B F" and p: "C p = Some (sz, Used)"
    and m: "\<And>a. a \<notin> own p sz \<Longrightarrow> mem t a = mem s a" and t: "t = s\<lparr>mem := mem t\<rparr>"
  shows "calm s lo (heap_end s ts) ((in_use C)(p := None)) t"
proof -
  note A = core_arena [OF heap_invD(1) [OF I]]
  have "a \<in> touch lo (unat (top_chunk s) + unat ts) (av_bins s) ((in_use C)(p := None))" if "a \<in> own p sz" for a
    by (rule touch_own [OF A p _ _ that]) (auto simp: in_use_some split: if_splits)
  then have "mem t a = mem s a" if "a \<notin> touch lo (heap_end s ts) (av_bins s) ((in_use C)(p := None))" for a
    using m that by (auto simp: heap_end_def)
  moreover obtain m' where "t = s\<lparr>mem := m'\<rparr>" using t by blast
  ultimately show ?thesis by (simp add: calm_def)
qed

lemma calm_others:
  assumes I: "heap_inv s lo ts C B F" and c: "calm s lo (heap_end s ts) ((in_use C)(p := None)) t"
    and q: "C q = Some (w, Used)" "q \<noteq> p" "a \<in> data_words q w"
  shows "mem t a = mem s a"
proof -
  have "unat lo \<le> unat a" "unat a < heap_end s ts + 8" by (rule data_words_heap [OF I q(1,3)])+
  then have "a \<notin> touch lo (heap_end s ts) (av_bins s) ((in_use C)(p := None))"
    using arena_bounds(8) [OF core_arena [OF heap_invD(1) [OF I]]] q by (fastforce simp: touch_def heap_end_def in_use_some)
  then show ?thesis using c by (auto elim!: calmE)
qed

section \<open>Giving back the end of a chunk\<close>

text \<open>The state in which the end of \<open>p\<close>, at offset \<open>nb\<close>, is a chunk of its own.\<close>

definition cut :: "u64 \<Rightarrow> u64 \<Rightarrow> u64 \<Rightarrow> u64 \<Rightarrow> 'a malloc_state_scheme \<Rightarrow> 'a malloc_state_scheme" where
  "cut p sz nb f s = s\<lparr>mem := (mem s)(p + 8 := nb OR f, p + nb + 8 := (sz - nb) OR 1)\<rparr>"

lemma cut_ok:
  assumes ok: "dl_ok s lo ts C B F A R" and p: "C p = Some (sz, Used)" and nb: "chunk_size_ok nb" "unat nb + 32 \<le> unat sz"
  shows "dl_ok (cut p sz nb (flag C p) s) lo ts (C(p \<mapsto> (nb, Used), p + nb \<mapsto> (sz - nb, Used))) B F A R"
    "calm s lo (heap_end s ts) ((in_use C)(p := None)) (cut p sz nb (flag C p) s)"
    "a \<in> data_words p nb \<Longrightarrow> mem (cut p sz nb (flag C p) s) a = mem s a"
proof -
  let ?t = "cut p sz nb (flag C p) s" and ?C = "C(p \<mapsto> (nb, Used), p + nb \<mapsto> (sz - nb, Used))"
  note I = dl_okD(1) [OF ok]
  note A = core_arena [OF heap_invD(1) [OF I]] and c = chunk_bounds [OF A p]
  have v: "same_av s ?t" by (simp add: same_av_def cut_def)
  have m: "mem ?t = (mem s)(p + 8 := nb OR flag C p, p + nb + 8 := (sz - nb) OR 1)" by (simp add: cut_def)
  note S = split_used [OF I p nb v m]
  have pi: "p \<in> insert (top_chunk s) (dom C)" using p by auto
  note n = node_bounds [OF A pi]
  have r8: "unat (p + nb + 8) = unat p + unat nb + 8"
    using S(4) c(2) arena_bounds(1) [OF A] nb(2) by (subst unat_add_nowrap) simp_all
  have own: "p + 8 \<in> own p sz" "p + nb + 8 \<in> own p sz" using n(5) r8 nb(2) c(3) by (simp_all add: own_def)
  show cl: "calm s lo (heap_end s ts) ((in_use C)(p := None)) ?t"
    by (rule own_calm [OF I p]) (use own in \<open>auto simp: cut_def\<close>)
  show "dl_ok ?t lo ts ?C B F A R"
    by (rule calm_dl_ok(1) [OF ok cl S(1)]) (simp add: heap_end_def cut_def)
  show "mem ?t a = mem s a" if "a \<in> data_words p nb"
  proof -
    have "a \<noteq> p + 8" "a \<noteq> p + nb + 8" using that n(5) r8 by (auto simp: data_words_def)
    then show ?thesis by (simp add: m)
  qed
qed

text \<open>One of the two parts is given back.\<close>

lemma cut_free_back:
  assumes ok: "dl_ok s lo ts C B F A R" and p: "C p = Some (sz, Used)" and nb: "chunk_size_ok nb" "unat nb + 32 \<le> unat sz"
    and th: "heap_end s ts < unat lo + unat (trim_threshold s)"
  obtains t ts' C' B' F' where "fREe (chunk2mem (p + nb)) (cut p sz nb (flag C p) s) = Some t" "dl_ok t lo ts' C' B' F' A R"
    "in_use C' = (in_use C)(p \<mapsto> (nb, Used))"
    "\<And>a. a \<in> data_words p nb \<Longrightarrow> mem t a = mem s a"
    "\<And>q w a. C q = Some (w, Used) \<Longrightarrow> q \<noteq> p \<Longrightarrow> a \<in> data_words q w \<Longrightarrow> mem t a = mem s a"
proof -
  note I = dl_okD(1) [OF ok]
  let ?r = "p + nb" and ?t = "cut p sz nb (flag C p) s" and ?C = "C(p \<mapsto> (nb, Used), p + nb \<mapsto> (sz - nb, Used))"
  note k = cut_ok [OF ok p nb]
  have av: "same_av s ?t" "mem ?t = (mem s)(p + 8 := nb OR flag C p, ?r + 8 := (sz - nb) OR 1)"
    by (simp_all add: cut_def same_av_def)
  note rd = split_used(2,3) [OF I p nb av]
  have rC: "?C ?r = Some (sz - nb, Used)" by simp
  have th': "heap_end ?t ts < unat lo + unat (trim_threshold ?t)" using th by (simp add: heap_end_def cut_def)
  obtain t ts' C' B' F' where t: "fREe (chunk2mem ?r) ?t = Some t" "dl_ok t lo ts' C' B' F' A R"
    "in_use C' = (in_use ?C)(?r := None)" "calm ?t lo (heap_end ?t ts) ((in_use ?C)(?r := None)) t"
    by (rule free_dl_ok [OF k(1) rC th']) (rule that)
  have "in_use C' = (in_use C)(p \<mapsto> (nb, Used))"
    unfolding t(3) by (rule map_eqI) (use rd in \<open>auto simp: in_use_some split: if_splits\<close>)
  moreover have "mem t a = mem s a" if "a \<in> data_words p nb" for a
    using calm_others [OF dl_okD(1) [OF k(1)] t(4), of p nb a] rd k(3) [OF that] that by simp
  moreover have "mem t a = mem s a" if "C q = Some (w, Used)" "q \<noteq> p" "a \<in> data_words q w" for q w a
  proof -
    have "q \<noteq> ?r" using that(1) rd by auto
    then show ?thesis
      using calm_others [OF dl_okD(1) [OF k(1)] t(4), of q w a] calm_others [OF I k(2) that] that by simp
  qed
  ultimately show ?thesis using that [of t ts' C' B' F'] t(1,2) by simp
qed

lemma cut_free_front:
  assumes ok: "dl_ok s lo ts C B F A R" and p: "C p = Some (sz, Used)" and nb: "chunk_size_ok nb" "unat nb + 32 \<le> unat sz"
    and th: "heap_end s ts < unat lo + unat (trim_threshold s)"
  obtains t ts' C' B' F' where "fREe (chunk2mem p) (cut p sz nb (flag C p) s) = Some t" "dl_ok t lo ts' C' B' F' A R"
    "in_use C' = ((in_use C)(p := None))(p + nb \<mapsto> (sz - nb, Used))" "heap_end t ts' = heap_end s ts"
    "trim_threshold t = trim_threshold s" "p + nb \<notin> dom C"
    "\<And>q w a. C q = Some (w, Used) \<Longrightarrow> q \<noteq> p \<Longrightarrow> a \<in> data_words q w \<Longrightarrow> mem t a = mem s a"
proof -
  note I = dl_okD(1) [OF ok]
  let ?r = "p + nb" and ?t = "cut p sz nb (flag C p) s" and ?C = "C(p \<mapsto> (nb, Used), p + nb \<mapsto> (sz - nb, Used))"
  note k = cut_ok [OF ok p nb]
  have av: "same_av s ?t" "mem ?t = (mem s)(p + 8 := nb OR flag C p, ?r + 8 := (sz - nb) OR 1)"
    by (simp_all add: cut_def same_av_def)
  note rd = split_used(2,3) [OF I p nb av]
  have pC: "?C p = Some (nb, Used)" using rd by simp
  have th': "heap_end ?t ts < unat lo + unat (trim_threshold ?t)" using th by (simp add: heap_end_def cut_def)
  obtain t ts' C' B' F' where t: "fREe (chunk2mem p) ?t = Some t" "dl_ok t lo ts' C' B' F' A R"
    "in_use C' = (in_use ?C)(p := None)" "heap_end t ts' = heap_end ?t ts"
    "calm ?t lo (heap_end ?t ts) ((in_use ?C)(p := None)) t"
    by (rule free_dl_ok [OF k(1) pC th']) (rule that)
  have "in_use C' = ((in_use C)(p := None))(?r \<mapsto> (sz - nb, Used))"
    unfolding t(3) by (rule map_eqI) (use rd in \<open>auto simp: in_use_some split: if_splits\<close>)
  moreover have "mem t a = mem s a" if "C q = Some (w, Used)" "q \<noteq> p" "a \<in> data_words q w" for q w a
  proof -
    have "q \<noteq> ?r" using that(1) rd by auto
    then show ?thesis
      using calm_others [OF dl_okD(1) [OF k(1)] t(5), of q w a] calm_others [OF I k(2) that] that by simp
  qed
  moreover have "heap_end ?t ts = heap_end s ts" "trim_threshold t = trim_threshold s"
    using calm_fields(7) [OF t(5)] by (simp_all add: heap_end_def cut_def)
  ultimately show ?thesis using that [of t ts' C' B' F'] t(1,2,4) rd(1) by simp
qed

lemma realloc_split_ok:
  assumes ok: "dl_ok s lo ts C B F A R" and p: "C p = Some (sz, Used)" and nb: "chunk_size_ok nb" "unat nb \<le> unat sz"
    and th: "heap_end s ts < unat lo + unat (trim_threshold s)"
  obtains t ts' C' B' F' z where "realloc_split p sz nb s = Some (chunk2mem p, t)" "dl_ok t lo ts' C' B' F' A R"
    "in_use C' = (in_use C)(p \<mapsto> (z, Used))" "unat nb \<le> unat z"
    "\<And>a. a \<in> data_words p nb \<Longrightarrow> mem t a = mem s a"
    "\<And>q w a. C q = Some (w, Used) \<Longrightarrow> q \<noteq> p \<Longrightarrow> a \<in> data_words q w \<Longrightarrow> mem t a = mem s a"
proof -
  note I = dl_okD(1) [OF ok]
  have ur: "unat (sz - nb) = unat sz - unat nb" using nb(2) by (intro unat_sub_le)
  note h = head_same [OF I p]
  have iu: "mem s (p + sz + 8) OR 1 = mem s (p + sz + 8)" by (rule inuse_same [OF I p]) simp
  show ?thesis
  proof (cases "sz - nb < MINSIZE")
    case True
    have "set_head_size p sz s = s"
      unfolding set_head_size_def ck_size_def PREV_INUSE_def h(1) by (rule wr_same) (rule h(2))
    moreover have "set_inuse_bit_at_offset p sz s = s"
      unfolding set_inuse_bit_at_offset_def by (rule wr_same) (simp add: ck_size_def PREV_INUSE_def iu)
    ultimately have run: "realloc_split p sz nb s = Some (chunk2mem p, s)"
      using True by (simp add: realloc_split_def)
    have "in_use C = (in_use C)(p \<mapsto> (sz, Used))" by (rule map_eqI) (use p in \<open>auto simp: in_use_some\<close>)
    then show ?thesis using that [OF run ok _ nb(2)] by blast
  next
    case False
    then have le: "unat nb + 32 \<le> unat sz" using ur by (simp add: word_less_nat_alt dl_consts)
    let ?r = "p + nb" and ?t = "cut p sz nb (flag C p) s"
    note k = cut_ok [OF ok p nb(1) le]
    have av: "same_av s ?t" "mem ?t = (mem s)(p + 8 := nb OR flag C p, ?r + 8 := (sz - nb) OR 1)"
      by (simp_all add: cut_def same_av_def)
    note S = split_used [OF I p nb(1) le av]
    note A = core_arena [OF heap_invD(1) [OF I]] and c = chunk_bounds [OF A p]
    have e: "?r + (sz - nb) = p + sz" by simp
    have u8: "unat (p + sz + 8) = unat p + unat sz + 8" "unat (?r + 8) = unat p + unat nb + 8" "unat (p + 8) = unat p + 8"
      using c(2,5) arena_bounds(1) [OF A] le S(4) by (subst unat_add_nowrap; simp)+
    have ne: "p + sz + 8 \<noteq> p + 8" "p + sz + 8 \<noteq> ?r + 8" "p + 8 \<noteq> ?r + 8"
      using u8 le c(3) nb(1) by (auto simp: chunk_size_ok_def simp flip: word_unat_eq_iff)
    have "set_inuse_bit_at_offset ?r (sz - nb) (set_head ?r ((sz - nb) OR PREV_INUSE) (set_head_size p nb s)) = ?t"
    proof -
      have "set_head ?r ((sz - nb) OR PREV_INUSE) (set_head_size p nb s) = ?t"
        by (simp add: set_head_def set_head_size_def wr_def cut_def ck_size_def PREV_INUSE_def h(1))
      moreover have "set_inuse_bit_at_offset ?r (sz - nb) ?t = ?t"
        unfolding set_inuse_bit_at_offset_def e
        by (rule wr_same) (use ne iu in \<open>simp add: ck_size_def PREV_INUSE_def cut_def\<close>)
      ultimately show ?thesis by simp
    qed
    then have run: "realloc_split p sz nb s = do { u \<leftarrow> fREe (chunk2mem ?r) ?t; Some (chunk2mem p, u) }"
      using False by (simp add: realloc_split_def chunk_at_offset_def Let_def)
    obtain t ts' C' B' F' where t: "fREe (chunk2mem ?r) ?t = Some t" "dl_ok t lo ts' C' B' F' A R"
      "in_use C' = (in_use C)(p \<mapsto> (nb, Used))" "\<And>a. a \<in> data_words p nb \<Longrightarrow> mem t a = mem s a"
      "\<And>q w a. C q = Some (w, Used) \<Longrightarrow> q \<noteq> p \<Longrightarrow> a \<in> data_words q w \<Longrightarrow> mem t a = mem s a"
      by (rule cut_free_back [OF ok p nb(1) le th]) (rule that)
    then show ?thesis using that [of t ts' C' B' F' nb] run by simp
  qed
qed

section \<open>A chunk that absorbs the one behind it\<close>

text \<open>
  \<open>realloc_split\<close> writes the header of the chunk and the in-use bit behind it itself, so these may
  be written before.
\<close>

lemma split_head_first:
  assumes "16 dvd unat z" "p + z + 8 \<noteq> p + 8" "p + nb + 8 \<noteq> p + 8"
  shows "realloc_split p z nb (set_head_size p z u) = realloc_split p z nb u"
proof -
  let ?f = "mem u (p + 8) AND 1"
  have z: "((?f OR z) AND 1) = ?f"
  proof -
    have "(?f OR z) AND 1 = ?f OR (z AND 1)" by (rule bit_word_eqI) (auto simp: bit_simps)
    then show ?thesis using tag_bits(6) [OF assms(1)] by simp
  qed
  have h: "set_head_size p w (set_head_size p z u) = set_head_size p w u" for w
    by (simp add: set_head_size_def wr_def ck_size_def PREV_INUSE_def z)
  show ?thesis unfolding realloc_split_def h ..
qed

lemma split_inuse_first:
  assumes "p + z + 8 \<noteq> p + 8" "\<not> z - nb < MINSIZE \<Longrightarrow> p + z + 8 \<noteq> p + nb + 8"
  shows "realloc_split p z nb (set_inuse_bit_at_offset p z u) = realloc_split p z nb u"
proof -
  let ?j = "p + z + 8"
  have i: "set_inuse_bit_at_offset p z v = v\<lparr>mem := (mem v)(?j := mem v ?j OR 1)\<rparr>" for v
    by (simp add: set_inuse_bit_at_offset_def wr_def ck_size_def PREV_INUSE_def)
  have r: "set_inuse_bit_at_offset (p + nb) (z - nb) v = v\<lparr>mem := (mem v)(?j := mem v ?j OR 1)\<rparr>" for v
    by (simp add: set_inuse_bit_at_offset_def wr_def ck_size_def PREV_INUSE_def)
  note defs = realloc_split_def chunk_at_offset_def Let_def set_head_def set_head_size_def wr_def ck_size_def
    PREV_INUSE_def i r
  have t1: "(m :: qmem)(?j := x, p + 8 := y, ?j := w) = m(p + 8 := y, ?j := w)" for m x y w
    using assms(1) by (auto simp: fun_upd_twist)
  show ?thesis
  proof (cases "z - nb < MINSIZE")
    case True
    then show ?thesis using assms(1) by (simp add: defs t1)
  next
    case False
    note ne = assms(2) [OF False]
    have t2: "(m :: qmem)(?j := x, p + 8 := y, p + nb + 8 := v, ?j := w) = m(p + 8 := y, p + nb + 8 := v, ?j := w)" for m x y v w
      using assms(1) ne by (auto simp: fun_eq_iff)
    show ?thesis using assms(1) ne False by (simp add: defs t2)
  qed
qed

lemma absorb_ok:
  assumes ok: "dl_ok s lo ts C B F A R" and p: "C p = Some (a, Used)" and q: "C (p + a) = Some (b, Used)"
    and nb: "chunk_size_ok nb" "unat nb \<le> unat a + unat b" and th: "heap_end s ts < unat lo + unat (trim_threshold s)"
  obtains t ts' C' B' F' z where "realloc_split p (a + b) nb s = Some (chunk2mem p, t)" "dl_ok t lo ts' C' B' F' A R"
    "in_use C' = ((in_use C)(p + a := None))(p \<mapsto> (z, Used))" "unat nb \<le> unat z"
    "\<And>x. x \<in> data_words p nb \<Longrightarrow> mem t x = mem s x"
    "\<And>y w x. C y = Some (w, Used) \<Longrightarrow> y \<noteq> p \<Longrightarrow> y \<noteq> p + a \<Longrightarrow> x \<in> data_words y w \<Longrightarrow> mem t x = mem s x"
proof -
  note I = dl_okD(1) [OF ok]
  note A = core_arena [OF heap_invD(1) [OF I]] and c = chunk_bounds [OF A p] and d = chunk_bounds [OF A q]
  let ?C = "(C(p + a := None))(p \<mapsto> (a + b, Used))" and ?u = "set_head_size p (a + b) s"
  have m: "mem ?u = (mem s)(p + 8 := (a + b) OR flag C p)"
    by (simp add: set_head_size_def wr_def ck_size_def PREV_INUSE_def head_same(1) [OF I p])
  have v: "same_av s ?u" by (simp add: same_av_def set_head_size_def)
  note J = join_used [OF I p q v m]
  have pi: "p \<in> insert (top_chunk s) (dom C)" using p by auto
  note n = node_bounds [OF A pi]
  have e: "unat (p + (a + b)) = unat p + unat a + unat b" using J(2) d(2,5) c(5) by (simp add: add.assoc)
  have u8: "unat (p + (a + b) + 8) = unat p + unat a + unat b + 8"
    using e d(2) c(5) arena_bounds(1) [OF A] by (subst unat_add_nowrap) simp_all
  have w8: "unat (p + nb + 8) = unat p + unat nb + 8"
  proof -
    have "unat (p + nb) = unat p + unat nb" using nb(2) d(2) c(5) arena_bounds(1) [OF A] by (intro unat_add_nowrap) simp
    then show ?thesis using nb(2) d(2) c(5) arena_bounds(1) [OF A] by (subst unat_add_nowrap) simp_all
  qed
  have ne: "p + (a + b) + 8 \<noteq> p + 8" "p + nb + 8 \<noteq> p + 8"
    using u8 w8 n(5) c(3) nb(1) by (auto simp: chunk_size_ok_def simp del: add_left_cancel add_right_cancel add_cancel_left_left add_cancel_left_right)
  have ab16: "16 dvd unat (a + b)" using J(2) c(6) d(6) by simp
  have run: "realloc_split p (a + b) nb s = realloc_split p (a + b) nb ?u"
    by (rule split_head_first [OF ab16 ne, symmetric])
  have cl: "calm s lo (heap_end s ts) ((in_use C)(p := None)) ?u"
    by (rule own_calm [OF I p]) (use n(5) c(3) in \<open>auto simp: m own_def set_head_size_def wr_def\<close>)
  have oku: "dl_ok ?u lo ts ?C B F A R"
    by (rule calm_dl_ok(1) [OF ok cl J(1)]) (simp add: heap_end_def set_head_size_def)
  have th': "heap_end ?u ts < unat lo + unat (trim_threshold ?u)" using th by (simp add: heap_end_def set_head_size_def wr_def)
  have pC: "?C p = Some (a + b, Used)" by simp
  have le: "unat nb \<le> unat (a + b)" using nb(2) J(2) by simp
  obtain t ts' C' B' F' z where t: "realloc_split p (a + b) nb ?u = Some (chunk2mem p, t)" "dl_ok t lo ts' C' B' F' A R"
    "in_use C' = (in_use ?C)(p \<mapsto> (z, Used))" "unat nb \<le> unat z"
    "\<And>a. a \<in> data_words p nb \<Longrightarrow> mem t a = mem ?u a"
    "\<And>q w a. ?C q = Some (w, Used) \<Longrightarrow> q \<noteq> p \<Longrightarrow> a \<in> data_words q w \<Longrightarrow> mem t a = mem ?u a"
    by (rule realloc_split_ok [OF oku pC nb(1) le th']) (rule that)
  have mu: "mem ?u x = mem s x" if "x \<noteq> p + 8" for x using that by (simp add: m)
  have x8: "x \<noteq> p + 8" if "x \<in> data_words p nb" for x using that n(5) by (auto simp: data_words_def)
  have "in_use C' = ((in_use C)(p + a := None))(p \<mapsto> (z, Used))"
    unfolding t(3) by (rule map_eqI) (auto simp: in_use_some split: if_splits)
  moreover have "mem t x = mem s x" if y: "C y = Some (w, Used)" "y \<noteq> p" "y \<noteq> p + a" "x \<in> data_words y w" for y w x
  proof -
    have "?C y = Some (w, Used)" using y by simp
    then show ?thesis using t(6) y(2,4) calm_others [OF I cl y(1,2,4)] by simp
  qed
  ultimately show ?thesis using that [of t ts' C' B' F' z] t(1,2,4,5) run mu x8 by simp
qed

section \<open>Copying\<close>

lemma copy_words_moves:
  assumes "unat d + 8 * n < 2 ^ 64" "unat src + 8 * n < 2 ^ 64" "unat d + 8 * n \<le> unat src \<or> unat src + 8 * n \<le> unat d"
  shows "copy_words d src n s = s\<lparr>mem := mem (copy_words d src n s)\<rparr> \<and>
    (\<forall>k<n. mem (copy_words d src n s) (d + of_nat (8 * k)) = mem s (src + of_nat (8 * k))) \<and>
    (\<forall>a. \<not> (unat d \<le> unat a \<and> unat a < unat d + 8 * n) \<longrightarrow> mem (copy_words d src n s) a = mem s a)"
  using assms
proof (induction n arbitrary: d src s)
  case (Suc n)
  let ?u = "wr d (mem s src) s"
  have run: "copy_words d src (Suc n) s = copy_words (d + 8) (src + 8) n ?u" by simp
  have u: "unat (d + 8) = unat d + 8" "unat (src + 8) = unat src + 8"
    using Suc.prems(1,2) by (subst unat_add_nowrap; simp)+
  have pr: "unat (d + 8) + 8 * n < 2 ^ 64" "unat (src + 8) + 8 * n < 2 ^ 64"
    "unat (d + 8) + 8 * n \<le> unat (src + 8) \<or> unat (src + 8) + 8 * n \<le> unat (d + 8)"
    using Suc.prems u by auto
  note IH = Suc.IH [OF pr, of ?u]
  let ?t = "copy_words (d + 8) (src + 8) n ?u"
  have m: "mem ?u = (mem s)(d := mem s src)" by (simp add: wr_def)
  have out: "mem ?t a = mem s a" if "\<not> (unat d \<le> unat a \<and> unat a < unat d + 8 * Suc n)" for a
  proof -
    have "a \<noteq> d" using that by auto
    then show ?thesis using IH that u(1) by (auto simp: m)
  qed
  have at: "mem ?t (d + of_nat (8 * k)) = mem s (src + of_nat (8 * k))" if k: "k < Suc n" for k
  proof (cases k)
    case 0
    have "mem ?t d = mem ?u d" using IH u(1) by simp
    then show ?thesis using 0 by (simp add: m)
  next
    case (Suc j)
    then have j: "j < n" using k by simp
    have o: "of_nat (8 * k) = (8 :: u64) + of_nat (8 * j)" by (simp add: Suc)
    have "unat (of_nat (8 * j) :: u64) = 8 * j"
      using j Suc.prems(1) by (simp add: unat_of_nat take_bit_nat_eq_self del: of_nat_mult)
    then have "unat (src + 8 + of_nat (8 * j)) = unat src + 8 + 8 * j"
      using u(2) j pr(2) by (subst unat_add_nowrap) simp_all
    then have "src + 8 + of_nat (8 * j) \<noteq> d" using Suc.prems(3) j by auto
    then have "mem ?u (src + 8 + of_nat (8 * j)) = mem s (src + 8 + of_nat (8 * j))" by (simp add: m)
    moreover have "mem ?t (d + 8 + of_nat (8 * j)) = mem ?u (src + 8 + of_nat (8 * j))" using IH j by blast
    ultimately show ?thesis unfolding o by (simp only: add.assoc)
  qed
  have "?t = s\<lparr>mem := mem ?t\<rparr>"
  proof -
    obtain m' where "?t = ?u\<lparr>mem := m'\<rparr>" using IH by blast
    then show ?thesis by (simp add: wr_def)
  qed
  then show ?case unfolding run using at out by blast
qed simp

lemma copy_words_append:
  "copy_words (d + of_nat (8 * m)) (src + of_nat (8 * m)) n (copy_words d src m s) = copy_words d src (m + n) s"
proof (induction m arbitrary: d src s)
  case (Suc m)
  show ?case using Suc.IH [of "d + 8" "src + 8"] by (simp add: add.assoc)
qed simp

text \<open>The unrolled copy of the data of a chunk copies all its words.\<close>

lemma realloc_copy_words:
  assumes "16 dvd unat sz" "32 \<le> unat sz" "unat sz < 2 ^ 32"
  shows "realloc_copy d src (sz - SIZE_SZ) s = copy_words d src (unat sz div 8 - 1) s"
proof -
  obtain k where k: "unat sz = 16 * k" using assms(1) by auto
  have k2: "2 \<le> k" "k < 2 ^ 28" using assms(2,3) k by simp_all
  have c: "unat (sz - 8) = 16 * k - 8" using assms(2) k by (subst unat_sub_le) simp_all
  have n: "unat ((sz - 8) div 8) = 2 * k - 1" using c k2 by (simp add: unat_div)
  have r: "unat ((sz - 8) mod 8) = 0"
  proof -
    have "8 dvd unat (sz - 8)" using c k2 by (auto intro: dvd_diff_nat)
    then show ?thesis by (simp add: unat_mod_distrib)
  qed
  have nc: "unat (ucast ((sz - 8) div 8) :: u32) = 2 * k - 1" using n k2 by (simp add: unat_narrow)
  have gt: "(ucast ((sz - 8) div 8) :: u32) > 9 \<longleftrightarrow> 9 < 2 * k - 1" "(ucast ((sz - 8) div 8) :: u32) > 4 \<longleftrightarrow> 4 < 2 * k - 1"
    "(ucast ((sz - 8) div 8) :: u32) > 6 \<longleftrightarrow> 6 < 2 * k - 1" "(ucast ((sz - 8) div 8) :: u32) > 8 \<longleftrightarrow> 8 < 2 * k - 1"
    by (simp_all add: word_less_nat_alt nc)
  have e: "unat sz div 8 - Suc 0 = 2 * k - Suc 0" using k by simp
  have ap: "copy_words (d + 24) (src + 24) 2 (copy_words d src 3 s) = copy_words d src 5 s"
    "copy_words (d + 40) (src + 40) 2 (copy_words d src 5 s) = copy_words d src 7 s"
    "copy_words (d + 56) (src + 56) 2 (copy_words d src 7 s) = copy_words d src 9 s"
    using copy_words_append [of d 3 src 2 s] copy_words_append [of d 5 src 2 s] copy_words_append [of d 7 src 2 s]
    by simp_all
  show ?thesis
  proof (cases "9 < 2 * k - 1")
    case True
    then show ?thesis using r by (simp add: realloc_copy_def gt dl_consts MALLOC_COPY_def n k Let_def)
  next
    case False
    then consider "k = 2" | "k = 3" | "k = 4" | "k = 5" using k2 by linarith
    then show ?thesis by cases (simp_all add: realloc_copy_def gt dl_consts Let_def e ap)
  qed
qed

end
