(* ===== verification/Dl_Realloc_Ok.thy ===== *)
theory Dl_Realloc_Ok
  imports Dl_Realloc
begin

text \<open>
  \<open>rEALLOc\<close> on a consistent system: every path (the chunk is cut, takes the front of the top
  chunk, takes the free chunk behind it, or moves) keeps the combined invariant, the contents
  of the block and the data of everybody else.
\<close>

unbundle bit_operations_syntax

section \<open>What the answer of realloc promises\<close>

definition reallocated ::
  "'a malloc_state_scheme \<Rightarrow> u64 \<Rightarrow> chunks \<Rightarrow> nat set \<Rightarrow> u64 \<Rightarrow> u64 \<Rightarrow> u64 \<Rightarrow> u64 \<Rightarrow> 'a malloc_state_scheme \<Rightarrow> bool" where
  "reallocated s lo C R p sz nb q t \<longleftrightarrow>
     (\<exists>ts' C' B' F' A' z. dl_ok t lo ts' C' B' F' A' R \<and>
        in_use C' = ((in_use C)(p := None))(q \<mapsto> (z, Used)) \<and> unat nb \<le> unat z) \<and>
     (q = p \<or> in_use C q = None) \<and>
     (\<forall>i. 8 * i + 16 \<le> unat sz \<longrightarrow> 8 * i + 16 \<le> unat nb \<longrightarrow>
        mem t (chunk2mem q + of_nat (8 * i)) = mem s (chunk2mem p + of_nat (8 * i))) \<and>
     (\<forall>r w a. in_use C r = Some (w, Used) \<longrightarrow> r \<noteq> p \<longrightarrow> a \<in> data_words r w \<longrightarrow> mem t a = mem s a)"

lemma data_word_at:
  assumes "unat p + unat n + 16 < 2 ^ 64" "8 * i + 16 \<le> unat n"
  shows "unat (chunk2mem p + of_nat (8 * i)) = unat p + 16 + 8 * i" "chunk2mem p + of_nat (8 * i) \<in> data_words p n"
proof -
  have o: "unat (of_nat (8 * i) :: u64) = 8 * i"
    using assms by (simp add: unat_of_nat take_bit_nat_eq_self del: of_nat_mult)
  have "unat (chunk2mem p) = unat p + 16"
    using assms(1) by (simp add: chunk2mem_def dl_consts unat_add_nowrap)
  then show u: "unat (chunk2mem p + of_nat (8 * i)) = unat p + 16 + 8 * i"
    using assms o by (subst unat_add_nowrap) simp_all
  show "chunk2mem p + of_nat (8 * i) \<in> data_words p n" unfolding data_words_def mem_Collect_eq u using assms(2) by simp
qed

lemma inuse_read:
  assumes H: "heap_core s lo ts C B {} {}" and p: "C p = Some (sz, k)"
  shows "inuse s p \<longleftrightarrow> k \<noteq> Free"
proof -
  have "next_chunk s p = p + sz"
    using read_tag(2) [OF H p] tag_read(2) [OF chunk_bounds(6) [OF core_arena [OF H] p], of C p]
    by (simp add: next_chunk_def PREV_INUSE_def)
  then show ?thesis using read_inuse [OF H p] by (simp add: inuse_def inuse_bit_at_offset_def)
qed

text \<open>The block stays where it is.\<close>

lemma reallocated_here:
  assumes ok: "dl_ok s lo ts C B F A R" and p: "C p = Some (sz, Used)" and t: "dl_ok t lo ts' C' B' F' A' R"
    and C': "in_use C' = (in_use C)(p \<mapsto> (z, Used))" "unat nb \<le> unat z"
    and own: "\<And>a. a \<in> data_words p nb \<Longrightarrow> a \<in> data_words p sz \<Longrightarrow> mem t a = mem s a"
    and others: "\<And>r w a. C r = Some (w, Used) \<Longrightarrow> r \<noteq> p \<Longrightarrow> a \<in> data_words r w \<Longrightarrow> mem t a = mem s a"
  shows "reallocated s lo C R p sz nb p t"
  unfolding reallocated_def
proof (intro conjI allI impI)
  note A = core_arena [OF heap_invD(1) [OF dl_okD(1) [OF ok]]] and A' = core_arena [OF heap_invD(1) [OF dl_okD(1) [OF t]]]
  have "in_use C' p = Some (z, Used)" using C'(1) by simp
  then have p': "C' p = Some (z, Used)" by (simp add: in_use_some)
  show "\<exists>ts' C' B' F' A' z. dl_ok t lo ts' C' B' F' A' R \<and> in_use C' = ((in_use C)(p := None))(p \<mapsto> (z, Used)) \<and> unat nb \<le> unat z"
    using t C' by (metis fun_upd_upd)
  fix i assume i: "8 * i + 16 \<le> unat sz" "8 * i + 16 \<le> unat nb"
  have "unat p + unat sz + 16 < 2 ^ 64" using chunk_bounds(2) [OF A p] arena_bounds(1) [OF A] by simp
  moreover have "unat p + unat nb + 16 < 2 ^ 64"
    using chunk_bounds(2) [OF A' p'] arena_bounds(1) [OF A'] C'(2) by simp
  ultimately show "mem t (chunk2mem p + of_nat (8 * i)) = mem s (chunk2mem p + of_nat (8 * i))"
    using own data_word_at(2) i by blast
qed (use others in \<open>auto simp: in_use_some\<close>)

section \<open>Each path\<close>

lemma realloc_top_ok:
  assumes ok: "dl_ok s lo ts C B F A R" and p: "C p = Some (sz, Used)" and top: "p + sz = top_chunk s"
    and nb: "chunk_size_ok nb" "unat sz < unat nb" "nb + MINSIZE \<le> sz + ts" "unat nb < 2 ^ 32"
  shows "\<exists>t. realloc_heap (chunk2mem p) nb s = Some (chunk2mem p, t) \<and> reallocated s lo C R p sz nb p t"
proof -
  note I = dl_okD(1) [OF ok]
  note H = heap_invD(1) [OF I]
  note A = core_arena [OF H] and c = chunk_bounds [OF A p] and b = arena_bounds [OF A]
  let ?t = "s\<lparr>mem := (mem s)(p + 8 := nb OR flag C p, p + nb + 8 := (sz + ts - nb) OR 1), top_chunk := p + nb\<rparr>"
  have ut: "unat (top_chunk s) = unat p + unat sz" using c(5) top by simp
  have "unat (sz + ts) = unat sz + unat ts" using b(1) ut by (intro unat_add_nowrap) simp
  moreover have "unat (nb + MINSIZE) = unat nb + 32" using nb(4) by (subst unat_add_nowrap) (simp_all add: dl_consts)
  ultimately have le: "unat nb + 32 \<le> unat sz + unat ts" using nb(3) by (simp add: word_le_nat_alt)
  note rt = read_tag [OF H p, simplified] and tt = read_top [OF H]
  have m2c: "mem2chunk (chunk2mem p) = p" by (simp add: mem2chunk_def chunk2mem_def)
  have lt: "\<not> nb \<le> sz" using nb(2) by (simp add: word_le_nat_alt)
  have run: "realloc_heap (chunk2mem p) nb s = Some (chunk2mem p, ?t)"
    using nb(3) lt top
    by (simp add: realloc_heap_def m2c rt tt Let_def chunk_at_offset_def set_head_size_def set_head_def wr_def ck_size_def
        PREV_INUSE_def head_same(1) [OF I p])
  note E = extend_top [OF I p top nb(1) _ le refl]
  have I': "heap_inv ?t lo (sz + ts - nb) (C(p \<mapsto> (nb, Used))) B F" "heap_end ?t (sz + ts - nb) = heap_end s ts"
    using E nb(2) by simp_all
  have N: "((in_use C)(p := None)) q = Some (z, k) \<Longrightarrow> C q = Some (z, k)" for q z k
    by (auto simp: in_use_some split: if_splits)
  have w8: "unat (p + nb + 8) = unat p + unat nb + 8"
  proof -
    have "unat (p + nb) = unat p + unat nb" using le b(1) ut by (intro unat_add_nowrap) simp
    then show ?thesis using le b(1) ut by (subst unat_add_nowrap) simp_all
  qed
  have "p + 8 \<in> touch lo (heap_end s ts) (av_bins s) ((in_use C)(p := None))"
    unfolding heap_end_def by (rule touch_own [OF A p _ N own_words(1) [OF A p]]) simp_all
  moreover have "p + nb + 8 \<in> touch lo (heap_end s ts) (av_bins s) ((in_use C)(p := None))"
    unfolding heap_end_def by (rule touch_top [OF A N]) (use w8 ut le nb(2) in simp_all)
  ultimately have cl: "calm s lo (heap_end s ts) ((in_use C)(p := None)) ?t" by (auto simp: calm_def)
  have "dl_ok ?t lo (sz + ts - nb) (C(p \<mapsto> (nb, Used))) B F A R" by (rule calm_dl_ok(1) [OF ok cl I'])
  then have "reallocated s lo C R p sz nb p ?t"
  proof (rule reallocated_here [OF ok p])
    show "in_use (C(p \<mapsto> (nb, Used))) = (in_use C)(p \<mapsto> (nb, Used))"
      by (rule map_eqI) (auto simp: in_use_some split: if_splits)
    show "mem ?t a = mem s a" if "a \<in> data_words p nb" for a
    proof -
      have "p \<in> insert (top_chunk s) (dom C)" using p by auto
      note n = node_bounds [OF A this]
      have "a \<noteq> p + 8" "a \<noteq> p + nb + 8" using that n(5) w8 by (auto simp: data_words_def)
      then show ?thesis by simp
    qed
    show "mem ?t a = mem s a" if "C r = Some (w, Used)" "r \<noteq> p" "a \<in> data_words r w" for r w a
      by (rule calm_others [OF I cl that])
  qed simp
  then show ?thesis using run by blast
qed

lemma realloc_free_ok:
  assumes ok: "dl_ok s lo ts C B F A R" and p: "C p = Some (sz, Used)" and q: "C (p + sz) = Some (b, Free)"
    and nb: "chunk_size_ok nb" "unat sz < unat nb" "nb \<le> sz + b"
    and th: "heap_end s ts < unat lo + unat (trim_threshold s)"
  shows "\<exists>t. realloc_heap (chunk2mem p) nb s = Some (chunk2mem p, t) \<and> reallocated s lo C R p sz nb p t"
proof -
  note I = dl_okD(1) [OF ok]
  note H = heap_invD(1) [OF I]
  note A = core_arena [OF H] and c = chunk_bounds [OF A p] and d = chunk_bounds [OF A q]
  let ?q = "p + sz" and ?u = "set_inuse_bit_at_offset (p + sz) b (unlink (p + sz) s)"
  obtain B' where u: "heap_inv ?u lo ts (C(?q \<mapsto> (b, Used))) B' F" "calm s lo (heap_end s ts) (in_use C) ?u"
    by (rule use_free [OF I q]) (rule that)
  have fu: "top_chunk ?u = top_chunk s" "heap_end ?u ts = heap_end s ts" "trim_threshold ?u = trim_threshold s"
    by (simp_all add: heap_end_def set_inuse_bit_at_offset_def unlink_def Let_def set_fd_def set_bk_def wr_def)
  note oku = calm_dl_ok(1) [OF ok u(2,1) fu(2)]
  have pq: "p \<noteq> ?q" using next_not_self(1) [OF arena_layout [OF A] p] by simp
  have pC: "(C(?q \<mapsto> (b, Used))) p = Some (sz, Used)" "(C(?q \<mapsto> (b, Used))) ?q = Some (b, Used)" using p pq by simp_all
  have usb: "unat (sz + b) = unat sz + unat b"
    using c(5) d(2) arena_bounds(1) [OF A] by (intro unat_add_nowrap) simp
  then have le: "unat nb \<le> unat sz + unat b" using nb(3) by (simp add: word_le_nat_alt)
  have th': "heap_end ?u ts < unat lo + unat (trim_threshold ?u)" using th fu by simp
  obtain t ts' C' B'' F' z where t: "realloc_split p (sz + b) nb ?u = Some (chunk2mem p, t)" "dl_ok t lo ts' C' B'' F' A R"
    "in_use C' = ((in_use (C(?q \<mapsto> (b, Used))))(?q := None))(p \<mapsto> (z, Used))" "unat nb \<le> unat z"
    "\<And>x. x \<in> data_words p nb \<Longrightarrow> mem t x = mem ?u x"
    "\<And>y w x. (C(?q \<mapsto> (b, Used))) y = Some (w, Used) \<Longrightarrow> y \<noteq> p \<Longrightarrow> y \<noteq> ?q \<Longrightarrow> x \<in> data_words y w \<Longrightarrow> mem t x = mem ?u x"
    by (rule absorb_ok [OF oku pC nb(1) le th']) (rule that)
  have m2c: "mem2chunk (chunk2mem p) = p" by (simp add: mem2chunk_def chunk2mem_def)
  have lt: "\<not> nb \<le> sz" using nb(2) by (simp add: word_le_nat_alt)
  have nt: "?q \<noteq> top_chunk s" using q tp_not_chunk [OF arena_layout [OF A]] by auto
  have ni: "\<not> inuse s ?q" using inuse_read [OF H q] by simp
  have run0: "realloc_heap (chunk2mem p) nb s = realloc_split p (sz + b) nb (unlink ?q s)"
    using lt nt ni nb(3) read_tag(1) [OF H p] read_tag(1) [OF H q]
    by (simp add: realloc_heap_def m2c Let_def chunk_at_offset_def)
  have x8: "unat (p + (sz + b) + 8) = unat p + unat sz + unat b + 8"
  proof -
    have "unat (p + (sz + b)) = unat p + unat sz + unat b" using d(2,5) c(5) by (simp add: add.assoc)
    then show ?thesis using d(2) c(5) arena_bounds(1) [OF A] by (subst unat_add_nowrap) simp_all
  qed
  have w8: "unat (p + nb + 8) = unat p + unat nb + 8"
  proof -
    have "unat (p + nb) = unat p + unat nb" using le d(2) c(5) arena_bounds(1) [OF A] by (intro unat_add_nowrap) simp
    then show ?thesis using le d(2) c(5) arena_bounds(1) [OF A] by (subst unat_add_nowrap) simp_all
  qed
  have "p \<in> insert (top_chunk s) (dom C)" using p by auto
  note n = node_bounds [OF A this]
  have ne1: "p + (sz + b) + 8 \<noteq> p + 8"
  proof
    assume "p + (sz + b) + 8 = p + 8"
    then have "unat (p + (sz + b) + 8) = unat (p + 8)" by (rule arg_cong)
    then show False using x8 n(5) c(3) by simp
  qed
  have ne2: "p + (sz + b) + 8 \<noteq> p + nb + 8" if "\<not> sz + b - nb < MINSIZE"
  proof
    assume "p + (sz + b) + 8 = p + nb + 8"
    then have "sz + b = nb" by (simp only: add_left_cancel add_right_cancel)
    then show False using that by (simp add: dl_consts)
  qed
  have e: "set_inuse_bit_at_offset ?q b v = set_inuse_bit_at_offset p (sz + b) v" for v :: "'a malloc_state_scheme"
    by (simp add: set_inuse_bit_at_offset_def add.assoc)
  have sp: "realloc_split p (sz + b) nb (set_inuse_bit_at_offset p (sz + b) v) = realloc_split p (sz + b) nb v"
    for v :: "'a malloc_state_scheme"
    by (rule split_inuse_first [OF ne1 ne2])
  have run: "realloc_heap (chunk2mem p) nb s = Some (chunk2mem p, t)"
    using t(1) unfolding run0 e sp .
  have "reallocated s lo C R p sz nb p t"
  proof (rule reallocated_here [OF ok p t(2) _ t(4)])
    show "in_use C' = (in_use C)(p \<mapsto> (z, Used))"
      unfolding t(3) by (rule map_eqI) (use q in \<open>auto simp: in_use_some split: if_splits\<close>)
    show "mem t a = mem s a" if "a \<in> data_words p nb" "a \<in> data_words p sz" for a
      using t(5) [OF that(1)] calm_data [OF I u(2) p that(2)] by simp
    show "mem t a = mem s a" if r: "C r = Some (w, Used)" "r \<noteq> p" "a \<in> data_words r w" for r w a
    proof -
      have "r \<noteq> ?q" using r(1) q by auto
      then show ?thesis using t(6) [of r w a] r calm_data [OF I u(2) r(1,3)] by simp
    qed
  qed
  then show ?thesis using run by blast
qed

text \<open>A new block, into which the old one is copied, or with which it is joined.\<close>

lemma copy_calm:
  assumes I: "heap_inv s lo ts C B F" and p: "C p = Some (sz, Used)" and q: "C q = Some (z, Used)" "p \<noteq> q" "unat sz \<le> unat z"
    and u: "u = realloc_copy (chunk2mem q) (chunk2mem p) (sz - SIZE_SZ) s"
  shows "heap_inv u lo ts C B F" "calm s lo (heap_end s ts) ((in_use C)(q := None)) u"
    "8 * i + 16 \<le> unat sz \<Longrightarrow> mem u (chunk2mem q + of_nat (8 * i)) = mem s (chunk2mem p + of_nat (8 * i))"
    "heap_end u ts = heap_end s ts"
proof -
  note A = core_arena [OF heap_invD(1) [OF I]]
  note L = arena_layout [OF A] and c = chunk_bounds [OF A p] and d = chunk_bounds [OF A q(1)] and b = arena_bounds [OF A]
  let ?n = "unat sz div 8 - 1"
  have n8: "8 * ?n = unat sz - 8" using c(3,6) by (auto elim!: dvdE)
  have m: "unat (chunk2mem p) = unat p + 16" "unat (chunk2mem q) = unat q + 16"
    using b(1) c(2,3) d(2,3) by (simp_all add: chunk2mem_def dl_consts unat_add_nowrap)
  have bd: "unat (chunk2mem q) + 8 * ?n < 2 ^ 64" "unat (chunk2mem p) + 8 * ?n < 2 ^ 64"
    unfolding n8 m using b(1) c(2,3) d(2) q(3) by simp_all
  have dis: "unat (chunk2mem q) + 8 * ?n \<le> unat (chunk2mem p) \<or> unat (chunk2mem p) + 8 * ?n \<le> unat (chunk2mem q)"
    unfolding n8 m using layout_disjoint [OF L p q(1,2)] q(3) c(3) by auto
  note K = copy_words_moves [OF bd dis, of s, folded realloc_copy_words [OF c(6,3,4)], folded u]
  obtain m' where um: "u = s\<lparr>mem := m'\<rparr>" using K by blast
  show "heap_end u ts = heap_end s ts" by (simp add: um heap_end_def)
  have w: "mem u a = mem s a" if "a \<notin> data_words q z" for a
  proof -
    have "\<not> (unat (chunk2mem q) \<le> unat a \<and> unat a < unat (chunk2mem q) + 8 * ?n)"
      using that q(3) c(3) unfolding data_words_def m n8 by auto
    then show ?thesis using K by blast
  qed
  have "same_av s u" by (simp add: um same_av_def)
  then show "heap_inv u lo ts C B F" by (rule user_write_inv [OF I q(1) _ w])
  show "calm s lo (heap_end s ts) ((in_use C)(q := None)) u"
    by (rule own_calm [OF I q(1)]) (use w data_own um in auto)
  show "mem u (chunk2mem q + of_nat (8 * i)) = mem s (chunk2mem p + of_nat (8 * i))" if "8 * i + 16 \<le> unat sz"
  proof -
    have "i < ?n" using that n8 by linarith
    then show ?thesis using K by blast
  qed
qed

lemma realloc_move_ok:
  assumes ok: "dl_ok s lo ts C B F A R" and p: "C p = Some (sz, Used)" and nb: "chunk_size_ok nb" "unat sz < unat nb"
    "unat nb < 2 ^ 32 - 64" "nb < mmap_threshold s" and sup: "supply_for s nb ts"
    and th: "heap_end s ts + unat nb + 4128 < unat lo + unat (trim_threshold s)"
  shows "\<exists>q t. realloc_move (chunk2mem p) sz (p + sz) nb s = Some (chunk2mem q, t) \<and> reallocated s lo C R p sz nb q t"
proof -
  have ub: "unat (nb - MALLOC_ALIGN_MASK) < 2 ^ 32 - 64"
    using nb(1,3) by (subst unat_sub_le) (simp_all add: dl_consts chunk_size_ok_def)
  have r: "request2size (nb - MALLOC_ALIGN_MASK) = nb"
    using request2size_again [OF nb(1)] nb(3) request_below(1) [OF ub] by simp
  obtain q v where v: "mALLOc (nb - MALLOC_ALIGN_MASK) s = Some (chunk2mem q, v)" "answered s lo C nb R q v"
    using malloc_serves_run [OF ok ub] nb(4) sup unfolding r by blast
  obtain ts1 C1 B1 F1 A1 z where w: "dl_ok v lo ts1 C1 B1 F1 A1 R" "in_use C q = None"
    "in_use C1 = (in_use C)(q \<mapsto> (z, Used))" "unat nb \<le> unat z"
    using v(2) unfolding answered_def by blast
  have w2: "unat (cur_top v) \<le> unat (cur_top s) + unat nb + 4128" "trim_threshold v = trim_threshold s"
    "\<And>q w a. in_use C q = Some (w, Used) \<Longrightarrow> a \<in> data_words q w \<Longrightarrow> mem v a = mem s a"
    using v(2) unfolding answered_def by blast+
  note I1 = dl_okD(1) [OF w(1)]
  note H1 = heap_invD(1) [OF I1]
  have ip: "in_use C p = Some (sz, Used)" using p by (simp add: in_use_some)
  then have pq: "p \<noteq> q" using w(2) by auto
  have i1: "in_use C1 p = Some (sz, Used)" "in_use C1 q = Some (z, Used)" using ip pq w(3) by simp_all
  then have C1: "C1 p = Some (sz, Used)" "C1 q = Some (z, Used)" by (simp_all add: in_use_some)
  have th1: "heap_end v ts1 < unat lo + unat (trim_threshold v)"
    using th w2(1,2) dl_okD(10) [OF w(1)] dl_okD(10) [OF ok] by simp
  have m2c: "mem2chunk (chunk2mem x) = x" for x by (simp add: mem2chunk_def chunk2mem_def)
  have "q \<in> insert (top_chunk v) (dom C1)" using C1(2) by auto
  note n = node_bounds [OF core_arena [OF H1] this]
  have nz: "chunk2mem q \<noteq> 0" using n(6) by (auto simp: chunk2mem_def dl_consts simp flip: word_unat_eq_iff)
  have cs: "chunksize v q = z" by (rule read_tag(1) [OF H1 C1(2)]) simp
  show ?thesis
  proof (cases "q = p + sz")
    case True
    have le: "unat nb \<le> unat sz + unat z" using w(4) by simp
    obtain t ts' C' B' F' z' where t: "realloc_split p (sz + z) nb v = Some (chunk2mem p, t)" "dl_ok t lo ts' C' B' F' A1 R"
      "in_use C' = ((in_use C1)(p + sz := None))(p \<mapsto> (z', Used))" "unat nb \<le> unat z'"
      "\<And>x. x \<in> data_words p nb \<Longrightarrow> mem t x = mem v x"
      "\<And>y w x. C1 y = Some (w, Used) \<Longrightarrow> y \<noteq> p \<Longrightarrow> y \<noteq> p + sz \<Longrightarrow> x \<in> data_words y w \<Longrightarrow> mem t x = mem v x"
      by (rule absorb_ok [OF w(1) C1(1) C1(2) [unfolded True] nb(1) le th1]) (rule that)
    have "realloc_move (chunk2mem p) sz (p + sz) nb s = Some (chunk2mem p, t)"
      using v(1) nz t(1) True cs by (simp add: realloc_move_def m2c Let_def add.commute)
    moreover have "reallocated s lo C R p sz nb p t"
    proof (rule reallocated_here [OF ok p t(2) _ t(4)])
      show "in_use C' = (in_use C)(p \<mapsto> (z', Used))"
        unfolding t(3) w(3) by (rule ext) (use w(2) True in auto)
      show "mem t a = mem s a" if "a \<in> data_words p nb" "a \<in> data_words p sz" for a
        using t(5) [OF that(1)] w2(3) [OF ip that(2)] by simp
      show "mem t a = mem s a" if x: "C y = Some (x, Used)" "y \<noteq> p" "a \<in> data_words y x" for y x a
      proof -
        have iy: "in_use C y = Some (x, Used)" using x(1) by (simp add: in_use_some)
        then have "y \<noteq> q" "in_use C1 y = Some (x, Used)" using w(2,3) by auto
        then show ?thesis using t(6) [of y x a] x True w2(3) [OF iy x(3)] by (simp add: in_use_some)
      qed
    qed
    ultimately show ?thesis by blast
  next
    case False
    define u where "u = realloc_copy (chunk2mem q) (chunk2mem p) (sz - SIZE_SZ) v"
    have le: "unat sz \<le> unat z" using nb(2) w(4) by simp
    note k = copy_calm [OF I1 C1 pq le u_def]
    note oku = calm_dl_ok(1) [OF w(1) k(2,1,4)]
    have tu: "trim_threshold u = trim_threshold v" by (rule calm_fields(7) [OF k(2)])
    have thu: "heap_end u ts1 < unat lo + unat (trim_threshold u)" using th1 k(4) tu by simp
    obtain t ts' C' B' F' where t: "fREe (chunk2mem p) u = Some t" "dl_ok t lo ts' C' B' F' A1 R"
      "in_use C' = (in_use C1)(p := None)" "calm u lo (heap_end u ts1) ((in_use C1)(p := None)) t"
      by (rule free_dl_ok [OF oku C1(1) thu]) (rule that)
    have run: "realloc_move (chunk2mem p) sz (p + sz) nb s = Some (chunk2mem q, t)"
      using v(1) nz t(1) False cs by (simp add: realloc_move_def m2c Let_def u_def)
    have kept: "mem t a = mem u a" if "C1 y = Some (x, Used)" "y \<noteq> p" "a \<in> data_words y x" for y x a
      by (rule calm_others [OF dl_okD(1) [OF oku] t(4) that])
    have "reallocated s lo C R p sz nb q t"
      unfolding reallocated_def
    proof (intro conjI allI impI)
      have "in_use C' = ((in_use C)(p := None))(q \<mapsto> (z, Used))"
        unfolding t(3) w(3) by (rule fun_upd_twist) (use pq in simp)
      then show "\<exists>ts' C' B' F' A' z. dl_ok t lo ts' C' B' F' A' R \<and>
        in_use C' = ((in_use C)(p := None))(q \<mapsto> (z, Used)) \<and> unat nb \<le> unat z"
        using t(2) w(4) by blast
      show "q = p \<or> in_use C q = None" using w(2) by simp
      fix i assume i: "8 * i + 16 \<le> unat sz" "8 * i + 16 \<le> unat nb"
      have bz: "unat q + unat z + 16 < 2 ^ 64" "unat p + unat sz + 16 < 2 ^ 64"
        using chunk_bounds(2) [OF core_arena [OF H1] C1(2)] chunk_bounds(2) [OF core_arena [OF H1] C1(1)]
          arena_bounds(1) [OF core_arena [OF H1]] by simp_all
      have "8 * i + 16 \<le> unat z" using i le by simp
      then have "mem t (chunk2mem q + of_nat (8 * i)) = mem u (chunk2mem q + of_nat (8 * i))"
        using kept [OF C1(2) _ data_word_at(2) [OF bz(1)]] pq by blast
      also have "\<dots> = mem v (chunk2mem p + of_nat (8 * i))" by (rule k(3) [OF i(1)])
      also have "\<dots> = mem s (chunk2mem p + of_nat (8 * i))" by (rule w2(3) [OF ip data_word_at(2) [OF bz(2) i(1)]])
      finally show "mem t (chunk2mem q + of_nat (8 * i)) = mem s (chunk2mem p + of_nat (8 * i))" .
    next
      fix y x a assume y: "in_use C y = Some (x, Used)" "y \<noteq> p" "a \<in> data_words y x"
      then have yq: "y \<noteq> q" using w(2) by auto
      then have "in_use C1 y = Some (x, Used)" using y w(3) by simp
      then have y1: "C1 y = Some (x, Used)" by (simp add: in_use_some)
      have "mem u a = mem v a" by (rule calm_others [OF I1 k(2) y1 yq y(3)])
      then show "mem t a = mem s a" using kept [OF y1 y(2,3)] w2(3) [OF y(1,3)] by simp
    qed
    then show ?thesis using run by blast
  qed
qed

section \<open>realloc\<close>

lemma realloc_ok_run:
  assumes "dl_ok s lo ts C B F A R" "C p = Some (sz, Used)" "unat bytes < 2 ^ 32 - 128"
    "request2size bytes < mmap_threshold s" "supply_for s (request2size bytes) ts"
    "heap_end s ts + unat (request2size bytes) + 4128 < unat lo + unat (trim_threshold s)"
  shows "\<exists>q t. rEALLOc (chunk2mem p) bytes s = Some (chunk2mem q, t) \<and>
    reallocated s lo C R p sz (request2size bytes) q t"
proof -
  let ?nb = "request2size bytes"
  note I = dl_okD(1) [OF assms(1)]
  note H = heap_invD(1) [OF I]
  note A = core_arena [OF H]
  have "unat bytes < 2 ^ 32 - 64" using assms(3) by simp
  note r = request_below [OF this]
  have "unat bytes < 2 ^ 64 - 64" using assms(3) by simp
  then have nb: "unat ?nb < 2 ^ 32 - 64" using assms(3) by (simp add: unat_request2size)
  have m2c: "mem2chunk (chunk2mem p) = p" by (simp add: mem2chunk_def chunk2mem_def)
  have th: "heap_end s ts < unat lo + unat (trim_threshold s)" using assms(6) by simp
  have "p \<in> insert (top_chunk s) (dom C)" using assms(2) by auto
  note n = node_bounds [OF A this]
  have nz: "chunk2mem p \<noteq> 0" using n(6) by (auto simp: chunk2mem_def dl_consts simp flip: word_unat_eq_iff)
  have "rEALLOc (chunk2mem p) bytes s = realloc_heap (chunk2mem p) ?nb s"
    using nz r(1) read_tag(4) [OF H assms(2)] by (simp add: rEALLOc_def m2c)
  moreover have "\<exists>q t. realloc_heap (chunk2mem p) ?nb s = Some (chunk2mem q, t) \<and> reallocated s lo C R p sz ?nb q t"
  proof (cases "?nb \<le> sz")
    case True
    then have le: "unat ?nb \<le> unat sz" by (simp add: word_le_nat_alt)
    obtain t ts' C' B' F' z where t: "realloc_split p sz ?nb s = Some (chunk2mem p, t)" "dl_ok t lo ts' C' B' F' A R"
      "in_use C' = (in_use C)(p \<mapsto> (z, Used))" "unat ?nb \<le> unat z"
      "\<And>a. a \<in> data_words p ?nb \<Longrightarrow> mem t a = mem s a"
      "\<And>q w a. C q = Some (w, Used) \<Longrightarrow> q \<noteq> p \<Longrightarrow> a \<in> data_words q w \<Longrightarrow> mem t a = mem s a"
      by (rule realloc_split_ok [OF assms(1,2) r(2) le th]) (rule that)
    have "reallocated s lo C R p sz ?nb p t" by (rule reallocated_here [OF assms(1,2) t(2-4)]) (use t(5,6) in blast)+
    moreover have "realloc_heap (chunk2mem p) ?nb s = Some (chunk2mem p, t)"
      using True t(1) read_tag(1) [OF H assms(2)] by (simp add: realloc_heap_def m2c)
    ultimately show ?thesis by blast
  next
    case False
    then have lt: "unat sz < unat ?nb" by (simp add: word_le_nat_alt)
    consider "p + sz = top_chunk s" "?nb + MINSIZE \<le> sz + ts"
      | b where "C (p + sz) = Some (b, Free)" "?nb \<le> sz + b"
      | "realloc_heap (chunk2mem p) ?nb s = realloc_move (chunk2mem p) sz (p + sz) ?nb s"
    proof (cases "p + sz = top_chunk s")
      case top: True
      then show ?thesis
        using that False read_tag(1) [OF H assms(2)] read_top [OF H]
        by (cases "?nb + MINSIZE \<le> sz + ts") (auto simp: realloc_heap_def m2c Let_def chunk_at_offset_def)
    next
      case nt: False
      then obtain b k where b: "C (p + sz) = Some (b, k)"
        using layout_next [OF arena_layout [OF A] assms(2)] by auto
      show ?thesis
        using that b nt False read_tag(1) [OF H assms(2)] read_tag(1) [OF H b] inuse_read [OF H b]
        by (cases "k = Free \<and> ?nb \<le> sz + b") (auto simp: realloc_heap_def m2c Let_def chunk_at_offset_def)
    qed
    then show ?thesis
    proof cases
      case 1
      then show ?thesis using realloc_top_ok [OF assms(1,2) 1(1) r(2) lt 1(2) r(3)] by blast
    next
      case 2
      then show ?thesis using realloc_free_ok [OF assms(1,2) 2(1) r(2) lt 2(2) th] by blast
    next
      case 3
      then show ?thesis using realloc_move_ok [OF assms(1,2) r(2) lt nb assms(4-6)] by simp
    qed
  qed
  ultimately show ?thesis by simp
qed

text \<open>
  C4: \<open>rEALLOc\<close> of a block in use, to a size below the threshold for mappings of its own, on a
  consistent system with memory for the new size: it always answers with a block of at least
  the padded size, whose words are those of the old block as far as both reach; the old block
  is no longer in use unless it is the answer, heap, page tables and physical allocator are
  consistent, and the data of all other blocks is unchanged. The heap stays below the trim
  threshold.
\<close>

theorem realloc_ok:
  assumes "dl_ok s lo ts C B F A R" "C p = Some (sz, Used)" "unat bytes < 2 ^ 32 - 128"
    "request2size bytes < mmap_threshold s" "supply_for s (request2size bytes) ts"
    "heap_end s ts + unat (request2size bytes) + 4128 < unat lo + unat (trim_threshold s)"
  shows "\<exists>q t. rEALLOc (chunk2mem p) bytes s = Some (chunk2mem q, t) \<and>
    reallocated s lo C R p sz (request2size bytes) q t"
  by (rule realloc_ok_run [OF assms])

text \<open>The first chunk of \<open>demo_system\<close> grows to a size that needs new pages.\<close>

theorem realloc_ok_witness:
  "\<exists>q t. rEALLOc (chunk2mem 0xFFFF880000000000) 16000 demo_system = Some (chunk2mem q, t) \<and>
     reallocated demo_system 0xFFFF880000000000 demo_chunks {0x9000..<0x24000} 0xFFFF880000000000 0x200 16016 q t"
proof -
  have r: "request2size 16000 = 16016" by (simp add: request2size_def dl_consts)
  have p: "demo_chunks 0xFFFF880000000000 = Some (0x200, Used)" by (simp add: demo_chunks_def)
  have "supply_for demo_system (request2size 16000) 0x3DC0"
    using demo_system_ok(2-5) by (simp add: supply_for_def r)
  moreover have "heap_end demo_system 0x3DC0 + unat (request2size 16000) + 4128
      < unat (0xFFFF880000000000 :: u64) + unat (trim_threshold demo_system)"
    by (simp add: heap_end_def demo_system_def demo_fields r)
  ultimately show ?thesis
    using realloc_ok [OF demo_system_ok(1) p, of 16000] demo_system_ok(6) by (simp add: r)
qed

end
