(* ===== verification/Dl_Calloc_Ok.thy ===== *)
theory Dl_Calloc_Ok
  imports Dl_Realloc_Ok
begin

text \<open>
  \<open>cALLOc\<close>: the block is new and every word of it is zero, whatever the size of the chunk.
\<close>

unbundle bit_operations_syntax

section \<open>Clearing\<close>

lemma zero_words_clears:
  assumes "unat d + 8 * n < 2 ^ 64"
  shows "zero_words d n s = s\<lparr>mem := mem (zero_words d n s)\<rparr> \<and>
    (\<forall>k<n. mem (zero_words d n s) (d + of_nat (8 * k)) = 0) \<and>
    (\<forall>a. \<not> (unat d \<le> unat a \<and> unat a < unat d + 8 * n) \<longrightarrow> mem (zero_words d n s) a = mem s a)"
  using assms
proof (induction n arbitrary: d s)
  case (Suc n)
  let ?u = "wr d 0 s"
  have run: "zero_words d (Suc n) s = zero_words (d + 8) n ?u" by simp
  have u: "unat (d + 8) = unat d + 8" using Suc.prems by (subst unat_add_nowrap) simp_all
  have pr: "unat (d + 8) + 8 * n < 2 ^ 64" using Suc.prems u by simp
  note IH = Suc.IH [OF pr, of ?u]
  let ?t = "zero_words (d + 8) n ?u"
  have m: "mem ?u = (mem s)(d := 0)" by (simp add: wr_def)
  have out: "mem ?t a = mem s a" if "\<not> (unat d \<le> unat a \<and> unat a < unat d + 8 * Suc n)" for a
  proof -
    have "a \<noteq> d" using that by auto
    then show ?thesis using IH that u by (auto simp: m)
  qed
  have at: "mem ?t (d + of_nat (8 * k)) = 0" if k: "k < Suc n" for k
  proof (cases k)
    case 0
    have "mem ?t d = mem ?u d" using IH u by simp
    then show ?thesis using 0 by (simp add: m)
  next
    case (Suc j)
    then have "mem ?t (d + 8 + of_nat (8 * j)) = 0" using IH k by blast
    moreover have "of_nat (8 * k) = (8 :: u64) + of_nat (8 * j)" by (simp add: Suc)
    ultimately show ?thesis by (simp only: add.assoc)
  qed
  obtain m' where "?t = ?u\<lparr>mem := m'\<rparr>" using IH by blast
  then have "?t = s\<lparr>mem := mem ?t\<rparr>" by (simp add: wr_def)
  then show ?case unfolding run using at out by blast
qed simp

lemma zero_words_append: "zero_words (d + of_nat (8 * m)) n (zero_words d m s) = zero_words d (m + n) s"
proof (induction m arbitrary: d s)
  case (Suc m)
  show ?case using Suc.IH [of "d + 8"] by (simp add: add.assoc)
qed simp

text \<open>The unrolled clearing of a chunk clears all words of its data.\<close>

lemma calloc_clear_words:
  assumes "16 dvd unat sz" "32 \<le> unat sz"
  shows "calloc_clear d (sz - SIZE_SZ) s = zero_words d (unat sz div 8 - 1) s"
proof -
  obtain k where k: "unat sz = 16 * k" using assms(1) by auto
  have k2: "2 \<le> k" using assms(2) k by simp
  have c: "unat (sz - 8) = 16 * k - 8" using assms(2) k by (subst unat_sub_le) simp_all
  have n: "unat ((sz - 8) div 8) = 2 * k - 1" using c k2 by (simp add: unat_div)
  have r: "unat ((sz - 8) mod 8) = 0"
  proof -
    have "8 dvd unat (sz - 8)" using c k2 by (auto intro: dvd_diff_nat)
    then show ?thesis by (simp add: unat_mod_distrib)
  qed
  have gt: "(sz - 8) div 8 > 9 \<longleftrightarrow> 9 < 2 * k - 1" "(sz - 8) div 8 > 4 \<longleftrightarrow> 4 < 2 * k - 1"
    "(sz - 8) div 8 > 6 \<longleftrightarrow> 6 < 2 * k - 1" "(sz - 8) div 8 > 8 \<longleftrightarrow> 8 < 2 * k - 1"
    by (simp_all add: word_less_nat_alt n)
  have e: "unat sz div 8 - Suc 0 = 2 * k - Suc 0" using k by simp
  have ap: "zero_words (d + 24) 2 (zero_words d 3 s) = zero_words d 5 s"
    "zero_words (d + 40) 2 (zero_words d 5 s) = zero_words d 7 s"
    "zero_words (d + 56) 2 (zero_words d 7 s) = zero_words d 9 s"
    using zero_words_append [of d 3 2 s] zero_words_append [of d 5 2 s] zero_words_append [of d 7 2 s] by simp_all
  show ?thesis
  proof (cases "9 < 2 * k - 1")
    case True
    then show ?thesis using r by (simp add: calloc_clear_def gt dl_consts MALLOC_ZERO_def n k Let_def)
  next
    case False
    then consider "k = 2" | "k = 3" | "k = 4" | "k = 5" using k2 by linarith
    then show ?thesis by cases (simp_all add: calloc_clear_def gt dl_consts Let_def e ap)
  qed
qed

lemma clear_calm:
  assumes I: "heap_inv s lo ts C B F" and q: "C q = Some (z, Used)"
    and u: "u = calloc_clear (chunk2mem q) (z - SIZE_SZ) s"
  shows "heap_inv u lo ts C B F" "calm s lo (heap_end s ts) ((in_use C)(q := None)) u"
    "8 * i + 16 \<le> unat z \<Longrightarrow> mem u (chunk2mem q + of_nat (8 * i)) = 0" "heap_end u ts = heap_end s ts"
proof -
  note A = core_arena [OF heap_invD(1) [OF I]]
  note d = chunk_bounds [OF A q] and b = arena_bounds [OF A]
  let ?n = "unat z div 8 - 1"
  have n8: "8 * ?n = unat z - 8" using d(3,6) by (auto elim!: dvdE)
  have m: "unat (chunk2mem q) = unat q + 16"
    using b(1) d(2,3) by (simp add: chunk2mem_def dl_consts unat_add_nowrap)
  have bd: "unat (chunk2mem q) + 8 * ?n < 2 ^ 64" unfolding n8 m using b(1) d(2,3) by simp
  note K = zero_words_clears [OF bd, of s, folded calloc_clear_words [OF d(6,3)], folded u]
  obtain m' where um: "u = s\<lparr>mem := m'\<rparr>" using K by blast
  show "heap_end u ts = heap_end s ts" by (simp add: um heap_end_def)
  have w: "mem u a = mem s a" if "a \<notin> data_words q z" for a
  proof -
    have "\<not> (unat (chunk2mem q) \<le> unat a \<and> unat a < unat (chunk2mem q) + 8 * ?n)"
      using that d(3) unfolding data_words_def m n8 by auto
    then show ?thesis using K by blast
  qed
  have "same_av s u" by (simp add: um same_av_def)
  then show "heap_inv u lo ts C B F" by (rule user_write_inv [OF I q _ w])
  show "calm s lo (heap_end s ts) ((in_use C)(q := None)) u"
    by (rule own_calm [OF I q]) (use w data_own um in auto)
  show "mem u (chunk2mem q + of_nat (8 * i)) = 0" if "8 * i + 16 \<le> unat z"
  proof -
    have "i < ?n" using that n8 by linarith
    then show ?thesis using K by blast
  qed
qed

section \<open>calloc\<close>

lemma calloc_ok_run:
  assumes "dl_ok s lo ts C B F A R" "unat n * unat e < 2 ^ 32 - 64" "request2size (n * e) < mmap_threshold s"
    "supply_for s (request2size (n * e)) ts"
  shows "\<exists>p t. cALLOc n e s = Some (chunk2mem p, t) \<and> answered s lo C (request2size (n * e)) R p t \<and>
    (\<forall>i. 8 * i < unat n * unat e \<longrightarrow> mem t (chunk2mem p + of_nat (8 * i)) = 0)"
proof -
  let ?nb = "request2size (n * e)"
  have ne: "unat (n * e) = unat n * unat e"
    using assms(2) by (simp add: unat_word_ariths take_bit_nat_eq_self)
  have small: "unat (n * e) < 2 ^ 32 - 64" using assms(2) ne by simp
  obtain q v where v: "mALLOc (n * e) s = Some (chunk2mem q, v)" "answered s lo C ?nb R q v"
    using malloc_serves_run [OF assms(1) small assms(3,4)] by blast
  obtain ts1 C1 B1 F1 A1 z where w: "dl_ok v lo ts1 C1 B1 F1 A1 R" "in_use C q = None"
    "in_use C1 = (in_use C)(q \<mapsto> (z, Used))" "unat ?nb \<le> unat z" "unat z < unat ?nb + 32"
    using v(2) unfolding answered_def by blast
  have w2: "unat (cur_top v) \<le> unat (cur_top s) + unat ?nb + 4128" "trim_threshold v = trim_threshold s"
    "mmap_threshold v = mmap_threshold s"
    "\<And>q w a. in_use C q = Some (w, Used) \<Longrightarrow> a \<in> data_words q w \<Longrightarrow> mem v a = mem s a"
    using v(2) unfolding answered_def by blast+
  note I1 = dl_okD(1) [OF w(1)]
  note H1 = heap_invD(1) [OF I1]
  have "in_use C1 q = Some (z, Used)" using w(3) by simp
  then have C1: "C1 q = Some (z, Used)" by (simp add: in_use_some)
  have m2c: "mem2chunk (chunk2mem q) = q" by (simp add: mem2chunk_def chunk2mem_def)
  have "q \<in> insert (top_chunk v) (dom C1)" using C1 by auto
  note nd = node_bounds [OF core_arena [OF H1] this]
  have nz: "chunk2mem q \<noteq> 0" using nd(6) by (auto simp: chunk2mem_def dl_consts simp flip: word_unat_eq_iff)
  define u where "u = calloc_clear (chunk2mem q) (z - SIZE_SZ) v"
  note k = clear_calm [OF I1 C1 u_def]
  note oku = calm_dl_ok [OF w(1) k(2,1,4)] and f = calm_fields [OF k(2)]
  have run: "cALLOc n e s = Some (chunk2mem q, u)"
    using v(1) nz read_tag(1,4) [OF H1 C1] by (simp add: cALLOc_def m2c u_def)
  have same: "mem u a = mem s a" if y: "in_use C y = Some (x, Used)" "a \<in> data_words y x" for y x a
  proof -
    have yq: "y \<noteq> q" using y(1) w(2) by auto
    then have "in_use C1 y = Some (x, Used)" using y(1) w(3) by simp
    then have "C1 y = Some (x, Used)" by (simp add: in_use_some)
    then have "mem u a = mem v a" by (rule calm_others [OF I1 k(2) _ yq y(2)])
    then show ?thesis using w2(4) [OF y] by simp
  qed
  have "answered s lo C ?nb R q u"
    unfolding answered_def
  proof (intro conjI)
    show "\<exists>ts' C' B' F' A' z. dl_ok u lo ts' C' B' F' A' R \<and> in_use C q = None \<and>
        in_use C' = (in_use C)(q \<mapsto> (z, Used)) \<and> unat ?nb \<le> unat z \<and> unat z < unat ?nb + 32"
      using oku(1) w(2-5) by blast
  qed (use oku(5) f(5,7) w2(1-3) same in auto)
  moreover have "mem u (chunk2mem q + of_nat (8 * i)) = 0" if i: "8 * i < unat n * unat e" for i
  proof -
    have "8 * i + 8 < unat z + 8 - 8" using i ne request_below(4) [OF small] w(4) by linarith
    moreover have "8 dvd unat z"
      using chunk_bounds(6) [OF core_arena [OF H1] C1] dvd_trans [of 8 16 "unat z"] by simp
    ultimately have "8 * i + 16 \<le> unat z" by (elim dvdE) presburger
    then show ?thesis by (rule k(3))
  qed
  ultimately show ?thesis using run by blast
qed



text \<open>
  The product of the arguments is not checked: two large arguments whose product wraps get the
  block of a request for no bytes.
\<close>

lemma calloc_product_wraps: "cALLOc (2 ^ 32) (2 ^ 32) s = cALLOc 0 0 s"
proof -
  have "(2 ^ 32 * 2 ^ 32 :: u64) = 0" by (simp only: word_unat_eq_iff) simp
  then show ?thesis by (simp only: cALLOc_def mult_zero_left)
qed

end
