(* ===== verification/Dl_Memalign_Ok.thy ===== *)
theory Dl_Memalign_Ok
  imports Dl_Calloc_Ok
begin

text \<open>
  \<open>mEMALIGn\<close>: the alignment it works with, the aligned spot in an oversized chunk, and the leader
  and the end that it gives back.
\<close>

unbundle bit_operations_syntax

section \<open>The alignment\<close>

lemma and_pred_power:
  "n \<noteq> 0 \<Longrightarrow> (n :: nat) AND (n - 1) = 0 \<Longrightarrow> \<exists>k. n = 2 ^ k"
proof (induction n rule: less_induct)
  case (less n)
  show ?case
  proof (cases "even n")
    case True
    then obtain m where m: "n = 2 * m" by blast
    then have m0: "m \<noteq> 0" using less.prems(1) by simp
    then have "n - 1 = 1 + 2 * (m - 1)" using m by simp
    then have "n AND (n - 1) = 2 * (m AND (m - 1))" unfolding m by (simp only: and_nat_rec [of "2 * m"]) simp
    then have "m AND (m - 1) = 0" using less.prems(2) by simp
    then obtain k where "m = 2 ^ k" using less.IH [of m] m m0 by auto
    then have "n = 2 ^ Suc k" using m by simp
    then show ?thesis by blast
  next
    case False
    then obtain m where m: "n = 2 * m + 1" by (blast elim: oddE)
    then have "n AND (n - 1) = 2 * (m AND m)" by (simp only: and_nat_rec [of "2 * m + 1"]) simp
    then have "n = 2 ^ 0" using less.prems(2) m by simp
    then show ?thesis by blast
  qed
qed

lemma alignment_loop_run:
  assumes "k < 63" "unat al \<le> 2 ^ k" "i \<le> k" "i = k \<or> 2 ^ (k - 1) < unat al"
  shows "alignment_loop al (2 ^ i) = Some (2 ^ k)"
  using assms(3,4)
proof (induction "k - i" arbitrary: i)
  case 0
  then have "i = k" by simp
  moreover have "\<not> (2 :: u64) ^ k < al" using assms(1,2) by (simp add: word_less_nat_alt unat_pow2)
  ultimately show ?case by (simp add: alignment_loop.simps)
next
  case (Suc d)
  then have ik: "i < k" by simp
  then have pw: "(2 :: nat) ^ i \<le> 2 ^ (k - 1)" by (intro power_increasing) simp_all
  have "2 ^ (k - 1) < unat al" using Suc.prems ik by auto
  then have "unat ((2 :: u64) ^ i) < unat al" using le_less_trans [OF pw] ik assms(1) by (simp add: unat_pow2)
  then have "alignment_loop al (2 ^ i) = alignment_loop al (2 ^ Suc i)"
    by (subst alignment_loop.simps) (simp add: word_less_nat_alt push_bit_eq_mult mult.commute)
  also have "\<dots> = Some (2 ^ k)" by (rule Suc.hyps) (use Suc.hyps(2) Suc.prems ik in auto)
  finally show ?case .
qed

text \<open>The least power of two from 32 on that is not below the request is what is used.\<close>

definition alignment_exponent :: "u64 \<Rightarrow> nat \<Rightarrow> bool" where
  "alignment_exponent al k \<longleftrightarrow> 5 \<le> k \<and> unat al \<le> 2 ^ k \<and> (k = 5 \<or> 2 ^ (k - 1) < unat al)"

lemma memalign_alignment_run:
  assumes k: "k < 63" "alignment_exponent al k"
  shows "memalign_alignment al = Some (2 ^ k)"
proof -
  let ?A = "if al < MINSIZE then MINSIZE else al"
  note e = k(2) [unfolded alignment_exponent_def]
  have p5: "(2 :: nat) ^ 5 \<le> 2 ^ k" using e by (intro power_increasing) simp_all
  have uA: "unat ?A = max 32 (unat al)" by (auto simp: dl_consts word_less_nat_alt)
  have A: "unat ?A \<le> 2 ^ k" "k = 5 \<or> 2 ^ (k - 1) < unat ?A" unfolding uA using e p5 by auto
  show ?thesis
  proof (cases "?A AND (?A - 1) = 0")
    case True
    have "unat (?A - 1) = unat ?A - 1" using uA by (subst unat_sub_le) simp_all
    then have "unat ?A AND (unat ?A - 1) = 0" using arg_cong [OF True, of unat] by (simp only: unsigned_and_eq) simp
    then obtain j where j: "unat ?A = 2 ^ j" using and_pred_power [of "unat ?A"] uA by auto
    have "j \<le> k" using A(1) unfolding j by simp
    moreover have "k \<le> j"
    proof (cases "k = 5")
      case True
      have "(2 :: nat) ^ 5 \<le> 2 ^ j" using j uA by simp
      then show ?thesis using True by (simp del: power_numeral)
    next
      case False
      then have "(2 :: nat) ^ (k - 1) < 2 ^ j" using A(2) j by simp
      then show ?thesis by simp
    qed
    ultimately have "?A = 2 ^ k" using j k(1) by (simp add: word_unat_eq_iff unat_pow2)
    then show ?thesis using True by (simp add: memalign_alignment_def Let_def)
  next
    case False
    have "alignment_loop ?A (2 ^ 5) = Some (2 ^ k)"
      by (rule alignment_loop_run [OF k(1) A(1)]) (use e A(2) in auto)
    then show ?thesis using False by (simp add: memalign_alignment_def Let_def dl_consts)
  qed
qed

section \<open>The aligned spot\<close>

lemma memalign_spot_ok:
  assumes k: "5 \<le> k" "k < 63" and p: "16 dvd unat p" "unat p + 2 ^ k + 64 < 2 ^ 64"
    and mis: "chunk2mem p mod 2 ^ k \<noteq> 0"
  obtains l where "memalign_spot (chunk2mem p) (2 ^ k) p = p + l" "16 dvd unat l" "32 \<le> unat l" "unat l \<le> 2 ^ k + 16"
    "2 ^ k dvd unat (chunk2mem (p + l))"
proof -
  let ?m = "chunk2mem p"
  have um: "unat ?m = unat p + 16" using p(2) by (simp add: chunk2mem_def dl_consts unat_add_nowrap)
  have uk: "unat ((2 :: u64) ^ k) = 2 ^ k" using k(2) by (intro unat_pow2) simp
  have b: "unat ?m + 2 ^ k \<le> 2 ^ 64" using um p(2) by simp
  have k64: "k < 64" using k(2) by simp
  note up = align_up_pow2_spec [OF k64 b]
  let ?u = "align_up ?m (2 ^ k)"
  have neg: "- ((2 :: u64) ^ k) = NOT (2 ^ k - 1)" by (simp add: not_eq_complement)
  have d16: "16 dvd (2 :: nat) ^ k" using le_imp_power_dvd [of 4 k "2 :: nat"] k(1) by simp
  have nd: "\<not> 2 ^ k dvd unat ?m" using mis by (simp add: word_unat_eq_iff unat_mod_distrib uk dvd_eq_mod_eq_0)
  then have ne: "unat ?u \<noteq> unat ?m" using up(1) by metis
  let ?d = "unat ?u - unat ?m"
  have d: "16 dvd ?d" "0 < ?d" "?d < 2 ^ k"
    using dvd_trans [OF d16 up(1)] p(1) up(2,3) ne um by (auto intro!: dvd_diff_nat)
  define l where "l = (if ?u - ?m < MINSIZE then ?u - ?m + 2 ^ k else ?u - ?m)"
  have ud: "unat (?u - ?m) = ?d" using up(2) by (intro unat_sub_le)
  have k2: "(2 :: nat) ^ 5 \<le> 2 ^ k" using k(1) by (intro power_increasing) simp_all
  have ul: "unat l = (if ?d < 32 then ?d + 2 ^ k else ?d)"
  proof -
    have "(2 :: nat) ^ k < 2 ^ 63" by (rule power_strict_increasing) (use k(2) in simp_all)
    then have "unat (?u - ?m + 2 ^ k) = ?d + 2 ^ k" using d(3) uk ud by (subst unat_add_nowrap) simp_all
    then show ?thesis using ud by (simp add: l_def word_less_nat_alt dl_consts)
  qed
  have u: "(?m + 2 ^ k - 1) AND - (2 ^ k) = ?u" by (simp add: align_up_def neg)
  have e: "mem2chunk ?u - p = ?u - ?m" "mem2chunk ?u = p + (?u - ?m)"
    "mem2chunk ?u + 2 ^ k = p + (?u - ?m + 2 ^ k)"
    by (simp_all add: mem2chunk_def chunk2mem_def dl_consts)
  have spot: "memalign_spot ?m (2 ^ k) p = p + l"
    unfolding memalign_spot_def Let_def u e(1) l_def using e(2,3) by simp
  have l16: "unat l \<le> 2 ^ k + 16"
  proof (cases "?d < 32")
    case True
    then have "?d \<le> 16" using d(1) by (auto elim!: dvdE)
    then show ?thesis using True ul by simp
  next
    case False
    then show ?thesis using ul d(3) by simp
  qed
  have pl: "unat (chunk2mem (p + l)) = unat p + unat l + 16"
  proof -
    have "unat (p + l) = unat p + unat l" using l16 p(2) by (intro unat_add_nowrap) simp
    then show ?thesis using l16 p(2) by (simp add: chunk2mem_def dl_consts unat_add_nowrap)
  qed
  have s: "unat p + ?d + 16 = unat ?u" using up(2) um by simp
  have "unat p + unat l + 16 = (if ?d < 32 then unat ?u + 2 ^ k else unat ?u)"
  proof (cases "?d < 32")
    case False
    then have "unat l = ?d" using ul by (simp only: if_False)
    then show ?thesis using s False by (simp only: if_False)
  qed (use s ul in simp)
  then have "2 ^ k dvd unat (chunk2mem (p + l))" unfolding pl using up(1) by simp
  moreover have "16 dvd unat l" using d(1) d16 by (simp add: ul)
  moreover have "32 \<le> unat l" using k2 ul by simp
  ultimately show ?thesis using that [OF spot] l16 by blast
qed

section \<open>Leader and end\<close>

lemma memalign_tail_ok:
  assumes ok: "dl_ok s lo ts C B F A R" and q: "C q = Some (z, Used)" and nb: "chunk_size_ok nb" "unat nb \<le> unat z" "unat nb < 2 ^ 32"
    and th: "heap_end s ts < unat lo + unat (trim_threshold s)"
  obtains t ts' C' B' F' z' where "memalign_tail q nb s = Some (chunk2mem q, t)" "dl_ok t lo ts' C' B' F' A R"
    "in_use C' = (in_use C)(q \<mapsto> (z', Used))" "unat nb \<le> unat z'"
    "\<And>y w a. C y = Some (w, Used) \<Longrightarrow> y \<noteq> q \<Longrightarrow> a \<in> data_words y w \<Longrightarrow> mem t a = mem s a"
proof -
  note I = dl_okD(1) [OF ok]
  note rt = read_tag(1,4) [OF heap_invD(1) [OF I] q, simplified]
  have u: "unat (nb + MINSIZE) = unat nb + 32" using nb(3) by (subst unat_add_nowrap) (simp_all add: dl_consts)
  show ?thesis
  proof (cases "nb + MINSIZE < z")
    case False
    have "in_use C = (in_use C)(q \<mapsto> (z, Used))" by (rule map_eqI) (use q in \<open>auto simp: in_use_some\<close>)
    then show ?thesis using that [OF _ ok _ nb(2)] False rt by (simp add: memalign_tail_def Let_def)
  next
    case True
    then have le: "unat nb + 32 \<le> unat z" using u by (simp add: word_less_nat_alt)
    obtain t ts' C' B' F' where t: "fREe (chunk2mem (q + nb)) (cut q z nb (flag C q) s) = Some t" "dl_ok t lo ts' C' B' F' A R"
      "in_use C' = (in_use C)(q \<mapsto> (nb, Used))"
      "\<And>a. a \<in> data_words q nb \<Longrightarrow> mem t a = mem s a"
      "\<And>y w a. C y = Some (w, Used) \<Longrightarrow> y \<noteq> q \<Longrightarrow> a \<in> data_words y w \<Longrightarrow> mem t a = mem s a"
      by (rule cut_free_back [OF ok q nb(1) le th]) (rule that)
    have ne: "q + 8 \<noteq> q + nb + 8" using nb(1) by (auto simp: chunk_size_ok_def)
    have "set_head_size q nb (set_head (q + nb) ((z - nb) OR PREV_INUSE) s) = cut q z nb (flag C q) s"
      using ne by (simp add: set_head_def set_head_size_def wr_def cut_def ck_size_def PREV_INUSE_def head_same(1) [OF I q] fun_upd_twist)
    then have "memalign_tail q nb s = Some (chunk2mem q, t)"
      using True t(1) rt by (simp add: memalign_tail_def Let_def chunk_at_offset_def)
    then show ?thesis using that t(2,3,5) by blast
  qed
qed

lemma memalign_lead_ok:
  assumes ok: "dl_ok s lo ts C B F A R" and p: "C p = Some (z, Used)"
    and spot: "memalign_spot (chunk2mem p) al p = p + l" and l: "chunk_size_ok l" "unat l + 32 \<le> unat z"
    and nb: "chunk_size_ok nb" "unat nb + unat l \<le> unat z" "unat nb < 2 ^ 32" and th: "heap_end s ts < unat lo + unat (trim_threshold s)"
  obtains t ts' C' B' F' z' where "memalign_lead (chunk2mem p) al p nb s = Some (chunk2mem (p + l), t)" "dl_ok t lo ts' C' B' F' A R"
    "in_use C' = ((in_use C)(p := None))(p + l \<mapsto> (z', Used))" "unat nb \<le> unat z'" "p + l \<notin> dom C"
    "\<And>y w a. C y = Some (w, Used) \<Longrightarrow> y \<noteq> p \<Longrightarrow> a \<in> data_words y w \<Longrightarrow> mem t a = mem s a"
proof -
  note I = dl_okD(1) [OF ok]
  note H = heap_invD(1) [OF I]
  note A = core_arena [OF H] and c = chunk_bounds [OF A p]
  note rt = read_tag(1,4) [OF H p, simplified]
  let ?u = "cut p z l (flag C p) s" and ?q = "p + l"
  have e: "?q + (z - l) = p + z" by simp
  obtain t ts' C' B' F' where t: "fREe (chunk2mem p) ?u = Some t" "dl_ok t lo ts' C' B' F' A R"
    "in_use C' = ((in_use C)(p := None))(?q \<mapsto> (z - l, Used))" "heap_end t ts' = heap_end s ts"
    "trim_threshold t = trim_threshold s" "?q \<notin> dom C"
    "\<And>y w a. C y = Some (w, Used) \<Longrightarrow> y \<noteq> p \<Longrightarrow> a \<in> data_words y w \<Longrightarrow> mem t a = mem s a"
    by (rule cut_free_front [OF ok p l th]) (rule that)
  have "in_use C' ?q = Some (z - l, Used)" using t(3) by simp
  then have q: "C' ?q = Some (z - l, Used)" by (simp add: in_use_some)
  have uz: "unat (z - l) = unat z - unat l" using l(2) by (intro unat_sub_le) simp
  have le: "unat nb \<le> unat (z - l)" using nb(2) uz by simp
  have th': "heap_end t ts' < unat lo + unat (trim_threshold t)" using th t(4,5) by simp
  obtain v ts2 C2 B2 F2 z2 where v: "memalign_tail ?q nb t = Some (chunk2mem ?q, v)" "dl_ok v lo ts2 C2 B2 F2 A R"
    "in_use C2 = (in_use C')(?q \<mapsto> (z2, Used))" "unat nb \<le> unat z2"
    "\<And>y w a. C' y = Some (w, Used) \<Longrightarrow> y \<noteq> ?q \<Longrightarrow> a \<in> data_words y w \<Longrightarrow> mem v a = mem t a"
    by (rule memalign_tail_ok [OF t(2) q nb(1) le nb(3) th']) (rule that)
  have ql: "unat ?q = unat p + unat l" using l(2) c(2) arena_bounds(1) [OF A] by (intro unat_add_nowrap) simp
  have u8: "unat (p + z + 8) = unat p + unat z + 8" "unat (?q + 8) = unat p + unat l + 8" "unat (p + 8) = unat p + 8"
    using c(2,5) arena_bounds(1) [OF A] l ql by (subst unat_add_nowrap; simp)+
  have ne: "p + z + 8 \<noteq> p + 8" "p + z + 8 \<noteq> ?q + 8" "p + 8 \<noteq> ?q + 8"
    using u8 l c(3) by (auto simp: chunk_size_ok_def simp flip: word_unat_eq_iff)
  have iu: "mem s (p + z + 8) OR 1 = mem s (p + z + 8)" by (rule inuse_same [OF I p]) simp
  have "set_inuse_bit_at_offset ?q (z - l) (set_head ?q ((z - l) OR PREV_INUSE) s) = set_head ?q ((z - l) OR PREV_INUSE) s"
    unfolding set_inuse_bit_at_offset_def e
    by (rule wr_same) (use ne iu in \<open>simp add: ck_size_def PREV_INUSE_def set_head_def\<close>)
  moreover have "set_head_size p l (set_head ?q ((z - l) OR PREV_INUSE) s) = ?u"
    using ne(3) by (simp add: set_head_def set_head_size_def wr_def cut_def ck_size_def PREV_INUSE_def head_same(1) [OF I p] fun_upd_twist)
  ultimately have run: "memalign_lead (chunk2mem p) al p nb s = Some (chunk2mem ?q, v)"
    using t(1) v(1) rt by (simp add: memalign_lead_def spot Let_def)
  have "in_use C2 = ((in_use C)(p := None))(?q \<mapsto> (z2, Used))" unfolding v(3) t(3) by simp
  moreover have "mem v a = mem s a" if y: "C y = Some (w, Used)" "y \<noteq> p" "a \<in> data_words y w" for y w a
  proof -
    have yq: "y \<noteq> ?q" using y(1) t(6) by auto
    then have "in_use C' y = Some (w, Used)" using y t(3) by (simp add: in_use_some)
    then have "C' y = Some (w, Used)" by (simp add: in_use_some)
    then show ?thesis using v(5) [OF _ yq y(3)] t(7) [OF y] by simp
  qed
  ultimately show ?thesis using that [OF run v(2) _ v(4) t(6)] by blast
qed

section \<open>memalign\<close>

definition memaligned ::
  "'a malloc_state_scheme \<Rightarrow> u64 \<Rightarrow> chunks \<Rightarrow> nat set \<Rightarrow> u64 \<Rightarrow> u64 \<Rightarrow> 'a malloc_state_scheme \<Rightarrow> bool" where
  "memaligned s lo C R nb q t \<longleftrightarrow>
     (\<exists>ts' C' B' F' A' z. dl_ok t lo ts' C' B' F' A' R \<and> in_use C q = None \<and>
        in_use C' = (in_use C)(q \<mapsto> (z, Used)) \<and> unat nb \<le> unat z) \<and>
     (\<forall>y w a. in_use C y = Some (w, Used) \<longrightarrow> a \<in> data_words y w \<longrightarrow> mem t a = mem s a)"

lemma memalign_ok_run:
  assumes "dl_ok s lo ts C B F A R" "alignment_exponent al k" "16 < unat al" "k < 30" "unat bytes < 2 ^ 31"
    "request2size (request2size bytes + 2 ^ k + MINSIZE) < mmap_threshold s"
    "supply_for s (request2size (request2size bytes + 2 ^ k + MINSIZE)) ts"
    "heap_end s ts + unat bytes + 2 ^ k + 4288 < unat lo + unat (trim_threshold s)"
  shows "\<exists>q t. mEMALIGn al bytes s = Some (chunk2mem q, t) \<and> 2 ^ k dvd unat (chunk2mem q) \<and>
    memaligned s lo C R (request2size bytes) q t"
proof -
  let ?nb = "request2size bytes"
  let ?n = "?nb + 2 ^ k + MINSIZE"
  have b32: "unat bytes < 2 ^ 32 - 64" using assms(5) by simp
  note r = request_below [OF b32]
  have b64: "unat bytes < 2 ^ 64 - 64" using assms(5) by simp
  have nb: "unat ?nb \<le> unat bytes + 40" using unat_request2size [OF b64] by simp
  have k5: "5 \<le> k" using assms(2) by (simp add: alignment_exponent_def)
  have pk: "(2 :: nat) ^ k < 2 ^ 30" by (rule power_strict_increasing) (use assms(4) in simp_all)
  have d16: "16 dvd (2 :: nat) ^ k" using le_imp_power_dvd [of 4 k "2 :: nat"] k5 by simp
  have uk: "unat ((2 :: u64) ^ k) = 2 ^ k" using assms(4) by (intro unat_pow2) simp
  have n: "unat ?n = unat ?nb + 2 ^ k + 32"
  proof -
    have "unat (?nb + 2 ^ k) = unat ?nb + 2 ^ k" using nb pk assms(5) uk by (subst unat_add_nowrap) simp_all
    then show ?thesis using nb pk assms(5) by (subst unat_add_nowrap) (simp_all add: dl_consts)
  qed
  have n32: "unat ?n < 2 ^ 32 - 64" using n nb pk assms(5) by simp
  note rn = request_below [OF n32]
  have n64: "unat ?n < 2 ^ 64 - 64" using n32 by simp
  have nn: "unat (request2size ?n) \<le> unat ?n + 40" using unat_request2size [OF n64] by simp
  obtain p v where v: "mALLOc ?n s = Some (chunk2mem p, v)" "answered s lo C (request2size ?n) R p v"
    using malloc_serves_run [OF assms(1) n32 assms(6,7)] by blast
  obtain ts1 C1 B1 F1 A1 z where w: "dl_ok v lo ts1 C1 B1 F1 A1 R" "in_use C p = None"
    "in_use C1 = (in_use C)(p \<mapsto> (z, Used))" "unat (request2size ?n) \<le> unat z"
    using v(2) unfolding answered_def by blast
  have w2: "unat (cur_top v) \<le> unat (cur_top s) + unat (request2size ?n) + 4128" "trim_threshold v = trim_threshold s"
    "\<And>y w a. in_use C y = Some (w, Used) \<Longrightarrow> a \<in> data_words y w \<Longrightarrow> mem v a = mem s a"
    using v(2) unfolding answered_def by blast+
  note I1 = dl_okD(1) [OF w(1)]
  note H1 = heap_invD(1) [OF I1]
  note A1 = core_arena [OF H1]
  have "in_use C1 p = Some (z, Used)" using w(3) by simp
  then have p: "C1 p = Some (z, Used)" by (simp add: in_use_some)
  note c = chunk_bounds [OF A1 p]
  have "p \<in> insert (top_chunk v) (dom C1)" using p by auto
  note nd = node_bounds [OF A1 this]
  have m2c: "mem2chunk (chunk2mem p) = p" by (simp add: mem2chunk_def chunk2mem_def)
  have nz: "chunk2mem p \<noteq> 0" using nd(6) by (auto simp: chunk2mem_def dl_consts simp flip: word_unat_eq_iff)
  have th1: "heap_end v ts1 < unat lo + unat (trim_threshold v)"
    using assms(8) w2(1,2) dl_okD(10) [OF w(1)] dl_okD(10) [OF assms(1)] nn n nb by simp
  have big: "\<not> al \<le> MALLOC_ALIGNMENT" using assms(3) by (simp add: word_le_nat_alt dl_consts)
  have run: "mEMALIGn al bytes s =
    (if chunk2mem p mod 2 ^ k \<noteq> 0 then memalign_lead (chunk2mem p) (2 ^ k) p ?nb v else memalign_tail p ?nb v)"
    using big memalign_alignment_run [OF _ assms(2)] assms(4) r(1) v(1) nz by (simp add: mEMALIGn_def m2c Let_def)
  have old: "C1 y = Some (x, Used)" "y \<noteq> p" if "in_use C y = Some (x, Used)" for y x
  proof -
    show "y \<noteq> p" using that w(2) by auto
    then have "in_use C1 y = Some (x, Used)" using that w(3) by simp
    then show "C1 y = Some (x, Used)" by (simp add: in_use_some)
  qed
  show ?thesis
  proof (cases "chunk2mem p mod 2 ^ k = 0")
    case True
    have le: "unat ?nb \<le> unat z" using w(4) rn(4) n by simp
    obtain t ts' C' B' F' z' where t: "memalign_tail p ?nb v = Some (chunk2mem p, t)" "dl_ok t lo ts' C' B' F' A1 R"
      "in_use C' = (in_use C1)(p \<mapsto> (z', Used))" "unat ?nb \<le> unat z'"
      "\<And>y w a. C1 y = Some (w, Used) \<Longrightarrow> y \<noteq> p \<Longrightarrow> a \<in> data_words y w \<Longrightarrow> mem t a = mem v a"
      by (rule memalign_tail_ok [OF w(1) p r(2) le r(3) th1]) (rule that)
    have "in_use C' = (in_use C)(p \<mapsto> (z', Used))" unfolding t(3) w(3) by simp
    moreover have "\<forall>y w a. in_use C y = Some (w, Used) \<longrightarrow> a \<in> data_words y w \<longrightarrow> mem t a = mem s a"
      using t(5) old w2(3) by metis
    ultimately have "memaligned s lo C R ?nb p t" unfolding memaligned_def using t(2,4) w(2) by blast
    moreover have "2 ^ k dvd unat (chunk2mem p)"
      using arg_cong [OF True, of unat] by (simp add: unat_mod_distrib uk dvd_eq_mod_eq_0)
    ultimately show ?thesis using run True t(1) by auto
  next
    case False
    have k63: "k < 63" using assms(4) by simp
    have pb: "unat p + 2 ^ k + 64 < 2 ^ 64"
      using c(2) arena_bounds(1,2) [OF A1] w(4) rn(4) n by simp
    obtain l where l: "memalign_spot (chunk2mem p) (2 ^ k) p = p + l" "16 dvd unat l" "32 \<le> unat l" "unat l \<le> 2 ^ k + 16"
      "2 ^ k dvd unat (chunk2mem (p + l))"
      by (rule memalign_spot_ok [OF k5 k63 nd(3) pb False]) (rule that)
    have lk: "chunk_size_ok l" using l(2,3) by (simp add: chunk_size_ok_def)
    have zz: "unat ?nb + 2 ^ k + 48 \<le> unat z"
    proof -
      have "16 dvd unat ?nb + 2 ^ k" using r(2) d16 by (simp add: chunk_size_ok_def)
      moreover have "unat ?nb + 2 ^ k + 40 \<le> unat z" using w(4) rn(4) n by simp
      ultimately show ?thesis using c(6) by (elim dvdE) presburger
    qed
    have lz: "unat l + 32 \<le> unat z" "unat ?nb + unat l \<le> unat z" using zz l(4) by simp_all
    obtain t ts' C' B' F' z' where t: "memalign_lead (chunk2mem p) (2 ^ k) p ?nb v = Some (chunk2mem (p + l), t)"
      "dl_ok t lo ts' C' B' F' A1 R" "in_use C' = ((in_use C1)(p := None))(p + l \<mapsto> (z', Used))" "unat ?nb \<le> unat z'"
      "p + l \<notin> dom C1" "\<And>y w a. C1 y = Some (w, Used) \<Longrightarrow> y \<noteq> p \<Longrightarrow> a \<in> data_words y w \<Longrightarrow> mem t a = mem v a"
      by (rule memalign_lead_ok [OF w(1) p l(1) lk lz(1) r(2) lz(2) r(3) th1]) (rule that)
    have "in_use C' = (in_use C)(p + l \<mapsto> (z', Used))" unfolding t(3) w(3) using w(2) by (simp add: fun_upd_idem)
    moreover have "in_use C (p + l) = None"
    proof (rule ccontr)
      assume "in_use C (p + l) \<noteq> None"
      then obtain x j where x: "in_use C (p + l) = Some (x, j)" by auto
      then have "in_use C (p + l) = Some (x, Used)" by (simp add: in_use_some)
      then show False using old(1) t(5) by blast
    qed
    moreover have "\<forall>y w a. in_use C y = Some (w, Used) \<longrightarrow> a \<in> data_words y w \<longrightarrow> mem t a = mem s a"
      using t(6) old w2(3) by metis
    ultimately have "memaligned s lo C R ?nb (p + l) t" unfolding memaligned_def using t(2,4) by blast
    then show ?thesis using run False t(1) l(5) by auto
  qed
qed



end
