(* ===== verification/Dl_Boot.thy ===== *)
theory Dl_Boot
  imports Boot Dl_Memalign_Ok
begin

text \<open>
  From the bootloader to the first block: what \<open>boot_memory\<close> leaves is a heap that has not been
  used, so that the first \<open>mALLOc\<close> after it is answered, and the combined invariant holds from
  then on.
\<close>

section \<open>The heap after booting\<close>

text \<open>
  The static \<open>malloc_state\<close> is zero and lies above the addresses that are left between the
  direct map and the kernel image; \<open>R\<close>, the page tables and the usable memory in the direct map,
  lies below them.
\<close>

definition static_dl :: "'a malloc_state_scheme \<Rightarrow> memmap_entry list \<Rightarrow> nat set \<Rightarrow> bool" where
  "static_dl s es R \<longleftrightarrow>
     max_fast s = 0 \<and> fastbins s = (\<lambda>_. 0) \<and> binmap s = (\<lambda>_. 0) \<and> mem s (av_bins s + 8) = 0 \<and>
     8 dvd unat (av_bins s) \<and> unat (free_end s) + 16 \<le> unat (av_bins s) \<and> unat (av_bins s) + 1536 < 2 ^ 64 \<and>
     tables_in R s (pagemap s) \<and> (\<forall>x\<in>R. x < unat (free_start (hhdm_offset s) es))"

lemma boot_fresh:
  fixes s :: "'a malloc_state_scheme" and es usable
  defines "U \<equiv> usable_blocks usable (hhdm_offset s) es"
  assumes map: "ptrs (length es) = None" "\<And>i. i < length es \<Longrightarrow> ptrs i = Some (es ! i)"
    and fresh: "m_head s = 0" "heap_top s = None" "allocator s = allocator_init"
    and phys: "wf_blocks U" "pt_wf s (pagemap s) (cover U)" "direct_mapped s (cover U)"
    and virt: "2 ^ 64 - 2 ^ 47 \<le> unat (free_start (hhdm_offset s) es)" "unat (free_end s) \<le> 2 ^ 64 - 2 ^ 31"
      "unat (free_start (hhdm_offset s) es) + 2 ^ 25 \<le> unat (free_end s)"
    and dl: "static_dl s es R" "cover U \<subseteq> R"
  obtains t where "boot_memory usable ptrs s = Some t" "fresh_dl t (cover U) R" "cur_top t = heap_base t"
    "unat (heap_size t) = 2 ^ 25" "blocks_at t U"
proof -
  note sd = dl(1) [unfolded static_dl_def]
  obtain t where t: "boot_memory usable ptrs s = Some t" "heap_ok t (cover U)" "unat (heap_size t) = 2 ^ 25"
    "cur_top t = heap_base t" "byte_span (heap_base t) 8192 \<subseteq> {unat (free_start (hhdm_offset s) es) ..< unat (free_end s)}"
    "blocks_at t U" "\<And>x. unat x \<notin> cover U \<Longrightarrow> mem t x = mem s x" "hhdm_offset t = hhdm_offset s"
    "pagemap t = pagemap s" "kernel.more t = kernel.more s"
    using boot_memory_run [OF map fresh phys [unfolded U_def] virt] unfolding U_def by blast
  note av = same_avD [OF more_fields(1) [OF t(10)]]
  have hb: "unat (free_start (hhdm_offset s) es) \<le> unat (heap_base t)" "unat (heap_base t) + 2 ^ 25 \<le> unat (free_end s)"
  proof -
    have "{unat (heap_base t) ..< unat (heap_base t) + 2 ^ 25} \<subseteq> {unat (free_start (hhdm_offset s) es) ..< unat (free_end s)}"
      using t(5) by (simp add: byte_span_def)
    then show "unat (free_start (hhdm_offset s) es) \<le> unat (heap_base t)" "unat (heap_base t) + 2 ^ 25 \<le> unat (free_end s)"
      by (simp_all add: atLeastLessThan_subset_iff)
  qed
  have a8: "unat (av_bins s + 8) = unat (av_bins s) + 8" using sd by (intro unat_add_nowrap [THEN trans]) simp_all
  have tab: "tables_in R t (pagemap t)"
    using sd walks_unchanged(1) [OF phys(2) t(8,7)] unfolding tables_in_def t(9) by (metis (no_types, lifting))
  have ap: "apart_from R (cur_top t) (av_bins t) (unat (heap_base t) + unat (heap_size t))"
    unfolding apart_from_def av t(3,4) using sd hb virt(3) by fastforce
  have out: "unat (av_bins s + 8) \<notin> cover U"
  proof
    assume "unat (av_bins s + 8) \<in> cover U"
    then have "unat (av_bins s + 8) < unat (free_start (hhdm_offset s) es)" using dl(2) sd by blast
    then show False using a8 sd virt(3) by simp
  qed
  have "fresh_dl t (cover U) R"
    unfolding fresh_dl_def av using sd t(2) tab ap [unfolded av] dl(2) t(7) [OF out] by simp
  then show ?thesis using that t(1,3,4,6) by blast
qed


text \<open>The machine of \<open>demo_boot\<close> with the static state of the allocator in the kernel image.\<close>

definition demo_boot_dl :: malloc_state where
  "demo_boot_dl = kernel.extend demo_boot
     \<lparr>av_bins = 0xFFFFFFFF80001000, max_fast = 0, fastbins = (\<lambda>_. 0), top_chunk = 0,
      last_remainder = 0, binmap = (\<lambda>_. 0), trim_threshold = 0, top_pad = 0,
      mmap_threshold = 0, n_mmaps = 0, n_mmaps_max = 0, max_n_mmaps = 0,
      pagesize = 0, morecore_properties = 0, mmapped_mem = 0, sbrked_mem = 0,
      max_sbrked_mem = 0, max_mmapped_mem = 0, max_total_mem = 0\<rparr>"


end
