(* ===== verification/Dl_Client.thy ===== *)
theory Dl_Client
  imports Dl_Boot
begin

text \<open>
  Programs that use the allocator: any sequence of \<open>mALLOc\<close>, \<open>cALLOc\<close>, \<open>mEMALIGn\<close>,
  \<open>rEALLOc\<close>, \<open>fREe\<close> and stores into blocks, from the first allocation on, against an abstract
  heap that maps the blocks a program holds to the words it knows to be in them.
\<close>

section \<open>The abstract heap\<close>

type_synonym block_words = "nat \<Rightarrow> u64 option"
type_synonym blocks = "u64 \<Rightarrow> block_words option"

text \<open>
  A request is small when it stays below the threshold for mappings and the pages it may need are
  there; the heap is low when it stays below the trim threshold even if it has to grow for \<open>n\<close>
  more bytes. Both are read off the state as the code sees it.
\<close>

definition small_request :: "'a malloc_state_scheme \<Rightarrow> u64 \<Rightarrow> bool" where
  "small_request s bytes \<longleftrightarrow> unat bytes < 2 ^ 32 - 128 \<and> request2size bytes < mmap_threshold s \<and>
     supply_for s (request2size bytes) (chunksize s (top_chunk s))"

definition heap_low :: "u64 \<Rightarrow> 'a malloc_state_scheme \<Rightarrow> nat \<Rightarrow> bool" where
  "heap_low lo s n \<longleftrightarrow> unat (cur_top s) + n + 4288 < unat lo + unat (trim_threshold s)"

text \<open>
  The blocks a program holds with the words it knows, and the state, after any sequence of calls. A
  new block is unknown, except that \<open>cALLOc\<close> makes it zero; \<open>rEALLOc\<close> carries over what the new
  size covers; a store makes a word known.
\<close>

inductive client :: "u64 \<Rightarrow> nat set \<Rightarrow> blocks \<Rightarrow> 'a malloc_state_scheme \<Rightarrow> bool" for lo :: u64 and R :: "nat set" where
  first: "client lo R [m \<mapsto> \<lambda>_. None] t"
    if "fresh_dl s A R" "cur_top s = lo" "unat bytes < 2 ^ 17" "supply_for s (request2size bytes) 0"
      "mALLOc bytes s = Some (m, t)"
| malloc: "client lo R (K(m \<mapsto> \<lambda>_. None)) t"
    if "client lo R K s" "small_request s bytes" "mALLOc bytes s = Some (m, t)"
| calloc: "client lo R (K(m \<mapsto> \<lambda>i. if 8 * i < unat n * unat e then Some 0 else None)) t"
    if "client lo R K s" "unat n * unat e < 2 ^ 32 - 128" "small_request s (n * e)" "cALLOc n e s = Some (m, t)"
| memalign: "client lo R (K(m \<mapsto> \<lambda>_. None)) t"
    if "client lo R K s" "alignment_exponent al k" "16 < unat al" "k < 30" "unat bytes < 2 ^ 31"
      "small_request s (request2size bytes + 2 ^ k + MINSIZE)" "heap_low lo s (unat bytes + 2 ^ k)"
      "mEMALIGn al bytes s = Some (m, t)"
| realloc: "client lo R ((K(m := None))(m' \<mapsto> \<lambda>i. if 8 * i + 8 \<le> unat bytes then w i else None)) t"
    if "client lo R K s" "K m = Some w" "small_request s bytes" "heap_low lo s (unat (request2size bytes))"
      "rEALLOc m bytes s = Some (m', t)"
| free: "client lo R (K(m := None)) t"
    if "client lo R K s" "K m = Some w" "heap_low lo s 0" "fREe m s = Some t"
| fill: "client lo R (K(m \<mapsto> w(i \<mapsto> v))) (wr (m + of_nat (8 * i)) v s)"
    if "client lo R K s" "K m = Some w" "8 * i + 8 \<le> unat (mUSABLe m s)"

section \<open>The simulation\<close>

text \<open>The chunks in use are the blocks of the abstract heap, and the words it knows are in memory.\<close>

definition represents :: "'a malloc_state_scheme \<Rightarrow> chunks \<Rightarrow> blocks \<Rightarrow> bool" where
  "represents s C K \<longleftrightarrow> dom K = chunk2mem ` dom (in_use C) \<and>
     (\<forall>p sz w i v. C p = Some (sz, Used) \<longrightarrow> K (chunk2mem p) = Some w \<longrightarrow> w i = Some v \<longrightarrow>
        8 * i + 16 \<le> unat sz \<and> mem s (chunk2mem p + of_nat (8 * i)) = v)"

definition client_inv :: "u64 \<Rightarrow> nat set \<Rightarrow> blocks \<Rightarrow> 'a malloc_state_scheme \<Rightarrow> bool" where
  "client_inv lo R K s \<longleftrightarrow> (\<exists>ts C B F A. dl_ok s lo ts C B F A R \<and> represents s C K)"

lemma chunk2mem_inj [simp]: "chunk2mem p = chunk2mem q \<longleftrightarrow> p = q"
  by (simp add: chunk2mem_def)

lemma representsD:
  assumes "represents s C K" "C p = Some (sz, Used)" "K (chunk2mem p) = Some w" "w i = Some v"
  shows "8 * i + 16 \<le> unat sz" "mem s (chunk2mem p + of_nat (8 * i)) = v"
  using assms unfolding represents_def by blast+

lemma represents_block:
  assumes "represents s C K" "K m = Some w"
  obtains p sz where "m = chunk2mem p" "C p = Some (sz, Used)"
proof -
  have "m \<in> chunk2mem ` dom (in_use C)" using assms unfolding represents_def by blast
  then show ?thesis using that by (fastforce simp: in_use_some)
qed

lemma chunk_word:
  assumes ok: "dl_ok s lo ts C B F A R" and p: "C p = Some (sz, k)" and i: "8 * i + 16 \<le> unat sz"
  shows "chunk2mem p + of_nat (8 * i) \<in> data_words p sz"
proof -
  note A = core_arena [OF heap_invD(1) [OF dl_okD(1) [OF ok]]]
  have "unat p + unat sz + 16 < 2 ^ 64" using chunk_bounds(2) [OF A p] arena_bounds(1) [OF A] by simp
  then show ?thesis by (rule data_word_at(2) [OF _ i])
qed

text \<open>One block is exchanged for another, or comes in anew.\<close>

lemma client_change:
  assumes ok: "dl_ok s lo ts C B F A R" and rep: "represents s C K" and t: "dl_ok t lo ts' C' B' F' A' R"
    and C': "in_use C' = ((in_use C)(p := None))(q \<mapsto> (z, Used))" "q = p \<or> in_use C q = None"
    and others: "\<And>r x a. in_use C r = Some (x, Used) \<Longrightarrow> r \<noteq> p \<Longrightarrow> a \<in> data_words r x \<Longrightarrow> mem t a = mem s a"
    and new: "\<And>i v. w i = Some v \<Longrightarrow> 8 * i + 16 \<le> unat z \<and> mem t (chunk2mem q + of_nat (8 * i)) = v"
  shows "client_inv lo R ((K(chunk2mem p := None))(chunk2mem q \<mapsto> w)) t"
proof -
  let ?K = "(K(chunk2mem p := None))(chunk2mem q \<mapsto> w)"
  have "dom (in_use C') = insert q (dom (in_use C) - {p})" unfolding C'(1) by auto
  moreover have "dom ?K = insert (chunk2mem q) (chunk2mem ` dom (in_use C) - {chunk2mem p})"
    using rep by (simp add: represents_def)
  moreover have "chunk2mem ` dom (in_use C) - {chunk2mem p} = chunk2mem ` (dom (in_use C) - {p})" by auto
  ultimately have d: "dom ?K = chunk2mem ` dom (in_use C')" by simp
  have "8 * i + 16 \<le> unat sz \<and> mem t (chunk2mem r + of_nat (8 * i)) = v"
    if r: "C' r = Some (sz, Used)" "?K (chunk2mem r) = Some u" "u i = Some v" for r sz u i v
  proof (cases "r = q")
    case True
    have "in_use C' r = Some (sz, Used)" using r(1) by (simp add: in_use_some)
    then show ?thesis using True C'(1) r(2,3) new by simp
  next
    case False
    have "in_use C' r = Some (sz, Used)" using r(1) by (simp add: in_use_some)
    then have i: "in_use C r = Some (sz, Used)" "r \<noteq> p" using False C'(1) by (auto split: if_splits)
    then have c: "C r = Some (sz, Used)" by (simp add: in_use_some)
    have k: "K (chunk2mem r) = Some u" using r(2) False i(2) by simp
    note d = representsD [OF rep c k r(3)]
    show ?thesis using d others [OF i chunk_word [OF ok c d(1)]] by simp
  qed
  then have "represents t C' ?K" unfolding represents_def using d by blast
  then show ?thesis unfolding client_inv_def using t by blast
qed

lemma new_block:
  assumes "represents s C K" "in_use C q = None" shows "chunk2mem q \<notin> dom K"
  using assms by (auto simp: represents_def)

lemma client_new:
  assumes "dl_ok s lo ts C B F A R" "represents s C K" "dl_ok t lo ts' C' B' F' A' R" "in_use C q = None"
    "in_use C' = (in_use C)(q \<mapsto> (z, Used))"
    "\<And>r x a. in_use C r = Some (x, Used) \<Longrightarrow> a \<in> data_words r x \<Longrightarrow> mem t a = mem s a"
    "\<And>i v. w i = Some v \<Longrightarrow> 8 * i + 16 \<le> unat z \<and> mem t (chunk2mem q + of_nat (8 * i)) = v"
  shows "client_inv lo R (K(chunk2mem q \<mapsto> w)) t"
proof -
  have e: "in_use C' = ((in_use C)(q := None))(q \<mapsto> (z, Used))" using assms(5) by simp
  show ?thesis using client_change [OF assms(1-3) e _ assms(6,7)] by simp
qed

lemma answered_client:
  assumes "dl_ok s lo ts C B F A R" "represents s C K" "answered s lo C nb R q t"
    "\<And>i v. w i = Some v \<Longrightarrow> 8 * i + 16 \<le> unat nb \<and> mem t (chunk2mem q + of_nat (8 * i)) = v"
  shows "client_inv lo R (K(chunk2mem q \<mapsto> w)) t" "chunk2mem q \<notin> dom K"
proof -
  obtain ts' C' B' F' A' z where t: "dl_ok t lo ts' C' B' F' A' R" "in_use C q = None" "in_use C' = (in_use C)(q \<mapsto> (z, Used))"
    "unat nb \<le> unat z" "\<And>r x a. in_use C r = Some (x, Used) \<Longrightarrow> a \<in> data_words r x \<Longrightarrow> mem t a = mem s a"
    using assms(3) unfolding answered_def by blast
  have w: "8 * i + 16 \<le> unat z \<and> mem t (chunk2mem q + of_nat (8 * i)) = v" if "w i = Some v" for i v
    using assms(4) [OF that] t(4) by simp
  show "client_inv lo R (K(chunk2mem q \<mapsto> w)) t"
    by (rule client_new [OF assms(1,2) t(1-3)]) (use t(5) w in blast)+
  show "chunk2mem q \<notin> dom K" by (rule new_block [OF assms(2) t(2)])
qed

section \<open>Each call\<close>

lemma top_size:
  assumes "dl_ok s lo ts C B F A R" shows "chunksize s (top_chunk s) = ts"
  by (rule read_top [OF heap_invD(1) [OF dl_okD(1) [OF assms]]])

lemma small_requestD:
  assumes "dl_ok s lo ts C B F A R" "small_request s bytes"
  shows "unat bytes < 2 ^ 32 - 64" "unat bytes < 2 ^ 32 - 128" "request2size bytes < mmap_threshold s"
    "supply_for s (request2size bytes) ts"
  using assms(2) top_size [OF assms(1)] by (auto simp: small_request_def)

lemma call_malloc:
  assumes "client_inv lo R K s" "small_request s bytes"
  shows "\<exists>m t. mALLOc bytes s = Some (m, t) \<and> client_inv lo R (K(m \<mapsto> \<lambda>_. None)) t \<and> m \<notin> dom K"
proof -
  obtain ts C B F A where i: "dl_ok s lo ts C B F A R" "represents s C K" using assms(1) unfolding client_inv_def by blast
  note r = small_requestD [OF i(1) assms(2)]
  obtain p t where "mALLOc bytes s = Some (chunk2mem p, t)" "answered s lo C (request2size bytes) R p t"
    using malloc_serves_run [OF i(1) r(1,3,4)] by blast
  then show ?thesis using answered_client [OF i, of _ p t "\<lambda>_. None"] by auto
qed

lemma call_calloc:
  assumes "client_inv lo R K s" "unat n * unat e < 2 ^ 32 - 128" "small_request s (n * e)"
  shows "\<exists>m t. cALLOc n e s = Some (m, t) \<and>
    client_inv lo R (K(m \<mapsto> \<lambda>i. if 8 * i < unat n * unat e then Some 0 else None)) t \<and> m \<notin> dom K"
proof -
  obtain ts C B F A where i: "dl_ok s lo ts C B F A R" "represents s C K" using assms(1) unfolding client_inv_def by blast
  note r = small_requestD [OF i(1) assms(3)]
  let ?nb = "request2size (n * e)" and ?w = "\<lambda>i. if 8 * i < unat n * unat e then Some (0 :: u64) else None"
  have ne: "unat (n * e) = unat n * unat e" using assms(2) by (simp add: unat_word_ariths take_bit_nat_eq_self)
  have b: "unat n * unat e < 2 ^ 32 - 64" using assms(2) by simp
  obtain p t where t: "cALLOc n e s = Some (chunk2mem p, t)" "answered s lo C ?nb R p t"
    "\<And>i. 8 * i < unat n * unat e \<Longrightarrow> mem t (chunk2mem p + of_nat (8 * i)) = 0"
    using calloc_ok_run [OF i(1) b r(3,4)] by blast
  have "8 * i + 16 \<le> unat ?nb \<and> mem t (chunk2mem p + of_nat (8 * i)) = v" if "?w i = Some v" for i v
  proof -
    have i: "8 * i < unat n * unat e" "v = 0" using that by (auto split: if_splits)
    have "8 * i + 8 < unat ?nb" using i(1) ne request_below(4) [OF r(1)] by linarith
    moreover have "16 dvd unat ?nb" using request_below(2) [OF r(1)] by (simp add: chunk_size_ok_def)
    ultimately have "8 * i + 16 \<le> unat ?nb" by (elim dvdE) presburger
    then show ?thesis using t(3) i by simp
  qed
  then show ?thesis using answered_client [OF i t(2), of ?w] t(1) by blast
qed

lemma call_memalign:
  assumes "client_inv lo R K s" "alignment_exponent al k" "16 < unat al" "k < 30" "unat bytes < 2 ^ 31"
    "small_request s (request2size bytes + 2 ^ k + MINSIZE)" "heap_low lo s (unat bytes + 2 ^ k)"
  shows "\<exists>m t. mEMALIGn al bytes s = Some (m, t) \<and> client_inv lo R (K(m \<mapsto> \<lambda>_. None)) t \<and> m \<notin> dom K \<and> 2 ^ k dvd unat m"
proof -
  obtain ts C B F A where i: "dl_ok s lo ts C B F A R" "represents s C K" using assms(1) unfolding client_inv_def by blast
  note r = small_requestD [OF i(1) assms(6)]
  have th: "heap_end s ts + unat bytes + 2 ^ k + 4288 < unat lo + unat (trim_threshold s)"
    using assms(7) dl_okD(10) [OF i(1)] by (simp add: heap_low_def)
  obtain q t where t: "mEMALIGn al bytes s = Some (chunk2mem q, t)" "2 ^ k dvd unat (chunk2mem q)"
    "memaligned s lo C R (request2size bytes) q t"
    using memalign_ok_run [OF i(1) assms(2-5) r(3,4) th] by blast
  obtain ts' C' B' F' A' z where u: "dl_ok t lo ts' C' B' F' A' R" "in_use C q = None" "in_use C' = (in_use C)(q \<mapsto> (z, Used))"
    "\<And>r x a. in_use C r = Some (x, Used) \<Longrightarrow> a \<in> data_words r x \<Longrightarrow> mem t a = mem s a"
    using t(3) unfolding memaligned_def by blast
  have "client_inv lo R (K(chunk2mem q \<mapsto> \<lambda>_. None)) t" by (rule client_new [OF i u(1-3)]) (use u(4) in simp_all)
  then show ?thesis using t(1,2) new_block [OF i(2) u(2)] by blast
qed

lemma call_realloc:
  assumes "client_inv lo R K s" "K m = Some w" "small_request s bytes" "heap_low lo s (unat (request2size bytes))"
  shows "\<exists>m' t. rEALLOc m bytes s = Some (m', t) \<and>
    client_inv lo R ((K(m := None))(m' \<mapsto> \<lambda>i. if 8 * i + 8 \<le> unat bytes then w i else None)) t \<and> m' \<notin> dom K - {m}"
proof -
  obtain ts C B F A where i: "dl_ok s lo ts C B F A R" "represents s C K" using assms(1) unfolding client_inv_def by blast
  obtain p sz where p: "m = chunk2mem p" "C p = Some (sz, Used)" by (rule represents_block [OF i(2) assms(2)]) (rule that)
  note r = small_requestD [OF i(1) assms(3)]
  let ?nb = "request2size bytes" and ?w = "\<lambda>i. if 8 * i + 8 \<le> unat bytes then w i else None"
  have th: "heap_end s ts + unat ?nb + 4128 < unat lo + unat (trim_threshold s)"
    using assms(4) dl_okD(10) [OF i(1)] by (simp add: heap_low_def)
  obtain q t where t: "rEALLOc (chunk2mem p) bytes s = Some (chunk2mem q, t)" "reallocated s lo C R p sz ?nb q t"
    using realloc_ok_run [OF i(1) p(2) r(2-4) th] by blast
  obtain ts' C' B' F' A' z where u: "dl_ok t lo ts' C' B' F' A' R" "in_use C' = ((in_use C)(p := None))(q \<mapsto> (z, Used))"
    "unat ?nb \<le> unat z"
    using t(2) unfolding reallocated_def by blast
  note d = t(2) [unfolded reallocated_def, THEN conjunct2]
  have v: "q = p \<or> in_use C q = None"
    "\<And>i. 8 * i + 16 \<le> unat sz \<Longrightarrow> 8 * i + 16 \<le> unat ?nb \<Longrightarrow>
      mem t (chunk2mem q + of_nat (8 * i)) = mem s (chunk2mem p + of_nat (8 * i))"
    using d [THEN conjunct1] d [THEN conjunct2, THEN conjunct1] by blast+
  have v3: "mem t a = mem s a" if "in_use C r = Some (x, Used)" "r \<noteq> p" "a \<in> data_words r x" for r x a
    using d [THEN conjunct2, THEN conjunct2] that by blast
  have kn: "8 * i + 16 \<le> unat z \<and> mem t (chunk2mem q + of_nat (8 * i)) = v" if "?w i = Some v" for i v
  proof -
    have w: "8 * i + 8 \<le> unat bytes" "w i = Some v" using that by (auto split: if_splits)
    then have n: "8 * i + 16 \<le> unat ?nb" using request_below(4) [OF r(1)] by simp
    note k = representsD [OF i(2) p(2) assms(2) [unfolded p(1)] w(2)]
    show ?thesis using v(2) [OF k(1) n] k(2) n u(3) by simp
  qed
  have "client_inv lo R ((K(m := None))(chunk2mem q \<mapsto> ?w)) t"
    unfolding p(1) by (rule client_change [OF i u(1,2) v(1)]) (use v3 kn in blast)+
  moreover have "chunk2mem q \<notin> dom K - {m}" using v(1) i(2) p(1) by (auto simp: represents_def)
  moreover have "rEALLOc m bytes s = Some (chunk2mem q, t)" using t(1) p(1) by simp
  ultimately show ?thesis by (intro exI conjI)
qed

lemma call_free:
  assumes "client_inv lo R K s" "K m = Some w" "heap_low lo s 0"
  shows "\<exists>t. fREe m s = Some t \<and> client_inv lo R (K(m := None)) t"
proof -
  obtain ts C B F A where i: "dl_ok s lo ts C B F A R" "represents s C K" using assms(1) unfolding client_inv_def by blast
  obtain p sz where p: "m = chunk2mem p" "C p = Some (sz, Used)" by (rule represents_block [OF i(2) assms(2)]) (rule that)
  have th: "heap_end s ts < unat lo + unat (trim_threshold s)"
    using assms(3) dl_okD(10) [OF i(1)] by (simp add: heap_low_def)
  obtain t ts' C' B' F' where t: "fREe (chunk2mem p) s = Some t" "dl_ok t lo ts' C' B' F' A R"
    "in_use C' = (in_use C)(p := None)" "calm s lo (heap_end s ts) ((in_use C)(p := None)) t"
    by (rule free_dl_ok [OF i(1) p(2) th]) (rule that)
  have "represents t C' (K(m := None))"
    unfolding represents_def
  proof (intro conjI allI impI)
    have "chunk2mem ` dom (in_use C) - {chunk2mem p} = chunk2mem ` (dom (in_use C) - {p})" by auto
    then show "dom (K(m := None)) = chunk2mem ` dom (in_use C')"
      using i(2) unfolding t(3) p(1) by (simp add: represents_def)
    fix r z u i' v assume r: "C' r = Some (z, Used)" "(K(m := None)) (chunk2mem r) = Some u" "u i' = Some v"
    have "in_use C' r = Some (z, Used)" using r(1) by (simp add: in_use_some)
    then have rp: "r \<noteq> p" "in_use C r = Some (z, Used)" using t(3) by (auto split: if_splits)
    then have c: "C r = Some (z, Used)" by (simp add: in_use_some)
    have k: "K (chunk2mem r) = Some u" using r(2) rp(1) p(1) by simp
    note d = representsD [OF i(2) c k r(3)]
    show "8 * i' + 16 \<le> unat z" by (rule d)
    show "mem t (chunk2mem r + of_nat (8 * i')) = v"
      using d(2) calm_others [OF dl_okD(1) [OF i(1)] t(4) c rp(1) chunk_word [OF i(1) c d(1)]] by simp
  qed
  then show ?thesis using t(1,2) p(1) unfolding client_inv_def by blast
qed

lemma usable_size:
  assumes ok: "dl_ok s lo ts C B F A R" and p: "C p = Some (sz, Used)"
  shows "unat (chunk2mem p) = unat p + 16" "unat (mUSABLe (chunk2mem p) s) = unat sz - 8"
proof -
  note H = heap_invD(1) [OF dl_okD(1) [OF ok]]
  note A = core_arena [OF H] and c = chunk_bounds [OF core_arena [OF H] p]
  have pi: "p \<in> insert (top_chunk s) (dom C)" using p by auto
  note n = node_bounds [OF A pi]
  show m: "unat (chunk2mem p) = unat p + 16" using n(6) by (simp add: chunk2mem_def dl_consts)
  have nz: "chunk2mem p \<noteq> 0" using m by (auto simp flip: word_unat_eq_iff)
  have m2c: "mem2chunk (chunk2mem p) = p" by (simp add: mem2chunk_def chunk2mem_def)
  have "mUSABLe (chunk2mem p) s = sz - 8"
    using nz read_tag(1,4) [OF H p] inuse_read [OF H p] by (simp add: mUSABLe_def m2c Let_def dl_consts)
  then show "unat (mUSABLe (chunk2mem p) s) = unat sz - 8" using c(3) by (simp add: unat_sub_le)
qed

lemma store_in_block:
  assumes "client_inv lo R K s" "K m = Some w" "8 * i + 8 \<le> unat (mUSABLe m s)"
  shows "client_inv lo R (K(m \<mapsto> w(i \<mapsto> v))) (wr (m + of_nat (8 * i)) v s)"
proof -
  obtain ts C B F A where i: "dl_ok s lo ts C B F A R" "represents s C K" using assms(1) unfolding client_inv_def by blast
  obtain p sz where p: "m = chunk2mem p" "C p = Some (sz, Used)" by (rule represents_block [OF i(2) assms(2)]) (rule that)
  note I = dl_okD(1) [OF i(1)]
  note A = core_arena [OF heap_invD(1) [OF I]] and c = chunk_bounds [OF core_arena [OF heap_invD(1) [OF I]] p(2)]
  let ?a = "chunk2mem p + of_nat (8 * i)" and ?t = "wr (m + of_nat (8 * i)) v s"
  have le: "8 * i + 16 \<le> unat sz"
    using assms(3) usable_size(2) [OF i(1) p(2)] c(3) p(1) by simp
  note a = chunk_word [OF i(1) p(2) le]
  have bd: "unat p + unat sz + 16 < 2 ^ 64" using c(2) arena_bounds(1) [OF A] by simp
  have out: "mem ?t x = mem s x" if "x \<notin> data_words p sz" for x using that a p(1) by (auto simp: wr_def)
  have inv: "heap_inv ?t lo ts C B F" by (rule user_write_inv [OF I p(2) _ out]) (simp add: same_av_def wr_def)
  have cl: "calm s lo (heap_end s ts) ((in_use C)(p := None)) ?t"
    by (rule own_calm [OF I p(2)]) (use out data_own in blast, simp add: wr_def)
  have ok: "dl_ok ?t lo ts C B F A R" by (rule calm_dl_ok(1) [OF i(1) cl inv]) (simp add: heap_end_def wr_def)
  have iu: "in_use C = ((in_use C)(p := None))(p \<mapsto> (sz, Used))" by (rule map_eqI) (use p(2) in \<open>auto simp: in_use_some\<close>)
  have "client_inv lo R ((K(chunk2mem p := None))(chunk2mem p \<mapsto> w(i \<mapsto> v))) ?t"
  proof (rule client_change [OF i ok iu])
    show "mem ?t x = mem s x" if "in_use C r = Some (z, Used)" "r \<noteq> p" "x \<in> data_words r z" for r z x
      using calm_others [OF I cl _ that(2,3)] that(1) by (simp add: in_use_some)
    show "8 * j + 16 \<le> unat sz \<and> mem ?t (chunk2mem p + of_nat (8 * j)) = u" if "(w(i \<mapsto> v)) j = Some u" for j u
    proof (cases "j = i")
      case True
      then show ?thesis using that le p(1) by (simp add: wr_def)
    next
      case False
      then have "w j = Some u" using that by simp
      note d = representsD [OF i(2) p(2) assms(2) [unfolded p(1)] this]
      have "unat (chunk2mem p + of_nat (8 * j)) \<noteq> unat ?a"
        unfolding data_word_at(1) [OF bd d(1)] data_word_at(1) [OF bd le] using False by simp
      then show ?thesis using d p(1) by (auto simp: wr_def)
    qed
  qed simp
  then show ?thesis using p(1) by simp
qed

section \<open>Every program\<close>

lemma client_invariant: "client lo R K s \<Longrightarrow> client_inv lo R K s"
proof (induction rule: client.induct)
  case (first s A bytes m t)
  note k = malloc_first [OF first(1,3,4), unfolded first(2)]
  then obtain ts C B F A' z where t: "m = chunk2mem lo" "dl_ok t lo ts C B F A' R" "in_use C = [lo \<mapsto> (z, Used)]"
    using first(5) by auto
  have "represents t C [m \<mapsto> \<lambda>_. None]" unfolding represents_def t(1,3) by (auto split: if_splits)
  then show ?case unfolding client_inv_def using t(2) by blast
next
  case (malloc K s bytes m t)
  then show ?case using call_malloc [of lo R K s bytes] by (auto simp del: fun_upd_apply)
next
  case (calloc K s n e m t)
  then show ?case using call_calloc [of lo R K s n e] by (auto simp del: fun_upd_apply)
next
  case (memalign K s al k bytes m t)
  then show ?case using call_memalign [of lo R K s al k bytes] by (auto simp del: fun_upd_apply)
next
  case (realloc K s m w bytes m' t)
  then show ?case using call_realloc [of lo R K s m w bytes] by (auto simp del: fun_upd_apply)
next
  case (free K s m w t)
  then show ?case using call_free [of lo R K s m w] by (auto simp del: fun_upd_apply)
next
  case (fill K s m w i v)
  then show ?case using store_in_block by blast
qed

text \<open>A program on \<open>demo_start\<close>: its first block, a store into it, and a second block.\<close>

abbreviation demo_lo :: u64 where "demo_lo \<equiv> 0xFFFF880000000000"

lemma demo_client:
  obtains t :: malloc_state where "client demo_lo {0x9000..<0x24000} [chunk2mem demo_lo \<mapsto> \<lambda>_. None] t"
    "small_request t 100" "heap_low demo_lo t 112" "8 \<le> unat (mUSABLe (chunk2mem demo_lo) t)"
proof -
  have r: "request2size 100 = 112" by (simp add: request2size_def dl_consts)
  have sup: "supply_for demo_start (request2size 100) 0"
    using demo_start_ok(2-5) by (simp add: supply_for_def r)
  obtain t ts C B F A z where t: "mALLOc 100 demo_start = Some (chunk2mem demo_lo, t)"
    "dl_ok t demo_lo ts C B F A {0x9000..<0x24000}" "in_use C = [demo_lo \<mapsto> (z, Used)]"
    "112 \<le> unat z" "trim_threshold t = 0x40000" "mmap_threshold t = 0x40000" "top_chunk t = demo_lo + 112"
    "unat (cur_top t) < unat demo_lo + 112 + 4128"
    using malloc_first [OF demo_start_ok(1), of 100] sup unfolding demo_start_ok(3) r by auto
  note ok = t(2)
  have "in_use C demo_lo = Some (z, Used)" using t(3) by simp
  then have c: "C demo_lo = Some (z, Used)" by (simp add: in_use_some)
  note A = core_arena [OF heap_invD(1) [OF dl_okD(1) [OF ok]]]
  have e: "unat (cur_top t) = unat demo_lo + 112 + unat ts"
    using dl_okD(10) [OF ok] by (simp add: heap_end_def t(7))
  have "4096 dvd unat (cur_top t)" using dl_okD(2) [OF ok] by (simp add: heap_ok_def)
  then have "144 \<le> unat ts" using e by (elim dvdE) (simp, presburger)
  then have a: "small_request t 100"
    using top_size [OF ok] t(6) by (simp add: small_request_def r supply_for_def)
  have b: "heap_low demo_lo t 112" using t(5,8) by (simp add: heap_low_def)
  have d: "8 \<le> unat (mUSABLe (chunk2mem demo_lo) t)" using usable_size(2) [OF ok c] t(4) by simp
  have "client demo_lo {0x9000..<0x24000} [chunk2mem demo_lo \<mapsto> \<lambda>_. None] t"
    by (rule client.first [OF demo_start_ok(1) demo_start_ok(3) _ sup t(1)]) simp
  then show ?thesis by (rule that [OF _ a b d])
qed

text \<open>
  C2: in every state that a program reaches by calls of the allocator and stores into its blocks, the
  allocator implements the abstract heap: every word that the program knows (since it stored it, or
  \<open>cALLOc\<close> cleared it, in the block itself or in the one \<open>rEALLOc\<close> replaced) is what memory holds,
  whatever was allocated, moved or freed since.
\<close>

theorem client_reads:
  assumes "client lo R K s" "K m = Some w" "w i = Some v"
  shows "mem s (m + of_nat (8 * i)) = v"
proof -
  obtain ts C B F A where i: "dl_ok s lo ts C B F A R" "represents s C K"
    using client_invariant [OF assms(1)] unfolding client_inv_def by blast
  obtain p sz where p: "m = chunk2mem p" "C p = Some (sz, Used)" by (rule represents_block [OF i(2) assms(2)]) (rule that)
  show ?thesis using representsD(2) [OF i(2) p(2) assms(2) [unfolded p(1)] assms(3)] p(1) by simp
qed

theorem client_reads_witness:
  "\<exists>K (s :: malloc_state). client demo_lo {0x9000..<0x24000} K s \<and> K (chunk2mem demo_lo) = Some [0 \<mapsto> 42] \<and>
     mem s (chunk2mem demo_lo + of_nat (8 * 0)) = 42"
proof -
  let ?m = "chunk2mem demo_lo"
  obtain t :: malloc_state where t: "client demo_lo {0x9000..<0x24000} [chunk2mem demo_lo \<mapsto> \<lambda>_. None] t"
    "small_request t 100" "heap_low demo_lo t 112" "8 \<le> unat (mUSABLe (chunk2mem demo_lo) t)"
    by (rule demo_client) (rule that)
  have k: "([?m \<mapsto> \<lambda>_. None] :: blocks) ?m = Some (\<lambda>_. None)" by simp
  have b: "8 * 0 + 8 \<le> unat (mUSABLe ?m t)" using t(4) by simp
  let ?K = "[?m \<mapsto> [0 \<mapsto> 42]] :: blocks" and ?u = "wr (?m + of_nat (8 * 0)) 42 t"
  have f: "client demo_lo {0x9000..<0x24000} ?K ?u" using client.fill [OF t(1) k b, where v = 42] by (simp only: fun_upd_upd)
  have "?K ?m = Some [0 \<mapsto> 42]" by simp
  then show ?thesis using client_reads [OF f, of ?m "[0 \<mapsto> 42]" 0 42] f by (intro exI [of _ ?K] exI [of _ ?u]) simp
qed

text \<open>
  C7: in every such state the blocks are aligned to 16 bytes, lie inside the heap, and as far as
  \<open>mUSABLe\<close> says they may be used no two of them overlap.
\<close>

theorem client_blocks_apart:
  assumes "client lo R K s" "K m = Some w" "K m' = Some w'" "m \<noteq> m'"
  shows "16 dvd unat m \<and> unat lo \<le> unat m \<and> unat m + unat (mUSABLe m s) \<le> unat (cur_top s) \<and>
    (unat m + unat (mUSABLe m s) \<le> unat m' \<or> unat m' + unat (mUSABLe m' s) \<le> unat m)"
proof (intro conjI)
  obtain ts C B F A where i: "dl_ok s lo ts C B F A R" "represents s C K"
    using client_invariant [OF assms(1)] unfolding client_inv_def by blast
  note A = core_arena [OF heap_invD(1) [OF dl_okD(1) [OF i(1)]]]
  obtain p sz where p: "m = chunk2mem p" "C p = Some (sz, Used)" by (rule represents_block [OF i(2) assms(2)]) (rule that)
  obtain q z where q: "m' = chunk2mem q" "C q = Some (z, Used)" by (rule represents_block [OF i(2) assms(3)]) (rule that)
  note c = chunk_bounds [OF A p(2)] and d = chunk_bounds [OF A q(2)]
  note u = usable_size [OF i(1) p(2)] and v = usable_size [OF i(1) q(2)]
  have pi: "p \<in> insert (top_chunk s) (dom C)" using p by auto
  note n = node_bounds [OF A pi]
  have pq: "p \<noteq> q" using assms(4) p(1) q(1) by auto
  show "16 dvd unat m" using n(3) by (simp add: p(1) u(1))
  show "unat lo \<le> unat m" using n(1) by (simp add: p(1) u(1))
  show "unat m + unat (mUSABLe m s) \<le> unat (cur_top s)"
    using c(2,3) arena_bounds(2) [OF A] dl_okD(10) [OF i(1)] by (simp add: p(1) u heap_end_def)
  show "unat m + unat (mUSABLe m s) \<le> unat m' \<or> unat m' + unat (mUSABLe m' s) \<le> unat m"
    using layout_disjoint [OF arena_layout [OF A] p(2) q(2) pq] c(3) d(3) by (auto simp: p(1) q(1) u v)
qed

theorem client_blocks_apart_witness:
  "\<exists>K (s :: malloc_state) m. client demo_lo {0x9000..<0x24000} K s \<and> m \<noteq> chunk2mem demo_lo \<and>
     (unat m + unat (mUSABLe m s) \<le> unat (chunk2mem demo_lo) \<or>
      unat (chunk2mem demo_lo) + unat (mUSABLe (chunk2mem demo_lo) s) \<le> unat m)"
proof -
  let ?b = "chunk2mem demo_lo" and ?K = "[chunk2mem demo_lo \<mapsto> \<lambda>_. None] :: blocks"
  obtain t :: malloc_state where t: "client demo_lo {0x9000..<0x24000} [chunk2mem demo_lo \<mapsto> \<lambda>_. None] t"
    "small_request t 100" "heap_low demo_lo t 112" "8 \<le> unat (mUSABLe (chunk2mem demo_lo) t)"
    by (rule demo_client) (rule that)
  obtain m u where m: "mALLOc 100 t = Some (m, u)" "m \<notin> dom ?K"
    using call_malloc [OF client_invariant [OF t(1)] t(2)] by blast
  note c = client.malloc [OF t(1,2) m(1)]
  have k: "(?K(m \<mapsto> \<lambda>_. None)) m = Some (\<lambda>_. None)" "(?K(m \<mapsto> \<lambda>_. None)) ?b = Some (\<lambda>_. None)" "m \<noteq> ?b"
    using m(2) by auto
  show ?thesis using client_blocks_apart [OF c k] c k(3) by blast
qed



end
