(* ===== verification/Dl_Check.thy ===== *)
theory Dl_Check
  imports Dl_Api
begin

text \<open>
  \<open>lib/dlmalloc/malloc.c\<close>, part 5: the debugging routines \<open>do_check_*\<close>, the allocator's own
  statement of what a consistent heap is. They are compiled only with \<open>DL_DEBUG\<close>; here a check is
  true when none of its assertions fires. The development uses them as the specification that
  its heap invariant implies.
\<close>

unbundle bit_operations_syntax

section \<open>Definitions\<close>

definition do_check_chunk :: "u64 \<Rightarrow> 'a malloc_state_scheme \<Rightarrow> bool" where
  "do_check_chunk p s =
     (let sz = chunksize s p;
          max_address = top_chunk s + chunksize s (top_chunk s);
          min_address = max_address - sbrked_mem s
      in
        if \<not> chunk_is_mmapped s p then
          if p \<noteq> top_chunk s then
            (contiguous s \<longrightarrow> p \<ge> min_address \<and> p + sz \<le> top_chunk s)
          else sz \<ge> MINSIZE \<and> prev_inuse s p
        else
          (contiguous s \<and> top_chunk s \<noteq> initial_top s \<longrightarrow> p < min_address \<or> p > max_address)
          \<and> (ck_prev_size s p + sz) AND ucast (pagesize s - 1) = 0
          \<and> aligned_OK (chunk2mem p))"

definition do_check_free_chunk :: "u64 \<Rightarrow> 'a malloc_state_scheme \<Rightarrow> bool" where
  "do_check_free_chunk p s =
     (let sz = ck_size s p AND NOT PREV_INUSE;
          nextp = chunk_at_offset p sz
      in do_check_chunk p s \<and> \<not> inuse s p \<and> \<not> chunk_is_mmapped s p \<and>
         (if sz \<ge> MINSIZE then
            sz AND MALLOC_ALIGN_MASK = 0 \<and> aligned_OK (chunk2mem p) \<and>
            ck_prev_size s nextp = sz \<and> prev_inuse s p \<and>
            (nextp = top_chunk s \<or> inuse s nextp) \<and>
            ck_bk s (ck_fd s p) = p \<and> ck_fd s (ck_bk s p) = p
          else sz = SIZE_SZ))"

definition do_check_inuse_chunk :: "u64 \<Rightarrow> 'a malloc_state_scheme \<Rightarrow> bool" where
  "do_check_inuse_chunk p s =
     (do_check_chunk p s \<and>
      (if chunk_is_mmapped s p then True
       else
         inuse s p \<and>
         (let nextp = next_chunk s p in
          (if \<not> prev_inuse s p then
             let prv = prev_chunk s p in next_chunk s prv = p \<and> do_check_free_chunk prv s
           else True) \<and>
          (if nextp = top_chunk s then prev_inuse s nextp \<and> chunksize s nextp \<ge> MINSIZE
           else if \<not> inuse s nextp then do_check_free_chunk nextp s
           else True))))"

definition do_check_remalloced_chunk :: "u64 \<Rightarrow> u64 \<Rightarrow> 'a malloc_state_scheme \<Rightarrow> bool" where
  "do_check_remalloced_chunk p nb s =
     (let sz = ck_size s p AND NOT PREV_INUSE in
      do_check_inuse_chunk p s \<and> sz AND MALLOC_ALIGN_MASK = 0 \<and> sz \<ge> MINSIZE \<and>
      aligned_OK (chunk2mem p) \<and> 0 \<le>s sz - nb \<and> sz - (nb + MINSIZE) <s 0)"

definition do_check_malloced_chunk :: "u64 \<Rightarrow> u64 \<Rightarrow> 'a malloc_state_scheme \<Rightarrow> bool" where
  "do_check_malloced_chunk p nb s = (do_check_remalloced_chunk p nb s \<and> prev_inuse s p)"

text \<open>
  \<open>do_check_malloc_state\<close>: the loops over the fast bins and the bins give the total size of what
  they have seen, or \<open>Some None\<close> when an assertion fires.
\<close>

partial_function (option) check_fast_list ::
  "u32 \<Rightarrow> u64 \<Rightarrow> u64 \<Rightarrow> 'a malloc_state_scheme \<Rightarrow> u64 option option" where
  "check_fast_list i p acc s =
     (if p \<noteq> 0 then
        if do_check_inuse_chunk p s \<and> fastbin_index (chunksize s p) = i then
          check_fast_list i (ck_fd s p) (acc + chunksize s p) s
        else Some None
      else Some (Some acc))"

fun check_fasts :: "u32 \<Rightarrow> nat \<Rightarrow> u32 \<Rightarrow> u64 \<Rightarrow> 'a malloc_state_scheme \<Rightarrow> u64 option option" where
  "check_fasts i 0 max_fast_bin acc s = Some (Some acc)"
| "check_fasts i (Suc k) max_fast_bin acc s =
     do { p \<leftarrow> read_fastbin s i;
          if max_fast_bin <s i \<and> p \<noteq> 0 then Some None
          else
            do { r \<leftarrow> check_fast_list i p acc s;
                 case r of None \<Rightarrow> Some None
                 | Some acc \<Rightarrow> check_fasts (i + 1) k max_fast_bin acc s } }"

text \<open>The chain of chunks in use behind a free chunk.\<close>

partial_function (option) check_chain :: "u64 \<Rightarrow> 'a malloc_state_scheme \<Rightarrow> bool option" where
  "check_chain q s =
     (if q \<noteq> top_chunk s \<and> inuse s q \<and> chunksize s q \<ge> MINSIZE then
        if do_check_inuse_chunk q s then check_chain (next_chunk s q) s else Some False
      else Some True)"

partial_function (option) check_bin_list ::
  "u32 \<Rightarrow> u64 \<Rightarrow> u64 \<Rightarrow> u64 \<Rightarrow> 'a malloc_state_scheme \<Rightarrow> u64 option option" where
  "check_bin_list i b p acc s =
     (if p \<noteq> b then
        let sz = chunksize s p in
        if do_check_free_chunk p s \<and>
           (i \<ge> 2 \<longrightarrow> bin_index sz = i \<and>
              (sz \<ge> FIRST_SORTED_BIN_SIZE \<longrightarrow> ck_bk s p = b \<or> chunksize s (ck_bk s p) \<ge> sz))
        then
          do { ok \<leftarrow> check_chain (next_chunk s p) s;
               if ok then check_bin_list i b (ck_bk s p) (acc + sz) s else Some None }
        else Some None
      else Some (Some acc))"

definition check_binmap :: "u32 \<Rightarrow> u64 \<Rightarrow> 'a malloc_state_scheme \<Rightarrow> bool option" where
  "check_binmap i b s =
     (if i \<ge> 2 then
        do { binbit \<leftarrow> get_binmap s i; Some (binbit = 0 \<longrightarrow> ck_bk s b = b) }
      else Some True)"

fun check_bins :: "u32 \<Rightarrow> nat \<Rightarrow> u64 \<Rightarrow> 'a malloc_state_scheme \<Rightarrow> u64 option option" where
  "check_bins i 0 acc s = Some (Some acc)"
| "check_bins i (Suc k) acc s =
     (let b = bin_at s i in
      do { ok \<leftarrow> check_binmap i b s;
           if ok then
             do { r \<leftarrow> check_bin_list i b (ck_bk s b) acc s;
                  case r of None \<Rightarrow> Some None | Some acc \<Rightarrow> check_bins (i + 1) k acc s }
           else Some None })"

definition check_stats :: "u64 \<Rightarrow> 'a malloc_state_scheme \<Rightarrow> bool" where
  "check_stats acc s =
     (acc \<le> max_total_mem s \<and> 0 \<le>s n_mmaps s \<and> n_mmaps s \<le>s max_n_mmaps s \<and>
      sbrked_mem s \<le> max_sbrked_mem s \<and> mmapped_mem s \<le> max_mmapped_mem s \<and>
      max_total_mem s \<ge> mmapped_mem s + sbrked_mem s)"

definition do_check_malloc_state :: "'a malloc_state_scheme \<Rightarrow> bool option" where
  "do_check_malloc_state s =
     (if MALLOC_ALIGNMENT AND (MALLOC_ALIGNMENT - 1) \<noteq> 0 then Some False
      else if top_chunk s = 0 \<or> top_chunk s = initial_top s then Some True
      else if pagesize s AND (pagesize s - 1) \<noteq> 0 then Some False
      else if \<not> get_max_fast s \<le> request2size MAX_FAST_SIZE then Some False
      else
        do { r \<leftarrow> check_fasts 0 (unat NFASTBINS) (fastbin_index (max_fast s)) 0 s;
             case r of None \<Rightarrow> Some False
             | Some acc \<Rightarrow>
                 if acc \<noteq> 0 \<and> \<not> have_fastchunks s then Some False
                 else
                   do { r \<leftarrow> check_bins 1 (unat NBINS - 1) acc s;
                        case r of None \<Rightarrow> Some False
                        | Some acc \<Rightarrow> Some (do_check_chunk (top_chunk s) s \<and> check_stats acc s) } })"

end
