(* ===== verification/Dl_Free_Props.thy ===== *)
theory Dl_Free_Props
  imports Dl_Demo
begin

text \<open>
  The properties of \<open>fREe\<close> and \<open>malloc_consolidate\<close>, applied to the small heap of \<open>Dl_Demo\<close>.
\<close>

unbundle bit_operations_syntax

section \<open>Trimming calls an sbrk that cannot shrink\<close>

lemma trims_halts:
  assumes init: "is_initialized t" "heap_top t = Some (top_chunk t + ts)"
    and ts: "chunksize t (top_chunk t) = ts" "0x2000 \<le> unat ts" "unat ts < 2 ^ 32"
    and par: "top_pad t = 0" "pagesize t = 0x1000"
  shows "trims t = None"
proof -
  let ?n = "(unat ts + 4063) div 4096 - 1"
  define extra where "extra = ((ts - 0 - MINSIZE + (ucast (0x1000::u32) - 1)) div ucast (0x1000::u32) - 1) * ucast (0x1000::u32)"
  have a: "unat (ts + 4063) = unat ts + 4063" using ts(3) by (subst unat_add_nowrap) simp_all
  have b: "unat ((ts + 4063) div 4096 - 1) = ?n"
  proof -
    have "unat ((ts + 4063) div 4096) = (unat ts + 4063) div 4096" by (simp add: unat_div a)
    then show ?thesis using ts(2) by (subst unat_sub_le) simp_all
  qed
  have "(unat ts + 4063) div 4096 < 2 ^ 21"
    using ts(3) by (subst div_less_iff_less_mult) simp_all
  then have n: "1 \<le> ?n" "?n < 2 ^ 21" using ts(2) by linarith+
  have x: "ts - 0 - MINSIZE + (ucast (0x1000::u32) - 1) = ts + 4063" by (simp add: MINSIZE_def dl_consts)
  define q where "q = (ts + 4063) div 4096 - 1"
  have "extra = q * 4096" unfolding extra_def x q_def by simp
  moreover have "unat q = ?n" unfolding q_def by (rule b)
  ultimately have e: "unat extra = ?n * 4096" using n by (simp add: unat_word_ariths)
  have m: "extra \<le> mask 63" using n by (simp add: word_le_nat_alt e mask_eq_exp_minus_1)
  have pos: "0 <s extra" "- extra <s 0"
  proof -
    have h: "0 < unat extra" "unat extra < 2 ^ 63" using n e by auto
    have "0 < int (unat extra)" "int (unat extra) < int (2 ^ 63)"
      using h by (simp_all only: of_nat_less_iff of_nat_0_less_iff)
    then have u: "0 < uint extra" "uint extra < 2 ^ 63" by simp_all
    have "signed_take_bit 63 (uint extra) = uint extra"
      by (rule signed_take_bit_int_eq_self [OF order_trans [OF _ uint_ge_0] u(2)]) simp
    then have x: "sint extra = uint extra" by (simp add: sint_uint)
    then show "0 <s extra" using u by (simp add: word_sless_alt)
    have "sint (- extra) = - uint extra"
      using u unfolding sint_word_ariths x by (simp add: signed_take_bit_int_eq_self)
    then show "- extra <s 0" using u by (simp add: word_sless_alt)
  qed
  have ex: "((ts - top_pad t - MINSIZE + (ucast (pagesize t) - 1)) div ucast (pagesize t) - 1) * ucast (pagesize t) = extra"
    unfolding par extra_def ..
  have "MORECORE 0 t = Some (top_chunk t + ts, t)" using init by (simp add: MORECORE_def sbrk_def)
  moreover have "MORECORE (- extra) t = None"
    unfolding MORECORE_def using init pos by (intro sbrk_halts)
  ultimately show ?thesis
    unfolding trims_def sYSTRIm_def Let_def ts(1) ex using pos by simp
qed

section \<open>Properties\<close>

text \<open>
  C3: freeing a chunk in use keeps the heap invariant, takes exactly this chunk out of use and
  writes no word lent to another owner. \<open>fREe\<close> returns that state, unless the top chunk has
  reached the trim threshold: then it goes on with \<open>sYSTRIm\<close>.
\<close>

theorem free_ok:
  assumes "heap_inv s lo ts C B F" "C p = Some (sz, Used)"
  shows "\<exists>t ts' C' B' F'. freed s lo ts C p t ts' C' B' F' \<and>
    (fREe (chunk2mem p) s = Some t \<or> trim_threshold s \<le> ts' \<and> fREe (chunk2mem p) s = trims t)"
  by (rule free_run [OF assms]) blast

theorem free_ok_witness:
  "\<exists>t ts' C' B' F'. fREe 0xFFFF880000000010 demo_dl = Some t \<and> heap_inv t 0xFFFF880000000000 ts' C' B' F' \<and>
     in_use C' = [0xFFFF880000000200 \<mapsto> (0x40, Used)]"
proof -
  have p: "demo_chunks 0xFFFF880000000000 = Some (0x200, Used)" by (simp add: demo_chunks_def)
  obtain t ts' C' B' F' where t: "freed demo_dl 0xFFFF880000000000 0x3DC0 demo_chunks 0xFFFF880000000000 t ts' C' B' F'"
    "fREe (chunk2mem 0xFFFF880000000000) demo_dl = Some t \<or>
     trim_threshold demo_dl \<le> ts' \<and> fREe (chunk2mem 0xFFFF880000000000) demo_dl = trims t"
    using free_ok [OF demo_inv p] by blast
  have i: "heap_inv t 0xFFFF880000000000 ts' C' B' F'" "heap_end t ts' = heap_end demo_dl 0x3DC0"
    "in_use C' = (in_use demo_chunks)(0xFFFF880000000000 := None)"
    using t(1) by (simp_all add: freed_def)
  have "in_use C' = [0xFFFF880000000200 \<mapsto> (0x40, Used)]"
    unfolding i(3) by (rule map_eqI) (auto simp: in_use_some demo_chunks_def split: if_splits)
  moreover have "\<not> trim_threshold demo_dl \<le> ts'"
  proof -
    have "unat (top_chunk t) + unat ts' = 0xFFFF880000004000"
      using i(2) by (simp add: heap_end_def demo_fields)
    moreover have "0xFFFF880000000000 \<le> unat (top_chunk t)"
      using arena_bounds(7) [OF core_arena [OF heap_invD(1) [OF i(1)]]] by simp
    ultimately show ?thesis by (simp add: demo_fields word_le_nat_alt)
  qed
  ultimately show ?thesis using t(2) i(1) by (auto simp: chunk2mem_def dl_consts)
qed

text \<open>
  C37: on a heap made by \<open>sbrk\<close> whose top chunk is large enough to give back a page, trimming
  does not return: it asks \<open>sbrk\<close> to shrink the heap, which halts the kernel.
\<close>

theorem trim_halts:
  assumes "heap_inv t lo ts C B F" "is_initialized t" "heap_top t = Some (top_chunk t + ts)"
    and "0x2000 \<le> ts" "top_pad t = 0" "pagesize t = malloc_getpagesize"
  shows "sYSTRIm (top_pad t) t = None"
proof -
  note H = heap_invD(1) [OF assms(1)]
  have "unat ts < 2 ^ 32"
    using core_arena [OF H] arena_bounds(7) [OF core_arena [OF H]] by (simp add: arena_def)
  then have "trims t = None"
    using trims_halts [of t ts] assms(2-6) read_top [OF H]
    by (simp add: malloc_getpagesize_def word_le_nat_alt)
  then show ?thesis by (simp add: trims_def bind_eq_None_conv split: prod.splits)
qed

theorem trim_halts_witness: "sYSTRIm 0 demo_dl = None"
proof -
  have "is_initialized demo_dl" "heap_top demo_dl = Some (top_chunk demo_dl + 0x3DC0)" "pagesize demo_dl = malloc_getpagesize"
    "top_pad demo_dl = 0"
    by (simp_all add: demo_dl_def demo_kernel_def kernel.defs pma.defs malloc_getpagesize_def)
  then show ?thesis using trim_halts [OF demo_inv] by simp
qed

end
