(* ===== verification/KString.thy ===== *)
theory KString
  imports Lib_Memory
begin

text \<open>
  \<open>lib/string.hpp\<close>: the kernel's string, a block of bytes from \<open>operator new\<close> with a terminating
  zero and a length; the empty string has no block. As in \<open>Vector\<close>, the answers of
  \<open>operator new\<close> are an input; \<open>blocks\<close> says which of them are live.
\<close>

section \<open>Definitions\<close>

text \<open>\<open>empty_literal\<close> is the address of the constant \<open>""\<close>.\<close>

record byte_heap =
  bytes :: bmem
  blocks :: "u64 \<Rightarrow> u64 option"
  block_answers :: "u64 list"
  empty_literal :: u64

record kstring =
  sdata :: u64
  ssize :: u64

definition new_bytes :: "u64 \<Rightarrow> byte_heap \<Rightarrow> (u64 \<times> byte_heap) option" where
  "new_bytes n st =
     (case block_answers st of
        [] \<Rightarrow> None
      | a # as \<Rightarrow> Some (a, st\<lparr>block_answers := as, blocks := (blocks st)(a \<mapsto> n)\<rparr>))"

definition delete_bytes :: "u64 \<Rightarrow> byte_heap \<Rightarrow> byte_heap option" where
  "delete_bytes p st =
     (if p = 0 then Some st
      else case blocks st p of None \<Rightarrow> None | Some _ \<Rightarrow> Some (st\<lparr>blocks := (blocks st)(p := None)\<rparr>))"

definition empty_string :: kstring where
  "empty_string = \<lparr>sdata = 0, ssize = 0\<rparr>"

text \<open>Storing through the null pointer is undefined.\<close>

definition string_assign :: "u64 \<Rightarrow> u64 \<Rightarrow> kstring \<Rightarrow> byte_heap \<Rightarrow> (kstring \<times> byte_heap) option" where
  "string_assign s n str st =
     (if n = 0 then Some (str, st)
      else do { (a, st) \<leftarrow> new_bytes (n + 1) st;
                if a = 0 then None
                else let m = snd (memcpy a s n (bytes st));
                         m = m(a + n := 0)
                     in Some (str\<lparr>sdata := a, ssize := n\<rparr>, st\<lparr>bytes := m\<rparr>) })"

definition string_of_cstr :: "u64 \<Rightarrow> byte_heap \<Rightarrow> (kstring \<times> byte_heap) option" where
  "string_of_cstr s st =
     (if s \<noteq> 0 then do { n \<leftarrow> strlen s (bytes st); string_assign s n empty_string st }
      else Some (empty_string, st))"

definition string_copy :: "kstring \<Rightarrow> byte_heap \<Rightarrow> (kstring \<times> byte_heap) option" where
  "string_copy other st = string_assign (sdata other) (ssize other) empty_string st"

definition string_move :: "kstring \<Rightarrow> kstring \<times> kstring" where
  "string_move other = (\<lparr>sdata = sdata other, ssize = ssize other\<rparr>, other\<lparr>sdata := 0, ssize := 0\<rparr>)"

definition string_destroy :: "kstring \<Rightarrow> byte_heap \<Rightarrow> byte_heap option" where
  "string_destroy str st = delete_bytes (sdata str) st"

text \<open>Assignment swaps with its argument, which is then destroyed.\<close>

definition string_set :: "kstring \<Rightarrow> kstring \<Rightarrow> byte_heap \<Rightarrow> (kstring \<times> byte_heap) option" where
  "string_set str other st =
     (let old = \<lparr>sdata = sdata str, ssize = ssize str\<rparr>;
          str = str\<lparr>sdata := sdata other, ssize := ssize other\<rparr>
      in do { st \<leftarrow> string_destroy old st; Some (str, st) })"

definition c_str :: "kstring \<Rightarrow> byte_heap \<Rightarrow> u64" where
  "c_str str st = (if sdata str \<noteq> 0 then sdata str else empty_literal st)"

definition string_empty :: "kstring \<Rightarrow> bool" where
  "string_empty str = (ssize str = 0)"

definition string_eq :: "kstring \<Rightarrow> kstring \<Rightarrow> byte_heap \<Rightarrow> bool" where
  "string_eq a b st =
     (ssize a = ssize b \<and> memcmp (c_str a st) (c_str b st) (ssize a) (bytes st) = 0)"

definition string_neq :: "kstring \<Rightarrow> kstring \<Rightarrow> byte_heap \<Rightarrow> bool" where
  "string_neq a b st = (\<not> string_eq a b st)"

section \<open>Strings as lists of bytes\<close>

text \<open>The string holds the bytes \<open>xs\<close>, none of them zero, followed by a zero.\<close>

definition spells :: "byte_heap \<Rightarrow> kstring \<Rightarrow> u8 list \<Rightarrow> bool" where
  "spells st str xs \<longleftrightarrow> cstr (bytes st) (c_str str st) xs \<and> unat (ssize str) = length xs \<and>
     (sdata str = 0 \<longleftrightarrow> xs = [])"

text \<open>The bytes of the \<open>n\<close> characters at \<open>a\<close> and of the terminating zero.\<close>

definition str_span :: "u64 \<Rightarrow> nat \<Rightarrow> nat set" where
  "str_span a n = {unat a ..< unat a + n + 1}"

lemma cstr_cong:
  "(\<And>i. i \<le> length xs \<Longrightarrow> m' (q + of_nat i) = m (p + of_nat i)) \<Longrightarrow> cstr m p xs \<Longrightarrow> cstr m' q xs"
proof (induction xs arbitrary: p q)
  case Nil
  then show ?case using Nil(1) [of 0] by simp
next
  case (Cons x xs)
  have "m' (q + 1 + of_nat i) = m (p + 1 + of_nat i)" if "i \<le> length xs" for i
    using Cons.prems(1) [of "Suc i"] that by (simp add: algebra_simps)
  then have "cstr m' (q + 1) xs" using Cons.IH [of "q + 1" "p + 1"] Cons.prems(2) by simp
  then show ?case using Cons.prems(1) [of 0] Cons.prems(2) by simp
qed

lemma string_assign_ok:
  assumes src: "cstr (bytes st) s xs" "xs \<noteq> []" "unat n = length xs"
    and new: "block_answers st = a # as" "a \<noteq> 0" "unat a + length xs < 2 ^ 64" "unat s + length xs < 2 ^ 64"
      "str_span a (length xs) \<inter> str_span s (length xs) = {}"
  obtains m where "string_assign s n empty_string st =
      Some (\<lparr>sdata = a, ssize = n\<rparr>, st\<lparr>block_answers := as, blocks := (blocks st)(a \<mapsto> n + 1), bytes := m\<rparr>)"
    "cstr m a xs" "\<And>x. unat x \<notin> str_span a (length xs) \<Longrightarrow> m x = bytes st x"
proof -
  let ?b = "bytes st"
  let ?m = "(snd (memcpy a s n ?b))(a + n := 0)"
  have fit: "unat s + unat n \<le> 2 ^ 64" "unat a + unat n \<le> 2 ^ 64" using new src(3) by simp_all
  have dis: "span s n \<inter> span a n = {}" using new(5) src(3) by (auto simp: str_span_def span_def)
  have an: "unat (a + n) = unat a + length xs" using new(3) src(3) by (simp add: unat_add_nowrap)
  have m: "snd (memcpy a s n ?b) x = (if unat x \<in> span a n then ?b (s + (x - a)) else ?b x)" for x
    by (simp add: memcpy_eq [OF fit disjI2 [OF dis]] in_span_offset [OF fit(2)])
  have off: "unat (a + of_nat i) = unat a + i" if "i \<le> length xs" for i
    using that new(3) by (subst unat_add_nowrap) (auto simp: unat_of_nat)
  have "cstr ?m a xs"
  proof (rule cstr_cong [OF _ src(1)])
    fix i assume i: "i \<le> length xs"
    show "?m (a + of_nat i) = ?b (s + of_nat i)"
    proof (cases "i = length xs")
      case True
      then have "a + of_nat i = a + n" using off [OF i] an by (simp add: word_unat_eq_iff)
      then show ?thesis using cstr_end [OF src(1)] True by simp
    next
      case False
      then have "a + of_nat i \<noteq> a + n" using off [OF i] an by (auto dest: arg_cong [of _ _ unat])
      then show ?thesis using i False off [OF i] src(3) by (simp add: m span_def)
    qed
  qed
  moreover have "?m x = ?b x" if "unat x \<notin> str_span a (length xs)" for x
    using that an src(3) by (auto simp: m str_span_def span_def)
  moreover have "n \<noteq> 0" using src(2,3) by auto
  then have "string_assign s n empty_string st =
      Some (\<lparr>sdata = a, ssize = n\<rparr>, st\<lparr>block_answers := as, blocks := (blocks st)(a \<mapsto> n + 1), bytes := ?m\<rparr>)"
    using new(1,2) by (simp add: string_assign_def new_bytes_def empty_string_def Let_def)
  ultimately show ?thesis using that by blast
qed

lemma spells_byte: "spells st str xs \<Longrightarrow> k < ssize str \<Longrightarrow> bytes st (c_str str st + k) = xs ! unat k"
  using cstr_nth [of "bytes st" "c_str str st" xs "unat k"] by (simp add: spells_def word_less_nat_alt)

lemma string_eq_spells:
  assumes "spells st a xs" "spells st b ys" shows "string_eq a b st \<longleftrightarrow> xs = ys"
proof
  assume e: "string_eq a b st"
  have l: "length xs = length ys" "unat (ssize a) = length xs" "ssize a = ssize b"
    using e assms by (auto simp: string_eq_def spells_def)
  show "xs = ys"
  proof (rule nth_equalityI [OF l(1)])
    fix i assume i: "i < length xs"
    then have k: "of_nat i < ssize a" "unat (of_nat i :: u64) = i"
      using l(2) unsigned_less [where ?'a = nat, of "ssize a"] by (auto simp: word_less_nat_alt unat_of_nat)
    then show "xs ! i = ys ! i"
      using e spells_byte [OF assms(1) k(1)] spells_byte [OF assms(2)] l(3) by (auto simp: string_eq_def memcmp_zero)
  qed
next
  assume "xs = ys"
  then have "ssize a = ssize b" using assms by (simp add: spells_def word_unat_eq_iff)
  then show "string_eq a b st"
    using spells_byte [OF assms(1)] spells_byte [OF assms(2)] \<open>xs = ys\<close> by (simp add: string_eq_def memcmp_zero)
qed

text \<open>
  C29: a string made from a terminated character array, in a block of \<open>operator new\<close> that does
  not overlap it, gives the same characters back through \<open>c_str\<close>, leaves every byte outside
  its block as it was, and is equal (\<open>==\<close>) to another string exactly when that string has the same
  characters.
\<close>

theorem string_roundtrip:
  assumes "cstr (bytes st) s xs" "xs \<noteq> []" "s \<noteq> 0" "block_answers st = a # as" "a \<noteq> 0"
    "unat a + length xs < 2 ^ 64" "unat s + length xs < 2 ^ 64" "str_span a (length xs) \<inter> str_span s (length xs) = {}"
  shows "\<exists>str t. string_of_cstr s st = Some (str, t) \<and> cstr (bytes t) (c_str str t) xs \<and>
    (\<forall>x. unat x \<in> str_span a (length xs) \<or> bytes t x = bytes st x) \<and>
    (\<forall>b ys. spells t b ys \<longrightarrow> string_eq str b t = (xs = ys))"
proof -
  have n: "unat (of_nat (length xs) :: u64) = length xs" using cstr_length [OF assms(1)] by (simp add: unat_of_nat)
  obtain m where m: "string_assign s (of_nat (length xs)) empty_string st =
      Some (\<lparr>sdata = a, ssize = of_nat (length xs)\<rparr>,
        st\<lparr>block_answers := as, blocks := (blocks st)(a \<mapsto> of_nat (length xs) + 1), bytes := m\<rparr>)"
    "cstr m a xs" "\<And>x. unat x \<notin> str_span a (length xs) \<Longrightarrow> m x = bytes st x"
    by (rule string_assign_ok [OF assms(1,2) n assms(4-8)]) (rule that)
  let ?str = "\<lparr>sdata = a, ssize = of_nat (length xs)\<rparr>"
    and ?t = "st\<lparr>block_answers := as, blocks := (blocks st)(a \<mapsto> of_nat (length xs) + 1), bytes := m\<rparr>"
  have "spells ?t ?str xs" using m(2) assms(2,5) n by (simp add: spells_def c_str_def)
  moreover have "string_of_cstr s st = Some (?str, ?t)" using m(1) assms(3) strlen_cstr [OF assms(1)] by (simp add: string_of_cstr_def)
  ultimately show ?thesis using m(2,3) assms(5) string_eq_spells [of ?t ?str xs]
    by (intro exI [of _ ?str] exI [of _ ?t]) (auto simp: c_str_def)
qed

definition demo_heap_bytes :: byte_heap where
  "demo_heap_bytes = \<lparr>bytes = demo_strings, blocks = Map.empty, block_answers = [64], empty_literal = 0\<rparr>"

theorem string_roundtrip_witness:
  "\<exists>str t. string_of_cstr 16 demo_heap_bytes = Some (str, t) \<and> cstr (bytes t) (c_str str t) [97, 98, 97]"
  using string_roundtrip [of demo_heap_bytes 16 "[97, 98, 97]" 64 "[]"] demo_cstrs(1)
  by (auto simp: demo_heap_bytes_def str_span_def)

end
