(* ===== verification/Clock_Init.thy ===== *)
theory Clock_Init
  imports Clock
begin

text \<open>
  What \<open>clocksource::init\<close> brings up: the sources the machine has, in the order of the code, and
  among them the one with the highest rating.
\<close>

section \<open>Registering a source\<close>

definition tsc_usable :: "u64 option \<Rightarrow> bool" where
  "tsc_usable response \<longleftrightarrow> (\<exists>f. response = Some f \<and> (ucast f :: u32) \<noteq> 0)"

definition hpet_usable :: "(bool \<times> u64) option \<Rightarrow> u64 \<Rightarrow> 'a clock_scheme \<Rightarrow> bool" where
  "hpet_usable found slide s \<longleftrightarrow> (\<exists>phys. found = Some (True, phys) \<and> hpet_period_fs (phys + slide) s \<noteq> 0)"

definition pm_usable :: "(u32 \<times> u8) option \<Rightarrow> bool" where
  "pm_usable fadt \<longleftrightarrow> (\<exists>blk w. fadt = Some (blk, w) \<and> (ucast blk :: u16) \<noteq> 0)"

text \<open>The object \<open>a\<close> was made a source of the given rating and class.\<close>

definition registered :: "u32 \<Rightarrow> source_class \<Rightarrow> u64 \<Rightarrow> 'a clock_scheme \<Rightarrow> 'a clock_scheme \<Rightarrow> bool" where
  "registered r k a s t \<longleftrightarrow>
     (\<exists>c. objects t = (objects s)(a \<mapsto> c) \<and> rating c = r \<and> source_kind c = k \<and> cs_shift c = 32) \<and>
     elems (sources t) = elems (sources s) @ [a] \<and> object_answers s = a # object_answers t \<and> best t = best s \<and>
     (\<forall>n. table_able (Suc n) (sources s) \<longrightarrow> table_able n (sources t))"

lemma compute_ms_some:
  assumes "f \<noteq> 0" obtains ms where "compute_ms f 0 = Some ms" "ms_shift ms = 32"
  using compute_ms_mult [OF assms] by metis

lemma push_source:
  assumes "table_able (Suc n) (sources s)"
  obtains t where "push_table a (sources s) = Some t" "elems t = elems (sources s) @ [a]"
    "\<And>m. table_able (Suc m) (sources s) \<Longrightarrow> table_able m t"
proof -
  obtain t where t: "push_table a (sources s) = Some t" "elems t = elems (sources s) @ [a]"
    using tab.push_ok [OF assms] by blast
  have "table_able m t" if "table_able (Suc m) (sources s)" for m
    using tab.push_ok [OF that, of a] t(1) by auto
  then show ?thesis using that t by blast
qed

lemma registered_new:
  assumes "object_answers s = a # as" "table_able (Suc n) (sources s)" "cs_shift c = 32"
  obtains t where "push_table a (sources s) = Some t"
    "\<And>m. registered (rating c) (source_kind c) a s
       (s\<lparr>object_answers := as, objects := (objects s)(a \<mapsto> c), mmio := m, sources := t\<rparr>)"
proof -
  obtain t where t: "push_table a (sources s) = Some t" "elems t = elems (sources s) @ [a]"
    "\<And>m. table_able (Suc m) (sources s) \<Longrightarrow> table_able m t"
    by (rule push_source [OF assms(2)]) (rule that)
  have c: "\<exists>ca. (objects s)(a \<mapsto> c) = (objects s)(a \<mapsto> ca) \<and> rating ca = rating c \<and> source_kind ca = source_kind c \<and> cs_shift ca = 32"
    using assms(3) by blast
  show ?thesis by (rule that [OF t(1)]) (use t(2,3) assms(1) c in \<open>simp add: registered_def\<close>)
qed

lemma same_mmio: "(s :: 'a clock_scheme)\<lparr>object_answers := as, objects := ob, sources := t\<rparr> =
  s\<lparr>object_answers := as, objects := ob, mmio := mmio s, sources := t\<rparr>"
  by simp

lemma tsc_registers:
  assumes "tsc_usable response" "table_able (Suc n) (sources s)" "object_answers s = a # as" "a \<noteq> 0"
  obtains t where "tsc_init response s = Some t" "registered 300 TscClocksource a s t" "mmio t = mmio s"
proof -
  obtain f where f: "response = Some f" "(ucast f :: u32) \<noteq> 0" using assms(1) by (auto simp: tsc_usable_def)
  obtain ms where ms: "compute_ms (ucast f) 0 = Some ms" "ms_shift ms = 32" by (rule compute_ms_some [OF f(2)])
  let ?c = "Clocksource ''tsc'' 300 0xFFFFFFFFFFFFFFFF ms (FLAG_CONTINUOUS OR FLAG_HIGH_RES) TscClocksource"
  have c: "cs_shift ?c = 32" "rating ?c = 300" "source_kind ?c = TscClocksource" using ms(2) by (simp_all add: Clocksource_def)
  obtain t where t: "push_table a (sources s) = Some t"
    "\<And>m. registered (rating ?c) (source_kind ?c) a s (s\<lparr>object_answers := as, objects := (objects s)(a \<mapsto> ?c), mmio := m, sources := t\<rparr>)"
    by (rule registered_new [OF assms(3,2) c(1)]) (rule that)
  have run: "tsc_init response s = Some (s\<lparr>object_answers := as, objects := (objects s)(a \<mapsto> ?c), sources := t\<rparr>)"
    using f ms t(1) assms(3,4) by (simp add: tsc_init_def new_source_def register_clocksource_def)
  show ?thesis by (rule that [OF run]) (use t(2) [of "mmio s"] c in \<open>simp_all only: same_mmio\<close>, simp)
qed

lemma hpet_registers:
  assumes "hpet_usable found slide s" "table_able (Suc n) (sources s)" "object_answers s = a # as" "a \<noteq> 0"
    and "(ucast (HPET_FEMTOSEC_PER_SEC div ucast (hpet_period_fs (snd (the found) + slide) s)) :: u32) \<noteq> 0"
  obtains t where "hpet_init found slide s = Some t" "registered 200 (HpetClocksource (snd (the found) + slide)) a s t"
proof -
  obtain phys where f: "found = Some (True, phys)" "hpet_period_fs (phys + slide) s \<noteq> 0" using assms(1) by (auto simp: hpet_usable_def)
  have "(ucast (HPET_FEMTOSEC_PER_SEC div ucast (hpet_period_fs (phys + slide) s)) :: u32) \<noteq> 0" using assms(5) f(1) by simp
  then obtain ms where ms: "compute_ms (ucast (HPET_FEMTOSEC_PER_SEC div ucast (hpet_period_fs (phys + slide) s))) 0 = Some ms"
    "ms_shift ms = 32"
    by (rule compute_ms_some)
  let ?c = "Clocksource ''hpet'' 200 0xFFFFFFFF ms FLAG_CONTINUOUS (HpetClocksource (phys + slide))"
  have c: "cs_shift ?c = 32" "rating ?c = 200" "source_kind ?c = HpetClocksource (phys + slide)"
    using ms(2) by (simp_all add: Clocksource_def)
  obtain t where t: "push_table a (sources s) = Some t"
    "\<And>m. registered (rating ?c) (source_kind ?c) a s (s\<lparr>object_answers := as, objects := (objects s)(a \<mapsto> ?c), mmio := m, sources := t\<rparr>)"
    by (rule registered_new [OF assms(3,2) c(1)]) (rule that)
  let ?m = "mmio (hpet_enable (phys + slide) s)"
  have run: "hpet_init found slide s = Some (s\<lparr>object_answers := as, objects := (objects s)(a \<mapsto> ?c), mmio := ?m, sources := t\<rparr>)"
    using f ms t(1) assms(3,4)
    by (simp add: hpet_init_def Let_def new_source_def register_clocksource_def hpet_enable_def hpet_reg_def)
  show ?thesis by (rule that [OF run]) (use t(2) [of ?m] c(2,3) f(1) in simp)
qed

lemma pm_registers:
  assumes "pm_usable fadt" "table_able (Suc n) (sources s)" "object_answers s = a # as" "a \<noteq> 0"
  obtains t where "acpi_pm_init fadt s = Some t" "registered 100 (AcpiPmClocksource (ucast (fst (the fadt)))) a s t"
proof -
  obtain blk w where f: "fadt = Some (blk, w)" "(ucast blk :: u16) \<noteq> 0" using assms(1) by (auto simp: pm_usable_def)
  have "ACPI_PM_FREQ_HZ \<noteq> 0" by (simp add: ACPI_PM_FREQ_HZ_def)
  then obtain ms where ms: "compute_ms ACPI_PM_FREQ_HZ 0 = Some ms" "ms_shift ms = 32" by (rule compute_ms_some)
  let ?c = "Clocksource ''acpi_pm'' 100 (if w = 4 then 0xFFFFFFFF else 0xFFFFFF) ms FLAG_NONE (AcpiPmClocksource (ucast blk))"
  have c: "cs_shift ?c = 32" "rating ?c = 100" "source_kind ?c = AcpiPmClocksource (ucast blk)"
    using ms(2) by (simp_all add: Clocksource_def)
  obtain t where t: "push_table a (sources s) = Some t"
    "\<And>m. registered (rating ?c) (source_kind ?c) a s (s\<lparr>object_answers := as, objects := (objects s)(a \<mapsto> ?c), mmio := m, sources := t\<rparr>)"
    by (rule registered_new [OF assms(3,2) c(1)]) (rule that)
  have run: "acpi_pm_init fadt s = Some (s\<lparr>object_answers := as, objects := (objects s)(a \<mapsto> ?c), sources := t\<rparr>)"
    using f ms t(1) assms(3,4) by (simp add: acpi_pm_init_def Let_def new_source_def register_clocksource_def)
  show ?thesis by (rule that [OF run]) (use t(2) [of "mmio s"] c(2,3) f(1) in \<open>simp only: same_mmio fst_conv option.sel\<close>)
qed

lemma not_usable:
  "\<not> tsc_usable response \<Longrightarrow> tsc_init response s = Some s"
  "\<not> hpet_usable found slide s \<Longrightarrow> hpet_init found slide s = Some s"
  "\<not> pm_usable fadt \<Longrightarrow> acpi_pm_init fadt s = Some s"
  by (auto simp: tsc_usable_def hpet_usable_def pm_usable_def tsc_init_def hpet_init_def acpi_pm_init_def Let_def
      split: option.splits prod.splits)

section \<open>The winner\<close>

text \<open>The first source has the highest rating, and its address is handed out no more.\<close>

definition leads :: "'a clock_scheme \<Rightarrow> u64 \<Rightarrow> clocksource \<Rightarrow> bool" where
  "leads s w cw \<longleftrightarrow> (\<exists>cs. elems (sources s) = w # cs \<and> objects s w = Some cw \<and> w \<notin> set (object_answers s) \<and>
     (\<forall>c\<in>set cs. \<exists>ob. objects s c = Some ob \<and> rating ob \<le> rating cw))"

lemma leads_first:
  assumes "registered r k a s t" "elems (sources s) = []" "distinct (object_answers s)"
  obtains cw where "leads t a cw" "source_kind cw = k" "rating cw = r" "cs_shift cw = 32"
  using assms by (auto simp: registered_def leads_def)

lemma leads_more:
  assumes "leads s w cw" "registered r k x s t" "r \<le> rating cw"
  shows "leads t w cw"
proof -
  obtain cs where cs: "elems (sources s) = w # cs" "objects s w = Some cw" "w \<notin> set (object_answers s)"
    "\<forall>c\<in>set cs. \<exists>ob. objects s c = Some ob \<and> rating ob \<le> rating cw"
    using assms(1) unfolding leads_def by blast
  obtain c where c: "objects t = (objects s)(x \<mapsto> c)" "rating c = r" "elems (sources t) = elems (sources s) @ [x]"
    "object_answers s = x # object_answers t"
    using assms(2) unfolding registered_def by blast
  show ?thesis unfolding leads_def by (rule exI [of _ "cs @ [x]"]) (use cs c assms(3) in auto)
qed

lemma leads_wins:
  assumes "leads s w cw"
  shows "(case elems (sources s) of [] \<Rightarrow> Some s
    | c # cs \<Rightarrow> do { v \<leftarrow> select_winner (objects s) cs c; Some (s\<lparr>best := v\<rparr>) }) = Some (s\<lparr>best := w\<rparr>)"
proof -
  have "select_winner ob cs w = Some w"
    if "ob w = Some cw" "\<forall>c\<in>set cs. \<exists>x. ob c = Some x \<and> rating x \<le> rating cw" for ob cs
    using that by (induction cs) (auto simp: not_less)
  then show ?thesis using assms by (auto simp: leads_def)
qed

lemma later_steps:
  assumes "leads s w cw" "hpet_usable found slide s \<Longrightarrow> 200 \<le> rating cw" "100 \<le> rating cw"
    and "table_able 2 (sources s)" "object_answers s = x # y # as" "x \<noteq> 0" "y \<noteq> 0"
    and "hpet_usable found slide s \<Longrightarrow>
      (ucast (HPET_FEMTOSEC_PER_SEC div ucast (hpet_period_fs (snd (the found) + slide) s)) :: u32) \<noteq> 0"
  obtains t u where "hpet_init found slide s = Some t" "acpi_pm_init fadt t = Some u" "leads u w cw"
proof -
  have t2: "table_able (Suc 1) (sources s)" using assms(4) by (simp add: numeral_2_eq_2)
  obtain t z zs where t: "hpet_init found slide s = Some t" "leads t w cw" "table_able (Suc 0) (sources t)"
    "object_answers t = z # zs" "z \<noteq> 0"
  proof (cases "hpet_usable found slide s")
    case True
    obtain t where t: "hpet_init found slide s = Some t" "registered 200 (HpetClocksource (snd (the found) + slide)) x s t"
      by (rule hpet_registers [OF True t2 assms(5,6) assms(8) [OF True]]) (rule that)
    have pre: "table_able (Suc 0) (sources t)" "object_answers t = y # as"
      using t(2) t2 assms(5) by (auto simp: registered_def)
    show ?thesis by (rule that [OF t(1) leads_more [OF assms(1) t(2) assms(2) [OF True]] pre assms(7)])
  next
    case False
    show ?thesis
      by (rule that [OF not_usable(2) [OF False] assms(1) table_able_mono [OF t2] assms(5,6)]) simp
  qed
  show ?thesis
  proof (cases "pm_usable fadt")
    case True
    obtain u where u: "acpi_pm_init fadt t = Some u" "registered 100 (AcpiPmClocksource (ucast (fst (the fadt)))) z t u"
      by (rule pm_registers [OF True t(3-5)]) (rule that)
    show ?thesis by (rule that [OF t(1) u(1) leads_more [OF t(2) u(2) assms(3)]])
  next
    case False
    show ?thesis by (rule that [OF t(1) not_usable(3) [OF False] t(2)])
  qed
qed

section \<open>The selected clock\<close>

definition best_class ::
  "u64 option \<Rightarrow> (bool \<times> u64) option \<Rightarrow> (u32 \<times> u8) option \<Rightarrow> u64 \<Rightarrow> 'a clock_scheme \<Rightarrow> source_class option" where
  "best_class response found fadt slide s =
     (if tsc_usable response then Some TscClocksource
      else if hpet_usable found slide s then Some (HpetClocksource (snd (the found) + slide))
      else if pm_usable fadt then Some (AcpiPmClocksource (ucast (fst (the fadt))))
      else None)"

text \<open>
  C33: initialising the clocks returns and selects the time stamp counter if the bootloader knows its
  frequency, else the HPET if the firmware has one in system memory that runs, else the ACPI timer if
  there is one; then time stamps can be read. Without any of them nothing is selected.
\<close>

theorem clock_init_selects:
  assumes "table_able 3 (sources s)" "elems (sources s) = []" "object_answers s = x # y # z # as"
    "distinct (object_answers s)" "0 \<notin> {x, y, z}"
    and "hpet_usable found slide s \<Longrightarrow>
      (ucast (HPET_FEMTOSEC_PER_SEC div ucast (hpet_period_fs (snd (the found) + slide) s)) :: u32) \<noteq> 0"
  shows "\<exists>t. clock_init response found fadt slide s = Some t \<and>
    (case best_class response found fadt slide s of
       None \<Rightarrow> t = s
     | Some k \<Rightarrow> \<exists>cs. objects t (best t) = Some cs \<and> source_kind cs = k \<and> ktime_now t \<noteq> None)"
proof -
  have t3: "table_able (Suc 2) (sources s)" "table_able (Suc 0) (sources s)" "table_able (Suc 1) (sources s)"
    using assms(1) table_able_mono [of 3 "sources s"] by (simp_all add: numeral_3_eq_3)
  have nz: "x \<noteq> 0" "y \<noteq> 0" "z \<noteq> 0" using assms(5) by auto
  have now: "ktime_now (u\<lparr>best := w\<rparr>) \<noteq> None" "objects (u\<lparr>best := w\<rparr>) (best (u\<lparr>best := w\<rparr>)) = Some cw"
    if "leads u w cw" "cs_shift cw = 32" for u :: "'a clock_scheme" and w cw
    using that by (auto simp: leads_def ktime_now_def get_best_def from_cycles_def cycles_to_ns_def split: prod.splits)
  have period: "hpet_usable found slide v = hpet_usable found slide s" "hpet_period_fs b v = hpet_period_fs b s"
    if "mmio v = mmio s" for v :: "'a clock_scheme" and b
    using that by (simp_all add: hpet_usable_def hpet_period_fs_def)
  consider (tsc) "tsc_usable response" | (hpet) "\<not> tsc_usable response" "hpet_usable found slide s"
    | (pm) "\<not> tsc_usable response" "\<not> hpet_usable found slide s" "pm_usable fadt"
    | (none) "\<not> tsc_usable response" "\<not> hpet_usable found slide s" "\<not> pm_usable fadt" by blast
  then show ?thesis
  proof cases
    case tsc
    obtain v where v: "tsc_init response s = Some v" "registered 300 TscClocksource x s v" "mmio v = mmio s"
      by (rule tsc_registers [OF tsc t3(1) assms(3) nz(1)]) (rule that)
    obtain cw where cw: "leads v x cw" "source_kind cw = TscClocksource" "rating cw = 300" "cs_shift cw = 32"
      by (rule leads_first [OF v(2) assms(2,4)]) (rule that)
    have pre: "table_able 2 (sources v)" "object_answers v = y # z # as"
      using v(2) t3(1) assms(3) by (auto simp: registered_def)
    have le: "200 \<le> rating cw" "100 \<le> rating cw" by (simp_all add: cw(3))
    have f: "(ucast (HPET_FEMTOSEC_PER_SEC div ucast (hpet_period_fs (snd (the found) + slide) v)) :: u32) \<noteq> 0"
      if "hpet_usable found slide v"
      using that assms(6) unfolding period [OF v(3)] by blast
    obtain t u where u: "hpet_init found slide v = Some t" "acpi_pm_init fadt t = Some u" "leads u x cw"
      by (rule later_steps [OF cw(1) le(1,2) pre nz(2,3) f]) (assumption, rule that)
    then have "clock_init response found fadt slide s = Some (u\<lparr>best := x\<rparr>)"
      using v(1) leads_wins [OF u(3)] by (simp add: clock_init_def)
    then show ?thesis using tsc now [OF u(3) cw(4)] cw(2) by (auto simp: best_class_def)
  next
    case hpet
    obtain v where v: "hpet_init found slide s = Some v" "registered 200 (HpetClocksource (snd (the found) + slide)) x s v"
      by (rule hpet_registers [OF hpet(2) t3(1) assms(3) nz(1) assms(6) [OF hpet(2)]]) (rule that)
    obtain cw where cw: "leads v x cw" "source_kind cw = HpetClocksource (snd (the found) + slide)" "rating cw = 200" "cs_shift cw = 32"
      by (rule leads_first [OF v(2) assms(2,4)]) (rule that)
    have pre: "table_able (Suc 0) (sources v)" "object_answers v = y # z # as"
      using v(2) t3(3) assms(3) by (auto simp: registered_def)
    obtain u where u: "acpi_pm_init fadt v = Some u" "leads u x cw"
    proof (cases "pm_usable fadt")
      case True
      obtain u where u: "acpi_pm_init fadt v = Some u" "registered 100 (AcpiPmClocksource (ucast (fst (the fadt)))) y v u"
        by (rule pm_registers [OF True pre nz(2)]) (rule that)
      show ?thesis by (rule that [OF u(1) leads_more [OF cw(1) u(2)]]) (simp add: cw(3))
    next
      case False
      show ?thesis by (rule that [OF not_usable(3) [OF False] cw(1)])
    qed
    have "clock_init response found fadt slide s = Some (u\<lparr>best := x\<rparr>)"
      using not_usable(1) [OF hpet(1), of s] v(1) u(1) leads_wins [OF u(2)] by (simp add: clock_init_def)
    then show ?thesis using hpet now [OF u(2) cw(4)] cw(2) by (auto simp: best_class_def)
  next
    case pm
    obtain u where u: "acpi_pm_init fadt s = Some u" "registered 100 (AcpiPmClocksource (ucast (fst (the fadt)))) x s u"
      by (rule pm_registers [OF pm(3) t3(2) assms(3) nz(1)]) (rule that)
    obtain cw where cw: "leads u x cw" "source_kind cw = AcpiPmClocksource (ucast (fst (the fadt)))" "rating cw = 100" "cs_shift cw = 32"
      by (rule leads_first [OF u(2) assms(2,4)]) (rule that)
    have "clock_init response found fadt slide s = Some (u\<lparr>best := x\<rparr>)"
      using not_usable(1) [OF pm(1), of s] not_usable(2) [OF pm(2)] u(1) leads_wins [OF cw(1)] by (simp add: clock_init_def)
    then show ?thesis using pm now [OF cw(1,4)] cw(2) by (auto simp: best_class_def)
  next
    case none
    then show ?thesis using not_usable(1) [OF none(1), of s] not_usable(2) [OF none(2)] not_usable(3) [OF none(3), of s] assms(2)
      by (simp add: clock_init_def best_class_def)
  qed
qed

text \<open>A machine without a time stamp counter, but with both of the other clocks.\<close>

definition demo_clock :: clock where
  "demo_clock = \<lparr>history = [], device = (\<lambda>_. 0), tsc = 0, mmio = (\<lambda>_. 0x5F5E100), objects = Map.empty,
     object_answers = [0x1000, 0x2000, 0x3000],
     sources = (empty_vector, \<lparr>bufs = Map.empty, answers = [0x4000, 0x5000, 0x6000], elem_size = 8\<rparr>), best = 0\<rparr>"

theorem clock_init_selects_witness:
  "\<exists>t cs. clock_init None (Some (True, 0xFED00000)) (Some (0x608, 4)) 0xFFFF800000000000 demo_clock = Some t \<and>
     objects t (best t) = Some cs \<and> source_kind cs = HpetClocksource 0xFFFF8000FED00000"
proof -
  have t: "table_able 3 (sources demo_clock)"
    by (simp add: table_able_def demo_clock_def elems_def empty_vector_def holds_def stocked_def room_def)
  have e: "elems (sources demo_clock) = []" by (simp add: demo_clock_def elems_def)
  have a: "object_answers demo_clock = 0x1000 # 0x2000 # 0x3000 # []" "distinct (object_answers demo_clock)"
    "0 \<notin> {0x1000, 0x2000, 0x3000 :: u64}"
    by (simp_all add: demo_clock_def)
  have h: "hpet_period_fs b demo_clock = 0x5F5E100" for b by (simp add: hpet_period_fs_def demo_clock_def)
  have f: "(ucast (HPET_FEMTOSEC_PER_SEC div ucast (hpet_period_fs (snd (the (Some (True, 0xFED00000))) + 0xFFFF800000000000) demo_clock)) :: u32) \<noteq> 0"
    unfolding h by (simp add: HPET_FEMTOSEC_PER_SEC_def)
  have "best_class None (Some (True, 0xFED00000)) (Some (0x608, 4)) 0xFFFF800000000000 demo_clock = Some (HpetClocksource 0xFFFF8000FED00000)"
    by (simp add: best_class_def tsc_usable_def hpet_usable_def h)
  then show ?thesis
    using clock_init_selects [OF t e a f, where response = None and fadt = "Some (0x608, 4)"] by auto
qed

end
