(* ===== verification/Uacpi_Props.thy ===== *)
theory Uacpi_Props
  imports Uacpi
begin

text \<open>
  The locks that the glue lends to the ACPI interpreter, against an abstract specification: a set of
  handles that are held.
\<close>

section \<open>Sequences of lock calls\<close>

datatype lock_call = Acquire u64 u16 | Release u64 | Lock u64 | Unlock u64 u64

fun handle_of :: "lock_call \<Rightarrow> u64" where
  "handle_of (Acquire h timeout) = h"
| "handle_of (Release h) = h"
| "handle_of (Lock h) = h"
| "handle_of (Unlock h flags) = h"

fun glue_call :: "lock_call \<Rightarrow> 'a glue_scheme \<Rightarrow> 'a glue_scheme option" where
  "glue_call (Acquire h timeout) s = map_option snd (uacpi_kernel_acquire_mutex h timeout s)"
| "glue_call (Release h) s = uacpi_kernel_release_mutex h s"
| "glue_call (Lock h) s = map_option snd (uacpi_kernel_lock_spinlock h s)"
| "glue_call (Unlock h flags) s = uacpi_kernel_unlock_spinlock h flags s"

text \<open>The specification: taking a lock that is held does not come back.\<close>

fun held_call :: "lock_call \<Rightarrow> u64 set \<Rightarrow> u64 set option" where
  "held_call (Acquire h timeout) H = (if h \<in> H then None else Some (insert h H))"
| "held_call (Release h) H = Some (H - {h})"
| "held_call (Lock h) H = (if h \<in> H then None else Some (insert h H))"
| "held_call (Unlock h flags) H = Some (H - {h})"

fun run_calls :: "(lock_call \<Rightarrow> 's \<Rightarrow> 's option) \<Rightarrow> lock_call list \<Rightarrow> 's \<Rightarrow> 's option" where
  "run_calls f [] s = Some s"
| "run_calls f (c # cs) s = do { s \<leftarrow> f c s; run_calls f cs s }"

definition held :: "'a glue_scheme \<Rightarrow> u64 set" where
  "held s = {h. locks s h = Some True}"

section \<open>The simulation\<close>

lemma glue_call_held:
  assumes "locks s (handle_of c) = Some b"
  shows "map_option held (glue_call c s) = held_call c (held s)"
    "glue_call c s = Some t \<Longrightarrow> t = s\<lparr>locks := locks t\<rparr> \<and> dom (locks t) = dom (locks s)"
proof -
  show "map_option held (glue_call c s) = held_call c (held s)"
    using assms
    by (cases c; cases b)
       (auto simp: uacpi_kernel_acquire_mutex_def uacpi_kernel_release_mutex_def uacpi_kernel_lock_spinlock_def
         uacpi_kernel_unlock_spinlock_def lock_handle_def unlock_handle_def spin_lock_def spin_unlock_def held_def)
  show "t = s\<lparr>locks := locks t\<rparr> \<and> dom (locks t) = dom (locks s)" if "glue_call c s = Some t"
    using that assms
    by (cases c; cases b)
       (auto simp: uacpi_kernel_acquire_mutex_def uacpi_kernel_release_mutex_def uacpi_kernel_lock_spinlock_def
         uacpi_kernel_unlock_spinlock_def lock_handle_def unlock_handle_def spin_lock_def spin_unlock_def
         split: if_splits)
qed

text \<open>
  C31: any sequence of calls on the mutexes and spinlocks that the glue has made does to them what
  the specification says: it comes back exactly when no lock is taken while it is held, whatever
  the timeouts, and then exactly the locks taken and not given back are held; no call changes
  anything else.
\<close>

theorem uacpi_locks_refine:
  assumes "\<forall>c\<in>set cs. handle_of c \<in> dom (locks s)"
  shows "map_option held (run_calls glue_call cs s) = run_calls held_call cs (held s) \<and>
    (\<forall>t. run_calls glue_call cs s = Some t \<longrightarrow> t = s\<lparr>locks := locks t\<rparr>)"
  using assms
proof (induction cs arbitrary: s)
  case (Cons c cs)
  obtain b where b: "locks s (handle_of c) = Some b" using Cons.prems by auto
  note g = glue_call_held [OF b]
  show ?case
  proof (cases "glue_call c s")
    case None
    then show ?thesis using g(1) by simp
  next
    case (Some t)
    note t = g(2) [OF Some]
    have "\<forall>c\<in>set cs. handle_of c \<in> dom (locks t)" using Cons.prems t by simp
    note IH = Cons.IH [OF this]
    have "held_call c (held s) = Some (held t)" using g(1) Some by simp
    moreover have "u = s\<lparr>locks := locks u\<rparr>" if "run_calls glue_call cs t = Some u" for u
    proof -
      obtain l where l: "t = s\<lparr>locks := l\<rparr>" using t by blast
      have "u = t\<lparr>locks := locks u\<rparr>" using IH that by blast
      then show ?thesis unfolding l by simp
    qed
    ultimately show ?thesis using IH Some by simp
  qed
qed simp

theorem uacpi_locks_refine_witness:
  "map_option held (run_calls glue_call [Acquire 8 0, Lock 16, Release 8, Acquire 8 5]
     \<lparr>history = [], device = (\<lambda>_. 0), memory_slide = 0, rsdp_address = 0, io_maps = Map.empty,
      locks = [8 \<mapsto> False, 16 \<mapsto> False], handle_answers = []\<rparr>) = Some {8, 16}"
  using uacpi_locks_refine [of "[Acquire 8 0, Lock 16, Release 8, Acquire 8 5]"
    "\<lparr>history = [], device = (\<lambda>_. 0), memory_slide = 0, rsdp_address = 0, io_maps = Map.empty,
      locks = [8 \<mapsto> False, 16 \<mapsto> False], handle_answers = []\<rparr>"]
  by (simp add: held_def) (auto split: if_splits)

end
