(* ===== verification/Dl_Duff.thy ===== *)
theory Dl_Duff
  imports Dl_Calloc_Ok
begin

text \<open>
  The macros that \<open>malloc.c\<close> clears and copies with when it is built without \<open>memset\<close> and
  \<open>memcpy\<close> (\<open>USE_MEMCPY\<close> 0): unrolled loops that are entered in the middle.
\<close>

section \<open>Definitions\<close>

text \<open>
  The \<open>switch\<close> enters the loop at the label \<open>mctmp\<close>, with that many stores left in this round
  (eight at the label 0); \<open>mcn\<close> rounds of eight stores follow.
\<close>

definition stores_from :: "nat \<Rightarrow> nat" where
  "stores_from label = (if label = 0 then 8 else label)"

fun zero_rounds :: "u64 \<Rightarrow> nat \<Rightarrow> nat \<Rightarrow> 'a machine_scheme \<Rightarrow> 'a machine_scheme" where
  "zero_rounds mzp label 0 s = zero_words mzp (stores_from label) s"
| "zero_rounds mzp label (Suc mcn) s =
     zero_rounds (mzp + of_nat (8 * stores_from label)) 0 mcn (zero_words mzp (stores_from label) s)"

definition MALLOC_ZERO_duff :: "u64 \<Rightarrow> u64 \<Rightarrow> 'a machine_scheme \<Rightarrow> 'a machine_scheme" where
  "MALLOC_ZERO_duff mzp nbytes s =
     (let mctmp = unat (nbytes div 8) in
      if mctmp < 8 then zero_rounds mzp mctmp 0 s
      else zero_rounds mzp (mctmp mod 8) ((mctmp - 1) div 8) s)"

fun copy_rounds :: "u64 \<Rightarrow> u64 \<Rightarrow> nat \<Rightarrow> nat \<Rightarrow> 'a machine_scheme \<Rightarrow> 'a machine_scheme" where
  "copy_rounds mcdst mcsrc label 0 s = copy_words mcdst mcsrc (stores_from label) s"
| "copy_rounds mcdst mcsrc label (Suc mcn) s =
     copy_rounds (mcdst + of_nat (8 * stores_from label)) (mcsrc + of_nat (8 * stores_from label)) 0 mcn
       (copy_words mcdst mcsrc (stores_from label) s)"

definition MALLOC_COPY_duff :: "u64 \<Rightarrow> u64 \<Rightarrow> u64 \<Rightarrow> 'a machine_scheme \<Rightarrow> 'a machine_scheme" where
  "MALLOC_COPY_duff mcdst mcsrc nbytes s =
     (let mctmp = unat (nbytes div 8) in
      if mctmp < 8 then copy_rounds mcdst mcsrc mctmp 0 s
      else copy_rounds mcdst mcsrc (mctmp mod 8) ((mctmp - 1) div 8) s)"

section \<open>All rounds together\<close>

lemma stores_from_0: "stores_from 0 = 8"
  by (simp add: stores_from_def)

lemma zero_rounds_all: "zero_rounds d l m s = zero_words d (stores_from l + 8 * m) s"
proof (induction m arbitrary: d l s)
  case (Suc m)
  have "zero_rounds d l (Suc m) s = zero_words (d + of_nat (8 * stores_from l)) (8 + 8 * m) (zero_words d (stores_from l) s)"
    by (simp only: zero_rounds.simps Suc.IH stores_from_0)
  also have "\<dots> = zero_words d (stores_from l + (8 + 8 * m)) s" by (rule zero_words_append)
  finally show ?case by (simp only: mult_Suc_right)
qed simp

lemma copy_rounds_all: "copy_rounds d src l m s = copy_words d src (stores_from l + 8 * m) s"
proof (induction m arbitrary: d src l s)
  case (Suc m)
  let ?o = "of_nat (8 * stores_from l)"
  have "copy_rounds d src l (Suc m) s = copy_words (d + ?o) (src + ?o) (8 + 8 * m) (copy_words d src (stores_from l) s)"
    by (simp only: copy_rounds.simps Suc.IH stores_from_0)
  also have "\<dots> = copy_words d src (stores_from l + (8 + 8 * m)) s" by (rule copy_words_append)
  finally show ?case by (simp only: mult_Suc_right)
qed simp

lemma rounds_count:
  assumes "0 < n"
  shows "n < 8 \<Longrightarrow> stores_from n = n" "8 \<le> n \<Longrightarrow> stores_from (n mod 8) + 8 * ((n - 1) div 8) = n"
proof -
  show "n < 8 \<Longrightarrow> stores_from n = n" using assms by (simp add: stores_from_def)
  assume "8 \<le> n"
  define q r where "q = n div 8" and "r = n mod 8"
  have n: "n = 8 * q + r" "r < 8" by (simp_all add: q_def r_def)
  have "(8 * q + r - 1) div 8 = (if r = 0 then q - 1 else q)"
  proof (cases "r = 0")
    case True
    then have "8 * q + r - 1 = 7 + (q - 1) * 8" using n \<open>8 \<le> n\<close> by (cases q) simp_all
    then show ?thesis using True by (simp only: div_mult_self1) simp
  next
    case False
    then have "8 * q + r - 1 = (r - 1) + q * 8" by simp
    then show ?thesis using False n(2) by (simp only: div_mult_self1) simp
  qed
  then show "stores_from (n mod 8) + 8 * ((n - 1) div 8) = n"
    using n \<open>8 \<le> n\<close> by (auto simp: stores_from_def r_def [symmetric])
qed

text \<open>
  C27: The unrolled loops that the macros use without \<open>memset\<close> and \<open>memcpy\<close> do the same as
  these, for every positive number of whole words: which of the two the allocator is built with
  makes no difference to \<open>cALLOc\<close> and \<open>rEALLOc\<close>, which call them for ten words and more.
\<close>

theorem duff_device:
  assumes "8 dvd unat n" "n \<noteq> 0"
  shows "MALLOC_ZERO_duff d n s = MALLOC_ZERO d n s \<and> MALLOC_COPY_duff d src n s = MALLOC_COPY d src n s"
proof -
  let ?k = "unat (n div 8)"
  have "0 < unat n" using assms(2) by (simp add: unat_gt_0)
  then have k: "0 < ?k" using assms(1) by (auto simp: unat_div elim!: dvdE)
  have r: "unat (n mod 8) = 0" using assms(1) by (simp add: unat_mod_distrib)
  note c = rounds_count [OF k]
  have "MALLOC_ZERO_duff d n s = zero_words d ?k s"
    by (cases "?k < 8") (simp_all add: MALLOC_ZERO_duff_def Let_def zero_rounds_all c [simplified])
  moreover have "MALLOC_COPY_duff d src n s = copy_words d src ?k s"
    by (cases "?k < 8") (simp_all add: MALLOC_COPY_duff_def Let_def copy_rounds_all c [simplified])
  ultimately show ?thesis using r by (simp add: MALLOC_ZERO_def MALLOC_COPY_def Let_def)
qed

theorem duff_device_witness: "MALLOC_ZERO_duff 0x1000 168 demo_system = MALLOC_ZERO 0x1000 168 demo_system"
  using duff_device [of 168 "0x1000" demo_system] by simp

text \<open>For no bytes at all the loop is entered at the label 0 and makes eight stores.\<close>

lemma duff_of_nothing: "MALLOC_ZERO_duff d 0 s = zero_words d 8 s"
  by (simp add: MALLOC_ZERO_duff_def zero_rounds_all stores_from_def)

end
